(* ===== verification/Prelude.thy ===== *)
theory Prelude
  imports Main "HOL-Library.Multiset" "HOL-Library.Word"
begin

text \<open>
  Shared vocabulary of the development: C++ exceptions as values, the result type of a
  fallible operation, the parent index of a binary heap stored in an array, and the generic
  facts on lists, options and updates that the component theories use through the collections
  declared here.
\<close>

named_theorems frame_simps "fields an operation leaves unchanged"
named_theorems op_defs "definitions of the operations of a component"
named_theorems cc_run "helpers of a continuation evaluated to record updates"

subsection \<open>Exceptions\<close>

text \<open>
  A \<open>std::exception_ptr\<close> is compared by identity (\<open>==\<close> on two pointers) and inspected by
  rethrowing it and matching its class. The model keeps both: \<open>exc_id\<close> is the identity of the
  exception object, \<open>exc_class\<close> the class a \<open>catch\<close> clause distinguishes. The null pointer is
  \<open>None\<close> in an \<open>exception_ptr option\<close>.
\<close>

datatype exc_class = CancellationException | TimeoutCancellationException | OrdinaryException

datatype exception_ptr = Exc (exc_id: nat) (exc_class: exc_class) (exc_what: string)

text \<open>
  How an operation ends other than by returning: a standard exception built in place or a stored
  one rethrown; a failed assertion or undefined behaviour, which no \<open>catch\<close> sees; or \<open>Spins\<close>, a
  loop that cannot leave its current state unless another thread changes it.
\<close>

datatype cpp_error =
    Logic_Error string
  | Runtime_Error string
  | Invalid_Argument string
  | Rethrown exception_ptr
  | Dispatch_Exception exception_ptr
  | Assertion_Failed
  | Undefined_Behaviour
  | Spins

type_synonym 'a res = "cpp_error + 'a"

text \<open>
  An operation that updates state of type \<open>'s\<close> and returns or throws: what it did to the state
  before throwing stays done. \<open>bind_e\<close> runs the second part only when the first returned.
\<close>

type_synonym ('s, 'a) exec = "'s \<Rightarrow> 'a res \<times> 's"

definition return_e :: "'a \<Rightarrow> ('s, 'a) exec" where
  "return_e x s = (Inr x, s)"

definition throw_e :: "cpp_error \<Rightarrow> ('s, 'a) exec" where
  "throw_e e s = (Inl e, s)"

definition modify_e :: "('s \<Rightarrow> 's) \<Rightarrow> ('s, unit) exec" where
  "modify_e f s = (Inr (), f s)"

definition bind_e :: "('s, 'a) exec \<Rightarrow> ('a \<Rightarrow> ('s, 'b) exec) \<Rightarrow> ('s, 'b) exec" where
  "bind_e m f s = (case m s of (Inl e, s') \<Rightarrow> (Inl e, s') | (Inr x, s') \<Rightarrow> f x s')"

definition seq_e :: "('s, unit) exec \<Rightarrow> ('s, 'b) exec \<Rightarrow> ('s, 'b) exec" where
  "seq_e m n = bind_e m (\<lambda>_. n)"

definition read_e :: "('s \<Rightarrow> ('s, 'b) exec) \<Rightarrow> ('s, 'b) exec" where
  "read_e f s = f s s"

text \<open>\<open>try m catch (...) handler\<close>.\<close>

definition catchable :: "cpp_error \<Rightarrow> bool" where
  "catchable e \<longleftrightarrow> e \<noteq> Assertion_Failed \<and> e \<noteq> Undefined_Behaviour \<and> e \<noteq> Spins"

definition catch_e :: "('s, 'a) exec \<Rightarrow> ('s, 'a) exec \<Rightarrow> ('s, 'a) exec" where
  "catch_e m handler s = (case m s of
     (Inl e, s') \<Rightarrow> if catchable e then handler s' else (Inl e, s')
   | (Inr x, s') \<Rightarrow> (Inr x, s'))"

lemmas exec_simps = return_e_def throw_e_def modify_e_def bind_e_def seq_e_def read_e_def

text \<open>\<open>std::rethrow_exception\<close> of a null pointer is undefined behaviour.\<close>

definition rethrow_e :: "exception_ptr option \<Rightarrow> ('s, 'a) exec" where
  "rethrow_e e = throw_e (case e of None \<Rightarrow> Undefined_Behaviour | Some x \<Rightarrow> Rethrown x)"

text \<open>\<open>Result<T>\<close>: a value or a possibly null exception pointer.\<close>

datatype 'v result = Success 'v | Failure "exception_ptr option"

definition exception_or_null :: "'v result \<Rightarrow> exception_ptr option" where
  "exception_or_null r = (case r of Success _ \<Rightarrow> None | Failure e \<Rightarrow> e)"

definition get_or_throw :: "'v result \<Rightarrow> ('s, 'v) exec" where
  "get_or_throw r = (case r of Success v \<Rightarrow> return_e v | Failure e \<Rightarrow> rethrow_e e)"

subsection \<open>Lists and options\<close>

lemma take_Suc_list_update [simp]:
  "n < length xs \<Longrightarrow> take (Suc n) (xs[n := x]) = take n xs @ [x]"
  by (simp add: take_Suc_conv_app_nth)

lemma set_take_nth: "n \<le> length xs \<Longrightarrow> set (take n xs) = {xs ! i |i. i < n}"
  by (force simp: in_set_conv_nth)

lemma Some_in_set_take:
  "n \<le> length xs \<Longrightarrow> Some p \<in> set (take n xs) \<longleftrightarrow> (\<exists>i<n. xs ! i = Some p)"
  by (force simp: set_take_nth)

lemma nth_swap_update:
  assumes "i < length xs" "j < length xs" "k < length xs"
  shows "xs[i := xs ! j, j := xs ! i] ! k = (if k = j then xs ! i else if k = i then xs ! j else xs ! k)"
  using assms by (auto simp: nth_list_update)

lemma length_filter_update:
  "i < length xs \<Longrightarrow> length (filter P (xs[i := x])) + of_bool (P (xs ! i)) = length (filter P xs) + of_bool (P x)"
proof (induction xs arbitrary: i)
  case (Cons y ys)
  then show ?case by (cases i) auto
qed simp

lemma sum_list_map_update:
  "i < length xs \<Longrightarrow> sum_list (map f (xs[i := x])) + f (xs ! i) = sum_list (map f xs) + (f x :: nat)"
proof (induction xs arbitrary: i)
  case (Cons y ys)
  then show ?case by (cases i) auto
qed simp

lemma mset_concat_update:
  "i < length xs \<Longrightarrow> mset (concat (map f (xs[i := x]))) + mset (f (xs ! i)) = mset (concat (map f xs)) + mset (f x)"
proof (induction xs arbitrary: i)
  case (Cons y ys)
  then show ?case
  proof (cases i)
    case (Suc j)
    then show ?thesis using Cons.IH [of j] Cons.prems by (simp add: add.assoc)
  qed (simp add: ac_simps)
qed simp

subsection \<open>Array heaps\<close>

abbreviation heap_parent :: "nat \<Rightarrow> nat" where
  "heap_parent i \<equiv> (i - 1) div 2"

lemma heap_parent_less: "0 < i \<Longrightarrow> heap_parent i < i"
  by (simp add: div_less_iff_less_mult)

lemma heap_parent_eq_iff: "0 < j \<Longrightarrow> heap_parent j = i \<longleftrightarrow> j = 2 * i + 1 \<or> j = 2 * i + 2"
  by arith

end
