(* ===== verification/Thread_Safe_Heap.thy ===== *)
theory Thread_Safe_Heap
  imports Prelude
begin

text \<open>
  The synchronized binary heap of \<open>internal/ThreadSafeHeap.hpp\<close>: nodes are compared by their
  key, stored by pointer in an array, and each node records the heap that holds it and its
  position. Every public operation runs under the heap's lock, so an operation is one step.
  A read outside the array or through a null pointer is undefined behaviour in the source; the
  operations return \<open>None\<close> there, and the theorems show that it is never reached from a heap
  in its invariant.
\<close>

record 'k heap_node =
  nkey :: 'k
  nheap :: "nat option"
  nindex :: int

record 'k ts_heap =
  self :: nat
  arr :: "nat option list"
  hsize :: nat
  nodes :: "nat \<Rightarrow> 'k heap_node"

subsection \<open>Operations\<close>

definition new_heap :: "nat \<Rightarrow> (nat \<Rightarrow> 'k heap_node) \<Rightarrow> 'k ts_heap" where
  "new_heap me mem = \<lparr>self = me, arr = [], hsize = 0, nodes = mem\<rparr>"

definition is_empty :: "'k ts_heap \<Rightarrow> bool" where
  "is_empty h \<longleftrightarrow> hsize h = 0"

definition clear :: "'k ts_heap \<Rightarrow> 'k ts_heap" where
  "clear h = h\<lparr>hsize := 0, arr := []\<rparr>"

definition elem_at :: "'k ts_heap \<Rightarrow> nat \<Rightarrow> nat option option" where
  "elem_at h i = (if i < length (arr h) then Some (arr h ! i) else None)"

definition key_at :: "'k ts_heap \<Rightarrow> nat \<Rightarrow> 'k option" where
  "key_at h i = (case elem_at h i of Some (Some p) \<Rightarrow> Some (nkey (nodes h p)) | _ \<Rightarrow> None)"

definition set_nindex :: "'k ts_heap \<Rightarrow> nat option \<Rightarrow> int \<Rightarrow> 'k ts_heap" where
  "set_nindex h q i = (case q of None \<Rightarrow> h
     | Some p \<Rightarrow> h\<lparr>nodes := (nodes h)(p := (nodes h p)\<lparr>nindex := i\<rparr>)\<rparr>)"

definition swap_at :: "'k ts_heap \<Rightarrow> nat \<Rightarrow> nat \<Rightarrow> 'k ts_heap option" where
  "swap_at h i j = (case (elem_at h j, elem_at h i) of
     (Some ni, Some nj) \<Rightarrow>
       Some (set_nindex (set_nindex (h\<lparr>arr := (arr h)[i := ni, j := nj]\<rparr>) ni (int i)) nj (int j))
   | _ \<Rightarrow> None)"

lemma swap_at_hsize: "swap_at h i j = Some h' \<Longrightarrow> hsize h' = hsize h"
  by (auto simp: swap_at_def set_nindex_def split: option.splits)

function sift_up_from :: "('k::linorder) ts_heap \<Rightarrow> nat \<Rightarrow> 'k ts_heap option" where
  "sift_up_from h i =
     (if i \<le> 0 then Some h
      else let j = (i - 1) div 2 in
        case (key_at h j, key_at h i) of
          (Some kj, Some ki) \<Rightarrow>
            if kj \<le> ki then Some h
            else (case swap_at h i j of None \<Rightarrow> None | Some h' \<Rightarrow> sift_up_from h' j)
        | _ \<Rightarrow> None)"
  by pat_completeness auto
termination
  by (relation "measure snd") (auto simp: heap_parent_less)

definition child_to_sift :: "('k::linorder) ts_heap \<Rightarrow> nat \<Rightarrow> nat option" where
  "child_to_sift h i = (let j = 2 * i + 1 in
     if j + 1 < hsize h
     then (case (key_at h (j + 1), key_at h j) of
             (Some kr, Some kl) \<Rightarrow> Some (if kr < kl then j + 1 else j)
           | _ \<Rightarrow> None)
     else Some j)"

lemma child_to_sift_cases:
  "child_to_sift h i = Some j \<Longrightarrow> j = 2 * i + 1 \<or> (j = 2 * i + 2 \<and> 2 * i + 2 < hsize h)"
  by (auto simp: child_to_sift_def Let_def split: if_splits option.splits)

function sift_down_from :: "('k::linorder) ts_heap \<Rightarrow> nat \<Rightarrow> 'k ts_heap option" where
  "sift_down_from h i =
     (if 2 * i + 1 \<ge> hsize h then Some h
      else case child_to_sift h i of
        None \<Rightarrow> None
      | Some j \<Rightarrow>
          (case (key_at h i, key_at h j) of
             (Some ki, Some kj) \<Rightarrow>
               if ki \<le> kj then Some h
               else (case swap_at h i j of None \<Rightarrow> None | Some h' \<Rightarrow> sift_down_from h' j)
           | _ \<Rightarrow> None))"
  by pat_completeness auto
termination
  by (relation "measure (\<lambda>(h, i). hsize h - i)")
    (auto dest!: child_to_sift_cases swap_at_hsize)

declare sift_up_from.simps [simp del] sift_down_from.simps [simp del]

definition realloc :: "'k ts_heap \<Rightarrow> 'k ts_heap" where
  "realloc h =
     (if arr h = [] then h\<lparr>arr := replicate 4 None\<rparr>
      else if hsize h \<ge> length (arr h)
      then h\<lparr>arr := take (hsize h * 2) (arr h) @ replicate (hsize h * 2 - length (arr h)) None\<rparr>
      else h)"

definition first_impl :: "'k ts_heap \<Rightarrow> nat option" where
  "first_impl h = (if arr h = [] \<or> hsize h = 0 then None else arr h ! 0)"

definition add_impl :: "('k::linorder) ts_heap \<Rightarrow> nat \<Rightarrow> 'k ts_heap option" where
  "add_impl h node =
     (let h1 = h\<lparr>nodes := (nodes h)(node := (nodes h node)\<lparr>nheap := Some (self h)\<rparr>)\<rparr>;
          h2 = realloc h1;
          i = hsize h2;
          h3 = h2\<lparr>hsize := i + 1\<rparr>
      in if i < length (arr h3)
         then sift_up_from (set_nindex (h3\<lparr>arr := (arr h3)[i := Some node]\<rparr>) (Some node) (int i)) i
         else None)"

definition fill_gap :: "('k::linorder) ts_heap \<Rightarrow> nat \<Rightarrow> 'k ts_heap option" where
  "fill_gap h2 index =
     (if index > 0 then
        (case (key_at h2 index, key_at h2 (heap_parent index)) of
           (Some ki, Some kj) \<Rightarrow>
             if ki < kj
             then (case swap_at h2 index (heap_parent index) of
                     None \<Rightarrow> None | Some h3 \<Rightarrow> sift_up_from h3 (heap_parent index))
             else sift_down_from h2 index
         | _ \<Rightarrow> None)
      else sift_down_from h2 index)"

definition remove_at_impl :: "('k::linorder) ts_heap \<Rightarrow> nat \<Rightarrow> (nat \<times> 'k ts_heap) option" where
  "remove_at_impl h index =
     (if hsize h = 0 then None
      else let s = hsize h - 1; h1 = h\<lparr>hsize := s\<rparr>;
        moved =
          (if index < s
           then (case swap_at h1 index s of None \<Rightarrow> None | Some h2 \<Rightarrow> fill_gap h2 index)
           else Some h1)
      in case moved of
           None \<Rightarrow> None
         | Some h4 \<Rightarrow>
             (case elem_at h4 s of
                Some (Some result) \<Rightarrow>
                  Some (result,
                    h4\<lparr>nodes := (nodes h4)(result := (nodes h4 result)\<lparr>nheap := None, nindex := -1\<rparr>),
                       arr := (arr h4)[s := None]\<rparr>)
              | _ \<Rightarrow> None))"

definition peek :: "'k ts_heap \<Rightarrow> nat option" where
  "peek h = first_impl h"

fun find_from :: "('k heap_node option \<Rightarrow> bool) \<Rightarrow> 'k ts_heap \<Rightarrow> nat list \<Rightarrow> nat option option" where
  "find_from predicate h [] = Some None"
| "find_from predicate h (i # rest) =
     (case elem_at h i of
        None \<Rightarrow> None
      | Some value \<Rightarrow>
          if predicate (map_option (nodes h) value) then Some value
          else find_from predicate h rest)"

definition find_node :: "('k heap_node option \<Rightarrow> bool) \<Rightarrow> 'k ts_heap \<Rightarrow> nat option option" where
  "find_node predicate h = find_from predicate h [0..<hsize h]"

definition remove_first_or_null :: "('k::linorder) ts_heap \<Rightarrow> (nat option \<times> 'k ts_heap) option" where
  "remove_first_or_null h =
     (if hsize h > 0
      then map_option (\<lambda>(p, h'). (Some p, h')) (remove_at_impl h 0)
      else Some (None, h))"

definition remove_first_if ::
    "('k heap_node \<Rightarrow> bool) \<Rightarrow> ('k::linorder) ts_heap \<Rightarrow> (nat option \<times> 'k ts_heap) option" where
  "remove_first_if predicate h =
     (case first_impl h of
        None \<Rightarrow> Some (None, h)
      | Some p \<Rightarrow>
          if predicate (nodes h p)
          then map_option (\<lambda>(q, h'). (Some q, h')) (remove_at_impl h 0)
          else Some (None, h))"

definition add_last :: "('k::linorder) ts_heap \<Rightarrow> nat \<Rightarrow> 'k ts_heap option" where
  "add_last h node = add_impl h node"

definition add_last_if ::
    "(nat option \<Rightarrow> bool) \<Rightarrow> ('k::linorder) ts_heap \<Rightarrow> nat \<Rightarrow> (bool \<times> 'k ts_heap) option" where
  "add_last_if cond h node =
     (if cond (first_impl h) then map_option (\<lambda>h'. (True, h')) (add_impl h node)
      else Some (False, h))"

definition remove :: "('k::linorder) ts_heap \<Rightarrow> nat \<Rightarrow> (bool \<times> 'k ts_heap) option" where
  "remove h node =
     (if nheap (nodes h node) = None then Some (False, h)
      else let index = nindex (nodes h node) in
        if index \<ge> 0 then map_option (\<lambda>(_, h'). (True, h')) (remove_at_impl h (nat index))
        else Some (False, h))"

subsection \<open>Invariant\<close>

text \<open>
  \<open>shape n h\<close>: the first \<open>n\<close> array cells hold nodes that point back to this heap and to their
  own position, the rest are null, and no other node claims to be in this heap. During a
  removal \<open>n\<close> exceeds the size by one. \<open>heap_inv\<close> adds the heap order on the keys.
\<close>

definition shape :: "nat \<Rightarrow> 'k ts_heap \<Rightarrow> bool" where
  "shape n h \<longleftrightarrow> n \<le> length (arr h) \<and> hsize h \<le> n \<and>
     (\<forall>i<n. \<exists>p. arr h ! i = Some p \<and> nheap (nodes h p) = Some (self h) \<and>
        nindex (nodes h p) = int i) \<and>
     (\<forall>i. n \<le> i \<and> i < length (arr h) \<longrightarrow> arr h ! i = None) \<and>
     (\<forall>p. nheap (nodes h p) = Some (self h) \<longrightarrow> (\<exists>i<n. arr h ! i = Some p))"

definition keyf :: "'k ts_heap \<Rightarrow> nat \<Rightarrow> 'k" where
  "keyf h i = nkey (nodes h (the (arr h ! i)))"

definition ordered_keys :: "nat \<Rightarrow> (nat \<Rightarrow> 'k::linorder) \<Rightarrow> bool" where
  "ordered_keys n K \<longleftrightarrow> (\<forall>j. 0 < j \<and> j < n \<longrightarrow> K (heap_parent j) \<le> K j)"

definition heap_inv :: "('k::linorder) ts_heap \<Rightarrow> bool" where
  "heap_inv h \<longleftrightarrow> shape (hsize h) h \<and> ordered_keys (hsize h) (keyf h)"

definition members :: "'k ts_heap \<Rightarrow> nat set" where
  "members h = {p. nheap (nodes h p) = Some (self h)}"

definition same_content :: "'k ts_heap \<Rightarrow> 'k ts_heap \<Rightarrow> bool" where
  "same_content h h' \<longleftrightarrow> self h' = self h \<and> hsize h' = hsize h \<and> length (arr h') = length (arr h) \<and>
     (\<forall>p. nkey (nodes h' p) = nkey (nodes h p) \<and> nheap (nodes h' p) = nheap (nodes h p))"

lemma same_content_refl [simp]: "same_content h h"
  by (simp add: same_content_def)

lemma same_content_trans: "same_content a b \<Longrightarrow> same_content b c \<Longrightarrow> same_content a c"
  by (simp add: same_content_def)

lemma same_content_members: "same_content h h' \<Longrightarrow> members h' = members h"
  by (simp add: same_content_def members_def)

subsection \<open>Keys under the heap order\<close>

text \<open>
  \<open>up_ok n K i\<close> and \<open>down_ok n K i\<close> are the loop invariants of the two sifts: the order may
  fail only between \<open>i\<close> and its parent, or only between \<open>i\<close> and its children.
\<close>

definition up_ok :: "nat \<Rightarrow> (nat \<Rightarrow> 'k::linorder) \<Rightarrow> nat \<Rightarrow> bool" where
  "up_ok n K i \<longleftrightarrow> (\<forall>j. 0 < j \<and> j < n \<and> j \<noteq> i \<longrightarrow> K (heap_parent j) \<le> K j) \<and>
     (\<forall>j. 0 < j \<and> j < n \<and> heap_parent j = i \<and> 0 < i \<longrightarrow> K (heap_parent i) \<le> K j)"

definition down_ok :: "nat \<Rightarrow> (nat \<Rightarrow> 'k::linorder) \<Rightarrow> nat \<Rightarrow> bool" where
  "down_ok n K i \<longleftrightarrow> (\<forall>j. 0 < j \<and> j < n \<and> heap_parent j \<noteq> i \<longrightarrow> K (heap_parent j) \<le> K j) \<and>
     (\<forall>j. 0 < j \<and> j < n \<and> heap_parent j = i \<and> 0 < i \<longrightarrow> K (heap_parent i) \<le> K j)"

definition swapped :: "(nat \<Rightarrow> 'k) \<Rightarrow> nat \<Rightarrow> nat \<Rightarrow> nat \<Rightarrow> 'k" where
  "swapped K i j k = (if k = j then K i else if k = i then K j else K k)"

lemma up_ok_done:
  assumes "up_ok n K i" "0 < i \<longrightarrow> K (heap_parent i) \<le> K i"
  shows "ordered_keys n K"
  using assms unfolding up_ok_def ordered_keys_def by metis

lemma up_ok_step:
  assumes up: "up_ok n K i" and i: "0 < i" and lt: "K i < K (heap_parent i)"
  shows "up_ok n (swapped K i (heap_parent i)) (heap_parent i)"
proof -
  let ?p = "heap_parent i"
  have ne: "?p \<noteq> i" using heap_parent_less [OF i] by simp
  have other: "K (heap_parent j) \<le> K j" if "0 < j" "j < n" "j \<noteq> i" for j
    using up that by (simp add: up_ok_def)
  have child: "K ?p \<le> K j" if "0 < j" "j < n" "heap_parent j = i" for j
    using up that i by (simp add: up_ok_def)
  have "swapped K i ?p (heap_parent j) \<le> swapped K i ?p j" if j: "0 < j" "j < n" "j \<noteq> ?p" for j
  proof (cases "j = i")
    case True
    then show ?thesis using lt ne by (simp add: swapped_def)
  next
    case False
    show ?thesis
      using False j other [of j] child [of j] lt
      by (auto simp: swapped_def)
  qed
  moreover have "swapped K i ?p (heap_parent ?p) \<le> swapped K i ?p j"
    if j: "0 < j" "j < n" "heap_parent j = ?p" "0 < ?p" for j
  proof -
    have pp: "heap_parent ?p < ?p" using j(4) by (rule heap_parent_less)
    have pn: "?p < n" using j heap_parent_less [OF j(1)] by simp
    have "K (heap_parent ?p) \<le> K ?p" using other [of ?p] j(4) pn ne by simp
    moreover have "K ?p \<le> K j" if "j \<noteq> i" using other [of j] j that by simp
    ultimately show ?thesis
      using j pp heap_parent_less [OF j(1)] heap_parent_less [OF i] lt
      by (auto simp: swapped_def)
  qed
  ultimately show ?thesis by (simp add: up_ok_def)
qed

lemma down_ok_done:
  assumes "down_ok n K i" "\<And>j. 0 < j \<Longrightarrow> j < n \<Longrightarrow> heap_parent j = i \<Longrightarrow> K i \<le> K j"
  shows "ordered_keys n K"
  using assms unfolding down_ok_def ordered_keys_def by metis

lemma down_ok_step:
  assumes down: "down_ok n K i" and c: "0 < c" "c < n" "heap_parent c = i"
    and least: "\<And>j. 0 < j \<Longrightarrow> j < n \<Longrightarrow> heap_parent j = i \<Longrightarrow> K c \<le> K j"
    and lt: "K c < K i"
  shows "down_ok n (swapped K i c) c"
proof -
  have ic: "i < c" using heap_parent_less [OF c(1)] c(3) by simp
  have other: "K (heap_parent j) \<le> K j" if "0 < j" "j < n" "heap_parent j \<noteq> i" for j
    using down that by (simp add: down_ok_def)
  have up: "K (heap_parent i) \<le> K j" if "0 < j" "j < n" "heap_parent j = i" "0 < i" for j
    using down that by (simp add: down_ok_def)
  have "swapped K i c (heap_parent j) \<le> swapped K i c j"
    if j: "0 < j" "j < n" "heap_parent j \<noteq> c" for j
  proof (cases "heap_parent j = i")
    case True
    then show ?thesis
      using least [OF j(1,2)] heap_parent_less [OF j(1)] lt by (auto simp: swapped_def)
  next
    case False
    have "j = i \<Longrightarrow> K (heap_parent i) \<le> K c" using up [OF c] j(1) by simp
    then show ?thesis
      using False j other [of j] c(3) by (auto simp: swapped_def)
  qed
  moreover have "swapped K i c (heap_parent c) \<le> swapped K i c j"
    if j: "0 < j" "j < n" "heap_parent j = c" for j
  proof -
    have "j > c" using heap_parent_less [OF j(1)] j(3) by simp
    moreover have "K c \<le> K j" using other [OF j(1,2)] j(3) ic by simp
    ultimately show ?thesis using c(3) ic by (simp add: swapped_def)
  qed
  ultimately show ?thesis by (simp add: down_ok_def)
qed

lemma ordered_keys_root:
  assumes "ordered_keys n K" "j < n"
  shows "K 0 \<le> K j"
  using assms(2)
proof (induction j rule: less_induct)
  case (less j)
  show ?case
  proof (cases "j = 0")
    case False
    then have "heap_parent j < j" by (simp add: heap_parent_less)
    then have "K 0 \<le> K (heap_parent j)" using less by simp
    also have "\<dots> \<le> K j" using assms(1) False less.prems by (simp add: ordered_keys_def)
    finally show ?thesis .
  qed simp
qed

subsection \<open>Swaps and sifts on a well-shaped heap\<close>

lemma shape_cell:
  assumes "shape n h" "i < n"
  obtains p where "arr h ! i = Some p" "nheap (nodes h p) = Some (self h)"
    "nindex (nodes h p) = int i" "i < length (arr h)"
  using assms unfolding shape_def by (metis order_less_le_trans)

lemma shape_inj:
  assumes "shape n h" "i < n" "j < n" "arr h ! i = Some p" "arr h ! j = Some p"
  shows "i = j"
proof -
  have "int i = nindex (nodes h p)" using shape_cell [OF assms(1,2)] assms(4) by force
  also have "\<dots> = int j" using shape_cell [OF assms(1,3)] assms(5) by force
  finally show ?thesis by simp
qed

lemma key_at_shape:
  assumes "shape n h" "i < n"
  shows "key_at h i = Some (keyf h i)"
proof -
  obtain p where "arr h ! i = Some p" "i < length (arr h)"
    using shape_cell [OF assms] by metis
  then show ?thesis by (simp add: key_at_def elem_at_def keyf_def)
qed

lemma swap_at_shape:
  assumes sh: "shape n h" and i: "i < n" and j: "j < n"
  shows "\<exists>h'. swap_at h i j = Some h' \<and> shape n h' \<and> same_content h h' \<and>
    keyf h' = swapped (keyf h) i j \<and>
    arr h' = (arr h)[i := arr h ! j, j := arr h ! i]"
proof -
  obtain p where p: "arr h ! i = Some p" "nheap (nodes h p) = Some (self h)" "i < length (arr h)"
    using shape_cell [OF sh i] by metis
  obtain q where q: "arr h ! j = Some q" "nheap (nodes h q) = Some (self h)" "j < length (arr h)"
    using shape_cell [OF sh j] by metis
  have pq: "p = q \<longleftrightarrow> i = j" using shape_inj [OF sh i j] p(1) q(1) by auto
  let ?a = "(arr h)[i := Some q, j := Some p]"
  let ?m = "((nodes h)(q := (nodes h q)\<lparr>nindex := int i\<rparr>))(p := (nodes h p)\<lparr>nindex := int j\<rparr>)"
  let ?h = "h\<lparr>arr := ?a, nodes := ?m\<rparr>"
  have sw: "swap_at h i j = Some ?h"
    using p q pq by (auto simp: swap_at_def elem_at_def set_nindex_def)
  have sc: "same_content h ?h"
    by (auto simp: same_content_def)
  have cell: "\<exists>r. ?a ! k = Some r \<and> nheap (?m r) = Some (self h) \<and> nindex (?m r) = int k"
    if k: "k < n" for k
  proof (cases "k = i \<or> k = j")
    case True
    then show ?thesis using p q pq by (auto simp: nth_list_update)
  next
    case False
    obtain r where r: "arr h ! k = Some r" "nheap (nodes h r) = Some (self h)"
      "nindex (nodes h r) = int k"
      using shape_cell [OF sh k] by metis
    have "r \<noteq> p" "r \<noteq> q" using False shape_inj [OF sh k i] shape_inj [OF sh k j] r(1) p(1) q(1) by auto
    then show ?thesis using False r by (auto simp: nth_list_update)
  qed
  have claim: "\<exists>k<n. ?a ! k = Some r" if "nheap (?m r) = Some (self h)" for r
  proof -
    from that have "nheap (nodes h r) = Some (self h)" by (auto split: if_splits)
    then obtain k where k: "k < n" "arr h ! k = Some r" using sh by (auto simp: shape_def)
    consider "k = i" | "k = j" | "k \<noteq> i" "k \<noteq> j" by blast
    then show ?thesis
    proof cases
      case 1
      then show ?thesis using k j p q by (intro exI [of _ j]) simp
    next
      case 2
      then show ?thesis using k i p q pq by (intro exI [of _ i]) (simp add: nth_list_update)
    next
      case 3
      then show ?thesis using k by (intro exI [of _ k]) simp
    qed
  qed
  have len: "n \<le> length (arr h)" "hsize h \<le> n" using sh by (auto simp: shape_def)
  have rest: "?a ! k = None" if "n \<le> k" "k < length (arr h)" for k
    using sh that i j by (auto simp: shape_def)
  have "shape n ?h"
    using cell claim rest len by (simp add: shape_def)
  moreover have "keyf ?h k = swapped (keyf h) i j k" for k
    using p q pq by (cases "k < length (arr h)")
      (auto simp: keyf_def swapped_def nth_list_update list_update_beyond)
  ultimately show ?thesis
    using sw sc p q by (auto intro!: exI [of _ ?h])
qed

lemma swap_atE:
  assumes "shape n h" "i < n" "j < n"
  obtains h' where "swap_at h i j = Some h'" "shape n h'" "same_content h h'"
    "keyf h' = swapped (keyf h) i j" "arr h' = (arr h)[i := arr h ! j, j := arr h ! i]"
  using swap_at_shape [OF assms] by blast

lemma same_content_hsize: "same_content h h' \<Longrightarrow> hsize h' = hsize h"
  by (simp add: same_content_def)

lemma sift_up_shape:
  assumes "shape n h" "i < hsize h" "up_ok (hsize h) (keyf h) i"
  shows "\<exists>h'. sift_up_from h i = Some h' \<and> shape n h' \<and> same_content h h' \<and>
    ordered_keys (hsize h) (keyf h') \<and> (\<forall>k. hsize h \<le> k \<longrightarrow> arr h' ! k = arr h ! k)"
  using assms
proof (induction h i rule: sift_up_from.induct)
  case (1 h i)
  have hn: "hsize h \<le> n" using "1.prems"(1) by (simp add: shape_def)
  show ?case
  proof (cases "i = 0")
    case True
    then show ?thesis using "1.prems" up_ok_done [of "hsize h" "keyf h" i]
      by (simp add: sift_up_from.simps)
  next
    case False
    let ?j = "heap_parent i"
    have j: "?j < i" using False by (simp add: heap_parent_less)
    have keys: "key_at h ?j = Some (keyf h ?j)" "key_at h i = Some (keyf h i)"
      using key_at_shape [OF "1.prems"(1)] j "1.prems"(2) hn by simp_all
    show ?thesis
    proof (cases "keyf h ?j \<le> keyf h i")
      case True
      then show ?thesis using "1.prems" keys False up_ok_done [of "hsize h" "keyf h" i]
        by (simp add: sift_up_from.simps [of h i])
    next
      case lt: False
      obtain h1 where h1: "swap_at h i ?j = Some h1" "shape n h1" "same_content h h1"
        "keyf h1 = swapped (keyf h) i ?j" "arr h1 = (arr h)[i := arr h ! ?j, ?j := arr h ! i]"
        using swap_atE [OF "1.prems"(1), of i ?j] "1.prems"(2) hn j by auto
      have sz: "hsize h1 = hsize h" using h1(3) by (rule same_content_hsize)
      have "up_ok (hsize h1) (keyf h1) ?j"
        using up_ok_step [OF "1.prems"(3)] False lt h1(4) sz by simp
      then obtain h2 where h2: "sift_up_from h1 ?j = Some h2" "shape n h2" "same_content h1 h2"
        "ordered_keys (hsize h1) (keyf h2)" "\<forall>k. hsize h1 \<le> k \<longrightarrow> arr h2 ! k = arr h1 ! k"
        using "1.IH" [OF _ refl _ refl refl] False keys lt h1 sz j "1.prems"(2) by fastforce
      have "sift_up_from h i = Some h2"
        using False keys lt h1(1) h2(1) by (simp add: sift_up_from.simps [of h i])
      moreover have "arr h2 ! k = arr h ! k" if "hsize h \<le> k" for k
        using that h2(5) sz h1(5) "1.prems"(2) j by simp
      ultimately show ?thesis using h2 sz same_content_trans [OF h1(3) h2(3)] by simp
    qed
  qed
qed

lemma child_to_sift_shape:
  assumes "shape n h" "2 * i + 1 < hsize h"
  shows "\<exists>c. child_to_sift h i = Some c \<and> 0 < c \<and> c < hsize h \<and> heap_parent c = i \<and> i < c \<and>
    (\<forall>j. 0 < j \<and> j < hsize h \<and> heap_parent j = i \<longrightarrow> keyf h c \<le> keyf h j)"
proof -
  have hn: "hsize h \<le> n" using assms(1) by (simp add: shape_def)
  have keys: "key_at h k = Some (keyf h k)" if "k < hsize h" for k
    using key_at_shape [OF assms(1), of k] that hn by simp
  have child: "j = 2 * i + 1 \<or> j = 2 * i + 2" if "0 < j" "heap_parent j = i" for j
    using heap_parent_eq_iff [of j i] that by blast
  have parent: "heap_parent (2 * i + 1) = i" "heap_parent (2 * i + 2) = i" by simp_all
  consider (right) "2 * i + 2 < hsize h" "keyf h (2 * i + 2) < keyf h (2 * i + 1)"
    | (left) "2 * i + 2 < hsize h" "\<not> keyf h (2 * i + 2) < keyf h (2 * i + 1)"
    | (only) "\<not> 2 * i + 2 < hsize h" by blast
  then show ?thesis
  proof cases
    case right
    then have "child_to_sift h i = Some (2 * i + 2)"
      using keys [of "2 * i + 1"] keys [of "2 * i + 2"] by (simp add: child_to_sift_def)
    then show ?thesis using right child parent by (intro exI [of _ "2 * i + 2"]) fastforce
  next
    case left
    then have "child_to_sift h i = Some (2 * i + 1)"
      using keys [of "2 * i + 1"] keys [of "2 * i + 2"] by (simp add: child_to_sift_def)
    then show ?thesis using left child parent by (intro exI [of _ "2 * i + 1"]) fastforce
  next
    case only
    then have "child_to_sift h i = Some (2 * i + 1)" by (simp add: child_to_sift_def)
    then show ?thesis using only assms(2) child parent by (intro exI [of _ "2 * i + 1"]) fastforce
  qed
qed

lemma sift_down_shape:
  assumes "shape n h" "i < hsize h \<or> hsize h \<le> 2 * i + 1" "down_ok (hsize h) (keyf h) i"
  shows "\<exists>h'. sift_down_from h i = Some h' \<and> shape n h' \<and> same_content h h' \<and>
    ordered_keys (hsize h) (keyf h') \<and> (\<forall>k. hsize h \<le> k \<longrightarrow> arr h' ! k = arr h ! k)"
  using assms
proof (induction h i rule: sift_down_from.induct)
  case (1 h i)
  have hn: "hsize h \<le> n" using "1.prems"(1) by (simp add: shape_def)
  show ?case
  proof (cases "2 * i + 1 \<ge> hsize h")
    case True
    have "ordered_keys (hsize h) (keyf h)"
      using down_ok_done [OF "1.prems"(3)] True by (auto simp: heap_parent_eq_iff)
    then show ?thesis using "1.prems"(1) True by (simp add: sift_down_from.simps [of h i])
  next
    case False
    then obtain c where c: "child_to_sift h i = Some c" "0 < c" "c < hsize h" "heap_parent c = i"
      "i < c" and least: "\<And>j. 0 < j \<Longrightarrow> j < hsize h \<Longrightarrow> heap_parent j = i \<Longrightarrow> keyf h c \<le> keyf h j"
      using child_to_sift_shape [OF "1.prems"(1), of i] by auto
    have keys: "key_at h i = Some (keyf h i)" "key_at h c = Some (keyf h c)"
      using key_at_shape [OF "1.prems"(1)] c hn by simp_all
    show ?thesis
    proof (cases "keyf h i \<le> keyf h c")
      case True
      then have "ordered_keys (hsize h) (keyf h)"
        using down_ok_done [OF "1.prems"(3)] least by (meson order_trans)
      then show ?thesis using "1.prems"(1) False c keys True
        by (simp add: sift_down_from.simps [of h i])
    next
      case lt: False
      obtain h1 where h1: "swap_at h i c = Some h1" "shape n h1" "same_content h h1"
        "keyf h1 = swapped (keyf h) i c" "arr h1 = (arr h)[i := arr h ! c, c := arr h ! i]"
        using swap_atE [OF "1.prems"(1), of i c] c hn by auto
      have sz: "hsize h1 = hsize h" using h1(3) by (rule same_content_hsize)
      have "down_ok (hsize h1) (keyf h1) c"
        using down_ok_step [OF "1.prems"(3) c(2,3,4) least] lt h1(4) sz by simp
      then obtain h2 where h2: "sift_down_from h1 c = Some h2" "shape n h2" "same_content h1 h2"
        "ordered_keys (hsize h1) (keyf h2)" "\<forall>k. hsize h1 \<le> k \<longrightarrow> arr h2 ! k = arr h1 ! k"
        using "1.IH" [OF False c(1) refl _ _ _ h1(1)] keys lt h1(2) sz c(3) by fastforce
      have "sift_down_from h i = Some h2"
        using False c keys lt h1(1) h2(1) by (simp add: sift_down_from.simps [of h i])
      moreover have "arr h2 ! k = arr h ! k" if "hsize h \<le> k" for k
        using that h2(5) sz h1(5) c by simp
      ultimately show ?thesis using h2 sz same_content_trans [OF h1(3) h2(3)] by simp
    qed
  qed
qed

subsection \<open>Insertion\<close>

lemma realloc_arr:
  assumes "hsize h \<le> length (arr h)"
  shows "\<exists>m. arr (realloc h) = arr h @ replicate m None" "hsize h < length (arr (realloc h))"
  using assms by (cases "arr h"; auto simp: realloc_def)+

lemma realloc_frame [frame_simps]:
  "hsize (realloc h) = hsize h" "nodes (realloc h) = nodes h" "self (realloc h) = self h"
  by (simp_all add: realloc_def)

lemma shape_append:
  assumes sh: "shape n h" and free: "nheap (nodes h p) = None" and len: "n < length a"
    and a: "a = arr h @ replicate m None"
  shows "shape (Suc n) (h\<lparr>arr := a[n := Some p], hsize := Suc n,
           nodes := (nodes h)(p := (nodes h p)\<lparr>nheap := Some (self h), nindex := int n\<rparr>)\<rparr>)"
    (is "shape _ ?h")
proof -
  have cell: "\<exists>q. arr ?h ! i = Some q \<and> nheap (nodes ?h q) = Some (self ?h) \<and>
      nindex (nodes ?h q) = int i" if i: "i < Suc n" for i
  proof (cases "i = n")
    case True
    then show ?thesis using len by simp
  next
    case False
    with i have "i < n" by simp
    then obtain q where q: "arr h ! i = Some q" "nheap (nodes h q) = Some (self h)"
      "nindex (nodes h q) = int i" "i < length (arr h)"
      using shape_cell [OF sh] by metis
    then have "q \<noteq> p" using free by auto
    then show ?thesis using q False by (simp add: a nth_append)
  qed
  have rest: "arr ?h ! i = None" if i: "Suc n \<le> i" "i < length (arr ?h)" for i
  proof (cases "i < length (arr h)")
    case True
    then show ?thesis using sh i by (auto simp: shape_def a nth_append)
  next
    case False
    then show ?thesis using i by (simp add: a nth_append)
  qed
  have claim: "\<exists>i<Suc n. arr ?h ! i = Some q" if "nheap (nodes ?h q) = Some (self ?h)" for q
  proof (cases "q = p")
    case True
    then show ?thesis using len by (intro exI [of _ n]) simp
  next
    case False
    then have "nheap (nodes h q) = Some (self h)" using that by simp
    then obtain i where "i < n" "arr h ! i = Some q" using sh unfolding shape_def by blast
    moreover have "n \<le> length (arr h)" using sh by (simp add: shape_def)
    ultimately show ?thesis by (intro exI [of _ i]) (simp add: a nth_append)
  qed
  show ?thesis using cell rest claim len by (simp add: shape_def)
qed

lemma add_impl_spec:
  assumes inv: "heap_inv h" and free: "nheap (nodes h p) = None"
  shows "\<exists>h'. add_impl h p = Some h' \<and> heap_inv h' \<and> members h' = insert p (members h) \<and>
    hsize h' = Suc (hsize h) \<and> self h' = self h \<and> (\<forall>q. nkey (nodes h' q) = nkey (nodes h q)) \<and>
    (\<forall>q. q \<noteq> p \<longrightarrow> nheap (nodes h' q) = nheap (nodes h q))"
proof -
  let ?n = "hsize h"
  have sh: "shape ?n h" and ord: "ordered_keys ?n (keyf h)" using inv by (simp_all add: heap_inv_def)
  let ?h0 = "h\<lparr>nodes := (nodes h)(p := (nodes h p)\<lparr>nheap := Some (self h)\<rparr>)\<rparr>"
  have len0: "hsize ?h0 \<le> length (arr ?h0)" using sh by (simp add: shape_def)
  obtain m where a: "arr (realloc ?h0) = arr h @ replicate m None"
    using realloc_arr(1) [OF len0] by auto
  have len: "?n < length (arr (realloc ?h0))" using realloc_arr(2) [OF len0] by simp
  let ?hA = "h\<lparr>arr := (arr (realloc ?h0))[?n := Some p], hsize := Suc ?n,
     nodes := (nodes h)(p := (nodes h p)\<lparr>nheap := Some (self h), nindex := int ?n\<rparr>)\<rparr>"
  have hA: "set_nindex ((realloc ?h0)\<lparr>hsize := Suc ?n, arr := (arr (realloc ?h0))[?n := Some p]\<rparr>)
      (Some p) (int ?n) = ?hA"
    by (rule ts_heap.equality) (simp_all add: set_nindex_def frame_simps)
  have step: "add_impl h p = sift_up_from ?hA ?n"
    using len hA by (simp add: add_impl_def Let_def frame_simps)
  have shA: "shape (Suc ?n) ?hA" using shape_append [OF sh free len a] .
  have keyA: "keyf ?hA k = keyf h k" if "k < ?n" for k
    using that sh a free by (auto simp: keyf_def nth_append shape_def)
  have "up_ok (Suc ?n) (keyf ?hA) ?n"
    unfolding up_ok_def
  proof (intro conjI allI impI)
    fix j assume j: "0 < j \<and> j < Suc ?n \<and> j \<noteq> ?n"
    then have "heap_parent j < ?n" "j < ?n" using heap_parent_less [of j] by auto
    then show "keyf ?hA (heap_parent j) \<le> keyf ?hA j"
      using ord j keyA by (simp add: ordered_keys_def)
  next
    fix j assume "0 < j \<and> j < Suc ?n \<and> heap_parent j = ?n \<and> 0 < ?n"
    then show "keyf ?hA (heap_parent ?n) \<le> keyf ?hA j" using heap_parent_less [of j] by auto
  qed
  then obtain h' where h': "sift_up_from ?hA ?n = Some h'" "shape (Suc ?n) h'" "same_content ?hA h'"
    "ordered_keys (Suc ?n) (keyf h')"
    using sift_up_shape [OF shA, of ?n] by auto
  have "hsize h' = Suc ?n" "self h' = self h" "\<forall>q. nkey (nodes h' q) = nkey (nodes h q)"
    "\<forall>q. q \<noteq> p \<longrightarrow> nheap (nodes h' q) = nheap (nodes h q)"
    using h'(3) by (simp_all add: same_content_def)
  moreover have "members h' = insert p (members h)"
    using same_content_members [OF h'(3)] by (auto simp: members_def)
  ultimately show ?thesis using h' step by (simp add: heap_inv_def)
qed

subsection \<open>Removal\<close>

lemma replaced_key_up:
  assumes ord: "ordered_keys (Suc s) K" and i: "0 < i" "i < s"
    and K': "\<And>k. k < s \<Longrightarrow> K' k = (if k = i then v else K k)" and lt: "v < K' (heap_parent i)"
  shows "up_ok s K' i"
  unfolding up_ok_def
proof (intro conjI allI impI)
  have le: "K (heap_parent j) \<le> K j" if "0 < j" "j < s" for j
    using ord that by (simp add: ordered_keys_def)
  have pi: "heap_parent i < s" "heap_parent i \<noteq> i" using i heap_parent_less [of i] by simp_all
  {
    fix j assume j: "0 < j \<and> j < s \<and> j \<noteq> i"
    then have pj: "heap_parent j < s" using heap_parent_less [of j] by simp
    have "v \<le> K j" if "heap_parent j = i"
      using le [of j] le [of i] lt that j i K' [OF pi(1)] pi(2) by simp
    then show "K' (heap_parent j) \<le> K' j" using le [of j] j K' pj by simp
  next
    fix j assume j: "0 < j \<and> j < s \<and> heap_parent j = i \<and> 0 < i"
    then have "j \<noteq> i" using heap_parent_less [of j] by auto
    then show "K' (heap_parent i) \<le> K' j"
      using le [of j] le [of i] j i K' pi by simp
  }
qed

lemma replaced_key_down:
  assumes ord: "ordered_keys (Suc s) K" and i: "i < s"
    and K': "\<And>k. k < s \<Longrightarrow> K' k = (if k = i then v else K k)"
    and ge: "0 < i \<Longrightarrow> K' (heap_parent i) \<le> v"
  shows "down_ok s K' i"
  unfolding down_ok_def
proof (intro conjI allI impI)
  have le: "K (heap_parent j) \<le> K j" if "0 < j" "j < s" for j
    using ord that by (simp add: ordered_keys_def)
  {
    fix j assume j: "0 < j \<and> j < s \<and> heap_parent j \<noteq> i"
    then have pj: "heap_parent j < s" using heap_parent_less [of j] by simp
    show "K' (heap_parent j) \<le> K' j"
    proof (cases "j = i")
      case True
      then show ?thesis using ge j K' i by simp
    next
      case False
      then show ?thesis using le [of j] j K' pj by simp
    qed
  next
    fix j assume j: "0 < j \<and> j < s \<and> heap_parent j = i \<and> 0 < i"
    then have "j \<noteq> i" "heap_parent i < s" "heap_parent i \<noteq> i"
      using heap_parent_less [of j] heap_parent_less [of i] i by auto
    then show "K' (heap_parent i) \<le> K' j" using le [of j] le [of i] j i K' by simp
  }
qed

lemma fill_gap_spec:
  assumes sh: "shape n h2" and i: "i < hsize h2" and ord: "ordered_keys (Suc (hsize h2)) K"
    and K': "\<And>k. k < hsize h2 \<Longrightarrow> keyf h2 k = (if k = i then v else K k)"
  shows "\<exists>h4. fill_gap h2 i = Some h4 \<and> shape n h4 \<and> same_content h2 h4 \<and>
    ordered_keys (hsize h2) (keyf h4) \<and> (\<forall>k. hsize h2 \<le> k \<longrightarrow> arr h4 ! k = arr h2 ! k)"
proof -
  have hn: "hsize h2 \<le> n" using sh by (simp add: shape_def)
  have down: ?thesis if "fill_gap h2 i = sift_down_from h2 i" "0 < i \<Longrightarrow> keyf h2 (heap_parent i) \<le> v"
    using sift_down_shape [OF sh] replaced_key_down [OF ord i K'] i that by auto
  show ?thesis
  proof (cases "i = 0")
    case True
    then show ?thesis by (intro down) (simp_all add: fill_gap_def)
  next
    case False
    let ?j = "heap_parent i"
    have j: "?j < i" using False by (simp add: heap_parent_less)
    have keys: "key_at h2 i = Some v" "key_at h2 ?j = Some (keyf h2 ?j)"
      using key_at_shape [OF sh] i j hn K' [OF i] by simp_all
    show ?thesis
    proof (cases "v < keyf h2 ?j")
      case lt: True
      have up: "up_ok (hsize h2) (keyf h2) i"
        using replaced_key_up [OF ord _ i K'] False lt by simp
      obtain h3 where h3: "swap_at h2 i ?j = Some h3" "shape n h3" "same_content h2 h3"
        "keyf h3 = swapped (keyf h2) i ?j" "arr h3 = (arr h2)[i := arr h2 ! ?j, ?j := arr h2 ! i]"
        using swap_atE [OF sh, of i ?j] i j hn by auto
      have sz: "hsize h3 = hsize h2" using h3(3) by (rule same_content_hsize)
      have "up_ok (hsize h3) (keyf h3) ?j"
        using up_ok_step [OF up] False lt K' [OF i] h3(4) sz by simp
      then obtain h4 where h4: "sift_up_from h3 ?j = Some h4" "shape n h4" "same_content h3 h4"
        "ordered_keys (hsize h3) (keyf h4)" "\<forall>k. hsize h3 \<le> k \<longrightarrow> arr h4 ! k = arr h3 ! k"
        using sift_up_shape [OF h3(2), of ?j] sz i j by auto
      have "fill_gap h2 i = Some h4"
        using False keys lt h3(1) h4(1) by (simp add: fill_gap_def)
      moreover have "arr h4 ! k = arr h2 ! k" if "hsize h2 \<le> k" for k
        using that h4(5) sz h3(5) i j by simp
      ultimately show ?thesis using h4 sz same_content_trans [OF h3(3) h4(3)] by simp
    next
      case False
      then show ?thesis using keys by (intro down) (simp_all add: fill_gap_def)
    qed
  qed
qed

lemma shape_drop_last:
  assumes sh: "shape (Suc s) h" and s: "hsize h = s" and p: "arr h ! s = Some p"
  shows "shape s (h\<lparr>nodes := (nodes h)(p := (nodes h p)\<lparr>nheap := None, nindex := -1\<rparr>),
                    arr := (arr h)[s := None]\<rparr>)" (is "shape _ ?h")
proof -
  have len: "s < length (arr h)" using sh by (simp add: shape_def)
  have cell: "\<exists>q. arr ?h ! i = Some q \<and> nheap (nodes ?h q) = Some (self ?h) \<and>
      nindex (nodes ?h q) = int i" if i: "i < s" for i
  proof -
    obtain q where q: "arr h ! i = Some q" "nheap (nodes h q) = Some (self h)"
      "nindex (nodes h q) = int i"
      using shape_cell [OF sh, of i] i by auto
    have "q \<noteq> p" using shape_inj [OF sh, of i s q] q(1) p i by auto
    then show ?thesis using q i by simp
  qed
  have rest: "arr ?h ! i = None" if "s \<le> i" "i < length (arr ?h)" for i
    using sh that by (cases "i = s") (auto simp: shape_def)
  have claim: "\<exists>i < s. arr ?h ! i = Some q" if q: "nheap (nodes ?h q) = Some (self ?h)" for q
  proof -
    have "q \<noteq> p" "nheap (nodes h q) = Some (self h)" using q by (auto split: if_splits)
    then obtain i where "i < Suc s" "arr h ! i = Some q" using sh unfolding shape_def by blast
    moreover from this have "i \<noteq> s" using p \<open>q \<noteq> p\<close> by auto
    ultimately show ?thesis by (intro exI [of _ i]) auto
  qed
  show ?thesis using cell rest claim len s by (simp add: shape_def)
qed

lemma remove_at_moved:
  assumes inv: "heap_inv h" and i: "index < hsize h" and s: "hsize h = Suc s"
  shows "\<exists>h4. (if index < s
      then (case swap_at (h\<lparr>hsize := s\<rparr>) index s of None \<Rightarrow> None | Some h2 \<Rightarrow> fill_gap h2 index)
      else Some (h\<lparr>hsize := s\<rparr>)) = Some h4 \<and> shape (Suc s) h4 \<and> same_content (h\<lparr>hsize := s\<rparr>) h4 \<and>
    ordered_keys s (keyf h4) \<and> arr h4 ! s = arr h ! index"
proof -
  let ?h1 = "h\<lparr>hsize := s\<rparr>"
  have sh: "shape (Suc s) ?h1" and ord: "ordered_keys (Suc s) (keyf h)"
    using inv s by (simp_all add: heap_inv_def shape_def)
  show ?thesis
  proof (cases "index < s")
    case True
    obtain h2 where h2: "swap_at ?h1 index s = Some h2" "shape (Suc s) h2" "same_content ?h1 h2"
      "keyf h2 = swapped (keyf ?h1) index s" "arr h2 = (arr h)[index := arr h ! s, s := arr h ! index]"
      using swap_atE [OF sh, of index s] True by auto
    have sz: "hsize h2 = s" using same_content_hsize [OF h2(3)] by simp
    have "keyf h2 k = (if k = index then keyf h s else keyf h k)" if "k < hsize h2" for k
      using that h2(4) sz by (auto simp: swapped_def keyf_def)
    then obtain h4 where h4: "fill_gap h2 index = Some h4" "shape (Suc s) h4" "same_content h2 h4"
      "ordered_keys (hsize h2) (keyf h4)" "\<forall>k. hsize h2 \<le> k \<longrightarrow> arr h4 ! k = arr h2 ! k"
      using fill_gap_spec [OF h2(2), of index "keyf h" "keyf h s"] True ord sz by auto
    have "s < length (arr h)" using sh by (simp add: shape_def)
    then have "arr h4 ! s = arr h ! index" using h4(5) h2(5) sz by simp
    then show ?thesis
      using True h2(1) h4 sz same_content_trans [OF h2(3) h4(3)] by simp
  next
    case False
    then have "index = s" using i s by simp
    then show ?thesis using sh ord by (simp add: ordered_keys_def keyf_def)
  qed
qed

lemma remove_at_impl_spec:
  assumes inv: "heap_inv h" and i: "index < hsize h" and p: "arr h ! index = Some p"
  shows "\<exists>h'. remove_at_impl h index = Some (p, h') \<and> heap_inv h' \<and> hsize h' = hsize h - 1 \<and>
    members h' = members h - {p} \<and> self h' = self h \<and> nheap (nodes h' p) = None \<and>
    (\<forall>q. nkey (nodes h' q) = nkey (nodes h q))"
proof -
  obtain s where s: "hsize h = Suc s" using i by (cases "hsize h") auto
  obtain h4 where h4: "(if index < s
      then (case swap_at (h\<lparr>hsize := s\<rparr>) index s of None \<Rightarrow> None | Some h2 \<Rightarrow> fill_gap h2 index)
      else Some (h\<lparr>hsize := s\<rparr>)) = Some h4" "shape (Suc s) h4" "same_content (h\<lparr>hsize := s\<rparr>) h4"
    "ordered_keys s (keyf h4)" "arr h4 ! s = Some p"
    using remove_at_moved [OF inv i s] p by auto
  let ?h = "h4\<lparr>nodes := (nodes h4)(p := (nodes h4 p)\<lparr>nheap := None, nindex := -1\<rparr>),
               arr := (arr h4)[s := None]\<rparr>"
  have sz: "hsize h4 = s" using same_content_hsize [OF h4(3)] by simp
  have len: "s < length (arr h4)" using h4(2) by (simp add: shape_def)
  have "remove_at_impl h index = Some (p, ?h)"
    using s h4(1,5) len by (simp add: remove_at_impl_def elem_at_def)
  moreover have "shape s ?h" using shape_drop_last [OF h4(2) sz h4(5)] .
  moreover have "ordered_keys s (keyf ?h)"
  proof -
    have keyq: "keyf ?h k = keyf h4 k" if "k < s" for k
      using that by (simp add: keyf_def)
    have "keyf ?h (heap_parent j) \<le> keyf ?h j" if j: "0 < j" "j < s" for j
      using h4(4) j keyq [OF j(2)] keyq [OF less_trans [OF heap_parent_less [OF j(1)] j(2)]]
      unfolding ordered_keys_def by metis
    then show ?thesis unfolding ordered_keys_def by blast
  qed
  moreover have "members ?h = members h - {p}" "self h4 = self h"
    "\<forall>q. nkey (nodes h4 q) = nkey (nodes h q)"
    using h4(3) by (auto simp: members_def same_content_def)
  ultimately show ?thesis using sz s by (simp add: heap_inv_def)
qed

lemma members_index:
  assumes "heap_inv h" "p \<in> members h"
  shows "\<exists>i. nindex (nodes h p) = int i \<and> i < hsize h \<and> arr h ! i = Some p"
proof -
  have sh: "shape (hsize h) h" using assms(1) by (simp add: heap_inv_def)
  then obtain i where i: "i < hsize h" "arr h ! i = Some p"
    using assms(2) unfolding members_def shape_def by blast
  then show ?thesis using shape_cell [OF sh i(1)] by fastforce
qed

lemma heap_inv_root:
  assumes "heap_inv h" "0 < hsize h"
  shows "\<exists>p. arr h ! 0 = Some p \<and> arr h \<noteq> [] \<and> p \<in> members h \<and>
    (\<forall>q\<in>members h. nkey (nodes h p) \<le> nkey (nodes h q))"
proof -
  have sh: "shape (hsize h) h" and ord: "ordered_keys (hsize h) (keyf h)"
    using assms(1) by (simp_all add: heap_inv_def)
  obtain p where p: "arr h ! 0 = Some p" "nheap (nodes h p) = Some (self h)" "0 < length (arr h)"
    using shape_cell [OF sh assms(2)] by metis
  have "nkey (nodes h p) \<le> nkey (nodes h q)" if q: "q \<in> members h" for q
  proof -
    obtain i where "i < hsize h" "arr h ! i = Some q" using members_index [OF assms(1) q] by blast
    then show ?thesis using ordered_keys_root [OF ord, of i] p by (simp add: keyf_def)
  qed
  then show ?thesis using p by (auto simp: members_def)
qed

lemma heap_inv_empty:
  assumes "heap_inv h"
  shows "hsize h = 0 \<longleftrightarrow> members h = {}"
  using members_index [OF assms] heap_inv_root [OF assms] by fastforce

subsection \<open>Priority stores\<close>

text \<open>
  What a client of the heap (the delayed-task queue of an event loop) relies on: pushing a
  fresh element adds exactly it, popping returns an element of least key and removes exactly
  it, and an empty store says so.
\<close>

locale priority_store =
  fixes inv :: "'s \<Rightarrow> bool"
    and elems :: "'s \<Rightarrow> 'e set"
    and key :: "'s \<Rightarrow> 'e \<Rightarrow> 'k::linorder"
    and fresh :: "'s \<Rightarrow> 'e \<Rightarrow> bool"
    and push :: "'s \<Rightarrow> 'e \<Rightarrow> 's option"
    and pop :: "'s \<Rightarrow> ('e option \<times> 's) option"
  assumes finite_elems: "inv s \<Longrightarrow> finite (elems s)"
    and push_law: "inv s \<Longrightarrow> fresh s e \<Longrightarrow> \<exists>s'. push s e = Some s' \<and> inv s' \<and>
      elems s' = insert e (elems s) \<and> e \<notin> elems s \<and> key s' = key s \<and>
      (\<forall>x. x \<noteq> e \<and> fresh s x \<longrightarrow> fresh s' x)"
    and pop_empty: "inv s \<Longrightarrow> elems s = {} \<Longrightarrow> pop s = Some (None, s)"
    and pop_law: "inv s \<Longrightarrow> elems s \<noteq> {} \<Longrightarrow> \<exists>e s'. pop s = Some (Some e, s') \<and> inv s' \<and>
      e \<in> elems s \<and> (\<forall>x\<in>elems s. key s e \<le> key s x) \<and> elems s' = elems s - {e} \<and> key s' = key s"

fun push_all :: "('s \<Rightarrow> 'e \<Rightarrow> 's option) \<Rightarrow> 's \<Rightarrow> 'e list \<Rightarrow> 's option" where
  "push_all push s [] = Some s"
| "push_all push s (e # es) = (case push s e of None \<Rightarrow> None | Some s' \<Rightarrow> push_all push s' es)"

fun drain :: "('s \<Rightarrow> ('e option \<times> 's) option) \<Rightarrow> nat \<Rightarrow> 's \<Rightarrow> ('e list \<times> 's) option" where
  "drain pop 0 s = None"
| "drain pop (Suc n) s =
     (case pop s of
        None \<Rightarrow> None
      | Some (None, s') \<Rightarrow> Some ([], s')
      | Some (Some e, s') \<Rightarrow>
          (case drain pop n s' of None \<Rightarrow> None | Some (es, s'') \<Rightarrow> Some (e # es, s'')))"

context priority_store
begin

lemma push_all_ok:
  assumes "inv s" "distinct es" "\<forall>e\<in>set es. fresh s e"
  shows "\<exists>s'. push_all push s es = Some s' \<and> inv s' \<and> elems s' = elems s \<union> set es \<and> key s' = key s \<and>
    elems s \<inter> set es = {}"
  using assms
proof (induction es arbitrary: s)
  case (Cons e es)
  obtain s1 where s1: "push s e = Some s1" "inv s1" "elems s1 = insert e (elems s)" "e \<notin> elems s"
    "key s1 = key s" "\<forall>x. x \<noteq> e \<and> fresh s x \<longrightarrow> fresh s1 x"
    using push_law [OF Cons.prems(1), of e] Cons.prems(3) by auto
  have "\<forall>x\<in>set es. fresh s1 x" using s1(6) Cons.prems(2,3) by auto
  then show ?case using Cons.IH [OF s1(2)] Cons.prems(2) s1 by auto
qed simp

lemma drain_ok:
  assumes "inv s" "card (elems s) < n"
  shows "\<exists>es s'. drain pop n s = Some (es, s') \<and> inv s' \<and> elems s' = {} \<and> set es = elems s \<and>
    distinct es \<and> sorted (map (key s) es)"
  using assms
proof (induction n arbitrary: s)
  case (Suc n)
  show ?case
  proof (cases "elems s = {}")
    case True
    then show ?thesis using pop_empty [OF Suc.prems(1)] Suc.prems(1) by simp
  next
    case False
    obtain e s1 where s1: "pop s = Some (Some e, s1)" "inv s1" "e \<in> elems s"
      "\<forall>x\<in>elems s. key s e \<le> key s x" "elems s1 = elems s - {e}" "key s1 = key s"
      using pop_law [OF Suc.prems(1) False] by blast
    have "card (elems s1) < n"
      using Suc.prems(2) s1(3,5) card_Diff1_less [OF finite_elems [OF Suc.prems(1)] s1(3)] by simp
    then obtain es s' where "drain pop n s1 = Some (es, s')" "inv s'" "elems s' = {}"
      "set es = elems s1" "distinct es" "sorted (map (key s1) es)"
      using Suc.IH [OF s1(2)] by blast
    then show ?thesis using s1 by auto
  qed
qed simp

lemma push_drain_sorts:
  assumes "inv s" "elems s = {}" "distinct es" "\<forall>e\<in>set es. fresh s e"
  shows "\<exists>s1 out s2. push_all push s es = Some s1 \<and> drain pop (Suc (length es)) s1 = Some (out, s2) \<and>
    elems s2 = {} \<and> mset out = mset es \<and> sorted (map (key s) out)"
proof -
  obtain s1 where s1: "push_all push s es = Some s1" "inv s1" "elems s1 = set es" "key s1 = key s"
    using push_all_ok [OF assms(1,3,4)] assms(2) by auto
  have "card (elems s1) < Suc (length es)" using s1(3) assms(3) by (simp add: distinct_card)
  then obtain out s2 where out: "drain pop (Suc (length es)) s1 = Some (out, s2)" "elems s2 = {}"
    "set out = set es" "distinct out" "sorted (map (key s) out)"
    using drain_ok [OF s1(2)] s1(3,4) by metis
  moreover have "mset out = mset es"
    using out(3,4) assms(3) by (simp add: set_eq_iff_mset_eq_distinct)
  ultimately show ?thesis using s1(1) by blast
qed

end

lemma heap_finite_members:
  assumes "heap_inv h"
  shows "finite (members h)"
proof (rule finite_subset)
  show "members h \<subseteq> (\<lambda>i. the (arr h ! i)) ` {..<hsize h}"
    using members_index [OF assms] by force
qed simp

lemma first_impl_root:
  assumes "heap_inv h" "members h \<noteq> {}"
  shows "\<exists>p. first_impl h = Some p \<and> arr h ! 0 = Some p \<and> 0 < hsize h \<and> p \<in> members h \<and>
    (\<forall>q\<in>members h. nkey (nodes h p) \<le> nkey (nodes h q))"
  using heap_inv_root [OF assms(1)] heap_inv_empty [OF assms(1)] assms(2)
  by (auto simp: first_impl_def)

interpretation hs: priority_store heap_inv members "\<lambda>h p. nkey (nodes h p)"
  "\<lambda>h p. nheap (nodes h p) = None" add_last remove_first_or_null
proof unfold_locales
  fix h :: "'a ts_heap" and e
  assume inv: "heap_inv h"
  show "finite (members h)" using inv by (rule heap_finite_members)
  show "members h = {} \<Longrightarrow> remove_first_or_null h = Some (None, h)"
    using heap_inv_empty [OF inv] by (simp add: remove_first_or_null_def)
  show "\<exists>s'. add_last h e = Some s' \<and> heap_inv s' \<and> members s' = insert e (members h) \<and>
      e \<notin> members h \<and> (\<lambda>p. nkey (nodes s' p)) = (\<lambda>p. nkey (nodes h p)) \<and>
      (\<forall>x. x \<noteq> e \<and> nheap (nodes h x) = None \<longrightarrow> nheap (nodes s' x) = None)"
    if "nheap (nodes h e) = None"
    using add_impl_spec [OF inv that] that by (auto simp: add_last_def members_def)
  show "\<exists>e s'. remove_first_or_null h = Some (Some e, s') \<and> heap_inv s' \<and> e \<in> members h \<and>
      (\<forall>x\<in>members h. nkey (nodes h e) \<le> nkey (nodes h x)) \<and> members s' = members h - {e} \<and>
      (\<lambda>p. nkey (nodes s' p)) = (\<lambda>p. nkey (nodes h p))"
    if ne: "members h \<noteq> {}"
  proof -
    obtain p where p: "arr h ! 0 = Some p" "0 < hsize h" "p \<in> members h"
      "\<forall>q\<in>members h. nkey (nodes h p) \<le> nkey (nodes h q)"
      using first_impl_root [OF inv ne] by blast
    then show ?thesis
      using remove_at_impl_spec [OF inv p(2,1)] by (auto simp: remove_first_or_null_def)
  qed
qed

lemma add_last_spec:
  assumes "heap_inv h" "nheap (nodes h p) = None"
  shows "\<exists>h'. add_last h p = Some h' \<and> heap_inv h' \<and> members h' = insert p (members h)"
  using add_impl_spec [OF assms] by (auto simp: add_last_def)

lemma new_heap_inv:
  assumes "\<forall>p. nheap (mem p) \<noteq> Some me"
  shows "heap_inv (new_heap me mem)" "members (new_heap me mem) = {}"
  using assms by (simp_all add: new_heap_def heap_inv_def shape_def ordered_keys_def members_def)

lemma remove_member:
  assumes inv: "heap_inv h" and p: "p \<in> members h"
  shows "\<exists>h'. remove h p = Some (True, h') \<and> heap_inv h' \<and> members h' = members h - {p} \<and>
    nheap (nodes h' p) = None"
proof -
  obtain i where i: "nindex (nodes h p) = int i" "i < hsize h" "arr h ! i = Some p"
    using members_index [OF inv p] by blast
  moreover have "nheap (nodes h p) \<noteq> None" using p by (simp add: members_def)
  ultimately show ?thesis
    using remove_at_impl_spec [OF inv i(2,3)] by (auto simp: remove_def)
qed

lemma find_from_spec:
  assumes "\<forall>i\<in>set is. \<exists>p. elem_at h i = Some (Some p)"
  shows "(\<exists>i\<in>set is. \<exists>p. elem_at h i = Some (Some p) \<and> predicate (Some (nodes h p)) \<and>
      find_from predicate h is = Some (Some p)) \<or>
    (find_from predicate h is = Some None \<and>
      (\<forall>i\<in>set is. \<forall>p. elem_at h i = Some (Some p) \<longrightarrow> \<not> predicate (Some (nodes h p))))"
  using assms by (induction "is") auto

subsection \<open>Properties\<close>

text \<open>C40: Adding distinct nodes to a new heap and removing first elements until the heap answers
  null returns all of them, each once, in non-decreasing key order. No array access leaves the
  array on the way (every operation returns a value).\<close>

theorem heap_push_drain_sorts:
  assumes "\<forall>p. nheap (mem p) \<noteq> Some me" "distinct ps" "\<forall>p\<in>set ps. nheap (mem p) = None"
  shows "\<exists>h out h'. push_all add_last (new_heap me mem) ps = Some h \<and>
    drain remove_first_or_null (Suc (length ps)) h = Some (out, h') \<and>
    members h' = {} \<and> mset out = mset ps \<and> sorted (map (\<lambda>p. nkey (mem p)) out)"
  using hs.push_drain_sorts [OF new_heap_inv [OF assms(1)] assms(2)] assms(3)
  by (simp add: new_heap_def)

theorem heap_push_drain_sorts_witness:
  "\<exists>h out h'. push_all add_last (new_heap 7 (\<lambda>p. \<lparr>nkey = 10 - p, nheap = None, nindex = -1\<rparr>)) [3, 1, 4::nat] = Some h \<and>
    drain remove_first_or_null (Suc (length [3, 1, 4::nat])) h = Some (out, h') \<and> members h' = {} \<and>
    mset out = mset [3, 1, 4] \<and> sorted (map (\<lambda>p. 10 - p) out)"
  using heap_push_drain_sorts [of "\<lambda>p. \<lparr>nkey = 10 - p, nheap = None, nindex = -1\<rparr>" 7 "[3, 1, 4]"]
  by simp

text \<open>\<open>add_last\<close>, \<open>add_last_if\<close>, \<open>remove_first_or_null\<close>, \<open>remove_first_if\<close> and \<open>remove\<close> of a
  node that is in this heap or in none keep the heap invariant (back pointers, null tail, heap
  order) and never read outside the array.\<close>

lemma heap_ops_keep_inv:
  assumes inv: "heap_inv h" and own: "nheap (nodes h p) = None \<or> nheap (nodes h p) = Some (self h)"
  shows "(nheap (nodes h p) = None \<longrightarrow> (\<exists>h'. add_last h p = Some h' \<and> heap_inv h') \<and>
      (\<exists>b h'. add_last_if c h p = Some (b, h') \<and> heap_inv h')) \<and>
    (\<exists>r h'. remove_first_or_null h = Some (r, h') \<and> heap_inv h') \<and>
    (\<exists>r h'. remove_first_if f h = Some (r, h') \<and> heap_inv h') \<and>
    (\<exists>b h'. remove h p = Some (b, h') \<and> heap_inv h')"
proof (intro conjI impI)
  show "\<exists>h'. add_last h p = Some h' \<and> heap_inv h'" if "nheap (nodes h p) = None"
    using add_last_spec [OF inv that] by blast
  show "\<exists>b h'. add_last_if c h p = Some (b, h') \<and> heap_inv h'" if "nheap (nodes h p) = None"
    using add_impl_spec [OF inv that] inv by (auto simp: add_last_if_def)
  show "\<exists>r h'. remove_first_or_null h = Some (r, h') \<and> heap_inv h'"
    using hs.pop_law [OF inv] hs.pop_empty [OF inv] inv by (cases "members h = {}") auto
  show "\<exists>r h'. remove_first_if f h = Some (r, h') \<and> heap_inv h'"
  proof (cases "members h = {}")
    case True
    then show ?thesis using inv heap_inv_empty [OF inv] by (simp add: remove_first_if_def first_impl_def)
  next
    case False
    then obtain p where p: "first_impl h = Some p" "arr h ! 0 = Some p" "0 < hsize h"
      using first_impl_root [OF inv] by blast
    obtain h' where "remove_at_impl h 0 = Some (p, h')" "heap_inv h'"
      using remove_at_impl_spec [OF inv p(3,2)] by blast
    then show ?thesis using p(1) inv by (simp add: remove_first_if_def)
  qed
  show "\<exists>b h'. remove h p = Some (b, h') \<and> heap_inv h'"
    using own remove_member [OF inv, of p] inv by (auto simp: remove_def members_def)
qed

lemma heap_ops_keep_inv_witness:
  "\<exists>h'. add_last (new_heap 7 (\<lambda>p. \<lparr>nkey = p, nheap = None, nindex = -1\<rparr>)) (2::nat) = Some h' \<and> heap_inv h'"
  using heap_ops_keep_inv [OF new_heap_inv(1) [of "\<lambda>p. \<lparr>nkey = p, nheap = None, nindex = -1\<rparr>" 7], of 2]
  by (simp add: new_heap_def)

text \<open>\<open>remove(node)\<close> on a heap in its invariant takes out exactly that node, answers true and
  resets the node's back pointer; on a node that is in no heap it answers false and changes
  nothing.\<close>

lemma heap_remove_exact:
  assumes "heap_inv h"
  shows "(p \<in> members h \<longrightarrow> (\<exists>h'. remove h p = Some (True, h') \<and> members h' = members h - {p} \<and>
      heap_inv h' \<and> nheap (nodes h' p) = None)) \<and>
    (nheap (nodes h p) = None \<longrightarrow> remove h p = Some (False, h))"
proof (intro conjI impI)
  show "\<exists>h'. remove h p = Some (True, h') \<and> members h' = members h - {p} \<and> heap_inv h' \<and>
      nheap (nodes h' p) = None" if "p \<in> members h"
    using remove_member [OF assms that] by blast
qed (simp add: remove_def)

lemma heap_remove_exact_witness:
  "remove (new_heap 7 (\<lambda>p. \<lparr>nkey = p, nheap = None, nindex = -1\<rparr>)) (2::nat) =
     Some (False, new_heap 7 (\<lambda>p. \<lparr>nkey = p, nheap = None, nindex = -1\<rparr>))"
  using heap_remove_exact [OF new_heap_inv(1) [of "\<lambda>p. \<lparr>nkey = p, nheap = None, nindex = -1\<rparr>" 7], of 2]
  by (simp add: new_heap_def)

text \<open>\<open>find\<close> answers a node of the heap that satisfies the predicate, and answers null only
  when no node of the heap satisfies it.\<close>

lemma heap_find_complete:
  assumes inv: "heap_inv h"
  shows "(\<exists>p\<in>members h. find_node f h = Some (Some p) \<and> f (Some (nodes h p))) \<or>
    (find_node f h = Some None \<and> (\<forall>p\<in>members h. \<not> f (Some (nodes h p))))"
proof -
  have sh: "shape (hsize h) h" using inv by (simp add: heap_inv_def)
  have cell: "\<exists>p. elem_at h i = Some (Some p) \<and> p \<in> members h" if "i < hsize h" for i
    using shape_cell [OF sh that] by (auto simp: elem_at_def members_def)
  have idx: "\<exists>i<hsize h. elem_at h i = Some (Some p)" if p: "p \<in> members h" for p
  proof -
    obtain i where "i < hsize h" "arr h ! i = Some p" using members_index [OF inv p] by blast
    then show ?thesis using shape_cell [OF sh] by (auto simp: elem_at_def)
  qed
  have "\<forall>i\<in>set [0..<hsize h]. \<exists>p. elem_at h i = Some (Some p)" using cell by fastforce
  from find_from_spec [OF this, of f] show ?thesis
    using cell idx by (fastforce simp: find_node_def)
qed

lemma heap_find_complete_witness:
  "find_node (\<lambda>_. True) (new_heap 7 (\<lambda>p. \<lparr>nkey = p, nheap = None, nindex = -1\<rparr>)) = Some None"
  using heap_find_complete [OF new_heap_inv(1) [of "\<lambda>p. \<lparr>nkey = p::nat, nheap = None, nindex = -1\<rparr>" 7], of "\<lambda>_. True"]
  by (simp add: new_heap_def members_def)

text \<open>After \<open>clear()\<close> a node that was in the heap still claims to be in it, so a later
  \<open>remove(node)\<close> runs \<open>remove_at_impl\<close> on the empty heap, which is undefined behaviour.\<close>

lemma clear_then_remove_undefined:
  assumes "heap_inv h" "p \<in> members h"
  shows "p \<in> members (clear h) \<and> is_empty (clear h) \<and> remove (clear h) p = None"
  using members_index [OF assms] assms(2)
  by (auto simp: members_def clear_def is_empty_def remove_def remove_at_impl_def)

lemma clear_then_remove_undefined_witness:
  "\<exists>h. add_last (new_heap 7 (\<lambda>p. \<lparr>nkey = p, nheap = None, nindex = -1\<rparr>)) (2::nat) = Some h \<and>
     remove (clear h) 2 = None"
proof -
  obtain h where h: "add_last (new_heap 7 (\<lambda>p. \<lparr>nkey = p, nheap = None, nindex = -1\<rparr>)) (2::nat) = Some h"
    "heap_inv h" "2 \<in> members h"
    using add_last_spec [OF new_heap_inv(1) [of "\<lambda>p. \<lparr>nkey = p, nheap = None, nindex = -1\<rparr>" 7], of 2]
    by (auto simp: new_heap_def)
  then show ?thesis using clear_then_remove_undefined [OF h(2,3)] by blast
qed

end
