(* ===== verification/Dispatched_Continuation.thy ===== *)
theory Dispatched_Continuation
  imports Prelude
begin

unbundle bit_operations_syntax

text \<open>
  \<open>internal/DispatchedContinuation.hpp\<close>: the slot that lets one cancellable continuation be
  reused, kept in one atomic word (0 null, 1 claimed, an even address a continuation, another
  odd value the tagged address of a boxed cancellation cause), and the resumption paths through
  the dispatcher or the thread's unconfined event loop. Each loop of the source is a load and a
  compare-and-swap; a failed swap changes nothing, so an operation is its last iteration.
\<close>

type_synonym addr = "64 word"

datatype 'v disp_event =
    Sent_To_Dispatcher
  | Sent_To_Unconfined_Loop
  | Continuation_Resumed "'v result"
  | Child_Detached addr
  | Yield_Dispatched
  | Fatal_Reported

record 'v dispatched =
  reusable_cc :: addr
  boxes :: "addr \<Rightarrow> exception_ptr option option"
  dstate :: "'v result option"
  dmode :: int
  dlog :: "'v disp_event list"

subsection \<open>Dispatch modes\<close>

definition MODE_ATOMIC :: int where "MODE_ATOMIC = 0"
definition MODE_CANCELLABLE :: int where "MODE_CANCELLABLE = 1"
definition MODE_CANCELLABLE_REUSABLE :: int where "MODE_CANCELLABLE_REUSABLE = 2"
definition MODE_UNDISPATCHED :: int where "MODE_UNDISPATCHED = 4"
definition MODE_UNINITIALIZED :: int where "MODE_UNINITIALIZED = -1"

lemmas mode_defs = MODE_ATOMIC_def MODE_CANCELLABLE_def MODE_CANCELLABLE_REUSABLE_def
  MODE_UNDISPATCHED_def MODE_UNINITIALIZED_def

definition is_cancellable_mode :: "int \<Rightarrow> bool" where
  "is_cancellable_mode mode \<longleftrightarrow> mode = MODE_CANCELLABLE \<or> mode = MODE_CANCELLABLE_REUSABLE"

definition is_reusable_mode :: "int \<Rightarrow> bool" where
  "is_reusable_mode mode \<longleftrightarrow> mode = MODE_CANCELLABLE_REUSABLE"

subsection \<open>The reusable slot\<close>

definition k_reusable_claimed :: addr where "k_reusable_claimed = 1"
definition k_postponed_tag :: addr where "k_postponed_tag = 1"

definition is_postponed_cancellation :: "addr \<Rightarrow> bool" where
  "is_postponed_cancellation state \<longleftrightarrow> state AND k_postponed_tag \<noteq> 0 \<and> state \<noteq> k_reusable_claimed"

definition postponed_cancellation_box :: "addr \<Rightarrow> addr" where
  "postponed_cancellation_box state = state AND NOT k_postponed_tag"

definition is_reusable_slot :: "'v dispatched \<Rightarrow> bool" where
  "is_reusable_slot d \<longleftrightarrow> reusable_cc d \<noteq> 0"

text \<open>\<open>None\<close>: the loop goes around again, waiting for another thread.\<close>

definition await_reusability :: "'v dispatched \<Rightarrow> unit option" where
  "await_reusability d = (if reusable_cc d \<noteq> k_reusable_claimed then Some () else None)"

definition reusable_cancellable_continuation :: "'v dispatched \<Rightarrow> addr option" where
  "reusable_cancellable_continuation d =
     (let state = reusable_cc d in
      if state = 0 \<or> state = k_reusable_claimed \<or> is_postponed_cancellation state then None
      else Some state)"

definition release :: "'v dispatched \<Rightarrow> 'v dispatched option" where
  "release d = (case await_reusability d of
     None \<Rightarrow> None
   | Some _ \<Rightarrow>
       (case reusable_cancellable_continuation d of
          None \<Rightarrow> Some d
        | Some cc \<Rightarrow> Some (d\<lparr>dlog := dlog d @ [Child_Detached cc]\<rparr>)))"

definition claim_reusable_cancellable_continuation ::
    "'v dispatched \<Rightarrow> (addr option \<times> 'v dispatched) option" where
  "claim_reusable_cancellable_continuation d =
     (let state = reusable_cc d in
      if state = 0 then Some (None, d\<lparr>reusable_cc := k_reusable_claimed\<rparr>)
      else if state = k_reusable_claimed then None
      else if is_postponed_cancellation state then None
      else Some (Some state, d\<lparr>reusable_cc := k_reusable_claimed\<rparr>))"

text \<open>The continuation passed in is the address of its implementation object.\<close>

definition try_release_claimed_continuation ::
    "addr \<Rightarrow> 'v dispatched \<Rightarrow> (exception_ptr option \<times> 'v dispatched) res" where
  "try_release_claimed_continuation impl d =
     (let state = reusable_cc d in
      if state = k_reusable_claimed then Inr (None, d\<lparr>reusable_cc := impl\<rparr>)
      else if is_postponed_cancellation state
      then (let box = postponed_cancellation_box state in
            case boxes d box of
              None \<Rightarrow> Inl Undefined_Behaviour
            | Some cause \<Rightarrow> Inr (cause, d\<lparr>reusable_cc := 0, boxes := (boxes d)(box := None)\<rparr>))
      else Inl Assertion_Failed)"

text \<open>\<open>box\<close> is the address that \<open>new std::exception_ptr(cause)\<close> returns.\<close>

definition postpone_cancellation ::
    "addr \<Rightarrow> exception_ptr option \<Rightarrow> 'v dispatched \<Rightarrow> bool \<times> 'v dispatched" where
  "postpone_cancellation box cause d =
     (let d1 = d\<lparr>boxes := (boxes d)(box := Some cause)\<rparr>;
          boxed = box OR k_postponed_tag;
          state = reusable_cc d1
      in if state = k_reusable_claimed then (True, d1\<lparr>reusable_cc := boxed\<rparr>)
         else if is_postponed_cancellation state then (True, d1\<lparr>boxes := (boxes d1)(box := None)\<rparr>)
         else (False, d1\<lparr>reusable_cc := 0, boxes := (boxes d1)(box := None)\<rparr>))"

subsection \<open>Resumption\<close>

text \<open>
  What the surroundings answer: whether there is a context, the job in it (its activity and its
  cancellation exception), whether the dispatcher asks for a dispatch or throws, whether its
  \<open>dispatch\<close> throws, and the thread's event loop (queue empty, loop active).
\<close>

record disp_env =
  context_present :: bool
  context_job :: "(bool \<times> exception_ptr) option"
  dispatch_needed :: "exception_ptr + bool"
  dispatch_throws :: "exception_ptr option"
  event_loop :: "(bool \<times> bool) option"

definition log_d :: "'v disp_event \<Rightarrow> ('v dispatched, unit) exec" where
  "log_d e = modify_e (\<lambda>d. d\<lparr>dlog := dlog d @ [e]\<rparr>)"

definition safe_is_dispatch_needed :: "disp_env \<Rightarrow> ('s, bool) exec" where
  "safe_is_dispatch_needed env = (case dispatch_needed env of
     Inl e \<Rightarrow> throw_e (Dispatch_Exception e) | Inr b \<Rightarrow> return_e b)"

definition safe_dispatch :: "disp_env \<Rightarrow> ('v dispatched, unit) exec" where
  "safe_dispatch env = (case dispatch_throws env of
     Some e \<Rightarrow> throw_e (Dispatch_Exception e) | None \<Rightarrow> log_d Sent_To_Dispatcher)"

definition store_state :: "'v result \<Rightarrow> int \<Rightarrow> ('v dispatched, unit) exec" where
  "store_state r mode = modify_e (\<lambda>d. d\<lparr>dstate := Some r, dmode := mode\<rparr>)"

text \<open>The events the loop processes after the block belong to other tasks.\<close>

definition execute_unconfined ::
    "disp_env \<Rightarrow> 'v result \<Rightarrow> int \<Rightarrow> bool \<Rightarrow> ('v dispatched, unit) exec \<Rightarrow> ('v dispatched, bool) exec" where
  "execute_unconfined env cont_state mode do_yield block =
     (if mode = MODE_UNINITIALIZED then throw_e Assertion_Failed
      else case event_loop env of
        None \<Rightarrow> seq_e block (return_e False)
      | Some (queue_empty, loop_active) \<Rightarrow>
          if do_yield \<and> queue_empty then return_e False
          else if loop_active
          then seq_e (store_state cont_state mode)
                 (seq_e (log_d Sent_To_Unconfined_Loop) (return_e True))
          else seq_e (catch_e block (log_d Fatal_Reported)) (return_e False))"

definition needs_dispatch :: "disp_env \<Rightarrow> ('s, bool) exec" where
  "needs_dispatch env = (if context_present env then safe_is_dispatch_needed env else return_e False)"

definition resume_with :: "disp_env \<Rightarrow> 'v result \<Rightarrow> ('v dispatched, unit) exec" where
  "resume_with env r = bind_e (needs_dispatch env) (\<lambda>needed.
     if needed then seq_e (store_state r MODE_ATOMIC) (safe_dispatch env)
     else bind_e (execute_unconfined env r MODE_ATOMIC False (log_d (Continuation_Resumed r)))
            (\<lambda>_. return_e ()))"

definition resume_cancelled :: "disp_env \<Rightarrow> ('v dispatched, bool) exec" where
  "resume_cancelled env = (case (if context_present env then context_job env else None) of
     Some (False, cause) \<Rightarrow> seq_e (resume_with env (Failure (Some cause))) (return_e True)
   | _ \<Rightarrow> return_e False)"

definition resume_undispatched_with :: "'v result \<Rightarrow> ('v dispatched, unit) exec" where
  "resume_undispatched_with r = log_d (Continuation_Resumed r)"

definition resume_cancellable_with :: "disp_env \<Rightarrow> 'v result \<Rightarrow> ('v dispatched, unit) exec" where
  "resume_cancellable_with env r = bind_e (needs_dispatch env) (\<lambda>needed.
     if needed then seq_e (store_state r MODE_CANCELLABLE) (safe_dispatch env)
     else bind_e (execute_unconfined env r MODE_CANCELLABLE False
                   (bind_e (resume_cancelled env) (\<lambda>c. if c then return_e () else resume_undispatched_with r)))
            (\<lambda>_. return_e ()))"

definition dispatch_yield :: "'v \<Rightarrow> ('v dispatched, unit) exec" where
  "dispatch_yield v = seq_e (store_state (Success v) MODE_CANCELLABLE) (log_d Yield_Dispatched)"

definition take_state :: "('v dispatched, 'v result) exec" where
  "take_state = read_e (\<lambda>d. case dstate d of
     None \<Rightarrow> throw_e Assertion_Failed
   | Some taken \<Rightarrow> seq_e (modify_e (\<lambda>d. d\<lparr>dstate := None\<rparr>)) (return_e taken))"

text \<open>\<open>DispatchedTask::run\<close> of this task. Its \<open>cancel_completed_result\<close> is the empty default, and
  the only exceptions inside come from the resumed continuation, which is not part of the model.\<close>

definition run :: "disp_env \<Rightarrow> ('v dispatched, unit) exec" where
  "run env = read_e (\<lambda>d.
     if dmode d = MODE_UNINITIALIZED then throw_e Assertion_Failed
     else bind_e take_state (\<lambda>state.
       let exception = exception_or_null state;
           job = (if exception = None \<and> is_cancellable_mode (dmode d) \<and> context_present env
                  then context_job env else None)
       in case job of
            Some (False, cause) \<Rightarrow> log_d (Continuation_Resumed (Failure (Some cause)))
          | _ \<Rightarrow> (case exception of
                 Some e \<Rightarrow> log_d (Continuation_Resumed (Failure (Some e)))
               | None \<Rightarrow> bind_e (get_or_throw state) (\<lambda>v. log_d (Continuation_Resumed (Success v))))))"

definition yield_undispatched :: "disp_env \<Rightarrow> (unit dispatched, bool) exec" where
  "yield_undispatched env = execute_unconfined env (Success ()) MODE_CANCELLABLE True (run env)"

lemmas [op_defs] = log_d_def safe_is_dispatch_needed_def safe_dispatch_def store_state_def
  execute_unconfined_def needs_dispatch_def resume_with_def resume_cancelled_def
  resume_undispatched_with_def resume_cancellable_with_def dispatch_yield_def take_state_def run_def catch_e_def

subsection \<open>The four-state machine behind the word\<close>

datatype reuse = Reuse_Null | Reuse_CC addr | Reuse_Claimed | Reuse_Postponed "exception_ptr option"

fun reuse_claim :: "reuse \<Rightarrow> (addr option \<times> reuse) option" where
  "reuse_claim Reuse_Null = Some (None, Reuse_Claimed)"
| "reuse_claim (Reuse_CC c) = Some (Some c, Reuse_Claimed)"
| "reuse_claim Reuse_Claimed = None"
| "reuse_claim (Reuse_Postponed e) = None"

fun reuse_release :: "addr \<Rightarrow> reuse \<Rightarrow> (exception_ptr option \<times> reuse) option" where
  "reuse_release c Reuse_Claimed = Some (None, Reuse_CC c)"
| "reuse_release c (Reuse_Postponed e) = Some (e, Reuse_Null)"
| "reuse_release c _ = None"

fun reuse_postpone :: "exception_ptr option \<Rightarrow> reuse \<Rightarrow> bool \<times> reuse" where
  "reuse_postpone e Reuse_Claimed = (True, Reuse_Postponed e)"
| "reuse_postpone e (Reuse_Postponed e') = (True, Reuse_Postponed e')"
| "reuse_postpone e _ = (False, Reuse_Null)"

text \<open>Addresses of heap objects are even and not null.\<close>

definition object_addr :: "addr \<Rightarrow> bool" where
  "object_addr a \<longleftrightarrow> a \<noteq> 0 \<and> a AND 1 = 0"

definition reuse_abs :: "'v dispatched \<Rightarrow> reuse" where
  "reuse_abs d =
     (if reusable_cc d = 0 then Reuse_Null
      else if reusable_cc d = k_reusable_claimed then Reuse_Claimed
      else if is_postponed_cancellation (reusable_cc d)
      then Reuse_Postponed (the (boxes d (postponed_cancellation_box (reusable_cc d))))
      else Reuse_CC (reusable_cc d))"

definition slot_inv :: "'v dispatched \<Rightarrow> bool" where
  "slot_inv d \<longleftrightarrow> (is_postponed_cancellation (reusable_cc d) \<longrightarrow>
     (\<exists>b e. object_addr b \<and> reusable_cc d = b OR k_postponed_tag \<and> boxes d b = Some e))"

lemma tag_bits:
  assumes "object_addr b"
  shows "b OR 1 \<noteq> 0" "b OR 1 \<noteq> 1" "(b OR 1) AND 1 = 1" "(b OR 1) AND NOT 1 = b"
proof -
  have e: "even b" using assms by (simp add: object_addr_def and_one_eq even_iff_mod_2_eq_zero)
  have b0: "\<not> bit b 0" using e by (simp add: bit_0)
  show box: "(b OR 1) AND NOT 1 = b"
    using b0 by (intro bit_word_eqI) (auto simp: bit_simps intro!: Nat.gr0I)
  show "(b OR 1) AND 1 = 1" by (intro bit_word_eqI) (auto simp: bit_simps)
  show "b OR 1 \<noteq> 0" using box assms by (auto simp: object_addr_def)
  show "b OR 1 \<noteq> 1" using box assms by (auto simp: object_addr_def)
qed

lemma tagged_simps:
  assumes "object_addr b"
  shows "is_postponed_cancellation (b OR k_postponed_tag)"
    "postponed_cancellation_box (b OR k_postponed_tag) = b"
    "\<not> is_postponed_cancellation b" "b \<noteq> k_reusable_claimed" "b \<noteq> 0"
    "b OR k_postponed_tag \<noteq> k_reusable_claimed" "b OR k_postponed_tag \<noteq> 0"
  using tag_bits [OF assms] assms
  by (auto simp: is_postponed_cancellation_def postponed_cancellation_box_def object_addr_def
      k_reusable_claimed_def k_postponed_tag_def)

lemma special_not_postponed [simp]:
  "\<not> is_postponed_cancellation 0" "\<not> is_postponed_cancellation k_reusable_claimed"
  "k_reusable_claimed \<noteq> 0"
  by (simp_all add: is_postponed_cancellation_def k_reusable_claimed_def)

lemma slot_postponedE:
  assumes "slot_inv d" "is_postponed_cancellation (reusable_cc d)"
  obtains b e where "object_addr b" "reusable_cc d = b OR k_postponed_tag" "boxes d b = Some e"
    "reuse_abs d = Reuse_Postponed e"
  using assms by (auto simp: slot_inv_def reuse_abs_def tagged_simps)

lemma claim_refines:
  assumes "slot_inv d"
  shows "map_option (\<lambda>(r, d'). (r, reuse_abs d')) (claim_reusable_cancellable_continuation d) =
      reuse_claim (reuse_abs d)"
    "claim_reusable_cancellable_continuation d = Some (r, d') \<Longrightarrow> slot_inv d' \<and> boxes d' = boxes d"
  by (auto simp: claim_reusable_cancellable_continuation_def Let_def reuse_abs_def slot_inv_def
      split: if_splits)

lemma release_refines:
  assumes inv: "slot_inv d" and c: "object_addr c"
  shows "case try_release_claimed_continuation c d of
      Inl e \<Rightarrow> e = Assertion_Failed \<and> reuse_release c (reuse_abs d) = None
    | Inr (r, d') \<Rightarrow> reuse_release c (reuse_abs d) = Some (r, reuse_abs d') \<and> slot_inv d'"
proof (cases "is_postponed_cancellation (reusable_cc d)")
  case True
  then obtain b e where "object_addr b" "reusable_cc d = b OR k_postponed_tag" "boxes d b = Some e"
    "reuse_abs d = Reuse_Postponed e"
    using slot_postponedE [OF inv] by metis
  then show ?thesis
    by (simp add: try_release_claimed_continuation_def tagged_simps reuse_abs_def slot_inv_def)
next
  case False
  then show ?thesis
    using c by (auto simp: try_release_claimed_continuation_def Let_def reuse_abs_def slot_inv_def
        tagged_simps split: if_splits)
qed

lemma postpone_refines:
  assumes inv: "slot_inv d" and b: "object_addr b" "boxes d b = None"
  shows "reuse_postpone e (reuse_abs d) =
      (fst (postpone_cancellation b e d), reuse_abs (snd (postpone_cancellation b e d)))"
    "slot_inv (snd (postpone_cancellation b e d))"
proof -
  consider (claimed) "reusable_cc d = k_reusable_claimed"
    | (postponed) "is_postponed_cancellation (reusable_cc d)" "reusable_cc d \<noteq> k_reusable_claimed"
    | (other) "reusable_cc d \<noteq> k_reusable_claimed" "\<not> is_postponed_cancellation (reusable_cc d)"
    by blast
  then have "reuse_postpone e (reuse_abs d) =
      (fst (postpone_cancellation b e d), reuse_abs (snd (postpone_cancellation b e d))) \<and>
      slot_inv (snd (postpone_cancellation b e d))"
  proof cases
    case claimed
    then show ?thesis
      using b by (auto simp: postpone_cancellation_def Let_def reuse_abs_def tagged_simps slot_inv_def)
  next
    case postponed
    then obtain c x where c: "object_addr c" "reusable_cc d = c OR k_postponed_tag" "boxes d c = Some x"
      "reuse_abs d = Reuse_Postponed x"
      using slot_postponedE [OF inv] by metis
    moreover have "c \<noteq> b" using c(3) b(2) by auto
    ultimately show ?thesis using postponed
      by (auto simp: postpone_cancellation_def Let_def reuse_abs_def tagged_simps slot_inv_def)
  next
    case other
    then show ?thesis
      by (auto simp: postpone_cancellation_def Let_def reuse_abs_def slot_inv_def)
  qed
  then show "reuse_postpone e (reuse_abs d) =
      (fst (postpone_cancellation b e d), reuse_abs (snd (postpone_cancellation b e d)))"
    "slot_inv (snd (postpone_cancellation b e d))" by simp_all
qed

subsection \<open>The interface of the slot\<close>

text \<open>
  What \<open>CancellableContinuationImpl\<close> relies on: claiming, releasing and postponing follow the
  four-state machine, whatever the encoding. The client lemma is the reason the machine exists:
  a cancellation that arrives while the continuation is claimed reaches its owner at release.
\<close>

locale reuse_slot =
  fixes inv :: "'s \<Rightarrow> bool"
    and absr :: "'s \<Rightarrow> reuse"
    and free :: "'s \<Rightarrow> addr \<Rightarrow> bool"
    and claim :: "'s \<Rightarrow> (addr option \<times> 's) option"
    and rel :: "addr \<Rightarrow> 's \<Rightarrow> (exception_ptr option \<times> 's) res"
    and postpone :: "addr \<Rightarrow> exception_ptr option \<Rightarrow> 's \<Rightarrow> bool \<times> 's"
  assumes claim_law: "inv s \<Longrightarrow> reuse_claim (absr s) = map_option (\<lambda>(r, s'). (r, absr s')) (claim s)"
    and claim_inv: "inv s \<Longrightarrow> claim s = Some (r, s') \<Longrightarrow> inv s'"
    and rel_law: "inv s \<Longrightarrow> object_addr c \<Longrightarrow> reuse_release c (absr s) = Some (e, q) \<Longrightarrow>
      \<exists>s'. rel c s = Inr (e, s') \<and> absr s' = q \<and> inv s'"
    and postpone_law: "inv s \<Longrightarrow> free s b \<Longrightarrow> reuse_postpone e (absr s) =
      (fst (postpone b e s), absr (snd (postpone b e s)))"
    and postpone_inv: "inv s \<Longrightarrow> free s b \<Longrightarrow> inv (snd (postpone b e s))"
    and postpone_free: "free s a \<Longrightarrow> a \<noteq> b \<Longrightarrow> free (snd (postpone b e s)) a"

fun postpone_all ::
    "(addr \<Rightarrow> exception_ptr option \<Rightarrow> 's \<Rightarrow> bool \<times> 's) \<Rightarrow> (addr \<times> exception_ptr option) list \<Rightarrow> 's \<Rightarrow> bool list \<times> 's" where
  "postpone_all postpone [] s = ([], s)"
| "postpone_all postpone ((b, e) # ps) s =
     (let (r, s1) = postpone b e s; (rs, s2) = postpone_all postpone ps s1 in (r # rs, s2))"

context reuse_slot
begin

lemma postponed_stays:
  assumes "inv s" "absr s = Reuse_Postponed e" "distinct (map fst ps)" "\<forall>b\<in>set (map fst ps). free s b"
  shows "inv (snd (postpone_all postpone ps s)) \<and>
    absr (snd (postpone_all postpone ps s)) = Reuse_Postponed e \<and>
    (\<forall>r\<in>set (fst (postpone_all postpone ps s)). r)"
  using assms
proof (induction ps arbitrary: s)
  case (Cons p ps)
  obtain b x where p: "p = (b, x)" by force
  have f: "free s b" using Cons.prems(4) p by simp
  obtain r s1 where s1: "postpone b x s = (r, s1)" by force
  have "r" "absr s1 = Reuse_Postponed e"
    using postpone_law [OF Cons.prems(1) f, of x] Cons.prems(2) s1 by simp_all
  moreover have "inv s1" using postpone_inv [OF Cons.prems(1) f, of x] s1 by simp
  moreover have "\<forall>a\<in>set (map fst ps). free s1 a"
    using postpone_free [of s _ b x] Cons.prems(3,4) p s1 by (metis distinct.simps(2) list.set_intros(2) list.simps(9) fst_conv snd_conv)
  ultimately show ?case using Cons.IH [of s1] Cons.prems(3) p s1 by (auto split: prod.splits)
qed simp

lemma postponed_delivered:
  assumes "inv s" "absr s = Reuse_Claimed" "distinct (map fst ((b, e) # ps))"
    "\<forall>a\<in>set (map fst ((b, e) # ps)). free s a" "object_addr c"
  shows "\<exists>rs s1 s2. postpone_all postpone ((b, e) # ps) s = (rs, s1) \<and> (\<forall>r\<in>set rs. r) \<and>
    rel c s1 = Inr (e, s2) \<and> absr s2 = Reuse_Null \<and> inv s2"
proof -
  obtain r s1 where s1: "postpone b e s = (r, s1)" by force
  have f: "free s b" using assms(4) by simp
  have "r" "absr s1 = Reuse_Postponed e"
    using postpone_law [OF assms(1) f, of e] assms(2) s1 by simp_all
  moreover have i: "inv s1" using postpone_inv [OF assms(1) f, of e] s1 by simp
  moreover have "\<forall>a\<in>set (map fst ps). free s1 a"
  proof
    fix a assume "a \<in> set (map fst ps)"
    then have "free s a" "a \<noteq> b" using assms(3,4) by auto
    then show "free s1 a" using postpone_free [of s a b e] s1 by simp
  qed
  moreover obtain rs s2 where s2: "postpone_all postpone ps s1 = (rs, s2)" by force
  ultimately have "inv s2" "absr s2 = Reuse_Postponed e" "\<forall>x\<in>set rs. x"
    using postponed_stays [of s1 e ps] assms(3) by auto
  then show ?thesis
    using rel_law [of s2 c e Reuse_Null] assms(5) s1 s2 \<open>r\<close> by auto
qed

end

interpretation rs: reuse_slot slot_inv reuse_abs "\<lambda>d a. object_addr a \<and> boxes d a = None"
  claim_reusable_cancellable_continuation try_release_claimed_continuation postpone_cancellation
proof unfold_locales
  fix d :: "'a dispatched" and c :: addr and e :: "exception_ptr option" and a r
  assume "slot_inv d" "object_addr c" "reuse_release c (reuse_abs d) = Some (e, a)"
  then show "\<exists>d'. try_release_claimed_continuation c d = Inr (e, d') \<and> reuse_abs d' = a \<and> slot_inv d'"
    using release_refines [of d c] by (auto split: sum.splits)
next
  fix d :: "'a dispatched" and a b :: addr and e
  assume "object_addr a \<and> boxes d a = None" "a \<noteq> b"
  then show "object_addr a \<and> boxes (snd (postpone_cancellation b e d)) a = None"
    by (auto simp: postpone_cancellation_def Let_def)
qed (rule claim_refines(1) [symmetric], assumption, rule conjunct1 [OF claim_refines(2)], assumption+,
  use postpone_refines in blast, use postpone_refines in blast)

subsection \<open>Properties\<close>

text \<open>C7: The word encoding of the reusable slot implements the four-state machine of the source's
  comment: claim, release and postpone return what the machine returns and move to its next
  state, the release of a slot that was not claimed is exactly the failed assertion, and the
  boxed causes stay reachable.\<close>

theorem reusable_slot_refines:
  assumes "slot_inv d" "object_addr c" "object_addr b" "boxes d b = None"
  shows "map_option (\<lambda>(r, d'). (r, reuse_abs d')) (claim_reusable_cancellable_continuation d) =
      reuse_claim (reuse_abs d) \<and>
    (case try_release_claimed_continuation c d of
       Inl x \<Rightarrow> x = Assertion_Failed \<and> reuse_release c (reuse_abs d) = None
     | Inr (r, d') \<Rightarrow> reuse_release c (reuse_abs d) = Some (r, reuse_abs d') \<and> slot_inv d') \<and>
    reuse_postpone e (reuse_abs d) =
      (fst (postpone_cancellation b e d), reuse_abs (snd (postpone_cancellation b e d))) \<and>
    slot_inv (snd (postpone_cancellation b e d))"
  using claim_refines(1) [OF assms(1)] release_refines [OF assms(1,2)] postpone_refines [OF assms(1,3,4)]
  by blast

theorem reusable_slot_refines_witness:
  "reuse_postpone None (reuse_abs \<lparr>reusable_cc = 1, boxes = (\<lambda>_. None), dstate = None, dmode = -1, dlog = ([] :: nat disp_event list)\<rparr>) =
     (True, Reuse_Postponed None)"
  using reusable_slot_refines [of "\<lparr>reusable_cc = 1, boxes = (\<lambda>_. None), dstate = None, dmode = -1, dlog = ([] :: nat disp_event list)\<rparr>" 16 8 None]
  by (simp add: slot_inv_def object_addr_def reuse_abs_def is_postponed_cancellation_def k_reusable_claimed_def)

text \<open>A cancellation postponed while the continuation is claimed is not lost: however many
  cancellations arrive, each is answered true, and the owner's release returns the first cause
  and leaves the slot empty.\<close>

lemma reusable_cancellation_delivered:
  assumes "slot_inv d" "reuse_abs d = Reuse_Claimed" "distinct (map fst ((b, e) # ps))"
    "\<forall>a\<in>set (map fst ((b, e) # ps)). object_addr a \<and> boxes d a = None" "object_addr c"
  shows "\<exists>rs d1 d2. postpone_all postpone_cancellation ((b, e) # ps) d = (rs, d1) \<and> (\<forall>r\<in>set rs. r) \<and>
    try_release_claimed_continuation c d1 = Inr (e, d2) \<and> reuse_abs d2 = Reuse_Null"
  using rs.postponed_delivered [OF assms] by blast

lemma reusable_cancellation_delivered_witness:
  "\<exists>d1 d2. snd (postpone_all postpone_cancellation [(8, Some (Exc 1 CancellationException ''c''))]
      \<lparr>reusable_cc = 1, boxes = (\<lambda>_. None), dstate = None, dmode = -1, dlog = ([] :: nat disp_event list)\<rparr>) = d1 \<and>
    try_release_claimed_continuation 16 d1 = Inr (Some (Exc 1 CancellationException ''c''), d2) \<and> reuse_abs d2 = Reuse_Null"
proof -
  let ?d = "\<lparr>reusable_cc = 1, boxes = (\<lambda>_. None), dstate = None, dmode = -1, dlog = ([] :: nat disp_event list)\<rparr>"
  have "slot_inv ?d" "reuse_abs ?d = Reuse_Claimed" "object_addr 8" "object_addr 16"
    by (simp_all add: slot_inv_def reuse_abs_def is_postponed_cancellation_def k_reusable_claimed_def object_addr_def)
  then show ?thesis
    using reusable_cancellation_delivered [of ?d 8 "Some (Exc 1 CancellationException ''c'')" "[]" 16] by auto
qed

text \<open>C8: A result resumed through the dispatcher is delivered exactly once and unchanged: after
  \<open>resume_with\<close>, either the continuation has already been resumed with it, or the task was handed
  to the dispatcher or the unconfined loop and its \<open>run\<close> resumes the continuation with it.\<close>

theorem dispatched_resume_roundtrip:
  assumes "dispatch_needed env = Inr n" "dispatch_throws env = None" "r \<noteq> Failure None"
    "resume_with env r d = (Inr (), d1)"
  shows "dlog d1 = dlog d @ [Continuation_Resumed r] \<or>
    ((dlog d1 = dlog d @ [Sent_To_Dispatcher] \<or> dlog d1 = dlog d @ [Sent_To_Unconfined_Loop]) \<and>
     (\<exists>d2. run env d1 = (Inr (), d2) \<and> dlog d2 = dlog d1 @ [Continuation_Resumed r] \<and> dstate d2 = None))"
proof -
  have run_stored: "\<exists>d2. run env d1 = (Inr (), d2) \<and> dlog d2 = dlog d1 @ [Continuation_Resumed r] \<and> dstate d2 = None"
    if "dstate d1 = Some r" "dmode d1 = MODE_ATOMIC"
    using that assms(3)
    by (cases r) (auto simp: run_def take_state_def log_d_def exec_simps mode_defs is_cancellable_mode_def
        exception_or_null_def get_or_throw_def split: option.split)
  consider (dispatch) "context_present env" "n" | (here) "\<not> (context_present env \<and> n)" by blast
  then show ?thesis
  proof cases
    case dispatch
    then have "d1 = d\<lparr>dstate := Some r, dmode := MODE_ATOMIC, dlog := dlog d @ [Sent_To_Dispatcher]\<rparr>"
      using assms by (simp add: op_defs exec_simps)
    then show ?thesis using run_stored by simp
  next
    case here
    then have m: "resume_with env r d = bind_e (execute_unconfined env r MODE_ATOMIC False (log_d (Continuation_Resumed r)))
        (\<lambda>_. return_e ()) d"
      using assms(1) by (auto simp: resume_with_def needs_dispatch_def safe_is_dispatch_needed_def exec_simps)
    consider (queued) q where "event_loop env = Some (q, True)"
      | (direct) "event_loop env = None \<or> (\<exists>q. event_loop env = Some (q, False))"
      by (metis (full_types) option.exhaust prod.exhaust)
    then show ?thesis
    proof cases
      case queued
      then have "d1 = d\<lparr>dstate := Some r, dmode := MODE_ATOMIC, dlog := dlog d @ [Sent_To_Unconfined_Loop]\<rparr>"
        using m assms(4) by (simp add: execute_unconfined_def store_state_def log_d_def exec_simps mode_defs)
      then show ?thesis using run_stored by simp
    next
      case direct
      then have "d1 = d\<lparr>dlog := dlog d @ [Continuation_Resumed r]\<rparr>"
        using m assms(4) by (auto simp: execute_unconfined_def catch_e_def log_d_def exec_simps mode_defs)
      then show ?thesis by simp
    qed
  qed
qed

theorem dispatched_resume_roundtrip_witness:
  "dlog (snd (resume_with \<lparr>context_present = True, context_job = None, dispatch_needed = Inr True, dispatch_throws = None, event_loop = None\<rparr>
     (Success (5::nat)) \<lparr>reusable_cc = 0, boxes = (\<lambda>_. None), dstate = None, dmode = -1, dlog = []\<rparr>)) = [Sent_To_Dispatcher]"
  using dispatched_resume_roundtrip [of "\<lparr>context_present = True, context_job = None, dispatch_needed = Inr True, dispatch_throws = None, event_loop = None\<rparr>" True "Success (5::nat)"
     "\<lparr>reusable_cc = 0, boxes = (\<lambda>_. None), dstate = None, dmode = -1, dlog = []\<rparr>"]
  by (simp add: op_defs exec_simps)

end
