(* ===== verification/Cancellable_Continuation.thy ===== *)
theory Cancellable_Continuation
  imports Dispatched_Continuation
begin

text \<open>
  \<open>CancellableContinuationImpl.hpp\<close>: a continuation that is completed once, by a resume, an
  exception or a cancellation, and whose owner either suspends or takes the result directly. The
  state object is the datatype \<open>cont_state\<close>, the packed decision and segment index a 32-bit
  word. A loop of the source loads the state and swaps it; a failed swap has no effect, so an
  operation is its last iteration. The race between suspending and resuming is modelled load by
  load and swap by swap in \<open>Continuation_Race\<close>.
\<close>

subsection \<open>State\<close>

datatype 'v cont_state =
    Active
  | CancelHandler nat
  | Segment_State nat
  | CompletedWithValue 'v
  | CompletedCancellableContinuationState (cc_result: 'v) (cc_handler: "nat option")
      (cc_on_cancellation: "nat option") (cc_idempotent: "nat option")
      (cc_cancel_cause: "exception_ptr option")
  | CancelledContinuation "exception_ptr option" bool
  | CompletedExceptionState "exception_ptr option" bool

datatype disposable_handle = Handle nat | NonDisposableHandle

datatype 'v cc_event =
    Handler_Called nat "exception_ptr option"
  | On_Cancellation_Called nat "exception_ptr option" 'v
  | Segment_Cancelled nat "32 word" "exception_ptr option"
  | Unhandled string
  | Handle_Disposed nat
  | Task_Dispatched
  | Task_Unconfined
  | Delegate_Resumed "'v result"

record 'v cc =
  st :: "'v cont_state"
  owned :: "'v cont_state option"
  dec_idx :: "32 word"
  parent_handle :: "disposable_handle option"
  segment_for_cancellation :: "nat option"
  resume_mode :: int
  delegate :: "'v dispatched"
  log :: "'v cc_event list"

text \<open>
  The surroundings: those of the dispatched delegate, whether the delegate is a dispatched
  continuation at all, which user callbacks throw, what registering with the parent job returns,
  the address of this object and the address of the next allocated box.
\<close>

record cc_env =
  denv :: disp_env
  delegate_is_dispatched :: bool
  handler_throws :: "nat \<Rightarrow> bool"
  callback_throws :: "nat \<Rightarrow> bool"
  segment_throws :: "nat \<Rightarrow> bool"
  registered_handle :: "nat option"
  this_addr :: addr
  box_addr :: addr

definition UNDECIDED :: "32 word" where "UNDECIDED = 0"
definition SUSPENDED :: "32 word" where "SUSPENDED = 1"
definition RESUMED :: "32 word" where "RESUMED = 2"
definition DECISION_SHIFT :: nat where "DECISION_SHIFT = 29"
definition INDEX_MASK :: "32 word" where "INDEX_MASK = push_bit DECISION_SHIFT 1 - 1"
definition NO_INDEX :: "32 word" where "NO_INDEX = INDEX_MASK"

definition get_decision :: "32 word \<Rightarrow> 32 word" where
  "get_decision value = signed_drop_bit DECISION_SHIFT value"

definition get_index :: "32 word \<Rightarrow> 32 word" where
  "get_index value = value AND INDEX_MASK"

definition decision_and_index :: "32 word \<Rightarrow> 32 word \<Rightarrow> 32 word" where
  "decision_and_index decision index = push_bit DECISION_SHIFT decision + index"

definition new_cc :: "'v dispatched \<Rightarrow> int \<Rightarrow> 'v cc" where
  "new_cc d mode = \<lparr>st = Active, owned = None, dec_idx = decision_and_index UNDECIDED NO_INDEX,
     parent_handle = None, segment_for_cancellation = None, resume_mode = mode, delegate = d, log = []\<rparr>"

fun not_completed :: "'v cont_state \<Rightarrow> bool" where
  "not_completed Active = True"
| "not_completed (CancelHandler _) = True"
| "not_completed (Segment_State _) = True"
| "not_completed _ = False"

definition is_active :: "'v cc \<Rightarrow> bool" where "is_active s \<longleftrightarrow> not_completed (st s)"
definition is_completed :: "'v cc \<Rightarrow> bool" where "is_completed s \<longleftrightarrow> \<not> is_active s"

definition is_cancelled :: "'v cc \<Rightarrow> bool" where
  "is_cancelled s \<longleftrightarrow> (case st s of CancelledContinuation _ _ \<Rightarrow> True | _ \<Rightarrow> False)"

definition log_c :: "'v cc_event \<Rightarrow> ('v cc, unit) exec" where
  "log_c e = modify_e (\<lambda>s. s\<lparr>log := log s @ [e]\<rparr>)"

definition set_st :: "'v cont_state \<Rightarrow> ('v cc, unit) exec" where
  "set_st x = modify_e (\<lambda>s. s\<lparr>st := x\<rparr>)"

definition set_owned :: "'v cont_state \<Rightarrow> ('v cc, unit) exec" where
  "set_owned x = modify_e (\<lambda>s. s\<lparr>owned := Some x\<rparr>)"

subsection \<open>User callbacks\<close>

definition report_unhandled :: "cc_env \<Rightarrow> string \<Rightarrow> ('v cc, unit) exec" where
  "report_unhandled env msg = (if context_present (denv env) then log_c (Unhandled msg) else return_e ())"

definition call_cancel_handler :: "cc_env \<Rightarrow> nat \<Rightarrow> exception_ptr option \<Rightarrow> ('v cc, unit) exec" where
  "call_cancel_handler env h cause = seq_e (log_c (Handler_Called h cause))
     (if handler_throws env h then report_unhandled env ''Exception in invokeOnCancellation handler''
      else return_e ())"

definition call_on_cancellation ::
    "cc_env \<Rightarrow> nat \<Rightarrow> exception_ptr option \<Rightarrow> 'v \<Rightarrow> ('v cc, unit) exec" where
  "call_on_cancellation env f cause v = seq_e (log_c (On_Cancellation_Called f cause v))
     (if callback_throws env f then report_unhandled env ''Exception in resume onCancellation handler''
      else return_e ())"

definition call_segment_on_cancellation ::
    "cc_env \<Rightarrow> nat \<Rightarrow> exception_ptr option \<Rightarrow> ('v cc, unit) exec" where
  "call_segment_on_cancellation env segment cause = read_e (\<lambda>s.
     let index = get_index (dec_idx s) in
     if index = NO_INDEX
     then throw_e (Logic_Error ''The index for Segment.onCancellation(..) is broken'')
     else seq_e (log_c (Segment_Cancelled segment index cause))
            (if segment_throws env segment
             then report_unhandled env ''Exception in invokeOnCancellation handler''
             else return_e ()))"

subsection \<open>Decision, dispatch and the parent handle\<close>

definition try_suspend :: "('v cc, bool) exec" where
  "try_suspend = read_e (\<lambda>s.
     let cur = dec_idx s; decision = get_decision cur; index = get_index cur in
     if decision = UNDECIDED
     then seq_e (modify_e (\<lambda>s. s\<lparr>dec_idx := decision_and_index SUSPENDED index\<rparr>)) (return_e True)
     else if decision = RESUMED then return_e False
     else throw_e (Logic_Error ''Already suspended''))"

definition try_resume_decision :: "('v cc, bool) exec" where
  "try_resume_decision = read_e (\<lambda>s.
     let cur = dec_idx s; decision = get_decision cur; index = get_index cur in
     if decision = UNDECIDED
     then seq_e (modify_e (\<lambda>s. s\<lparr>dec_idx := decision_and_index RESUMED index\<rparr>)) (return_e True)
     else if decision = SUSPENDED then return_e False
     else throw_e (Logic_Error ''Already resumed''))"

definition cc_take_state :: "('v cc, 'v result) exec" where
  "cc_take_state = read_e (\<lambda>s. case st s of
     CompletedWithValue v \<Rightarrow> return_e (Success v)
   | CompletedCancellableContinuationState v _ _ _ _ \<Rightarrow> return_e (Success v)
   | CancelledContinuation cause _ \<Rightarrow> return_e (Failure cause)
   | CompletedExceptionState cause _ \<Rightarrow> return_e (Failure cause)
   | _ \<Rightarrow> throw_e (Runtime_Error ''take_state called on non-completed continuation''))"

text \<open>\<open>resume\<close> of \<open>DispatchedTaskDispatch.hpp\<close>: the undispatched variant resumes the inner
  continuation of a dispatched delegate, the other the delegate itself, with the same result.\<close>

definition resume_task :: "('v cc, unit) exec" where
  "resume_task = bind_e cc_take_state (\<lambda>state.
     case exception_or_null state of
       Some e \<Rightarrow> log_c (Delegate_Resumed (Failure (Some e)))
     | None \<Rightarrow> bind_e (get_or_throw state) (\<lambda>v. log_c (Delegate_Resumed (Success v))))"

definition resume_unconfined :: "cc_env \<Rightarrow> ('v cc, unit) exec" where
  "resume_unconfined env = (case event_loop (denv env) of
     None \<Rightarrow> resume_task
   | Some (_, loop_active) \<Rightarrow>
       if loop_active then log_c Task_Unconfined
       else catch_e resume_task
              (report_unhandled env ''Fatal exception in coroutines machinery for DispatchedTask''))"

definition dispatch :: "cc_env \<Rightarrow> int \<Rightarrow> ('v cc, unit) exec" where
  "dispatch env mode = read_e (\<lambda>s.
     if mode = MODE_UNINITIALIZED then throw_e Assertion_Failed
     else let undispatched = (mode = MODE_UNDISPATCHED) in
       if \<not> undispatched \<and> delegate_is_dispatched env \<and>
          is_cancellable_mode mode = is_cancellable_mode (resume_mode s)
       then bind_e (needs_dispatch (denv env)) (\<lambda>needed.
              if needed
              then (case dispatch_throws (denv env) of
                      Some e \<Rightarrow> throw_e (Dispatch_Exception e) | None \<Rightarrow> log_c Task_Dispatched)
              else resume_unconfined env)
       else resume_task)"

definition dispatch_resume :: "cc_env \<Rightarrow> int \<Rightarrow> ('v cc, unit) exec" where
  "dispatch_resume env mode = bind_e try_resume_decision (\<lambda>resumed.
     if resumed then return_e () else dispatch env mode)"

definition is_reusable :: "cc_env \<Rightarrow> 'v cc \<Rightarrow> bool" where
  "is_reusable env s \<longleftrightarrow> is_reusable_mode (resume_mode s) \<and> delegate_is_dispatched env \<and>
     is_reusable_slot (delegate s)"

definition dispose_handle :: "disposable_handle \<Rightarrow> ('v cc, unit) exec" where
  "dispose_handle h = (case h of Handle n \<Rightarrow> log_c (Handle_Disposed n) | NonDisposableHandle \<Rightarrow> return_e ())"

definition detach_child :: "('v cc, unit) exec" where
  "detach_child = read_e (\<lambda>s. case parent_handle s of
     None \<Rightarrow> return_e ()
   | Some h \<Rightarrow> seq_e (dispose_handle h) (modify_e (\<lambda>s. s\<lparr>parent_handle := Some NonDisposableHandle\<rparr>)))"

definition detach_child_if_non_reusable :: "cc_env \<Rightarrow> ('v cc, unit) exec" where
  "detach_child_if_non_reusable env = read_e (\<lambda>s. if \<not> is_reusable env s then detach_child else return_e ())"

text \<open>Registration with \<open>invokeImmediately = false\<close> runs nothing; it returns the handle.\<close>

definition install_parent_handle :: "cc_env \<Rightarrow> ('v cc, nat option) exec" where
  "install_parent_handle env = read_e (\<lambda>s.
     if \<not> context_present (denv env) \<or> context_job (denv env) = None then return_e None
     else seq_e (modify_e (\<lambda>s. if parent_handle s = None
                               then s\<lparr>parent_handle := map_option Handle (registered_handle env)\<rparr> else s))
            (return_e (registered_handle env)))"

definition init_cancellability :: "cc_env \<Rightarrow> ('v cc, unit) exec" where
  "init_cancellability env = bind_e (install_parent_handle env) (\<lambda>handle. case handle of
     None \<Rightarrow> return_e ()
   | Some h \<Rightarrow> read_e (\<lambda>s.
       if is_completed s
       then seq_e (dispose_handle (Handle h)) (modify_e (\<lambda>s. s\<lparr>parent_handle := Some NonDisposableHandle\<rparr>))
       else return_e ()))"

definition reset_state_reusable :: "('v cc, bool) exec" where
  "reset_state_reusable = read_e (\<lambda>s.
     if resume_mode s \<noteq> MODE_CANCELLABLE_REUSABLE \<or> parent_handle s = Some NonDisposableHandle \<or>
        not_completed (st s)
     then throw_e Assertion_Failed
     else case st s of
       CompletedCancellableContinuationState _ _ _ (Some _) _ \<Rightarrow> seq_e detach_child (return_e False)
     | _ \<Rightarrow> seq_e (modify_e (\<lambda>s. s\<lparr>dec_idx := decision_and_index UNDECIDED NO_INDEX, st := Active\<rparr>))
              (return_e True))"

subsection \<open>Cancellation\<close>

definition owned_handler :: "'v cc \<Rightarrow> nat option" where
  "owned_handler s = (case owned s of Some (CancelHandler h) \<Rightarrow> Some h | _ \<Rightarrow> None)"

definition cancel :: "cc_env \<Rightarrow> exception_ptr option \<Rightarrow> ('v cc, bool) exec" where
  "cancel env cause = read_e (\<lambda>s.
     if \<not> not_completed (st s) then return_e False
     else let is_cancel_handler = (case st s of CancelHandler _ \<Rightarrow> True | _ \<Rightarrow> False);
              is_segment = (case st s of Segment_State _ \<Rightarrow> True | _ \<Rightarrow> False);
              update = CancelledContinuation cause (is_cancel_handler \<or> is_segment);
              handler_to_call = (if is_cancel_handler then owned_handler s else None)
       in seq_e (set_st update) (seq_e (set_owned update)
         (seq_e (case (handler_to_call, st s) of
                   (Some h, _) \<Rightarrow> call_cancel_handler env h cause
                 | (None, Segment_State seg) \<Rightarrow> call_segment_on_cancellation env seg cause
                 | _ \<Rightarrow> return_e ())
           (seq_e (detach_child_if_non_reusable env)
             (seq_e (dispatch_resume env (resume_mode s)) (return_e True))))))"

definition release_claimed_reusable_continuation :: "cc_env \<Rightarrow> ('v cc, unit) exec" where
  "release_claimed_reusable_continuation env = read_e (\<lambda>s.
     if \<not> delegate_is_dispatched env then return_e ()
     else case try_release_claimed_continuation (this_addr env) (delegate s) of
       Inl e \<Rightarrow> throw_e e
     | Inr (cause, d) \<Rightarrow> seq_e (modify_e (\<lambda>s. s\<lparr>delegate := d\<rparr>))
         (case cause of
            None \<Rightarrow> return_e ()
          | Some c \<Rightarrow> seq_e detach_child (bind_e (cancel env (Some c)) (\<lambda>_. return_e ()))))"

definition cancel_later :: "cc_env \<Rightarrow> exception_ptr option \<Rightarrow> ('v cc, bool) exec" where
  "cancel_later env cause = read_e (\<lambda>s.
     if \<not> is_reusable env s then return_e False
     else let (r, d) = postpone_cancellation (box_addr env) cause (delegate s)
       in seq_e (modify_e (\<lambda>s. s\<lparr>delegate := d\<rparr>)) (return_e r))"

definition parent_cancelled :: "cc_env \<Rightarrow> exception_ptr option \<Rightarrow> ('v cc, unit) exec" where
  "parent_cancelled env cause = bind_e (cancel_later env cause) (\<lambda>later.
     if later then return_e ()
     else bind_e (cancel env cause) (\<lambda>_. detach_child_if_non_reusable env))"

definition cancel_completed_result :: "cc_env \<Rightarrow> exception_ptr option \<Rightarrow> ('v cc, unit) exec" where
  "cancel_completed_result env cause = read_e (\<lambda>s. case st s of
     CancelledContinuation _ _ \<Rightarrow> return_e ()
   | CompletedExceptionState _ _ \<Rightarrow> return_e ()
   | CompletedWithValue v \<Rightarrow>
       (let update = CompletedCancellableContinuationState v None None None cause
        in seq_e (set_st update) (set_owned update))
   | CompletedCancellableContinuationState v h oc idem c \<Rightarrow>
       if c \<noteq> None then throw_e (Runtime_Error ''Must be called at most once'')
       else seq_e (set_st (CompletedCancellableContinuationState v h oc idem cause))
         (seq_e (case h of Some x \<Rightarrow> call_cancel_handler env x cause | None \<Rightarrow> return_e ())
           (case oc of Some f \<Rightarrow> call_on_cancellation env f cause v | None \<Rightarrow> return_e ()))
   | _ \<Rightarrow> throw_e (Runtime_Error ''Not completed''))"

subsection \<open>Resumption\<close>

definition resumed_state ::
    "'v cont_state \<Rightarrow> nat option \<Rightarrow> 'v \<Rightarrow> int \<Rightarrow> nat option \<Rightarrow> nat option \<Rightarrow> 'v cont_state" where
  "resumed_state state owned_h proposed_update mode on_cancellation idempotent =
     (if \<not> is_cancellable_mode mode \<and> idempotent = None then CompletedWithValue proposed_update
      else let is_ch = (case state of CancelHandler _ \<Rightarrow> True | _ \<Rightarrow> False) in
        if on_cancellation \<noteq> None \<or> is_ch \<or> idempotent \<noteq> None
        then CompletedCancellableContinuationState proposed_update (if is_ch then owned_h else None)
               on_cancellation idempotent None
        else CompletedWithValue proposed_update)"

text \<open>The token is the address of \<open>RESUME_TOKEN\<close> or null.\<close>

definition try_resume :: "cc_env \<Rightarrow> 'v \<Rightarrow> nat option \<Rightarrow> nat option \<Rightarrow> ('v cc, bool) exec" where
  "try_resume env value idempotent on_cancellation = read_e (\<lambda>s.
     if not_completed (st s)
     then seq_e (set_st (resumed_state (st s) (owned_handler s) value (resume_mode s) on_cancellation idempotent))
            (seq_e (detach_child_if_non_reusable env) (return_e True))
     else case st s of
       CompletedCancellableContinuationState _ _ _ idem _ \<Rightarrow> return_e (idempotent \<noteq> None \<and> idem = idempotent)
     | _ \<Rightarrow> return_e False)"

definition try_resume_with_exception :: "exception_ptr option \<Rightarrow> ('v cc, bool) exec" where
  "try_resume_with_exception exception = read_e (\<lambda>s.
     if not_completed (st s)
     then seq_e (set_st (CompletedExceptionState exception False)) (return_e True)
     else return_e False)"

definition complete_resume :: "cc_env \<Rightarrow> bool \<Rightarrow> ('v cc, unit) exec" where
  "complete_resume env token = read_e (\<lambda>s.
     if \<not> token then return_e () else dispatch_resume env (resume_mode s))"

definition resume_impl :: "cc_env \<Rightarrow> 'v \<Rightarrow> int \<Rightarrow> nat option \<Rightarrow> ('v cc, unit) exec" where
  "resume_impl env proposed_update mode on_cancellation = read_e (\<lambda>s.
     if not_completed (st s)
     then seq_e (set_st (resumed_state (st s) (owned_handler s) proposed_update mode on_cancellation None))
            (seq_e (detach_child_if_non_reusable env) (dispatch_resume env mode))
     else case st s of
       CancelledContinuation cause handled \<Rightarrow>
         if \<not> handled
         then seq_e (set_st (CancelledContinuation cause True))
                (case on_cancellation of
                   Some f \<Rightarrow> call_on_cancellation env f cause proposed_update | None \<Rightarrow> return_e ())
         else throw_e (Logic_Error ''Already resumed'')
     | _ \<Rightarrow> throw_e (Logic_Error ''Already resumed''))"

definition resume :: "cc_env \<Rightarrow> 'v \<Rightarrow> nat option \<Rightarrow> ('v cc, unit) exec" where
  "resume env value on_cancellation = read_e (\<lambda>s. resume_impl env value (resume_mode s) on_cancellation)"

definition resume_impl_exception :: "cc_env \<Rightarrow> exception_ptr option \<Rightarrow> ('v cc, unit) exec" where
  "resume_impl_exception env exception = bind_e (try_resume_with_exception exception) (\<lambda>token.
     if \<not> token then throw_e (Logic_Error ''Already resumed'') else complete_resume env token)"

definition cc_resume_with :: "cc_env \<Rightarrow> 'v result \<Rightarrow> ('v cc, unit) exec" where
  "cc_resume_with env r = read_e (\<lambda>s. case r of
     Success v \<Rightarrow> resume_impl env v (resume_mode s) None
   | Failure e \<Rightarrow> resume_impl_exception env e)"

definition resume_undispatched :: "cc_env \<Rightarrow> 'v \<Rightarrow> ('v cc, unit) exec" where
  "resume_undispatched env value = resume_impl env value MODE_UNDISPATCHED None"

definition resume_undispatched_with_exception :: "cc_env \<Rightarrow> exception_ptr option \<Rightarrow> ('v cc, unit) exec" where
  "resume_undispatched_with_exception env exception = resume_impl_exception env exception"

subsection \<open>Cancellation handlers\<close>

definition invoke_on_cancellation_impl :: "cc_env \<Rightarrow> nat \<Rightarrow> ('v cc, unit) exec" where
  "invoke_on_cancellation_impl env handler = read_e (\<lambda>s. case st s of
     Active \<Rightarrow> seq_e (set_st (CancelHandler handler)) (set_owned (CancelHandler handler))
   | CancelHandler _ \<Rightarrow> throw_e (Runtime_Error ''Multiple handlers prohibited'')
   | CancelledContinuation cause handled \<Rightarrow>
       if handled then throw_e (Runtime_Error ''Multiple handlers prohibited'')
       else seq_e (set_st (CancelledContinuation cause True)) (call_cancel_handler env handler cause)
   | CompletedExceptionState cause handled \<Rightarrow>
       if handled then throw_e (Runtime_Error ''Multiple handlers prohibited'')
       else set_st (CompletedExceptionState cause True)
   | CompletedCancellableContinuationState v h oc idem cause \<Rightarrow>
       if h \<noteq> None then throw_e (Runtime_Error ''Multiple handlers prohibited'')
       else if cause \<noteq> None then call_cancel_handler env handler cause
       else (let update = CompletedCancellableContinuationState v (Some handler) oc idem cause
             in seq_e (set_st update) (set_owned update))
   | CompletedWithValue v \<Rightarrow>
       (let update = CompletedCancellableContinuationState v (Some handler) None None None
        in seq_e (set_st update) (set_owned update))
   | Segment_State _ \<Rightarrow> return_e ())"

definition invoke_on_cancellation_impl_segment :: "cc_env \<Rightarrow> nat \<Rightarrow> ('v cc, unit) exec" where
  "invoke_on_cancellation_impl_segment env segment = read_e (\<lambda>s. case st s of
     Active \<Rightarrow> modify_e (\<lambda>s. s\<lparr>segment_for_cancellation := Some segment\<rparr>)
   | CancelledContinuation cause handled \<Rightarrow>
       if handled then throw_e (Runtime_Error ''Multiple handlers prohibited'')
       else seq_e (set_st (CancelledContinuation cause True)) (call_segment_on_cancellation env segment cause)
   | CompletedExceptionState cause handled \<Rightarrow>
       if handled then throw_e (Runtime_Error ''Multiple handlers prohibited'')
       else set_st (CompletedExceptionState cause True)
   | CompletedCancellableContinuationState _ _ _ _ _ \<Rightarrow> return_e ()
   | _ \<Rightarrow> throw_e Spins)"

definition set_segment_index :: "32 word \<Rightarrow> ('v cc, unit) exec" where
  "set_segment_index index = read_e (\<lambda>s.
     if get_index (dec_idx s) \<noteq> NO_INDEX
     then throw_e (Logic_Error ''invokeOnCancellation should be called at most once'')
     else modify_e (\<lambda>s. s\<lparr>dec_idx := decision_and_index (get_decision (dec_idx s)) index\<rparr>))"

definition invoke_on_cancellation_segment :: "cc_env \<Rightarrow> nat \<Rightarrow> 32 word \<Rightarrow> ('v cc, unit) exec" where
  "invoke_on_cancellation_segment env segment index =
     seq_e (set_segment_index index) (invoke_on_cancellation_impl_segment env segment)"

subsection \<open>The result\<close>

datatype 'v suspend_result = COROUTINE_SUSPENDED | Returned 'v

definition get_successful_result :: "('v cc, 'v suspend_result) exec" where
  "get_successful_result = read_e (\<lambda>s. case st s of
     CompletedWithValue v \<Rightarrow> return_e (Returned v)
   | CompletedCancellableContinuationState v _ _ _ _ \<Rightarrow> return_e (Returned v)
   | _ \<Rightarrow> throw_e (Logic_Error ''Invalid state for result''))"

definition inactive_job_cause :: "disp_env \<Rightarrow> exception_ptr option" where
  "inactive_job_cause env = (if context_present env
     then (case context_job env of Some (False, cause) \<Rightarrow> Some cause | _ \<Rightarrow> None) else None)"

text \<open>The part of \<open>get_result\<close> after \<open>try_suspend\<close> failed: the result is in the state.\<close>

definition take_result :: "cc_env \<Rightarrow> ('v cc, 'v suspend_result) exec" where
  "take_result env = read_e (\<lambda>s. case st s of
     CancelledContinuation cause _ \<Rightarrow> rethrow_e cause
   | CompletedExceptionState cause _ \<Rightarrow> rethrow_e cause
   | _ \<Rightarrow>
       (case (if is_cancellable_mode (resume_mode s) then inactive_job_cause (denv env) else None) of
          Some cause \<Rightarrow> seq_e (cancel_completed_result env (Some cause)) (rethrow_e (Some cause))
        | None \<Rightarrow> get_successful_result))"

definition get_result :: "cc_env \<Rightarrow> ('v cc, 'v suspend_result) exec" where
  "get_result env = read_e (\<lambda>s0.
     let is_reusable_flag = is_reusable env s0 in
     bind_e try_suspend (\<lambda>suspended.
       if suspended
       then read_e (\<lambda>s.
         bind_e (if parent_handle s = None then install_parent_handle env else return_e None) (\<lambda>_.
           seq_e (if is_reusable_flag then release_claimed_reusable_continuation env else return_e ())
             (return_e COROUTINE_SUSPENDED)))
       else seq_e (if is_reusable_flag then release_claimed_reusable_continuation env else return_e ())
              (take_result env)))"

text \<open>\<open>suspend_cancellable_coroutine\<close>: the block is user code acting on the continuation.\<close>

definition suspend_cancellable_coroutine ::
    "cc_env \<Rightarrow> 'v dispatched \<Rightarrow> ('v cc, unit) exec \<Rightarrow> 'v suspend_result res \<times> 'v cc" where
  "suspend_cancellable_coroutine env d block =
     seq_e (init_cancellability env) (seq_e block (get_result env)) (new_cc d 1)"

text \<open>\<open>DispatchedTask::run\<close> of this task, what a dispatcher or the unconfined loop executes later.\<close>

definition run_task :: "cc_env \<Rightarrow> ('v cc, unit) exec" where
  "run_task env = read_e (\<lambda>s.
     if resume_mode s = MODE_UNINITIALIZED then throw_e Assertion_Failed
     else catch_e (bind_e cc_take_state (\<lambda>state.
       let exception = exception_or_null state in
       case (if exception = None \<and> is_cancellable_mode (resume_mode s)
             then inactive_job_cause (denv env) else None) of
         Some cause \<Rightarrow> seq_e (cancel_completed_result env (Some cause))
           (log_c (Delegate_Resumed (Failure (Some cause))))
       | None \<Rightarrow> (case exception of
             Some e \<Rightarrow> log_c (Delegate_Resumed (Failure (Some e)))
           | None \<Rightarrow> bind_e (get_or_throw state) (\<lambda>v. log_c (Delegate_Resumed (Success v))))))
       (report_unhandled env ''Fatal exception in coroutines machinery for DispatchedTask''))"

subsection \<open>The packed word\<close>

lemma decision_cases_packed:
  assumes "d = UNDECIDED \<or> d = SUSPENDED \<or> d = RESUMED" "i \<le> NO_INDEX"
  shows "get_decision (decision_and_index d i) = d" "get_index (decision_and_index d i) = i"
proof -
  have m: "INDEX_MASK = mask 29" by (simp add: INDEX_MASK_def DECISION_SHIFT_def mask_eq_exp_minus_1 push_bit_eq_mult)
  have "i < 2 ^ 29" using assms(2) by (simp add: NO_INDEX_def m mask_eq_exp_minus_1 word_le_nat_alt word_less_nat_alt)
  then have i: "i AND mask 29 = i" by (rule less_mask_eq)
  have hi: "bit i k \<Longrightarrow> k < 29" for k using i by (metis bit_and_iff bit_mask_iff)
  have disj: "push_bit 29 d AND i = 0"
  proof (rule bit_word_eqI)
    fix n assume "n < LENGTH(32)"
    show "bit (push_bit 29 d AND i) n = bit (0 :: 32 word) n" using hi [of n] by (auto simp: bit_simps)
  qed
  then have plus: "push_bit 29 d + i = push_bit 29 d OR i" by (rule disjunctive_add_eq_or)
  show "get_index (decision_and_index d i) = i"
    unfolding get_index_def decision_and_index_def DECISION_SHIFT_def m plus
    using hi by (intro bit_word_eqI) (auto simp: bit_simps)
  show "get_decision (decision_and_index d i) = d"
  proof (rule bit_word_eqI)
    fix n assume n: "n < LENGTH(32)"
    have dd: "\<not> bit d 2" "\<And>k. 1 < k \<Longrightarrow> \<not> bit d k"
      using assms(1) by (auto simp: UNDECIDED_def SUSPENDED_def RESUMED_def bit_simps)
    show "bit (get_decision (decision_and_index d i)) n = bit d n"
      unfolding get_decision_def decision_and_index_def DECISION_SHIFT_def plus
      using n hi hi [of 31] dd by (auto simp: bit_simps)
  qed
qed

subsection \<open>Effects of the helpers\<close>

text \<open>The collection \<open>cc_run\<close> evaluates helpers to record updates, so that the operations evaluate
  by simplification without unfolding the helpers.\<close>

definition unhandled_log :: "cc_env \<Rightarrow> bool \<Rightarrow> string \<Rightarrow> 'v cc_event list" where
  "unhandled_log env throws msg = (if throws \<and> context_present (denv env) then [Unhandled msg] else [])"

definition handler_log :: "cc_env \<Rightarrow> nat \<Rightarrow> exception_ptr option \<Rightarrow> 'v cc_event list" where
  "handler_log env h cause = Handler_Called h cause #
     unhandled_log env (handler_throws env h) ''Exception in invokeOnCancellation handler''"

definition callback_log :: "cc_env \<Rightarrow> nat \<Rightarrow> exception_ptr option \<Rightarrow> 'v \<Rightarrow> 'v cc_event list" where
  "callback_log env f cause v = On_Cancellation_Called f cause v #
     unhandled_log env (callback_throws env f) ''Exception in resume onCancellation handler''"

definition detach_log :: "'v cc \<Rightarrow> 'v cc_event list" where
  "detach_log s = (case parent_handle s of Some (Handle n) \<Rightarrow> [Handle_Disposed n] | _ \<Rightarrow> [])"

lemma record_log_Nil [simp]: "s\<lparr>log := log s\<rparr> = s" "s\<lparr>parent_handle := parent_handle s\<rparr> = s"
  by simp_all

lemma call_cancel_handler_run [cc_run]:
  "call_cancel_handler env h cause s = (Inr (), s\<lparr>log := log s @ handler_log env h cause\<rparr>)"
  by (simp add: call_cancel_handler_def handler_log_def unhandled_log_def report_unhandled_def log_c_def exec_simps)

lemma call_on_cancellation_run [cc_run]:
  "call_on_cancellation env f cause v s = (Inr (), s\<lparr>log := log s @ callback_log env f cause v\<rparr>)"
  by (simp add: call_on_cancellation_def callback_log_def unhandled_log_def report_unhandled_def log_c_def exec_simps)

lemma detach_child_run [cc_run]:
  "detach_child s = (Inr (), s\<lparr>parent_handle := map_option (\<lambda>_. NonDisposableHandle) (parent_handle s),
     log := log s @ detach_log s\<rparr>)"
  by (auto simp: detach_child_def dispose_handle_def detach_log_def log_c_def exec_simps
      split: option.splits disposable_handle.splits)

lemma detach_child_if_non_reusable_run [cc_run]:
  "detach_child_if_non_reusable env s = (if is_reusable env s then (Inr (), s) else detach_child s)"
  by (simp add: detach_child_if_non_reusable_def exec_simps)

lemma set_run [cc_run]:
  "set_st x s = (Inr (), s\<lparr>st := x\<rparr>)" "set_owned x s = (Inr (), s\<lparr>owned := Some x\<rparr>)"
  "log_c e s = (Inr (), s\<lparr>log := log s @ [e]\<rparr>)"
  by (simp_all add: set_st_def set_owned_def log_c_def exec_simps)

fun is_resume_event :: "'v cc_event \<Rightarrow> bool" where
  "is_resume_event Task_Dispatched = True"
| "is_resume_event Task_Unconfined = True"
| "is_resume_event (Delegate_Resumed _) = True"
| "is_resume_event _ = False"

definition resumes :: "'v cc \<Rightarrow> nat" where
  "resumes s = length (filter is_resume_event (log s))"

lemma no_resume_logs [simp]:
  "filter is_resume_event (handler_log env h c) = []"
  "filter is_resume_event (callback_log env f c v) = []"
  "filter is_resume_event (detach_log s) = []"
  "filter is_resume_event (unhandled_log env b m) = []"
  by (auto simp: handler_log_def callback_log_def detach_log_def unhandled_log_def
      split: option.split disposable_handle.split)

lemma detach_keeps [simp]:
  "st (snd (detach_child_if_non_reusable env s)) = st s"
  "dec_idx (snd (detach_child_if_non_reusable env s)) = dec_idx s"
  "resume_mode (snd (detach_child_if_non_reusable env s)) = resume_mode s"
  "delegate (snd (detach_child_if_non_reusable env s)) = delegate s"
  "owned (snd (detach_child_if_non_reusable env s)) = owned s"
  "resumes (snd (detach_child_if_non_reusable env s)) = resumes s"
  "fst (detach_child_if_non_reusable env s) = Inr ()"
  by (simp_all add: cc_run resumes_def)

text \<open>Resuming the delegate, dispatching the task: one resume event, or an error and none.\<close>

lemma resume_task_run:
  "resume_task s = (case st s of
     CompletedWithValue v \<Rightarrow> (Inr (), s\<lparr>log := log s @ [Delegate_Resumed (Success v)]\<rparr>)
   | CompletedCancellableContinuationState v _ _ _ _ \<Rightarrow>
       (Inr (), s\<lparr>log := log s @ [Delegate_Resumed (Success v)]\<rparr>)
   | CancelledContinuation (Some e) _ \<Rightarrow> (Inr (), s\<lparr>log := log s @ [Delegate_Resumed (Failure (Some e))]\<rparr>)
   | CompletedExceptionState (Some e) _ \<Rightarrow> (Inr (), s\<lparr>log := log s @ [Delegate_Resumed (Failure (Some e))]\<rparr>)
   | CancelledContinuation None _ \<Rightarrow> (Inl Undefined_Behaviour, s)
   | CompletedExceptionState None _ \<Rightarrow> (Inl Undefined_Behaviour, s)
   | _ \<Rightarrow> (Inl (Runtime_Error ''take_state called on non-completed continuation''), s))"
  by (auto simp: resume_task_def cc_take_state_def exception_or_null_def get_or_throw_def rethrow_e_def
      log_c_def exec_simps split: cont_state.split option.split)

definition state_result :: "'v cont_state \<Rightarrow> 'v result" where
  "state_result x = (case x of
     CompletedWithValue v \<Rightarrow> Success v
   | CompletedCancellableContinuationState v _ _ _ _ \<Rightarrow> Success v
   | CancelledContinuation cause _ \<Rightarrow> Failure cause
   | CompletedExceptionState cause _ \<Rightarrow> Failure cause
   | _ \<Rightarrow> Failure None)"

definition resume_event_for :: "'v cont_state \<Rightarrow> 'v cc_event \<Rightarrow> bool" where
  "resume_event_for x e \<longleftrightarrow> is_resume_event e \<and> (\<forall>r. e = Delegate_Resumed r \<longrightarrow> r = state_result x)"

definition one_resume :: "'v cc \<Rightarrow> unit res \<times> 'v cc \<Rightarrow> bool" where
  "one_resume s p \<longleftrightarrow> (\<exists>e. p = (Inl e, s)) \<or>
     (\<exists>ev. resume_event_for (st s) ev \<and> p = (Inr (), s\<lparr>log := log s @ [ev]\<rparr>))"

lemma one_resumeI: "resume_event_for (st s) ev \<Longrightarrow> one_resume s (Inr (), s\<lparr>log := log s @ [ev]\<rparr>)"
  by (auto simp: one_resume_def)

lemma one_resume_errI: "one_resume s (Inl e, s)"
  by (simp add: one_resume_def)

lemma one_resume_task: "\<not> not_completed (st s) \<Longrightarrow> one_resume s (resume_task s)"
  by (cases "st s")
    (auto simp: resume_task_run resume_event_for_def state_result_def split: option.split
      intro!: one_resumeI one_resume_errI)

lemma resume_task_completed_err:
  "\<not> not_completed (st s) \<Longrightarrow> resume_task s = (Inl e, s') \<Longrightarrow> e = Undefined_Behaviour"
  by (cases "st s") (auto simp: resume_task_run split: option.splits)

lemma one_resume_dispatch:
  assumes "\<not> not_completed (st s)"
  shows "one_resume s (dispatch env mode s)"
proof -
  have ev: "one_resume s (log_c Task_Dispatched s)" "one_resume s (log_c Task_Unconfined s)"
    by (simp_all add: cc_run resume_event_for_def one_resumeI)
  have fail: "one_resume s (Inl e, s)" for e by (rule one_resume_errI)
  have task: "one_resume s (resume_task s)" using assms by (rule one_resume_task)
  have guarded: "one_resume s (catch_e resume_task h s)" for h
    using task resume_task_completed_err [OF assms]
    by (auto simp: catch_e_def catchable_def one_resume_def)
  have unconf: "one_resume s (resume_unconfined env s)"
    using task ev guarded by (auto simp: resume_unconfined_def split: option.split)
  have nd: "(\<exists>e. needs_dispatch (denv env) s = (Inl e, s)) \<or> (\<exists>b. needs_dispatch (denv env) s = (Inr b, s))"
    by (auto simp: needs_dispatch_def safe_is_dispatch_needed_def exec_simps split: sum.split)
  show ?thesis
    using nd fail task unconf ev(1)
    by (auto simp: dispatch_def exec_simps Let_def split: option.split)
qed

text \<open>\<open>decision s\<close> is one of the three constants in every state the operations reach.\<close>

abbreviation decision :: "'v cc \<Rightarrow> 32 word" where
  "decision s \<equiv> get_decision (dec_idx s)"

lemma get_index_le: "get_index x \<le> NO_INDEX"
  by (simp add: get_index_def NO_INDEX_def word_and_le1)

lemma packed_decision [simp]:
  "get_decision (decision_and_index UNDECIDED (get_index x)) = UNDECIDED"
  "get_decision (decision_and_index SUSPENDED (get_index x)) = SUSPENDED"
  "get_decision (decision_and_index RESUMED (get_index x)) = RESUMED"
  "get_decision (decision_and_index UNDECIDED NO_INDEX) = UNDECIDED"
  by (rule decision_cases_packed; simp add: get_index_le)+

lemma decision_distinct [simp]:
  "UNDECIDED \<noteq> SUSPENDED" "UNDECIDED \<noteq> RESUMED" "SUSPENDED \<noteq> RESUMED"
  "SUSPENDED \<noteq> UNDECIDED" "RESUMED \<noteq> UNDECIDED" "RESUMED \<noteq> SUSPENDED"
  by (simp_all add: UNDECIDED_def SUSPENDED_def RESUMED_def)

lemma try_resume_decision_run:
  "try_resume_decision s =
     (if decision s = UNDECIDED
      then (Inr True, s\<lparr>dec_idx := decision_and_index RESUMED (get_index (dec_idx s))\<rparr>)
      else if decision s = SUSPENDED then (Inr False, s)
      else (Inl (Logic_Error ''Already resumed''), s))"
  by (simp add: try_resume_decision_def exec_simps Let_def)

lemma try_suspend_run:
  "try_suspend s =
     (if decision s = UNDECIDED
      then (Inr True, s\<lparr>dec_idx := decision_and_index SUSPENDED (get_index (dec_idx s))\<rparr>)
      else if decision s = RESUMED then (Inr False, s)
      else (Inl (Logic_Error ''Already suspended''), s))"
  by (simp add: try_suspend_def exec_simps Let_def)

subsection \<open>Histories\<close>

text \<open>
  The operations a history of a continuation is made of. \<open>Op_Token\<close> is the two-phase protocol:
  \<open>try_resume\<close> without an idempotency marker and, with a token, \<open>complete_resume\<close>. The owner's
  \<open>get_result\<close> is kept apart: it is called once.
\<close>

datatype 'v cc_op =
    Op_Cancel "exception_ptr option"
  | Op_Parent_Cancelled "exception_ptr option"
  | Op_Resume 'v "nat option"
  | Op_Resume_Undispatched 'v
  | Op_Resume_With "'v result"
  | Op_Token 'v "nat option"
  | Op_Invoke_On_Cancellation nat

definition forget_e :: "('s, 'a) exec \<Rightarrow> ('s, unit) exec" where
  "forget_e m = bind_e m (\<lambda>_. return_e ())"

fun run_op :: "cc_env \<Rightarrow> 'v cc_op \<Rightarrow> ('v cc, unit) exec" where
  "run_op env (Op_Cancel cause) = forget_e (cancel env cause)"
| "run_op env (Op_Parent_Cancelled cause) = parent_cancelled env cause"
| "run_op env (Op_Resume v oc) = resume env v oc"
| "run_op env (Op_Resume_Undispatched v) = resume_undispatched env v"
| "run_op env (Op_Resume_With r) = cc_resume_with env r"
| "run_op env (Op_Token v oc) = bind_e (try_resume env v None oc) (complete_resume env)"
| "run_op env (Op_Invoke_On_Cancellation h) = invoke_on_cancellation_impl env h"

fun run_ops :: "cc_env \<Rightarrow> 'v cc_op list \<Rightarrow> 'v cc \<Rightarrow> 'v cc" where
  "run_ops env [] s = s"
| "run_ops env (x # xs) s = run_ops env xs (snd (run_op env x s))"

text \<open>Every cause given is an exception object, as \<open>std::rethrow_exception\<close> demands.\<close>

fun op_ok :: "'v cc_op \<Rightarrow> bool" where
  "op_ok (Op_Cancel cause) = (cause \<noteq> None)"
| "op_ok (Op_Parent_Cancelled cause) = (cause \<noteq> None)"
| "op_ok (Op_Resume_With r) = (r \<noteq> Failure None)"
| "op_ok _ = True"

definition benign :: "cc_env \<Rightarrow> bool" where
  "benign env \<longleftrightarrow> dispatch_throws (denv env) = None \<and> (\<exists>b. dispatch_needed (denv env) = Inr b)"

fun has_result :: "'v cont_state \<Rightarrow> bool" where
  "has_result (CompletedWithValue _) = True"
| "has_result (CompletedCancellableContinuationState _ _ _ _ _) = True"
| "has_result (CancelledContinuation cause _) = (cause \<noteq> None)"
| "has_result (CompletedExceptionState cause _) = (cause \<noteq> None)"
| "has_result _ = False"

text \<open>The invariant: an active continuation was not resumed; a completed one was decided, and
  resumed once when its owner suspended, not at all when the owner takes the result itself.\<close>

definition cc_inv :: "'v cc \<Rightarrow> bool" where
  "cc_inv s \<longleftrightarrow> \<not> is_reusable_mode (resume_mode s) \<and> resume_mode s \<noteq> MODE_UNINITIALIZED \<and>
     (if not_completed (st s)
      then (decision s = UNDECIDED \<or> decision s = SUSPENDED) \<and> resumes s = 0 \<and>
        (st s = Active \<or> (\<exists>h. st s = CancelHandler h \<and> owned s = Some (CancelHandler h)))
      else has_result (st s) \<and>
        (decision s = SUSPENDED \<and> resumes s = Suc 0 \<or> decision s = RESUMED \<and> resumes s = 0))"

lemma new_cc_inv: "\<not> is_reusable_mode mode \<Longrightarrow> mode \<noteq> MODE_UNINITIALIZED \<Longrightarrow> cc_inv (new_cc d mode)"
  by (simp add: cc_inv_def new_cc_def resumes_def)

lemma resume_task_ok:
  assumes "has_result (st s)"
  shows "\<exists>s'. resume_task s = (Inr (), s')"
  using assms by (cases "st s") (auto simp: resume_task_run)

lemma has_result_completed: "has_result x \<Longrightarrow> \<not> not_completed x"
  by (cases x) auto

lemma dispatch_ok:
  assumes "benign env" "has_result (st s)" "mode \<noteq> MODE_UNINITIALIZED"
  shows "\<exists>ev. resume_event_for (st s) ev \<and> dispatch env mode s = (Inr (), s\<lparr>log := log s @ [ev]\<rparr>)"
proof -
  obtain b where b: "needs_dispatch (denv env) s = (Inr b, s)"
    using assms(1)
    by (cases "context_present (denv env)")
      (auto simp: benign_def needs_dispatch_def safe_is_dispatch_needed_def exec_simps)
  obtain s1 where t: "resume_task s = (Inr (), s1)" using resume_task_ok [OF assms(2)] by blast
  have "\<exists>s'. resume_unconfined env s = (Inr (), s')"
    using t by (auto simp: resume_unconfined_def catch_e_def cc_run split: option.split)
  then have "\<exists>s'. dispatch env mode s = (Inr (), s')"
    using assms b t by (auto simp: dispatch_def benign_def exec_simps Let_def cc_run)
  then show ?thesis
    using one_resume_dispatch [OF has_result_completed [OF assms(2)], of env mode]
    by (auto simp: one_resume_def)
qed

lemma dispatch_resume_spec:
  assumes "benign env" "has_result (st s)" "mode \<noteq> MODE_UNINITIALIZED" "resumes s = 0"
    "decision s = UNDECIDED \<or> decision s = SUSPENDED"
    "\<not> is_reusable_mode (resume_mode s)" "resume_mode s \<noteq> MODE_UNINITIALIZED"
  shows "\<exists>s'. dispatch_resume env mode s = (Inr (), s') \<and> cc_inv s' \<and> st s' = st s \<and>
    (decision s = SUSPENDED \<longleftrightarrow> decision s' = SUSPENDED)"
proof (cases "decision s = UNDECIDED")
  case True
  then show ?thesis
    using assms by (simp add: dispatch_resume_def try_resume_decision_run exec_simps cc_inv_def resumes_def
        has_result_completed)
next
  case False
  then have d: "decision s = SUSPENDED" using assms(5) by simp
  obtain ev where "resume_event_for (st s) ev" "dispatch env mode s = (Inr (), s\<lparr>log := log s @ [ev]\<rparr>)"
    using dispatch_ok [OF assms(1-3)] by blast
  then show ?thesis
    using d assms by (auto simp: dispatch_resume_def try_resume_decision_run exec_simps cc_inv_def
        resumes_def resume_event_for_def has_result_completed)
qed

text \<open>A completing operation: it stores a state with a result, runs callbacks that only log, and
  ends in \<open>dispatch_resume\<close>.\<close>

definition step_ok :: "'v cc \<Rightarrow> 'v cc \<Rightarrow> bool" where
  "step_ok s s' \<longleftrightarrow> cc_inv s' \<and> resume_mode s' = resume_mode s \<and>
     (\<not> not_completed (st s) \<longrightarrow> \<not> not_completed (st s')) \<and>
     (decision s = SUSPENDED \<longleftrightarrow> decision s' = SUSPENDED) \<and>
     (decision s \<noteq> UNDECIDED \<longrightarrow> decision s' = decision s)"

lemma cc_inv_frame:
  assumes "cc_inv s" "st s' = st s" "dec_idx s' = dec_idx s" "resumes s' = resumes s"
    "resume_mode s' = resume_mode s" "owned s' = owned s"
  shows "step_ok s s'"
  using assms by (simp add: step_ok_def cc_inv_def)

lemma cc_inv_result_update:
  assumes "cc_inv s" "has_result (st s)" "has_result (st s')"
    "dec_idx s' = dec_idx s" "resumes s' = resumes s" "resume_mode s' = resume_mode s"
  shows "step_ok s s'"
  using assms has_result_completed by (auto simp: step_ok_def cc_inv_def)

lemma dispatch_frame: "resume_mode (snd (dispatch_resume env mode s)) = resume_mode s"
  if "\<not> not_completed (st s)"
proof (cases "decision s = SUSPENDED")
  case True
  then show ?thesis
    using one_resume_dispatch [OF that, of env mode]
    by (auto simp: dispatch_resume_def try_resume_decision_run exec_simps one_resume_def)
qed (simp add: dispatch_resume_def try_resume_decision_run exec_simps)

lemma completing_step:
  assumes b: "benign env" and inv: "cc_inv s" and act: "not_completed (st s)" and mode: "mode \<noteq> MODE_UNINITIALIZED"
    and s1: "has_result (st s1)" "dec_idx s1 = dec_idx s" "resumes s1 = resumes s" "resume_mode s1 = resume_mode s"
  shows "\<exists>s'. dispatch_resume env mode s1 = (Inr (), s') \<and> step_ok s s' \<and> st s' = st s1"
proof -
  have "\<exists>s'. dispatch_resume env mode s1 = (Inr (), s') \<and> cc_inv s' \<and> st s' = st s1 \<and>
      (decision s1 = SUSPENDED \<longleftrightarrow> decision s' = SUSPENDED)"
    using dispatch_resume_spec [OF b s1(1) mode] s1(2-4) inv act by (simp add: cc_inv_def)
  then obtain s' where s': "dispatch_resume env mode s1 = (Inr (), s')" "cc_inv s'" "st s' = st s1"
    "decision s1 = SUSPENDED \<longleftrightarrow> decision s' = SUSPENDED" by blast
  have "resume_mode s' = resume_mode s"
    using dispatch_frame [OF has_result_completed [OF s1(1)], of env mode] s'(1) s1(4) by simp
  then show ?thesis
    using s' s1(1,2) inv act by (auto simp: step_ok_def cc_inv_def has_result_completed)
qed

lemma detach_then_dispatch:
  assumes b: "benign env" and inv: "cc_inv s" and act: "not_completed (st s)" and mode: "mode \<noteq> MODE_UNINITIALIZED"
    and s1: "has_result (st s1)" "dec_idx s1 = dec_idx s" "resumes s1 = resumes s" "resume_mode s1 = resume_mode s"
  shows "\<exists>s'. seq_e (detach_child_if_non_reusable env) (dispatch_resume env mode) s1 = (Inr (), s') \<and>
    step_ok s s' \<and> st s' = st s1"
proof -
  define s2 where "s2 = snd (detach_child_if_non_reusable env s1)"
  have e: "detach_child_if_non_reusable env s1 = (Inr (), s2)" by (simp add: prod_eq_iff s2_def)
  have "st s2 = st s1" "dec_idx s2 = dec_idx s1" "resumes s2 = resumes s1" "resume_mode s2 = resume_mode s1"
    by (simp_all add: s2_def)
  then show ?thesis
    using completing_step [OF b inv act mode, of s2] s1 e by (auto simp: exec_simps)
qed

lemma cancel_ok:
  assumes b: "benign env" and inv: "cc_inv s" and cause: "cause \<noteq> None"
  shows "\<exists>r s'. cancel env cause s = (Inr r, s') \<and> step_ok s s' \<and> (r \<longleftrightarrow> not_completed (st s))"
proof (cases "not_completed (st s)")
  case True
  let ?h = "\<exists>h. st s = CancelHandler h"
  let ?x = "CancelledContinuation cause ?h"
  let ?s1 = "s\<lparr>st := ?x, owned := Some ?x\<rparr>"
  let ?s2 = "if ?h then (case owned_handler s of
      Some h \<Rightarrow> ?s1\<lparr>log := log s @ handler_log env h cause\<rparr> | None \<Rightarrow> ?s1) else ?s1"
  have "cancel env cause s = bind_e (seq_e (detach_child_if_non_reusable env) (dispatch_resume env (resume_mode s)))
      (\<lambda>_. return_e True) ?s2"
    using True inv
    by (cases "st s") (auto simp: cc_inv_def owned_handler_def cancel_def exec_simps cc_run Let_def split: option.split prod.split sum.split)
  moreover have "has_result (st ?s2)" "dec_idx ?s2 = dec_idx s" "resumes ?s2 = resumes s"
    "resume_mode ?s2 = resume_mode s"
    using cause by (auto simp: resumes_def split: option.split)
  ultimately show ?thesis
    using detach_then_dispatch [OF b inv True, of "resume_mode s" ?s2] inv True
    by (auto simp: exec_simps cc_inv_def)
next
  case False
  then show ?thesis using inv by (auto simp: cancel_def exec_simps cc_inv_frame)
qed

lemma resumed_state_has_result: "has_result (resumed_state x h v mode oc idem)"
  by (simp add: resumed_state_def Let_def)

lemma resume_impl_ok:
  assumes b: "benign env" and inv: "cc_inv s" and mode: "mode \<noteq> MODE_UNINITIALIZED"
  shows "\<exists>r s'. resume_impl env v mode oc s = (r, s') \<and> step_ok s s'"
proof (cases "not_completed (st s)")
  case True
  then have "resume_impl env v mode oc s =
      seq_e (detach_child_if_non_reusable env) (dispatch_resume env mode)
        (s\<lparr>st := resumed_state (st s) (owned_handler s) v mode oc None\<rparr>)"
    by (simp add: resume_impl_def exec_simps cc_run)
  then show ?thesis
    using detach_then_dispatch [OF b inv True mode, of "s\<lparr>st := resumed_state (st s) (owned_handler s) v mode oc None\<rparr>"]
    by (auto simp: resumed_state_has_result resumes_def)
next
  case False
  then show ?thesis
    using inv
    by (cases "st s")
      (auto simp: resume_impl_def exec_simps cc_run resumes_def cc_inv_def
        intro!: cc_inv_frame cc_inv_result_update split: option.split)
qed

lemma resume_impl_exception_ok:
  assumes b: "benign env" and inv: "cc_inv s" and e: "e \<noteq> None"
  shows "\<exists>r s'. resume_impl_exception env e s = (r, s') \<and> step_ok s s'"
proof (cases "not_completed (st s)")
  case True
  then have "resume_impl_exception env e s =
      dispatch_resume env (resume_mode s) (s\<lparr>st := CompletedExceptionState e False\<rparr>)"
    by (simp add: resume_impl_exception_def try_resume_with_exception_def complete_resume_def exec_simps cc_run)
  then show ?thesis
    using completing_step [OF b inv True, of "resume_mode s" "s\<lparr>st := CompletedExceptionState e False\<rparr>"] e inv
    by (auto simp: resumes_def cc_inv_def)
next
  case False
  then show ?thesis
    using inv by (auto simp: resume_impl_exception_def try_resume_with_exception_def exec_simps intro!: cc_inv_frame)
qed

lemma token_ok:
  assumes b: "benign env" and inv: "cc_inv s"
  shows "\<exists>r s'. bind_e (try_resume env v None oc) (complete_resume env) s = (r, s') \<and> step_ok s s'"
proof (cases "not_completed (st s)")
  case True
  let ?s1 = "s\<lparr>st := resumed_state (st s) (owned_handler s) v (resume_mode s) oc None\<rparr>"
  have "bind_e (try_resume env v None oc) (complete_resume env) s =
      seq_e (detach_child_if_non_reusable env) (dispatch_resume env (resume_mode s)) ?s1"
    using True by (auto simp: try_resume_def complete_resume_def exec_simps cc_run)
  then show ?thesis
    using detach_then_dispatch [OF b inv True, of "resume_mode s" ?s1] inv
    by (auto simp: resumed_state_has_result resumes_def cc_inv_def)
next
  case False
  then show ?thesis
    using inv by (cases "st s")
      (auto simp: try_resume_def complete_resume_def exec_simps intro!: cc_inv_frame)
qed

lemma invoke_ok:
  assumes inv: "cc_inv s"
  shows "\<exists>r s'. invoke_on_cancellation_impl env h s = (r, s') \<and> step_ok s s'"
  using inv
  by (cases "st s")
    (auto simp: invoke_on_cancellation_impl_def exec_simps cc_run resumes_def cc_inv_def Let_def step_ok_def)

lemma not_reusable: "cc_inv s \<Longrightarrow> \<not> is_reusable env s"
  by (simp add: cc_inv_def is_reusable_def)

lemma step_ok_trans: "step_ok a b \<Longrightarrow> step_ok b c \<Longrightarrow> step_ok a c"
  by (auto simp: step_ok_def)

lemma parent_cancelled_ok:
  assumes b: "benign env" and inv: "cc_inv s" and cause: "cause \<noteq> None"
  shows "\<exists>r s'. parent_cancelled env cause s = (r, s') \<and> step_ok s s'"
proof -
  obtain r s1 where c: "cancel env cause s = (Inr r, s1)" "step_ok s s1"
    using cancel_ok [OF b inv cause] by blast
  let ?s2 = "snd (detach_child_if_non_reusable env s1)"
  have d: "detach_child_if_non_reusable env s1 = (Inr (), ?s2)" by (simp add: prod_eq_iff)
  have "parent_cancelled env cause s = (Inr (), ?s2)"
    using c(1) d not_reusable [OF inv] by (simp add: parent_cancelled_def cancel_later_def exec_simps)
  moreover have "step_ok s1 ?s2" using c(2) by (intro cc_inv_frame) (simp_all add: step_ok_def)
  then have "step_ok s ?s2" by (rule step_ok_trans [OF c(2)])
  ultimately show ?thesis by blast
qed

lemma run_op_ok:
  assumes "benign env" "cc_inv s" "op_ok op"
  shows "step_ok s (snd (run_op env op s))"
proof -
  have m: "resume_mode s \<noteq> MODE_UNINITIALIZED" using assms(2) by (simp add: cc_inv_def)
  have imp: "step_ok s (snd (resume_impl env v (resume_mode s) oc s))" for v oc
    using resume_impl_ok [OF assms(1,2) m, of v oc] by fastforce
  have exc: "step_ok s (snd (resume_impl_exception env e s))" if "e \<noteq> None" for e
    using resume_impl_exception_ok [OF assms(1,2) that] by fastforce
  show ?thesis
  proof (cases op)
    case (Op_Cancel cause)
    then show ?thesis using cancel_ok [of env s cause] assms by (auto simp: forget_e_def exec_simps)
  next
    case (Op_Parent_Cancelled cause)
    then show ?thesis using parent_cancelled_ok [of env s cause] assms by fastforce
  next
    case (Op_Resume v oc)
    then show ?thesis using imp by (simp add: resume_def exec_simps)
  next
    case (Op_Resume_Undispatched v)
    then show ?thesis
      using resume_impl_ok [of env s MODE_UNDISPATCHED v None] assms
      by (fastforce simp: resume_undispatched_def mode_defs)
  next
    case (Op_Resume_With r)
    then show ?thesis
      using imp exc assms(3) by (cases r) (simp_all add: cc_resume_with_def exec_simps)
  next
    case (Op_Token v oc)
    then show ?thesis using token_ok [of env s v oc] assms by fastforce
  next
    case (Op_Invoke_On_Cancellation h)
    then show ?thesis using invoke_ok [of s env h] assms by fastforce
  qed
qed

lemma run_ops_ok:
  assumes "benign env" "cc_inv s" "list_all op_ok ops"
  shows "step_ok s (run_ops env ops s)"
  using assms(2,3)
proof (induction ops arbitrary: s)
  case Nil
  then show ?case by (simp add: cc_inv_frame)
next
  case (Cons op ops)
  have "step_ok s (snd (run_op env op s))" using run_op_ok [OF assms(1) Cons.prems(1)] Cons.prems(2) by simp
  then show ?case using Cons.IH [of "snd (run_op env op s)"] Cons.prems(2) step_ok_trans by (fastforce simp: step_ok_def)
qed

lemma cancel_completed_result_step:
  assumes "cc_inv s" "has_result (st s)"
  shows "step_ok s (snd (cancel_completed_result env cause s))"
proof (cases "st s")
  case (CompletedCancellableContinuationState v h oc idem c)
  then show ?thesis
    using assms
    by (cases c; cases h; cases oc)
      (auto simp: cancel_completed_result_def exec_simps cc_run resumes_def
        intro!: cc_inv_frame cc_inv_result_update)
qed (use assms in \<open>auto simp: cancel_completed_result_def exec_simps cc_run resumes_def Let_def
      intro!: cc_inv_frame cc_inv_result_update\<close>)

lemma get_result_spec:
  assumes inv: "cc_inv s" and first: "decision s \<noteq> SUSPENDED"
  shows "\<exists>r s'. get_result env s = (r, s') \<and> cc_inv s' \<and> resume_mode s' = resume_mode s \<and>
    (if not_completed (st s)
     then r = Inr COROUTINE_SUSPENDED \<and> st s' = st s \<and> decision s' = SUSPENDED
     else r \<noteq> Inr COROUTINE_SUSPENDED \<and> \<not> not_completed (st s') \<and> decision s' = RESUMED)"
proof (cases "not_completed (st s)")
  case True
  then have d: "decision s = UNDECIDED" using inv first by (simp add: cc_inv_def)
  have "\<exists>s'. get_result env s = (Inr COROUTINE_SUSPENDED, s') \<and> st s' = st s \<and> owned s' = owned s \<and>
      dec_idx s' = decision_and_index SUSPENDED (get_index (dec_idx s)) \<and> log s' = log s \<and>
      resume_mode s' = resume_mode s"
    using d not_reusable [OF inv, of env]
    by (auto simp: get_result_def try_suspend_run install_parent_handle_def exec_simps)
  then show ?thesis using True inv by (auto simp: cc_inv_def resumes_def)
next
  case False
  then have d: "decision s = RESUMED" "has_result (st s)" using inv first by (auto simp: cc_inv_def)
  have g: "get_result env s = take_result env s"
    using d(1) not_reusable [OF inv, of env] by (simp add: get_result_def try_suspend_run exec_simps)
  have c: "step_ok s (snd (seq_e (cancel_completed_result env (Some e)) (rethrow_e (Some e)) s)) \<and>
      fst (seq_e (cancel_completed_result env (Some e)) (rethrow_e (Some e)) s) \<noteq> Inr COROUTINE_SUSPENDED" for e
    using cancel_completed_result_step [OF inv d(2), of env "Some e"]
    by (auto simp: exec_simps rethrow_e_def split: prod.split sum.split)
  have "step_ok s (snd (take_result env s)) \<and> fst (take_result env s) \<noteq> Inr COROUTINE_SUSPENDED"
    using d(2) c cc_inv_frame [OF inv]
    by (cases "st s")
      (auto simp: take_result_def get_successful_result_def rethrow_e_def exec_simps split: option.split)
  then show ?thesis
    using g d(1) False by (cases "take_result env s") (auto simp: step_ok_def)
qed

subsection \<open>Properties\<close>

text \<open>The decision and the segment index are packed without loss: for each of the three
  decisions and every index up to \<open>NO_INDEX\<close> both are read back from the 32-bit word.\<close>

lemma decision_index_roundtrip:
  assumes "d = UNDECIDED \<or> d = SUSPENDED \<or> d = RESUMED" "i \<le> NO_INDEX"
  shows "get_decision (decision_and_index d i) = d \<and> get_index (decision_and_index d i) = i"
  using decision_cases_packed [OF assms] by blast

lemma decision_index_roundtrip_witness:
  "get_decision (decision_and_index RESUMED 5) = RESUMED \<and> get_index (decision_and_index RESUMED 5) = 5"
  by (rule decision_index_roundtrip) (simp_all add: NO_INDEX_def INDEX_MASK_def DECISION_SHIFT_def push_bit_eq_mult)


text \<open>A concrete setting for the witnesses: a dispatched delegate whose dispatcher asks for a
  dispatch, an active job in the context, callbacks that return.\<close>

definition sample_env :: cc_env where
  "sample_env = \<lparr>denv = \<lparr>context_present = True, context_job = Some (True, Exc 9 CancellationException ''job''),
       dispatch_needed = Inr True, dispatch_throws = None, event_loop = None\<rparr>,
     delegate_is_dispatched = True, handler_throws = (\<lambda>_. False), callback_throws = (\<lambda>_. False),
     segment_throws = (\<lambda>_. False), registered_handle = Some 3, this_addr = 16, box_addr = 8\<rparr>"

definition sample_delegate :: "nat dispatched" where
  "sample_delegate = \<lparr>reusable_cc = 0, boxes = (\<lambda>_. None), dstate = None, dmode = -1, dlog = []\<rparr>"

lemma sample_benign: "benign sample_env"
  by (auto simp: benign_def sample_env_def)

lemma sample_modes: "\<not> is_reusable_mode 1" "(1::int) \<noteq> MODE_UNINITIALIZED"
  by (simp_all add: is_reusable_mode_def mode_defs)


fun handler_call :: "'v cc_event \<Rightarrow> (nat \<times> exception_ptr option) option" where
  "handler_call (Handler_Called h cause) = Some (h, cause)"
| "handler_call _ = None"

definition handler_calls :: "'v cc \<Rightarrow> (nat \<times> exception_ptr option) list" where
  "handler_calls s = List.map_filter handler_call (log s)"

lemma map_filter_append: "List.map_filter f (xs @ ys) = List.map_filter f xs @ List.map_filter f ys"
  by (induction xs) (auto simp: List.map_filter_def)

lemma map_filter_None: "(\<forall>x\<in>set xs. f x = None) \<Longrightarrow> List.map_filter f xs = []"
  by (induction xs) (auto simp: List.map_filter_def)

lemma handler_call_resume: "is_resume_event e \<Longrightarrow> List.map_filter handler_call [e] = []"
  by (cases e) (auto simp: List.map_filter_def)

lemma handler_calls_append [simp]:
  "handler_calls (s\<lparr>log := log s' @ es\<rparr>) = handler_calls s' @ List.map_filter handler_call es"
  by (simp add: handler_calls_def map_filter_append)

lemma handler_calls_frame [simp]:
  "handler_calls (s\<lparr>st := x\<rparr>) = handler_calls s" "handler_calls (s\<lparr>owned := y\<rparr>) = handler_calls s"
  "handler_calls (s\<lparr>dec_idx := w\<rparr>) = handler_calls s" "handler_calls (s\<lparr>parent_handle := p\<rparr>) = handler_calls s"
  by (simp_all add: handler_calls_def)

lemma map_filter_logs [simp]:
  "List.map_filter handler_call (handler_log env h c) = [(h, c)]"
  "List.map_filter handler_call (detach_log s) = []"
  by (auto simp: handler_log_def detach_log_def unhandled_log_def List.map_filter_def
      split: option.split disposable_handle.split)

lemma handler_calls_dispatch_resume:
  assumes "\<not> not_completed (st s)"
  shows "handler_calls (snd (dispatch_resume env mode s)) = handler_calls s"
    "st (snd (dispatch_resume env mode s)) = st s"
proof -
  have "handler_calls (snd (dispatch_resume env mode s)) = handler_calls s \<and>
      st (snd (dispatch_resume env mode s)) = st s"
  proof (cases "decision s = SUSPENDED")
    case True
    then show ?thesis
      using one_resume_dispatch [OF assms, of env mode] handler_call_resume
      by (auto simp: dispatch_resume_def try_resume_decision_run exec_simps one_resume_def
          resume_event_for_def)
  qed (simp add: dispatch_resume_def try_resume_decision_run exec_simps)
  then show "handler_calls (snd (dispatch_resume env mode s)) = handler_calls s"
    "st (snd (dispatch_resume env mode s)) = st s" by simp_all
qed

lemma bind_return_snd: "snd (bind_e m (\<lambda>_. return_e x) s) = snd (m s)"
  by (auto simp: exec_simps split: prod.split sum.split)

lemma cancel_calls:
  assumes inv: "cc_inv s" and act: "not_completed (st s)"
  shows "st (snd (cancel env cause s)) = CancelledContinuation cause (st s \<noteq> Active) \<and>
    handler_calls (snd (cancel env cause s)) = handler_calls s @
      (case st s of CancelHandler h \<Rightarrow> [(h, cause)] | _ \<Rightarrow> []) \<and>
    resume_mode (snd (cancel env cause s)) = resume_mode s"
proof -
  let ?x = "CancelledContinuation cause (st s \<noteq> Active)"
  let ?s1 = "s\<lparr>st := ?x, owned := Some ?x, log := log s @ (case st s of CancelHandler h \<Rightarrow> handler_log env h cause | _ \<Rightarrow> [])\<rparr>"
  let ?s2 = "snd (detach_child_if_non_reusable env ?s1)"
  have "cancel env cause s = bind_e (dispatch_resume env (resume_mode s)) (\<lambda>_. return_e True) ?s2"
    using act inv
    by (cases "st s")
      (auto simp: cancel_def exec_simps cc_run Let_def cc_inv_def owned_handler_def split: prod.split sum.split)
  then have "snd (cancel env cause s) = snd (dispatch_resume env (resume_mode s) ?s2)"
    by (auto simp: exec_simps split: prod.split sum.split)
  moreover have "handler_calls ?s2 = handler_calls ?s1" by (simp add: cc_run map_filter_append)
  ultimately show ?thesis
    using handler_calls_dispatch_resume [of ?s2 env "resume_mode s"] dispatch_frame [of ?s2 env "resume_mode s"]
    by (auto simp: List.map_filter_simps(2) split: cont_state.split)
qed

lemma cancel_active_log:
  assumes inv: "cc_inv s" and act: "st s = Active"
  shows "log (snd (cancel env cause s)) = log s @ detach_log s \<or>
    (\<exists>ev. is_resume_event ev \<and> log (snd (cancel env cause s)) = log s @ detach_log s @ [ev])"
proof -
  let ?x = "CancelledContinuation cause False"
  let ?s1 = "snd (detach_child_if_non_reusable env (s\<lparr>st := ?x, owned := Some ?x\<rparr>))"
  have c: "snd (cancel env cause s) = snd (dispatch_resume env (resume_mode s) ?s1)"
    using act by (auto simp: cancel_def exec_simps cc_run Let_def split: prod.split sum.split)
  have l: "log ?s1 = log s @ detach_log s"
    using inv by (simp add: cc_run is_reusable_def cc_inv_def detach_log_def)
  show ?thesis
  proof (cases "decision s = SUSPENDED")
    case True
    then show ?thesis
      using one_resume_dispatch [of ?s1 env "resume_mode s"] c l
      by (auto simp: dispatch_resume_def try_resume_decision_run exec_simps one_resume_def resume_event_for_def)
  qed (use c l in \<open>simp add: dispatch_resume_def try_resume_decision_run exec_simps\<close>)
qed

lemma handled_cancelled_stays:
  assumes "st s = CancelledContinuation cause True" "\<not> is_reusable_mode (resume_mode s)"
  shows "st (run_ops env ops s) = CancelledContinuation cause True \<and>
    handler_calls (run_ops env ops s) = handler_calls s"
  using assms
proof (induction ops arbitrary: s)
  case (Cons op ops)
  have "st (snd (run_op env op s)) = st s \<and> handler_calls (snd (run_op env op s)) = handler_calls s \<and>
      resume_mode (snd (run_op env op s)) = resume_mode s"
  proof (cases op)
    case (Op_Resume_With r)
    then show ?thesis using Cons.prems
      by (cases r) (simp_all add: cc_resume_with_def resume_impl_def resume_impl_exception_def
          try_resume_with_exception_def exec_simps)
  qed (use Cons.prems in \<open>simp_all add: forget_e_def cancel_def parent_cancelled_def cancel_later_def is_reusable_def
      resume_def resume_impl_def resume_undispatched_def try_resume_def complete_resume_def
      invoke_on_cancellation_impl_def exec_simps cc_run\<close>)
  then show ?case using Cons by simp
qed simp

text \<open>C4: A cancellation handler is called exactly once with the cancellation cause, whether it is
  registered before the cancellation or after it, and no later operation calls it again.\<close>

theorem cancel_handler_called_once:
  assumes inv: "cc_inv s" and act: "st s = Active"
  shows "handler_calls (run_ops env ([Op_Invoke_On_Cancellation h, Op_Cancel cause] @ ops) s) =
      handler_calls s @ [(h, cause)] \<and>
    handler_calls (run_ops env ([Op_Cancel cause, Op_Invoke_On_Cancellation h] @ ops) s) =
      handler_calls s @ [(h, cause)]"
proof
  let ?s1 = "s\<lparr>st := CancelHandler h, owned := Some (CancelHandler h)\<rparr>"
  have i: "invoke_on_cancellation_impl env h s = (Inr (), ?s1)"
    using act by (simp add: invoke_on_cancellation_impl_def exec_simps cc_run)
  have s1: "cc_inv ?s1" using inv act by (simp add: cc_inv_def resumes_def)
  have "st (snd (cancel env cause ?s1)) = CancelledContinuation cause True"
    "handler_calls (snd (cancel env cause ?s1)) = handler_calls s @ [(h, cause)]"
    using cancel_calls [OF s1, of env cause] by simp_all
  moreover have "\<not> is_reusable_mode (resume_mode (snd (cancel env cause ?s1)))"
    using cancel_calls [OF s1, of env cause] inv by (simp add: cc_inv_def)
  ultimately show "handler_calls (run_ops env ([Op_Invoke_On_Cancellation h, Op_Cancel cause] @ ops) s) =
      handler_calls s @ [(h, cause)]"
    using i handled_cancelled_stays [of "snd (cancel env cause ?s1)" cause env ops]
    by (simp add: forget_e_def bind_return_snd)
next
  let ?s1 = "snd (cancel env cause s)"
  have s1: "st ?s1 = CancelledContinuation cause False" "handler_calls ?s1 = handler_calls s"
    using cancel_calls [OF inv, of env cause] act by simp_all
  let ?s2 = "snd (invoke_on_cancellation_impl env h ?s1)"
  have "st ?s2 = CancelledContinuation cause True" "handler_calls ?s2 = handler_calls s @ [(h, cause)]"
    "resume_mode ?s2 = resume_mode ?s1"
    using s1 by (simp_all add: invoke_on_cancellation_impl_def exec_simps cc_run)
  moreover have "\<not> is_reusable_mode (resume_mode ?s1)"
    using cancel_calls [OF inv, of env cause] act inv by (simp add: cc_inv_def)
  ultimately show "handler_calls (run_ops env ([Op_Cancel cause, Op_Invoke_On_Cancellation h] @ ops) s) =
      handler_calls s @ [(h, cause)]"
    using handled_cancelled_stays [of ?s2 cause env ops]
    by (simp add: forget_e_def bind_return_snd)
qed

theorem cancel_handler_called_once_witness:
  "handler_calls (run_ops sample_env [Op_Invoke_On_Cancellation 4, Op_Cancel None] (new_cc sample_delegate 1)) = [(4, None)]"
  using cancel_handler_called_once [OF new_cc_inv [OF sample_modes, of sample_delegate], of sample_env 4 None "[]"]
  by (simp add: new_cc_def handler_calls_def List.map_filter_def)

lemma run_task_cancelled:
  assumes "st s = CompletedCancellableContinuationState v h oc idem None"
    "is_cancellable_mode (resume_mode s)" "inactive_job_cause (denv env) = Some cause"
  shows "run_task env s = (Inr (), s\<lparr>st := CompletedCancellableContinuationState v h oc idem (Some cause),
    log := log s @ (case h of Some x \<Rightarrow> handler_log env x (Some cause) | None \<Rightarrow> []) @
      (case oc of Some f \<Rightarrow> callback_log env f (Some cause) v | None \<Rightarrow> []) @
      [Delegate_Resumed (Failure (Some cause))]\<rparr>)"
  using assms
  by (cases h; cases oc)
    (auto simp: run_task_def cc_take_state_def exception_or_null_def cancel_completed_result_def catch_e_def
      is_cancellable_mode_def mode_defs exec_simps cc_run)

lemma run_task_value:
  assumes "st s = CompletedCancellableContinuationState v h oc idem c \<or> st s = CompletedWithValue v"
    "resume_mode s \<noteq> MODE_UNINITIALIZED" "inactive_job_cause (denv env) = None"
  shows "run_task env s = (Inr (), s\<lparr>log := log s @ [Delegate_Resumed (Success v)]\<rparr>)"
  using assms
  by (auto simp: run_task_def cc_take_state_def exception_or_null_def get_or_throw_def catch_e_def exec_simps cc_run)

lemma dispatch_to_dispatcher:
  assumes "is_cancellable_mode (resume_mode s)" "delegate_is_dispatched env"
    "context_present (denv env)" "dispatch_needed (denv env) = Inr True" "dispatch_throws (denv env) = None"
  shows "dispatch env (resume_mode s) s = (Inr (), s\<lparr>log := log s @ [Task_Dispatched]\<rparr>)"
proof -
  have "resume_mode s \<noteq> MODE_UNINITIALIZED" "resume_mode s \<noteq> MODE_UNDISPATCHED"
    using assms(1) by (auto simp: is_cancellable_mode_def mode_defs)
  then show ?thesis using assms(2-5)
    by (simp add: dispatch_def needs_dispatch_def safe_is_dispatch_needed_def exec_simps cc_run)
qed



lemma resume_on_cancelled:
  "st s = CancelledContinuation cause handled \<Longrightarrow>
    fst (resume env v oc s) = (if handled then Inl (Logic_Error ''Already resumed'') else Inr ())"
  by (auto simp: resume_def resume_impl_def exec_simps cc_run split: option.split)

text \<open>A continuation that was cancelled while a cancellation handler was installed rejects the
  next \<open>resume\<close> with \<open>Already resumed\<close>, while the same \<open>resume\<close> without a handler is ignored: the
  flag that marks the handler as called also marks the continuation as resumed.\<close>

lemma resume_after_handled_cancel:
  assumes "cc_inv s" "st s = Active"
  shows "fst (resume env v oc (run_ops env [Op_Invoke_On_Cancellation h, Op_Cancel cause] s)) =
      Inl (Logic_Error ''Already resumed'') \<and>
    fst (resume env v oc (run_ops env [Op_Cancel cause] s)) = Inr ()"
proof
  let ?s1 = "s\<lparr>st := CancelHandler h, owned := Some (CancelHandler h)\<rparr>"
  have i: "invoke_on_cancellation_impl env h s = (Inr (), ?s1)"
    using assms by (simp add: invoke_on_cancellation_impl_def exec_simps cc_run)
  have s1: "cc_inv ?s1" using assms by (simp add: cc_inv_def resumes_def)
  have "st (snd (cancel env cause ?s1)) = CancelledContinuation cause True"
    using cancel_calls [OF s1, of env cause] by simp
  then show "fst (resume env v oc (run_ops env [Op_Invoke_On_Cancellation h, Op_Cancel cause] s)) =
      Inl (Logic_Error ''Already resumed'')"
    using i resume_on_cancelled [of "snd (cancel env cause ?s1)" cause True]
    by (simp add: forget_e_def bind_return_snd)
  have "st (snd (cancel env cause s)) = CancelledContinuation cause False"
    using cancel_calls [OF assms(1), of env cause] assms(2) by simp
  then show "fst (resume env v oc (run_ops env [Op_Cancel cause] s)) = Inr ()"
    using resume_on_cancelled [of "snd (cancel env cause s)" cause False]
    by (simp add: forget_e_def bind_return_snd)
qed

lemma resume_after_handled_cancel_witness:
  "fst (resume sample_env 1 None (run_ops sample_env [Op_Invoke_On_Cancellation 4, Op_Cancel None] (new_cc sample_delegate 1))) =
     Inl (Logic_Error ''Already resumed'')"
  using resume_after_handled_cancel [OF new_cc_inv [OF sample_modes, of sample_delegate], of sample_env 1 None 4 None]
  by (simp add: new_cc_def)

text \<open>A segment registered for cancellation is forgotten: registration on an active
  continuation succeeds, and a later \<open>cancel\<close> completes the continuation without calling the
  segment.\<close>

lemma registered_segment_not_called:
  assumes "cc_inv s" "st s = Active" "get_index (dec_idx s) = NO_INDEX" "index \<le> NO_INDEX"
  shows "\<exists>s1. invoke_on_cancellation_segment env segment index s = (Inr (), s1) \<and>
    segment_for_cancellation s1 = Some segment \<and>
    st (snd (cancel env cause s1)) = CancelledContinuation cause False \<and>
    (\<forall>i c. Segment_Cancelled segment i c \<in> set (log (snd (cancel env cause s1))) \<longrightarrow>
       Segment_Cancelled segment i c \<in> set (log s))"
proof -
  let ?s1 = "s\<lparr>dec_idx := decision_and_index (decision s) index, segment_for_cancellation := Some segment\<rparr>"
  have "invoke_on_cancellation_segment env segment index s = (Inr (), ?s1)"
    using assms(2,3) by (simp add: invoke_on_cancellation_segment_def set_segment_index_def
        invoke_on_cancellation_impl_segment_def exec_simps)
  moreover have "get_decision (decision_and_index (decision s) index) = decision s"
    using assms by (intro decision_cases_packed(1)) (auto simp: cc_inv_def)
  then have i: "cc_inv ?s1" using assms(1,2) by (simp add: cc_inv_def resumes_def)
  moreover have "log (snd (cancel env cause ?s1)) = log s @ detach_log s \<or>
      (\<exists>ev. is_resume_event ev \<and> log (snd (cancel env cause ?s1)) = log s @ detach_log s @ [ev])"
    using cancel_active_log [OF i, of env cause] assms(2) by (simp add: detach_log_def)
  moreover have "Segment_Cancelled segment j c \<notin> set (detach_log s)" for j c
    by (auto simp: detach_log_def split: option.splits disposable_handle.splits)
  ultimately show ?thesis
    using cancel_calls [OF i, of env cause] assms(2) by auto
qed

lemma registered_segment_not_called_witness:
  "\<exists>s1. invoke_on_cancellation_segment sample_env 6 2 (new_cc sample_delegate 1) = (Inr (), s1) \<and>
     st (snd (cancel sample_env None s1)) = CancelledContinuation None False"
proof -
  have "get_index (dec_idx (new_cc sample_delegate 1)) = NO_INDEX"
    by (simp add: new_cc_def decision_cases_packed(2))
  then show ?thesis
    using registered_segment_not_called [OF new_cc_inv [OF sample_modes, of sample_delegate], of 2 sample_env 6 None]
    by (auto simp: new_cc_def NO_INDEX_def INDEX_MASK_def DECISION_SHIFT_def push_bit_eq_mult)
qed

end
