(* ===== verification/Continuation_Race.thy ===== *)
theory Continuation_Race
  imports Cancellable_Continuation
begin

text \<open>
  The race at the heart of \<open>CancellableContinuationImpl\<close>, access by access. The owner runs
  \<open>try_suspend\<close> (load the packed word, compare-and-swap it); any number of completers run a
  resume, an exceptional resume or a cancel (load the state, swap it, then \<open>dispatch_resume\<close>: load
  the word, swap it or dispatch). Handlers may be installed and the segment index stored between
  any two accesses, which makes other swaps fail. Every interleaving is a run of \<open>race_step\<close>.
\<close>

datatype 'v owner_pc =
    Own_Idle
  | Own_Loaded "32 word"
  | Own_Suspended
  | Own_Reading
  | Own_Direct "'v cont_state"
  | Own_Error

datatype 'v completer_pc =
    Com_Idle
  | Com_Loaded "'v cont_state"
  | Com_Won
  | Com_Decide "32 word"
  | Com_Left
  | Com_Dispatched
  | Com_Lost
  | Com_Error

record 'v race =
  rst :: "'v cont_state"
  word :: "32 word"
  owner :: "'v owner_pc"
  com :: "nat \<Rightarrow> 'v completer_pc"

text \<open>Thread \<open>i\<close> completes with the state \<open>upd i\<close>, which is a completed one.\<close>

inductive race_step :: "nat \<Rightarrow> (nat \<Rightarrow> 'v cont_state) \<Rightarrow> 'v race \<Rightarrow> 'v race \<Rightarrow> bool" for n upd where
  owner_load: "owner r = Own_Idle \<Longrightarrow> race_step n upd r (r\<lparr>owner := Own_Loaded (word r)\<rparr>)"
| owner_swap: "\<lbrakk>owner r = Own_Loaded cur; get_decision cur = UNDECIDED; word r = cur\<rbrakk> \<Longrightarrow>
    race_step n upd r (r\<lparr>owner := Own_Suspended, word := decision_and_index SUSPENDED (get_index cur)\<rparr>)"
| owner_retry: "\<lbrakk>owner r = Own_Loaded cur; get_decision cur = UNDECIDED; word r \<noteq> cur\<rbrakk> \<Longrightarrow>
    race_step n upd r (r\<lparr>owner := Own_Idle\<rparr>)"
| owner_resumed: "\<lbrakk>owner r = Own_Loaded cur; get_decision cur = RESUMED\<rbrakk> \<Longrightarrow>
    race_step n upd r (r\<lparr>owner := Own_Reading\<rparr>)"
| owner_fails: "\<lbrakk>owner r = Own_Loaded cur; get_decision cur \<noteq> UNDECIDED; get_decision cur \<noteq> RESUMED\<rbrakk> \<Longrightarrow>
    race_step n upd r (r\<lparr>owner := Own_Error\<rparr>)"
| owner_read: "owner r = Own_Reading \<Longrightarrow> race_step n upd r (r\<lparr>owner := Own_Direct (rst r)\<rparr>)"
| com_load: "\<lbrakk>i < n; com r i = Com_Idle\<rbrakk> \<Longrightarrow> race_step n upd r (r\<lparr>com := (com r)(i := Com_Loaded (rst r))\<rparr>)"
| com_lost: "\<lbrakk>i < n; com r i = Com_Loaded x; \<not> not_completed x\<rbrakk> \<Longrightarrow>
    race_step n upd r (r\<lparr>com := (com r)(i := Com_Lost)\<rparr>)"
| com_swap: "\<lbrakk>i < n; com r i = Com_Loaded x; not_completed x; rst r = x\<rbrakk> \<Longrightarrow>
    race_step n upd r (r\<lparr>rst := upd i, com := (com r)(i := Com_Won)\<rparr>)"
| com_retry: "\<lbrakk>i < n; com r i = Com_Loaded x; not_completed x; rst r \<noteq> x\<rbrakk> \<Longrightarrow>
    race_step n upd r (r\<lparr>com := (com r)(i := Com_Idle)\<rparr>)"
| com_load_word: "\<lbrakk>i < n; com r i = Com_Won\<rbrakk> \<Longrightarrow> race_step n upd r (r\<lparr>com := (com r)(i := Com_Decide (word r))\<rparr>)"
| com_leave: "\<lbrakk>i < n; com r i = Com_Decide cur; get_decision cur = UNDECIDED; word r = cur\<rbrakk> \<Longrightarrow>
    race_step n upd r (r\<lparr>com := (com r)(i := Com_Left), word := decision_and_index RESUMED (get_index cur)\<rparr>)"
| com_leave_retry: "\<lbrakk>i < n; com r i = Com_Decide cur; get_decision cur = UNDECIDED; word r \<noteq> cur\<rbrakk> \<Longrightarrow>
    race_step n upd r (r\<lparr>com := (com r)(i := Com_Won)\<rparr>)"
| com_dispatch: "\<lbrakk>i < n; com r i = Com_Decide cur; get_decision cur = SUSPENDED\<rbrakk> \<Longrightarrow>
    race_step n upd r (r\<lparr>com := (com r)(i := Com_Dispatched)\<rparr>)"
| com_fails: "\<lbrakk>i < n; com r i = Com_Decide cur; get_decision cur \<noteq> UNDECIDED; get_decision cur \<noteq> SUSPENDED\<rbrakk> \<Longrightarrow>
    race_step n upd r (r\<lparr>com := (com r)(i := Com_Error)\<rparr>)"
| install_handler: "rst r = Active \<Longrightarrow> race_step n upd r (r\<lparr>rst := CancelHandler h\<rparr>)"
| store_index: "\<lbrakk>get_index (word r) = NO_INDEX; k \<le> NO_INDEX\<rbrakk> \<Longrightarrow>
    race_step n upd r (r\<lparr>word := decision_and_index (get_decision (word r)) k\<rparr>)"

inductive_cases race_stepE: "race_step n upd r r'"

definition race_init :: "'v race" where
  "race_init = \<lparr>rst = Active, word = decision_and_index UNDECIDED NO_INDEX, owner = Own_Idle, com = (\<lambda>_. Com_Idle)\<rparr>"

abbreviation race_reach :: "nat \<Rightarrow> (nat \<Rightarrow> 'v cont_state) \<Rightarrow> 'v race \<Rightarrow> bool" where
  "race_reach n upd r \<equiv> (race_step n upd)\<^sup>*\<^sup>* race_init r"

fun winner :: "'v completer_pc \<Rightarrow> bool" where
  "winner Com_Won = True"
| "winner (Com_Decide _) = True"
| "winner Com_Left = True"
| "winner Com_Dispatched = True"
| "winner Com_Error = True"
| "winner _ = False"

definition decided :: "32 word \<Rightarrow> bool" where
  "decided w \<longleftrightarrow> get_decision w = UNDECIDED \<or> get_decision w = SUSPENDED \<or> get_decision w = RESUMED"

text \<open>The owner is the only one that suspends, the winning completer the only one that resumes.\<close>

fun owner_inv :: "'v race \<Rightarrow> 'v owner_pc \<Rightarrow> bool" where
  "owner_inv r Own_Idle = (get_decision (word r) \<noteq> SUSPENDED)"
| "owner_inv r (Own_Loaded cur) = (get_decision (word r) \<noteq> SUSPENDED \<and> decided cur \<and> get_decision cur \<noteq> SUSPENDED \<and>
     (get_decision cur = RESUMED \<longrightarrow> get_decision (word r) = RESUMED))"
| "owner_inv r Own_Suspended = (get_decision (word r) = SUSPENDED)"
| "owner_inv r Own_Reading = (get_decision (word r) = RESUMED)"
| "owner_inv r (Own_Direct x) = (get_decision (word r) = RESUMED \<and> x = rst r)"
| "owner_inv r Own_Error = False"

fun com_inv :: "'v race \<Rightarrow> 'v completer_pc \<Rightarrow> bool" where
  "com_inv r Com_Won = (get_decision (word r) \<noteq> RESUMED)"
| "com_inv r (Com_Decide cur) = (get_decision (word r) \<noteq> RESUMED \<and> decided cur \<and> get_decision cur \<noteq> RESUMED \<and>
     (get_decision cur = SUSPENDED \<longrightarrow> get_decision (word r) = SUSPENDED))"
| "com_inv r Com_Left = (get_decision (word r) = RESUMED)"
| "com_inv r Com_Dispatched = (get_decision (word r) = SUSPENDED)"
| "com_inv r Com_Error = False"
| "com_inv r _ = True"

definition race_inv :: "nat \<Rightarrow> (nat \<Rightarrow> 'v cont_state) \<Rightarrow> 'v race \<Rightarrow> bool" where
  "race_inv n upd r \<longleftrightarrow> decided (word r) \<and> owner_inv r (owner r) \<and>
     (\<forall>i<n. com_inv r (com r i)) \<and>
     (if not_completed (rst r)
      then (\<forall>i<n. \<not> winner (com r i)) \<and> get_decision (word r) \<noteq> RESUMED
      else \<exists>w<n. winner (com r w) \<and> rst r = upd w \<and> (\<forall>i<n. winner (com r i) \<longrightarrow> i = w)) \<and>
     (\<forall>i<n. com r i = Com_Lost \<longrightarrow> \<not> not_completed (rst r)) \<and>
     (\<forall>i<n. \<forall>x. com r i = Com_Loaded x \<and> \<not> not_completed x \<longrightarrow> \<not> not_completed (rst r))"

lemma decided_packed [simp]:
  "decided w \<Longrightarrow> k \<le> NO_INDEX \<Longrightarrow> get_decision (decision_and_index (get_decision w) k) = get_decision w"
  "decided (decision_and_index UNDECIDED NO_INDEX)"
  by (auto simp: decided_def intro: decision_cases_packed)

lemma decided_swap [simp]:
  "decided (decision_and_index SUSPENDED (get_index w))" "decided (decision_and_index RESUMED (get_index w))"
  by (simp_all add: decided_def)

text \<open>A change of one completer's program counter that leaves the word and the state alone.\<close>

lemma com_only:
  assumes inv: "race_inv n upd r" and p: "winner p = winner (com r i)" "com_inv r p"
    "p = Com_Lost \<Longrightarrow> \<not> not_completed (rst r)"
    "\<And>x. p = Com_Loaded x \<Longrightarrow> \<not> not_completed x \<Longrightarrow> \<not> not_completed (rst r)"
  shows "race_inv n upd (r\<lparr>com := (com r)(i := p)\<rparr>)"
proof -
  let ?r = "r\<lparr>com := (com r)(i := p)\<rparr>"
  have o: "owner_inv ?r q = owner_inv r q" for q by (cases q) auto
  have c: "com_inv ?r q = com_inv r q" for q by (cases q) auto
  have w: "winner (com ?r j) = winner (com r j)" for j using p(1) by simp
  have s: "rst ?r = rst r" "word ?r = word r" "owner ?r = owner r" by simp_all
  have "\<forall>j<n. com_inv r (com ?r j)" using inv p(2) by (simp add: race_inv_def)
  moreover have "\<forall>j<n. com ?r j = Com_Lost \<longrightarrow> \<not> not_completed (rst r)"
    using inv p(3) by (simp add: race_inv_def)
  moreover have "\<forall>j<n. \<forall>x. com ?r j = Com_Loaded x \<and> \<not> not_completed x \<longrightarrow> \<not> not_completed (rst r)"
    using inv p(4) by (auto simp: race_inv_def split: if_splits)
  ultimately show ?thesis
    using inv unfolding race_inv_def o c w s by blast
qed

lemma owner_only:
  assumes inv: "race_inv n upd r" and q: "owner_inv r q"
  shows "race_inv n upd (r\<lparr>owner := q\<rparr>)"
proof -
  have o: "owner_inv (r\<lparr>owner := c\<rparr>) q = owner_inv r q" for c q by (cases q) auto
  have c: "com_inv (r\<lparr>owner := c\<rparr>) q = com_inv r q" for c q by (cases q) auto
  show ?thesis using inv q unfolding race_inv_def by (simp add: o c)
qed

lemma race_step_inv:
  assumes st: "race_step n upd r r'" and inv: "race_inv n upd r" and upd: "\<forall>i<n. \<not> not_completed (upd i)"
  shows "race_inv n upd r'"
proof -
  have oi: "owner_inv r (owner r)" and dw: "decided (word r)" and ci: "\<And>i. i < n \<Longrightarrow> com_inv r (com r i)"
    and lost: "\<And>i x. i < n \<Longrightarrow> com r i = Com_Loaded x \<Longrightarrow> \<not> not_completed x \<Longrightarrow> \<not> not_completed (rst r)"
    using inv unfolding race_inv_def by blast+
  have run: "get_decision (word r) \<noteq> RESUMED" if "com r i = Com_Won" "i < n" for i
    using ci [OF that(2)] that(1) by simp
  from st show ?thesis
  proof cases
    case owner_load
    then show ?thesis using oi dw by (simp add: owner_only [OF inv])
  next
    case (owner_retry cur)
    then show ?thesis using oi by (simp add: owner_only [OF inv])
  next
    case (owner_resumed cur)
    then show ?thesis using oi by (simp add: owner_only [OF inv])
  next
    case (owner_fails cur)
    then show ?thesis using oi by (simp add: decided_def)
  next
    case owner_read
    then show ?thesis using oi by (simp add: owner_only [OF inv])
  next
    case (com_load i)
    then show ?thesis by (auto intro: com_only [OF inv])
  next
    case (com_lost i x)
    then show ?thesis using lost by (auto intro!: com_only [OF inv])
  next
    case (com_retry i x)
    then show ?thesis by (auto intro!: com_only [OF inv])
  next
    case (com_load_word i)
    then show ?thesis using run dw by (auto intro!: com_only [OF inv])
  next
    case (com_leave_retry i cur)
    then show ?thesis using ci [of i] by (auto intro!: com_only [OF inv])
  next
    case (com_dispatch i cur)
    then show ?thesis using ci [of i] by (auto intro!: com_only [OF inv])
  next
    case (com_fails i cur)
    then show ?thesis using ci [of i] by (simp add: decided_def)
  next
    case (owner_swap cur)
    have o: "com_inv (r\<lparr>owner := Own_Suspended, word := decision_and_index SUSPENDED (get_index cur)\<rparr>) p"
      if "com_inv r p" for p
      using that inv owner_swap by (cases p) (auto simp: race_inv_def)
    then show ?thesis using inv owner_swap by (auto simp: race_inv_def)
  next
    case (com_swap i x)
    let ?r = "r\<lparr>rst := upd i, com := (com r)(i := Com_Won)\<rparr>"
    have act: "not_completed (rst r)" using com_swap by simp
    then have nw: "\<forall>j<n. \<not> winner (com r j)" and nr: "get_decision (word r) \<noteq> RESUMED"
      using inv by (simp_all add: race_inv_def)
    have "owner_inv ?r (owner r)"
      using inv nr by (cases "owner r") (auto simp: race_inv_def)
    moreover have "com_inv ?r p" if "com_inv r p" for p using that by (cases p) auto
    ultimately show ?thesis
      using com_swap inv nw nr upd by (auto simp: race_inv_def)
  next
    case (com_leave i cur)
    let ?r = "r\<lparr>com := (com r)(i := Com_Left), word := decision_and_index RESUMED (get_index cur)\<rparr>"
    have wi: "winner (com r i)" using com_leave by simp
    then have fin: "\<not> not_completed (rst r)" using inv com_leave(2) by (auto simp: race_inv_def split: if_splits)
    then have uniq: "\<forall>j<n. winner (com r j) \<longrightarrow> j = i" and u: "rst r = upd i"
      using inv wi com_leave(2) by (auto simp: race_inv_def)
    have own: "owner_inv ?r (owner r)"
      using inv com_leave by (cases "owner r") (auto simp: race_inv_def)
    have "com_inv ?r (com r j)" if "j < n" "j \<noteq> i" for j
      using that uniq by (cases "com r j") auto
    then have ci: "\<forall>j<n. com_inv ?r (com ?r j)" by simp
    have win: "winner (com ?r i)" "\<forall>j<n. winner (com ?r j) \<longrightarrow> j = i" using uniq by simp_all
    have "\<not> not_completed (rst ?r)" "rst ?r = upd i" using fin u by simp_all
    then have "race_inv n upd ?r"
      using ci win own com_leave(2) unfolding race_inv_def by (simp del: fun_upd_apply) blast
    then show ?thesis using com_leave(1) by simp
  next
    case (install_handler h)
    have "owner_inv (r\<lparr>rst := CancelHandler h\<rparr>) (owner r)"
      using inv install_handler by (cases "owner r") (auto simp: race_inv_def)
    moreover have "com_inv (r\<lparr>rst := CancelHandler h\<rparr>) p" if "com_inv r p" for p using that by (cases p) auto
    ultimately show ?thesis using inv install_handler by (auto simp: race_inv_def)
  next
    case (store_index k)
    let ?r = "r\<lparr>word := decision_and_index (get_decision (word r)) k\<rparr>"
    have d: "get_decision (word ?r) = get_decision (word r)" using inv store_index by (simp add: race_inv_def)
    have "owner_inv ?r q = owner_inv r q" for q using d by (cases q) simp_all
    moreover have "com_inv ?r p = com_inv r p" for p using d by (cases p) simp_all
    moreover have "decided (word ?r)" using d inv by (simp add: race_inv_def decided_def)
    ultimately show ?thesis using inv store_index d by (simp add: race_inv_def)
  qed
qed

lemma race_reach_inv:
  assumes "race_reach n upd r" "\<forall>i<n. \<not> not_completed (upd i)"
  shows "race_inv n upd r"
  using assms(1)
proof (induction rule: rtranclp_induct)
  case base
  show ?case by (simp add: race_inv_def race_init_def)
next
  case (step y z)
  then show ?case using race_step_inv assms(2) by blast
qed

subsection \<open>Properties\<close>

fun owner_finished :: "'v owner_pc \<Rightarrow> bool" where
  "owner_finished Own_Suspended = True"
| "owner_finished (Own_Direct _) = True"
| "owner_finished Own_Error = True"
| "owner_finished _ = False"

fun com_finished :: "'v completer_pc \<Rightarrow> bool" where
  "com_finished Com_Left = True"
| "com_finished Com_Dispatched = True"
| "com_finished Com_Lost = True"
| "com_finished Com_Error = True"
| "com_finished _ = False"


text \<open>C2: No wake-up is lost: when the owner and at least one completer have run to their end, then
  either the owner is suspended and exactly one completer dispatched it, or the owner has the
  result that exactly one completer left for it.\<close>

theorem race_no_lost_wakeup:
  assumes "race_reach n upd r" "\<forall>i<n. \<not> not_completed (upd i)" "0 < n"
    "owner_finished (owner r)" "\<forall>i<n. com_finished (com r i)"
  shows "\<exists>w<n. rst r = upd w \<and> (\<forall>i<n. i \<noteq> w \<longrightarrow> com r i = Com_Lost) \<and>
    (owner r = Own_Suspended \<and> com r w = Com_Dispatched \<or> owner r = Own_Direct (upd w) \<and> com r w = Com_Left)"
proof -
  have inv: "race_inv n upd r" using assms(1,2) by (rule race_reach_inv)
  then have ci: "\<forall>i<n. com_inv r (com r i)" and oi: "owner_inv r (owner r)" by (simp_all add: race_inv_def)
  have "\<not> not_completed (rst r)"
    using inv assms(3,5) by (cases "com r 0") (fastforce simp: race_inv_def)+
  then obtain w where w: "w < n" "winner (com r w)" "rst r = upd w" "\<forall>i<n. winner (com r i) \<longrightarrow> i = w"
    using inv unfolding race_inv_def by metis
  have "com r i = Com_Lost" if i: "i < n" "i \<noteq> w" for i
  proof -
    have "\<not> winner (com r i)" "com_finished (com r i)" using w(4) i assms(5) by auto
    then show ?thesis by (cases "com r i") auto
  qed
  moreover have "com r w = Com_Dispatched \<and> get_decision (word r) = SUSPENDED \<or>
      com r w = Com_Left \<and> get_decision (word r) = RESUMED"
    using w(1,2) ci assms(5) by (cases "com r w") (auto dest!: spec [of _ w])
  moreover have "owner r = Own_Suspended \<and> get_decision (word r) = SUSPENDED \<or>
      owner r = Own_Direct (upd w) \<and> get_decision (word r) = RESUMED"
    using oi assms(4) w(3) by (cases "owner r") auto
  ultimately show ?thesis using w(1,3) by (intro exI [of _ w]) auto
qed


text \<open>Witnesses: one completer, run to its end before the owner looks.\<close>

definition race_left :: "nat race" where
  "race_left = \<lparr>rst = CompletedWithValue 5, word = decision_and_index RESUMED NO_INDEX,
     owner = Own_Direct (CompletedWithValue 5), com = (\<lambda>_. Com_Idle)(0 := Com_Left)\<rparr>"

lemma race_left_reach: "race_reach 1 (\<lambda>_. CompletedWithValue 5) race_left"
proof -
  let ?s = "race_step 1 (\<lambda>_. CompletedWithValue (5::nat))"
  have i: "get_index (decision_and_index UNDECIDED NO_INDEX) = NO_INDEX"
    "get_decision (decision_and_index RESUMED NO_INDEX) = RESUMED"
    by (rule decision_cases_packed; simp)+
  define a where "a = race_init\<lparr>com := (com race_init)(0 := Com_Loaded (rst (race_init :: nat race)))\<rparr>"
  define b where "b = a\<lparr>rst := CompletedWithValue 5, com := (com a)(0 := Com_Won)\<rparr>"
  define c where "c = b\<lparr>com := (com b)(0 := Com_Decide (word b))\<rparr>"
  define d where "d = c\<lparr>com := (com c)(0 := Com_Left), word := decision_and_index RESUMED (get_index (word b))\<rparr>"
  define e where "e = d\<lparr>owner := Own_Loaded (word d)\<rparr>"
  define f where "f = e\<lparr>owner := Own_Reading\<rparr>"
  have 1: "?s race_init a" unfolding a_def by (rule com_load) (simp_all add: race_init_def)
  have 2: "?s a b" unfolding b_def by (rule com_swap [where x = Active]) (simp_all add: a_def race_init_def)
  have 3: "?s b c" unfolding c_def by (rule com_load_word) (simp_all add: b_def)
  have 4: "?s c d" unfolding d_def
    by (rule com_leave) (simp_all add: c_def b_def a_def race_init_def)
  have 5: "?s d e" unfolding e_def by (rule owner_load) (simp add: d_def c_def b_def a_def race_init_def)
  have 6: "?s e f" unfolding f_def
    by (rule owner_resumed [where cur = "word d"]) (simp_all add: e_def d_def b_def a_def race_init_def i)
  have 7: "?s f (f\<lparr>owner := Own_Direct (rst f)\<rparr>)" by (rule owner_read) (simp add: f_def)
  have "f\<lparr>owner := Own_Direct (rst f)\<rparr> = race_left"
    by (simp add: f_def e_def d_def c_def b_def a_def race_init_def race_left_def i)
  then have "?s f race_left" using 7 by simp
  then show ?thesis using 1 2 3 4 5 6 by (meson rtranclp.rtrancl_into_rtrancl rtranclp.rtrancl_refl)
qed


theorem race_no_lost_wakeup_witness:
  "owner race_left = Own_Direct (CompletedWithValue 5) \<and> com race_left 0 = Com_Left"
  using race_no_lost_wakeup [OF race_left_reach] by (simp add: race_left_def)


end
