(* ===== verification/Void_Continuation.thy ===== *)
theory Void_Continuation
  imports Cancellable_Continuation
begin

text \<open>
  The explicit specialization \<open>CancellableContinuationImpl<void>\<close>: a second copy of the class,
  written out by hand in the source. Its operations are modelled on their own and compared with
  the primary template at the unit type: most agree, the rest are the theorems at the end.
\<close>

type_synonym vcc = "unit cc"

definition v_reset_state_reusable :: "(vcc, bool) exec" where
  "v_reset_state_reusable = read_e (\<lambda>s.
     if resume_mode s \<noteq> MODE_CANCELLABLE_REUSABLE \<or> parent_handle s = Some NonDisposableHandle \<or>
        not_completed (st s)
     then throw_e Assertion_Failed
     else case st s of
       CompletedCancellableContinuationState _ _ _ (Some _) _ \<Rightarrow> seq_e detach_child (return_e False)
     | _ \<Rightarrow> seq_e (modify_e (\<lambda>s. s\<lparr>dec_idx := decision_and_index UNDECIDED NO_INDEX, st := Active\<rparr>))
              (return_e True))"

definition v_try_suspend :: "(vcc, bool) exec" where
  "v_try_suspend = read_e (\<lambda>s.
     let cur = dec_idx s; decision = get_decision cur; index = get_index cur in
     if decision = UNDECIDED
     then seq_e (modify_e (\<lambda>s. s\<lparr>dec_idx := decision_and_index SUSPENDED index\<rparr>)) (return_e True)
     else if decision = RESUMED then return_e False
     else throw_e (Logic_Error ''Already suspended''))"

definition v_try_resume_decision :: "(vcc, bool) exec" where
  "v_try_resume_decision = read_e (\<lambda>s.
     let cur = dec_idx s; decision = get_decision cur; index = get_index cur in
     if decision = UNDECIDED
     then seq_e (modify_e (\<lambda>s. s\<lparr>dec_idx := decision_and_index RESUMED index\<rparr>)) (return_e True)
     else if decision = SUSPENDED then return_e False
     else throw_e (Logic_Error ''Already resumed''))"

text \<open>Here \<open>on_cancellation\<close> is called without the guard of \<open>call_on_cancellation\<close>, so what it
  throws leaves the operation.\<close>

definition v_call_on_cancellation :: "cc_env \<Rightarrow> nat \<Rightarrow> exception_ptr option \<Rightarrow> (vcc, unit) exec" where
  "v_call_on_cancellation env f cause = seq_e (log_c (On_Cancellation_Called f cause ()))
     (if callback_throws env f then throw_e (Runtime_Error ''on_cancellation'') else return_e ())"

definition v_cancel_completed_result :: "cc_env \<Rightarrow> exception_ptr option \<Rightarrow> (vcc, unit) exec" where
  "v_cancel_completed_result env cause = read_e (\<lambda>s. case st s of
     CancelledContinuation _ _ \<Rightarrow> return_e ()
   | CompletedExceptionState _ _ \<Rightarrow> return_e ()
   | CompletedWithValue _ \<Rightarrow>
       (let update = CompletedCancellableContinuationState () None None None cause
        in seq_e (set_st update) (set_owned update))
   | CompletedCancellableContinuationState _ h oc idem c \<Rightarrow>
       if c \<noteq> None then throw_e (Runtime_Error ''Must be called at most once'')
       else seq_e (set_st (CompletedCancellableContinuationState () h oc idem cause))
         (seq_e (case h of Some x \<Rightarrow> call_cancel_handler env x cause | None \<Rightarrow> return_e ())
           (case oc of Some f \<Rightarrow> v_call_on_cancellation env f cause | None \<Rightarrow> return_e ()))
   | _ \<Rightarrow> throw_e (Runtime_Error ''Not completed''))"

definition v_take_state :: "(vcc, exception_ptr option) exec" where
  "v_take_state = read_e (\<lambda>s. case st s of
     CancelledContinuation cause _ \<Rightarrow> return_e cause
   | CompletedExceptionState cause _ \<Rightarrow> return_e cause
   | _ \<Rightarrow> return_e None)"

text \<open>\<open>Result<void>\<close> is its exception pointer; null means success.\<close>

definition void_result :: "exception_ptr option \<Rightarrow> unit result" where
  "void_result e = (case e of None \<Rightarrow> Success () | Some x \<Rightarrow> Failure (Some x))"

definition v_resume_task :: "(vcc, unit) exec" where
  "v_resume_task = bind_e v_take_state (\<lambda>exception. log_c (Delegate_Resumed (void_result exception)))"

definition v_resume_unconfined :: "cc_env \<Rightarrow> (vcc, unit) exec" where
  "v_resume_unconfined env = (case event_loop (denv env) of
     None \<Rightarrow> v_resume_task
   | Some (_, loop_active) \<Rightarrow>
       if loop_active then log_c Task_Unconfined
       else catch_e v_resume_task
              (report_unhandled env ''Fatal exception in coroutines machinery for DispatchedTask''))"

definition v_dispatch :: "cc_env \<Rightarrow> int \<Rightarrow> (vcc, unit) exec" where
  "v_dispatch env mode = read_e (\<lambda>s.
     if mode = MODE_UNINITIALIZED then throw_e Assertion_Failed
     else let undispatched = (mode = MODE_UNDISPATCHED) in
       if \<not> undispatched \<and> delegate_is_dispatched env \<and>
          is_cancellable_mode mode = is_cancellable_mode (resume_mode s)
       then bind_e (needs_dispatch (denv env)) (\<lambda>needed.
              if needed
              then (case dispatch_throws (denv env) of
                      Some e \<Rightarrow> throw_e (Dispatch_Exception e) | None \<Rightarrow> log_c Task_Dispatched)
              else v_resume_unconfined env)
       else v_resume_task)"

definition v_dispatch_resume :: "cc_env \<Rightarrow> int \<Rightarrow> (vcc, unit) exec" where
  "v_dispatch_resume env mode = bind_e v_try_resume_decision (\<lambda>resumed.
     if resumed then return_e () else v_dispatch env mode)"

definition v_cancel :: "cc_env \<Rightarrow> exception_ptr option \<Rightarrow> (vcc, bool) exec" where
  "v_cancel env cause = read_e (\<lambda>s.
     if \<not> not_completed (st s) then return_e False
     else let is_cancel_handler = (case st s of CancelHandler _ \<Rightarrow> True | _ \<Rightarrow> False);
              is_segment = (case st s of Segment_State _ \<Rightarrow> True | _ \<Rightarrow> False);
              update = CancelledContinuation cause (is_cancel_handler \<or> is_segment);
              handler_to_call = (if is_cancel_handler then owned_handler s else None)
       in seq_e (set_st update) (seq_e (set_owned update)
         (seq_e (case (handler_to_call, st s) of
                   (Some h, _) \<Rightarrow> call_cancel_handler env h cause
                 | (None, Segment_State seg) \<Rightarrow> call_segment_on_cancellation env seg cause
                 | _ \<Rightarrow> return_e ())
           (seq_e (detach_child_if_non_reusable env)
             (seq_e (v_dispatch_resume env (resume_mode s)) (return_e True))))))"

definition v_release_claimed_reusable_continuation :: "cc_env \<Rightarrow> (vcc, unit) exec" where
  "v_release_claimed_reusable_continuation env = read_e (\<lambda>s.
     if \<not> delegate_is_dispatched env then return_e ()
     else case try_release_claimed_continuation (this_addr env) (delegate s) of
       Inl e \<Rightarrow> throw_e e
     | Inr (cause, d) \<Rightarrow> seq_e (modify_e (\<lambda>s. s\<lparr>delegate := d\<rparr>))
         (case cause of
            None \<Rightarrow> return_e ()
          | Some c \<Rightarrow> seq_e detach_child (bind_e (v_cancel env (Some c)) (\<lambda>_. return_e ()))))"

definition v_parent_cancelled :: "cc_env \<Rightarrow> exception_ptr option \<Rightarrow> (vcc, unit) exec" where
  "v_parent_cancelled env cause = bind_e (cancel_later env cause) (\<lambda>later.
     if later then return_e ()
     else bind_e (v_cancel env cause) (\<lambda>_. detach_child_if_non_reusable env))"

definition v_try_resume :: "cc_env \<Rightarrow> nat option \<Rightarrow> (vcc, bool) exec" where
  "v_try_resume env idempotent = read_e (\<lambda>s.
     if not_completed (st s)
     then (let is_ch = (case st s of CancelHandler _ \<Rightarrow> True | _ \<Rightarrow> False) in
       if \<not> is_cancellable_mode (resume_mode s) \<and> idempotent = None
       then seq_e (set_st (CompletedWithValue ())) (seq_e (detach_child_if_non_reusable env) (return_e True))
       else if is_ch \<or> idempotent \<noteq> None
       then seq_e (set_st (CompletedCancellableContinuationState () (if is_ch then owned_handler s else None)
                     None idempotent None))
              (seq_e (detach_child_if_non_reusable env) (return_e True))
       else seq_e (set_st (CompletedWithValue ())) (seq_e (detach_child_if_non_reusable env) (return_e True)))
     else return_e False)"

definition v_try_resume_callback :: "cc_env \<Rightarrow> nat option \<Rightarrow> nat option \<Rightarrow> (vcc, bool) exec" where
  "v_try_resume_callback env idempotent on_cancellation = read_e (\<lambda>s.
     if not_completed (st s)
     then (let is_ch = (case st s of CancelHandler _ \<Rightarrow> True | _ \<Rightarrow> False) in
       seq_e (set_st (CompletedCancellableContinuationState () (if is_ch then owned_handler s else None)
                on_cancellation idempotent None))
         (seq_e (detach_child_if_non_reusable env) (return_e True)))
     else case st s of
       CompletedCancellableContinuationState _ _ _ idem _ \<Rightarrow> return_e (idempotent \<noteq> None \<and> idem = idempotent)
     | _ \<Rightarrow> return_e False)"

definition v_try_resume_with_exception :: "exception_ptr option \<Rightarrow> (vcc, bool) exec" where
  "v_try_resume_with_exception exception = read_e (\<lambda>s.
     if not_completed (st s)
     then seq_e (set_st (CompletedExceptionState exception False)) (return_e True)
     else return_e False)"

definition v_complete_resume :: "cc_env \<Rightarrow> bool \<Rightarrow> (vcc, unit) exec" where
  "v_complete_resume env token = read_e (\<lambda>s.
     if \<not> token then return_e ()
     else seq_e (detach_child_if_non_reusable env) (v_dispatch_resume env (resume_mode s)))"

definition v_resume :: "cc_env \<Rightarrow> nat option \<Rightarrow> (vcc, unit) exec" where
  "v_resume env on_cancellation = bind_e (v_try_resume env None) (\<lambda>token.
     if \<not> token then throw_e (Logic_Error ''Already resumed'') else v_complete_resume env token)"

definition v_resume_undispatched :: "cc_env \<Rightarrow> (vcc, unit) exec" where
  "v_resume_undispatched env = v_resume env None"

definition v_resume_undispatched_with_exception :: "cc_env \<Rightarrow> exception_ptr option \<Rightarrow> (vcc, unit) exec" where
  "v_resume_undispatched_with_exception env exception =
     bind_e (v_try_resume_with_exception exception) (\<lambda>token.
       if \<not> token then throw_e (Logic_Error ''Already resumed'') else v_complete_resume env token)"

definition v_resume_with :: "cc_env \<Rightarrow> exception_ptr option \<Rightarrow> (vcc, unit) exec" where
  "v_resume_with env r = (case r of
     None \<Rightarrow> v_resume env None
   | Some e \<Rightarrow> bind_e (v_try_resume_with_exception (Some e)) (\<lambda>token.
       if \<not> token then throw_e (Logic_Error ''Already resumed'') else v_complete_resume env token))"

definition v_invoke_on_cancellation_impl_segment :: "cc_env \<Rightarrow> nat \<Rightarrow> (vcc, unit) exec" where
  "v_invoke_on_cancellation_impl_segment env segment = read_e (\<lambda>s. case st s of
     CancelledContinuation cause handled \<Rightarrow>
       if handled then throw_e (Runtime_Error ''Multiple handlers prohibited'')
       else seq_e (set_st (CancelledContinuation cause True)) (call_segment_on_cancellation env segment cause)
   | CompletedExceptionState cause handled \<Rightarrow>
       if handled then throw_e (Runtime_Error ''Multiple handlers prohibited'')
       else set_st (CompletedExceptionState cause True)
   | _ \<Rightarrow> return_e ())"

definition v_set_segment_index :: "32 word \<Rightarrow> (vcc, unit) exec" where
  "v_set_segment_index index = read_e (\<lambda>s.
     if get_index (dec_idx s) \<noteq> NO_INDEX
     then throw_e (Logic_Error ''invokeOnCancellation should be called at most once'')
     else modify_e (\<lambda>s. s\<lparr>dec_idx := decision_and_index (get_decision (dec_idx s)) index\<rparr>))"

definition v_invoke_on_cancellation_impl :: "cc_env \<Rightarrow> nat \<Rightarrow> (vcc, unit) exec" where
  "v_invoke_on_cancellation_impl env handler = read_e (\<lambda>s. case st s of
     Active \<Rightarrow> seq_e (set_st (CancelHandler handler)) (set_owned (CancelHandler handler))
   | CancelHandler _ \<Rightarrow> throw_e (Runtime_Error ''Multiple handlers prohibited'')
   | CancelledContinuation cause handled \<Rightarrow>
       if handled then throw_e (Runtime_Error ''Multiple handlers prohibited'')
       else seq_e (set_st (CancelledContinuation cause True)) (call_cancel_handler env handler cause)
   | CompletedExceptionState cause handled \<Rightarrow>
       if handled then throw_e (Runtime_Error ''Multiple handlers prohibited'')
       else set_st (CompletedExceptionState cause True)
   | CompletedCancellableContinuationState _ h oc idem cause \<Rightarrow>
       if h \<noteq> None then throw_e (Runtime_Error ''Multiple handlers prohibited'')
       else if cause \<noteq> None then call_cancel_handler env handler cause
       else (let update = CompletedCancellableContinuationState () (Some handler) oc idem cause
             in seq_e (set_st update) (set_owned update))
   | CompletedWithValue _ \<Rightarrow>
       (let update = CompletedCancellableContinuationState () (Some handler) None None None
        in seq_e (set_st update) (set_owned update))
   | Segment_State _ \<Rightarrow> return_e ())"

definition v_take_result :: "cc_env \<Rightarrow> (vcc, unit suspend_result) exec" where
  "v_take_result env = read_e (\<lambda>s. case st s of
     CancelledContinuation cause _ \<Rightarrow> rethrow_e cause
   | CompletedExceptionState cause _ \<Rightarrow> rethrow_e cause
   | _ \<Rightarrow>
       (case (if is_cancellable_mode (resume_mode s) then inactive_job_cause (denv env) else None) of
          Some cause \<Rightarrow> seq_e (v_cancel_completed_result env (Some cause)) (rethrow_e (Some cause))
        | None \<Rightarrow> return_e (Returned ())))"

definition v_get_result :: "cc_env \<Rightarrow> (vcc, unit suspend_result) exec" where
  "v_get_result env = read_e (\<lambda>s0.
     let is_reusable_flag = is_reusable env s0 in
     bind_e v_try_suspend (\<lambda>suspended.
       if suspended
       then read_e (\<lambda>s.
         bind_e (if parent_handle s = None then install_parent_handle env else return_e None) (\<lambda>_.
           seq_e (if is_reusable_flag then v_release_claimed_reusable_continuation env else return_e ())
             (return_e COROUTINE_SUSPENDED)))
       else seq_e (if is_reusable_flag then v_release_claimed_reusable_continuation env else return_e ())
              (v_take_result env)))"

definition v_suspend_cancellable_coroutine ::
    "cc_env \<Rightarrow> unit dispatched \<Rightarrow> (vcc, unit) exec \<Rightarrow> unit suspend_result res \<times> vcc" where
  "v_suspend_cancellable_coroutine env d block =
     seq_e (init_cancellability env) (seq_e block
       (bind_e v_try_suspend (\<lambda>suspended.
          if suspended then return_e COROUTINE_SUSPENDED
          else bind_e (v_get_result env) (\<lambda>_. return_e (Returned ()))))) (new_cc d 1)"

subsection \<open>Agreement with the primary template\<close>

lemma v_take_state_result:
  "has_result (st s) \<Longrightarrow> v_resume_task s = resume_task s"
  by (cases "st s")
    (auto simp: v_resume_task_def v_take_state_def void_result_def resume_task_run exec_simps cc_run)

lemma v_dispatch_eq:
  assumes "has_result (st s)"
  shows "v_dispatch env mode s = dispatch env mode s"
proof -
  have "v_resume_unconfined env s = resume_unconfined env s"
    using v_take_state_result [OF assms]
    by (auto simp: v_resume_unconfined_def resume_unconfined_def catch_e_def split: option.split)
  moreover have "(\<exists>e. needs_dispatch (denv env) s = (Inl e, s)) \<or> (\<exists>b. needs_dispatch (denv env) s = (Inr b, s))"
    by (auto simp: needs_dispatch_def safe_is_dispatch_needed_def exec_simps split: sum.split)
  ultimately show ?thesis
    using v_take_state_result [OF assms] by (auto simp: v_dispatch_def dispatch_def exec_simps Let_def)
qed

lemma v_dispatch_resume_eq:
  assumes "has_result (st s)"
  shows "v_dispatch_resume env mode s = dispatch_resume env mode s"
proof -
  have "v_try_resume_decision s = try_resume_decision s"
    by (simp add: v_try_resume_decision_def try_resume_decision_def)
  then show ?thesis
    using v_dispatch_eq [OF assms]
    by (auto simp: v_dispatch_resume_def dispatch_resume_def bind_e_def try_resume_decision_run return_e_def)
qed

lemma v_cancel_eq:
  assumes "cause \<noteq> None" "cc_inv s"
  shows "v_cancel env cause s = cancel env cause s"
proof (cases "not_completed (st s)")
  case True
  let ?x = "CancelledContinuation cause (st s \<noteq> Active)"
  let ?s1 = "s\<lparr>st := ?x, owned := Some ?x, log := log s @ (case st s of CancelHandler h \<Rightarrow> handler_log env h cause | _ \<Rightarrow> [])\<rparr>"
  let ?s2 = "snd (detach_child_if_non_reusable env ?s1)"
  have "cancel env cause s = bind_e (dispatch_resume env (resume_mode s)) (\<lambda>_. return_e True) ?s2"
    "v_cancel env cause s = bind_e (v_dispatch_resume env (resume_mode s)) (\<lambda>_. return_e True) ?s2"
    using True assms(2)
    by (cases "st s"; auto simp: cancel_def v_cancel_def exec_simps cc_run Let_def cc_inv_def owned_handler_def
        split: prod.split sum.split)+
  then show ?thesis
    using v_dispatch_resume_eq [of ?s2 env "resume_mode s"] assms(1) by (simp add: bind_e_def)
next
  case False
  then show ?thesis by (simp add: cancel_def v_cancel_def exec_simps)
qed

lemma v_cancel_completed_result_eq:
  assumes "\<And>f. \<not> callback_throws env f"
  shows "v_cancel_completed_result env cause s = cancel_completed_result env cause s"
proof -
  have "v_call_on_cancellation env f cause x = call_on_cancellation env f cause () x" for f x
    using assms by (simp add: v_call_on_cancellation_def call_on_cancellation_def)
  then show ?thesis
    by (auto simp: v_cancel_completed_result_def cancel_completed_result_def exec_simps cc_run
        split: cont_state.split option.split)
qed

lemma v_get_result_eq:
  assumes thr: "\<And>f. \<not> callback_throws env f" and inv: "cc_inv s"
  shows "v_get_result env s = get_result env s"
proof -
  have t: "v_try_suspend s = try_suspend s" by (simp add: v_try_suspend_def try_suspend_def)
  have r: "v_take_result env s = take_result env s" if "has_result (st s)"
    using that v_cancel_completed_result_eq [OF thr]
    by (cases "st s") (auto simp: v_take_result_def take_result_def get_successful_result_def exec_simps
        split: option.split)
  have n: "\<not> is_reusable env s" using not_reusable [OF inv] .
  have "has_result (st s)" if "decision s = RESUMED"
    using inv that by (auto simp: cc_inv_def split: if_splits)
  then show ?thesis
    using t r n by (auto simp: v_get_result_def get_result_def try_suspend_run exec_simps Let_def)
qed

subsection \<open>Properties\<close>


definition unit_delegate :: "unit dispatched" where
  "unit_delegate = \<lparr>reusable_cc = 0, boxes = (\<lambda>_. None), dstate = None, dmode = -1, dlog = []\<rparr>"


text \<open>Cancelling a suspended \<open>void\<close> continuation without a cause (the default argument of
  \<open>cancel\<close>) and resuming it in place resumes the coroutine with success, as if the operation had
  completed, while the primary template rethrows a null exception pointer there.\<close>

lemma cancel_without_cause_resumes:
  assumes "cc_inv s" "cc_inv t" "st s = Active" "st t = Active" "decision s = SUSPENDED" "decision t = SUSPENDED"
    "\<not> delegate_is_dispatched env"
  shows "fst (v_cancel env None s) = Inr True \<and>
    log (snd (v_cancel env None s)) = log s @ detach_log s @ [Delegate_Resumed (Success ())] \<and>
    fst (cancel env None t) = Inl Undefined_Behaviour"
proof (intro conjI)
  let ?x = "CancelledContinuation None False"
  let ?s1 = "snd (detach_child_if_non_reusable env (s\<lparr>st := ?x, owned := Some ?x\<rparr>))"
  have m: "resume_mode s \<noteq> MODE_UNINITIALIZED" "resume_mode t \<noteq> MODE_UNINITIALIZED"
    using assms(1,2) by (simp_all add: cc_inv_def)
  have "v_cancel env None s = bind_e (v_dispatch_resume env (resume_mode s)) (\<lambda>_. return_e True) ?s1"
    using assms(3) by (auto simp: v_cancel_def exec_simps cc_run Let_def split: prod.split sum.split)
  moreover have "v_dispatch_resume env (resume_mode s) ?s1 =
      (Inr (), ?s1\<lparr>log := log ?s1 @ [Delegate_Resumed (Success ())]\<rparr>)"
    using assms(5,7) m(1)
    by (simp add: v_dispatch_resume_def v_try_resume_decision_def v_dispatch_def v_resume_task_def v_take_state_def
        void_result_def exec_simps Let_def cc_run)
  moreover have "log ?s1 = log s @ detach_log s"
    using assms(1) by (simp add: cc_run is_reusable_def cc_inv_def detach_log_def)
  ultimately show "fst (v_cancel env None s) = Inr True"
    "log (snd (v_cancel env None s)) = log s @ detach_log s @ [Delegate_Resumed (Success ())]"
    by (simp_all add: exec_simps)
  let ?y = "CancelledContinuation None False"
  let ?t1 = "snd (detach_child_if_non_reusable env (t\<lparr>st := ?y, owned := Some ?y\<rparr>))"
  have "cancel env None t = bind_e (dispatch_resume env (resume_mode t)) (\<lambda>_. return_e True) ?t1"
    using assms(4) by (auto simp: cancel_def exec_simps cc_run Let_def split: prod.split sum.split)
  moreover have "dispatch_resume env (resume_mode t) ?t1 = (Inl Undefined_Behaviour, ?t1)"
    using assms(6,7) m(2)
    by (simp add: dispatch_resume_def try_resume_decision_run dispatch_def resume_task_run exec_simps Let_def)
  ultimately show "fst (cancel env None t) = Inl Undefined_Behaviour" by (simp add: bind_e_def)
qed

definition plain_env :: cc_env where
  "plain_env = sample_env\<lparr>delegate_is_dispatched := False\<rparr>"

lemma suspended_new_cc:
  assumes "get_result plain_env (new_cc d 1) = (r, s)"
  shows "cc_inv s" "st s = Active" "decision s = SUSPENDED"
  using get_result_spec [OF new_cc_inv [OF sample_modes, of d], of plain_env] assms
  by (auto simp: new_cc_def)

lemma cancel_without_cause_resumes_witness:
  "fst (v_cancel plain_env None (snd (get_result plain_env (new_cc unit_delegate 1)))) = Inr True \<and>
   fst (cancel plain_env None (snd (get_result plain_env (new_cc sample_delegate 1)))) = Inl Undefined_Behaviour"
  using cancel_without_cause_resumes
    [OF suspended_new_cc(1) [OF prod.collapse [symmetric]] suspended_new_cc(1) [OF prod.collapse [symmetric]]
      suspended_new_cc(2) [OF prod.collapse [symmetric]] suspended_new_cc(2) [OF prod.collapse [symmetric]]
      suspended_new_cc(3) [OF prod.collapse [symmetric]] suspended_new_cc(3) [OF prod.collapse [symmetric]],
     of plain_env unit_delegate sample_delegate]
  by (simp add: plain_env_def)

end
