(* ===== verification/Job_Support.thy ===== *)
theory Job_Support
  imports Prelude
begin

text \<open>
  \<open>JobSupport.cpp\<close>: the life cycle of one job. The state object is the datatype \<open>job_state\<close>, the
  job's \<open>NodeList\<close> (shared by the states that have one) the field \<open>nodes\<close>, in which a removed node
  stays behind its removal flag, as a removed node of the linked list keeps its own links. What
  the job does to its surroundings (children, parent, handlers, continuations, hooks of
  subclasses) is logged in order; what they answer is the environment. A \<open>JobNode\<close> is never stored
  as a state in this port (every registration promotes to a list), so there is no constructor
  for it, and job results are not themselves incomplete states, so nothing is boxed.
\<close>

subsection \<open>State\<close>

datatype node_kind =
    InvokeOnCompletion nat
  | InvokeOnCancelling nat
  | ChildHandleNode nat
  | ResumeOnCompletion nat
  | ResumeAwaitOnCompletion nat

record jnode =
  nid :: nat
  kind :: node_kind
  removed :: bool
  invoked :: bool

datatype exceptions_holder = Holder_Null | Holder_One exception_ptr | Holder_Sealed

datatype 'v job_state =
    Empty bool
  | InactiveNodeList
  | NodeListState
  | Finishing (is_completing: bool) (root_cause: "exception_ptr option") (holder: exceptions_holder)
  | CompletedState 'v
  | CompletedExceptionally exception_ptr bool

datatype parent_link = No_Handle | Non_Disposable | Child_Handle

datatype 'v proposed = Proposed_Value 'v | Proposed_Exception exception_ptr

datatype 'v job_event =
    On_Start
  | On_Cancelling_Hook "exception_ptr option"
  | On_Completion_Hook "'v job_state"
  | After_Completion_Hook "'v job_state"
  | Handler_Invoked nat "exception_ptr option"
  | Child_Told_Cancelled nat
  | Parent_Told exception_ptr
  | Parent_Handle_Disposed
  | Child_Awaited nat
  | Join_Resumed nat
  | Await_Resumed nat "'v job_state"

record 'v job =
  jstate :: "'v job_state"
  nodes :: "jnode list"
  next_nid :: nat
  next_exc :: nat
  parent_handle :: parent_link
  awaited :: "(nat \<times> 'v proposed) list"
  completed_children :: "nat set"
  jlog :: "'v job_event list"

text \<open>The surroundings: which handlers throw and what, the answer of the parent's
  \<open>child_cancelled\<close>, the answer of the job's own \<open>handle_job_exception\<close> and \<open>handles_exception\<close>.\<close>

record job_env =
  handler_exception :: "nat \<Rightarrow> exception_ptr option"
  parent_child_cancelled :: "exception_ptr \<Rightarrow> bool"
  handle_job_exception :: "exception_ptr \<Rightarrow> bool"
  handles_exception :: bool

definition new_job :: "bool \<Rightarrow> parent_link \<Rightarrow> 'v job" where
  "new_job active link = \<lparr>jstate = Empty active, nodes = [], next_nid = 0, next_exc = 0,
     parent_handle = link, awaited = [], completed_children = {}, jlog = []\<rparr>"

fun incomplete :: "'v job_state \<Rightarrow> bool" where
  "incomplete (CompletedState _) = False"
| "incomplete (CompletedExceptionally _ _) = False"
| "incomplete _ = True"

fun state_active :: "'v job_state \<Rightarrow> bool" where
  "state_active (Empty a) = a"
| "state_active InactiveNodeList = False"
| "state_active NodeListState = True"
| "state_active (Finishing _ root _) = (root = None)"
| "state_active _ = False"

fun is_cancelling :: "'v job_state \<Rightarrow> bool" where
  "is_cancelling (Finishing _ root _) = (root \<noteq> None)"
| "is_cancelling _ = False"

definition job_is_active :: "'v job \<Rightarrow> bool" where "job_is_active j \<longleftrightarrow> state_active (jstate j)"
definition job_is_completed :: "'v job \<Rightarrow> bool" where "job_is_completed j \<longleftrightarrow> \<not> incomplete (jstate j)"

definition job_is_cancelled :: "'v job \<Rightarrow> bool" where
  "job_is_cancelled j \<longleftrightarrow> (case jstate j of CompletedExceptionally _ _ \<Rightarrow> True | s \<Rightarrow> is_cancelling s)"

definition log_j :: "'v job_event \<Rightarrow> ('v job, unit) exec" where
  "log_j e = modify_e (\<lambda>j. j\<lparr>jlog := jlog j @ [e]\<rparr>)"

definition set_state :: "'v job_state \<Rightarrow> ('v job, unit) exec" where
  "set_state s = modify_e (\<lambda>j. j\<lparr>jstate := s\<rparr>)"

definition new_cancellation :: "string \<Rightarrow> ('v job, exception_ptr) exec" where
  "new_cancellation msg = read_e (\<lambda>j. seq_e (modify_e (\<lambda>j. j\<lparr>next_exc := Suc (next_exc j)\<rparr>))
     (return_e (Exc (next_exc j) CancellationException msg)))"

definition default_cancellation_exception :: "string option \<Rightarrow> ('v job, exception_ptr) exec" where
  "default_cancellation_exception message = new_cancellation
     (case message of None \<Rightarrow> ''Job was cancelled'' | Some m \<Rightarrow> m)"

definition create_cause_exception :: "exception_ptr option \<Rightarrow> ('v job, exception_ptr) exec" where
  "create_cause_exception cause = (case cause of
     None \<Rightarrow> default_cancellation_exception None | Some c \<Rightarrow> return_e c)"

subsection \<open>Queries\<close>

definition get_cancellation_exception :: "('v job, exception_ptr) exec" where
  "get_cancellation_exception = read_e (\<lambda>j. case jstate j of
     Finishing _ (Some root) _ \<Rightarrow> return_e root
   | CompletedExceptionally cause _ \<Rightarrow> return_e cause
   | CompletedState _ \<Rightarrow> new_cancellation ''Job was cancelled has completed normally''
   | _ \<Rightarrow> throw_e (Logic_Error ''Job is still new or active''))"

definition get_completion_cause :: "'v job \<Rightarrow> exception_ptr option res" where
  "get_completion_cause j = (case jstate j of
     Finishing _ (Some root) _ \<Rightarrow> Inr (Some root)
   | CompletedExceptionally cause _ \<Rightarrow> Inr (Some cause)
   | CompletedState _ \<Rightarrow> Inr None
   | _ \<Rightarrow> Inl (Logic_Error ''Job is still new or active''))"

definition get_completion_cause_handled :: "'v job \<Rightarrow> bool" where
  "get_completion_cause_handled j = (case jstate j of CompletedExceptionally _ handled \<Rightarrow> handled | _ \<Rightarrow> False)"

definition is_completed_exceptionally :: "'v job \<Rightarrow> bool" where
  "is_completed_exceptionally j = (case jstate j of CompletedExceptionally _ _ \<Rightarrow> True | _ \<Rightarrow> False)"

definition get_completion_exception_or_null :: "'v job \<Rightarrow> exception_ptr option res" where
  "get_completion_exception_or_null j = (case jstate j of
     CompletedExceptionally cause _ \<Rightarrow> Inr (Some cause)
   | CompletedState _ \<Rightarrow> Inr None
   | _ \<Rightarrow> Inl (Logic_Error ''This job has not completed yet''))"

definition get_completed_internal :: "'v job \<Rightarrow> 'v res" where
  "get_completed_internal j = (case jstate j of
     CompletedExceptionally cause _ \<Rightarrow> Inl (Rethrown cause)
   | CompletedState v \<Rightarrow> Inr v
   | _ \<Rightarrow> Inl (Logic_Error ''This job has not completed yet''))"

fun state_string :: "'v job_state \<Rightarrow> string" where
  "state_string (Finishing completing root _) =
     (if root \<noteq> None then ''Cancelling'' else if completing then ''Completing'' else ''Active'')"
| "state_string (CompletedExceptionally _ _) = ''Cancelled''"
| "state_string (CompletedState _) = ''Completed''"
| "state_string s = (if state_active s then ''Active'' else ''New'')"

text \<open>The children still in the list, in order; \<open>children_after (Some n)\<close> those behind node \<open>n\<close>,
  which is where \<open>next_child\<close> looks, also when \<open>n\<close> itself was removed.\<close>

definition live_child :: "jnode \<Rightarrow> bool" where
  "live_child n \<longleftrightarrow> \<not> removed n \<and> (case kind n of ChildHandleNode _ \<Rightarrow> True | _ \<Rightarrow> False)"

definition children_after :: "nat option \<Rightarrow> jnode list \<Rightarrow> jnode list" where
  "children_after start ns = filter live_child
     (case start of None \<Rightarrow> ns | Some n \<Rightarrow> tl (dropWhile (\<lambda>x. nid x \<noteq> n) ns))"

definition next_child :: "nat option \<Rightarrow> jnode list \<Rightarrow> jnode option" where
  "next_child start ns = (case children_after start ns of [] \<Rightarrow> None | c # _ \<Rightarrow> Some c)"

definition child_of :: "jnode \<Rightarrow> nat" where
  "child_of n = (case kind n of ChildHandleNode c \<Rightarrow> c | _ \<Rightarrow> 0)"

definition get_children :: "'v job \<Rightarrow> nat list" where
  "get_children j = (case jstate j of
     Empty _ \<Rightarrow> []
   | s \<Rightarrow> if incomplete s then map child_of (children_after None (nodes j)) else [])"

subsection \<open>Handlers\<close>

definition on_cancelling_kind :: "jnode \<Rightarrow> bool" where
  "on_cancelling_kind n = (case kind n of InvokeOnCancelling _ \<Rightarrow> True | ChildHandleNode _ \<Rightarrow> True | _ \<Rightarrow> False)"

text \<open>Invoking a node: what it throws, if anything.\<close>

definition invoke_node ::
    "job_env \<Rightarrow> exception_ptr option \<Rightarrow> jnode \<Rightarrow> ('v job, exception_ptr option) exec" where
  "invoke_node env cause n = (case kind n of
     InvokeOnCompletion h \<Rightarrow> seq_e (log_j (Handler_Invoked h cause)) (return_e (handler_exception env h))
   | InvokeOnCancelling h \<Rightarrow>
       if invoked n then return_e None
       else seq_e (modify_e (\<lambda>j. j\<lparr>nodes := map (\<lambda>x. if nid x = nid n then x\<lparr>invoked := True\<rparr> else x) (nodes j)\<rparr>))
              (seq_e (log_j (Handler_Invoked h cause)) (return_e (handler_exception env h)))
   | ChildHandleNode c \<Rightarrow> seq_e (log_j (Child_Told_Cancelled c)) (return_e None)
   | ResumeOnCompletion k \<Rightarrow> seq_e (log_j (Join_Resumed k)) (return_e None)
   | ResumeAwaitOnCompletion k \<Rightarrow> read_e (\<lambda>j. seq_e (log_j (Await_Resumed k (jstate j))) (return_e None)))"

text \<open>The loop over the list: the first exception thrown is kept, the others are dropped.\<close>

fun invoke_nodes ::
    "job_env \<Rightarrow> exception_ptr option \<Rightarrow> jnode list \<Rightarrow> exception_ptr option \<Rightarrow> ('v job, exception_ptr option) exec" where
  "invoke_nodes env cause [] first = return_e first"
| "invoke_nodes env cause (n # ns) first = bind_e (invoke_node env cause n) (\<lambda>thrown.
     invoke_nodes env cause ns (if first = None then thrown else first))"

definition handle_on_completion_exception :: "exception_ptr option \<Rightarrow> ('v job, unit) exec" where
  "handle_on_completion_exception e = (case e of None \<Rightarrow> return_e () | Some x \<Rightarrow> throw_e (Rethrown x))"

definition cancel_parent :: "job_env \<Rightarrow> exception_ptr \<Rightarrow> ('v job, bool) exec" where
  "cancel_parent env cause = read_e (\<lambda>j. case parent_handle j of
     Child_Handle \<Rightarrow> seq_e (log_j (Parent_Told cause)) (return_e (parent_child_cancelled env cause))
   | _ \<Rightarrow> return_e False)"

definition notify_cancelling :: "job_env \<Rightarrow> exception_ptr \<Rightarrow> ('v job, unit) exec" where
  "notify_cancelling env cause = seq_e (log_j (On_Cancelling_Hook (Some cause))) (read_e (\<lambda>j.
     bind_e (invoke_nodes env (Some cause) (filter (\<lambda>n. \<not> removed n \<and> on_cancelling_kind n) (nodes j)) None)
       (\<lambda>thrown. bind_e (cancel_parent env cause) (\<lambda>_. handle_on_completion_exception thrown))))"

definition notify_completion :: "job_env \<Rightarrow> exception_ptr option \<Rightarrow> ('v job, unit) exec" where
  "notify_completion env cause = read_e (\<lambda>j.
     bind_e (invoke_nodes env cause (filter (\<lambda>n. \<not> removed n) (nodes j)) None)
       handle_on_completion_exception)"

subsection \<open>Exceptions collected while finishing\<close>

definition add_exception_locked :: "exception_ptr \<Rightarrow> 'v job_state \<Rightarrow> 'v job_state" where
  "add_exception_locked e s = (case s of
     Finishing completing root eh \<Rightarrow>
       if root = None then Finishing completing (Some e) eh
       else if eh = Holder_Null then Finishing completing root (Holder_One e)
       else s
   | _ \<Rightarrow> s)"

definition seal_locked ::
    "exception_ptr option \<Rightarrow> exception_ptr option \<Rightarrow> exceptions_holder \<Rightarrow> exception_ptr list" where
  "seal_locked proposed root eh = (case eh of
     Holder_Sealed \<Rightarrow> []
   | _ \<Rightarrow> (case root of Some r \<Rightarrow> [r] | None \<Rightarrow> []) @ (case eh of Holder_One e \<Rightarrow> [e] | _ \<Rightarrow> []) @
       (case proposed of Some p \<Rightarrow> if root = Some p then [] else [p] | None \<Rightarrow> []))"

definition is_cancellation_exception :: "exception_ptr \<Rightarrow> bool" where
  "is_cancellation_exception e \<longleftrightarrow> exc_class e \<noteq> OrdinaryException"

definition is_timeout_exception :: "exception_ptr \<Rightarrow> bool" where
  "is_timeout_exception e \<longleftrightarrow> exc_class e = TimeoutCancellationException"

definition get_final_root_cause :: "bool \<Rightarrow> exception_ptr list \<Rightarrow> ('v job, exception_ptr option) exec" where
  "get_final_root_cause cancelling exceptions =
     (case exceptions of
        [] \<Rightarrow> if cancelling then bind_e (default_cancellation_exception None) (\<lambda>e. return_e (Some e))
              else return_e None
      | first # rest \<Rightarrow>
          (case find (\<lambda>e. \<not> is_cancellation_exception e) exceptions of
             Some e \<Rightarrow> return_e (Some e)
           | None \<Rightarrow>
               if is_timeout_exception first
               then (case find is_timeout_exception rest of
                       Some e \<Rightarrow> return_e (Some e) | None \<Rightarrow> return_e (Some first))
               else return_e (Some first)))"

subsection \<open>Completion\<close>

fun proposed_state :: "'v proposed \<Rightarrow> 'v job_state" where
  "proposed_state (Proposed_Value v) = CompletedState v"
| "proposed_state (Proposed_Exception e) = CompletedExceptionally e False"

fun proposed_exception :: "'v proposed \<Rightarrow> exception_ptr option" where
  "proposed_exception (Proposed_Value _) = None"
| "proposed_exception (Proposed_Exception e) = Some e"

fun state_cause :: "'v job_state \<Rightarrow> exception_ptr option" where
  "state_cause (CompletedExceptionally e _) = Some e"
| "state_cause _ = None"

fun make_handled :: "'v job_state \<Rightarrow> 'v job_state" where
  "make_handled (CompletedExceptionally e _) = CompletedExceptionally e True"
| "make_handled s = s"

text \<open>\<open>has_list\<close>: the state being finalised has a node list (it is not an \<open>Empty\<close>).\<close>

definition complete_state_finalization :: "job_env \<Rightarrow> bool \<Rightarrow> 'v job_state \<Rightarrow> ('v job, unit) exec" where
  "complete_state_finalization env has_list update =
     seq_e (read_e (\<lambda>j. case parent_handle j of
              No_Handle \<Rightarrow> return_e ()
            | h \<Rightarrow> seq_e (if h = Child_Handle then log_j Parent_Handle_Disposed else return_e ())
                     (modify_e (\<lambda>j. j\<lparr>parent_handle := Non_Disposable\<rparr>))))
       (seq_e (if has_list then notify_completion env (state_cause update) else return_e ())
         (log_j (After_Completion_Hook update)))"

definition try_finalize_simple_state :: "job_env \<Rightarrow> 'v job_state \<Rightarrow> ('v job, unit) exec" where
  "try_finalize_simple_state env update = seq_e (set_state update)
     (seq_e (log_j (On_Cancelling_Hook None)) (seq_e (log_j (On_Completion_Hook update))
       (complete_state_finalization env False update)))"

definition finalize_finishing_state :: "job_env \<Rightarrow> 'v proposed \<Rightarrow> ('v job, 'v job_state) exec" where
  "finalize_finishing_state env proposed = read_e (\<lambda>j. case jstate j of
     Finishing completing root eh \<Rightarrow>
       (let was_cancelling = (root \<noteq> None);
            proposed_exc = proposed_exception proposed;
            exceptions = seal_locked proposed_exc root eh
        in seq_e (set_state (Finishing completing root Holder_Sealed))
          (bind_e (get_final_root_cause was_cancelling exceptions) (\<lambda>final_exception.
            bind_e (case final_exception of
                 None \<Rightarrow> return_e (proposed_state proposed)
               | Some e \<Rightarrow>
                   bind_e (cancel_parent env e) (\<lambda>told.
                     let final = (if final_exception = proposed_exc then proposed_state proposed
                                  else CompletedExceptionally e False)
                     in return_e (if told \<or> handle_job_exception env e then make_handled final else final)))
              (\<lambda>final_state.
                seq_e (if \<not> was_cancelling then log_j (On_Cancelling_Hook final_exception) else return_e ())
                  (seq_e (log_j (On_Completion_Hook final_state))
                    (seq_e (set_state final_state)
                      (seq_e (complete_state_finalization env True final_state) (return_e final_state))))))))
   | _ \<Rightarrow> throw_e Assertion_Failed)"

text \<open>\<open>try_wait_for_child\<close>: the first of the children whose job has not completed is awaited.\<close>

definition try_wait_for_child :: "jnode list \<Rightarrow> 'v proposed \<Rightarrow> ('v job, bool) exec" where
  "try_wait_for_child candidates proposed = read_e (\<lambda>j.
     case dropWhile (\<lambda>n. child_of n \<in> completed_children j) candidates of
       [] \<Rightarrow> return_e False
     | n # _ \<Rightarrow> seq_e (modify_e (\<lambda>j. j\<lparr>awaited := awaited j @ [(nid n, proposed)]\<rparr>))
                 (seq_e (log_j (Child_Awaited (child_of n))) (return_e True)))"

datatype completing_result = COMPLETING_ALREADY | COMPLETING_WAITING_CHILDREN | Completing_Final

definition try_make_completing_slow_path :: "job_env \<Rightarrow> 'v proposed \<Rightarrow> ('v job, completing_result) exec" where
  "try_make_completing_slow_path env proposed =
     seq_e (modify_e (\<lambda>j. case jstate j of Finishing _ _ _ \<Rightarrow> j | _ \<Rightarrow> j\<lparr>jstate := Finishing False None Holder_Null\<rparr>))
       (read_e (\<lambda>j. case jstate j of
          Finishing completing root eh \<Rightarrow>
            if completing then return_e COMPLETING_ALREADY
            else seq_e (set_state (case proposed of
                   Proposed_Exception e \<Rightarrow> add_exception_locked e (Finishing True root eh)
                 | Proposed_Value _ \<Rightarrow> Finishing True root eh))
              (bind_e (try_wait_for_child (children_after None (nodes j)) proposed) (\<lambda>waiting.
                if waiting then return_e COMPLETING_WAITING_CHILDREN
                else bind_e (finalize_finishing_state env proposed) (\<lambda>_. return_e Completing_Final)))
        | _ \<Rightarrow> throw_e Assertion_Failed))"

definition try_make_completing :: "job_env \<Rightarrow> 'v proposed \<Rightarrow> ('v job, completing_result) exec" where
  "try_make_completing env proposed = read_e (\<lambda>j.
     if \<not> incomplete (jstate j) then return_e COMPLETING_ALREADY
     else case (jstate j, proposed) of
       (Empty _, Proposed_Value v) \<Rightarrow>
         seq_e (try_finalize_simple_state env (CompletedState v)) (return_e Completing_Final)
     | _ \<Rightarrow> try_make_completing_slow_path env proposed)"

definition make_completing :: "job_env \<Rightarrow> 'v proposed \<Rightarrow> ('v job, bool) exec" where
  "make_completing env proposed = bind_e (try_make_completing env proposed)
     (\<lambda>r. return_e (r \<noteq> COMPLETING_ALREADY))"

definition continue_completing :: "job_env \<Rightarrow> nat \<Rightarrow> 'v proposed \<Rightarrow> ('v job, unit) exec" where
  "continue_completing env last_child proposed = read_e (\<lambda>j.
     bind_e (try_wait_for_child (children_after (Some last_child) (nodes j)) proposed) (\<lambda>waiting.
       if waiting then return_e ()
       else bind_e (try_wait_for_child (children_after (Some last_child) (nodes j)) proposed) (\<lambda>waiting_again.
         if waiting_again then return_e ()
         else bind_e (finalize_finishing_state env proposed) (\<lambda>final_state.
                log_j (After_Completion_Hook final_state)))))"

subsection \<open>Starting and cancelling\<close>

definition start :: "('v job, bool) exec" where
  "start = read_e (\<lambda>j. case jstate j of
     Empty False \<Rightarrow> seq_e (set_state (Empty True)) (seq_e (log_j On_Start) (return_e True))
   | InactiveNodeList \<Rightarrow> seq_e (set_state NodeListState) (seq_e (log_j On_Start) (return_e True))
   | _ \<Rightarrow> return_e False)"

datatype cancelling_result = Cancel_Accepted | TOO_LATE_TO_CANCEL

definition try_make_cancelling :: "job_env \<Rightarrow> exception_ptr \<Rightarrow> ('v job, unit) exec" where
  "try_make_cancelling env cause =
     seq_e (set_state (Finishing False (Some cause) Holder_Null)) (notify_cancelling env cause)"

definition make_cancelling :: "job_env \<Rightarrow> exception_ptr option \<Rightarrow> ('v job, cancelling_result) exec" where
  "make_cancelling env cause = read_e (\<lambda>j. case jstate j of
     Finishing completing root eh \<Rightarrow>
       if eh = Holder_Sealed then return_e TOO_LATE_TO_CANCEL
       else let was_cancelling = (root \<noteq> None) in
         seq_e (if cause \<noteq> None \<or> \<not> was_cancelling
                then bind_e (create_cause_exception cause) (\<lambda>c. set_state (add_exception_locked c (jstate j)))
                else return_e ())
           (read_e (\<lambda>j1. seq_e (case root_cause (jstate j1) of
                 Some r \<Rightarrow> if \<not> was_cancelling then notify_cancelling env r else return_e ()
               | None \<Rightarrow> return_e ())
              (return_e Cancel_Accepted)))
   | s \<Rightarrow>
       if \<not> incomplete s then return_e TOO_LATE_TO_CANCEL
       else bind_e (create_cause_exception cause) (\<lambda>c.
         if state_active s then seq_e (try_make_cancelling env c) (return_e Cancel_Accepted)
         else bind_e (make_completing env (Proposed_Exception c)) (\<lambda>_. return_e Cancel_Accepted)))"

definition cancel_job :: "job_env \<Rightarrow> exception_ptr option \<Rightarrow> ('v job, unit) exec" where
  "cancel_job env cause = bind_e (case cause of
       None \<Rightarrow> default_cancellation_exception None | Some c \<Rightarrow> return_e c)
     (\<lambda>c. bind_e (make_cancelling env (Some c)) (\<lambda>_. return_e ()))"

definition cancel_coroutine :: "job_env \<Rightarrow> exception_ptr option \<Rightarrow> ('v job, bool) exec" where
  "cancel_coroutine env cause = bind_e (case cause of
       None \<Rightarrow> default_cancellation_exception None | Some c \<Rightarrow> return_e c)
     (\<lambda>c. bind_e (make_cancelling env (Some c)) (\<lambda>r. return_e (r \<noteq> TOO_LATE_TO_CANCEL)))"

definition job_parent_cancelled :: "job_env \<Rightarrow> ('v job, unit) exec" where
  "job_parent_cancelled env = bind_e (default_cancellation_exception (Some ''Parent cancelled''))
     (\<lambda>c. cancel_job env (Some c))"

definition child_cancelled :: "job_env \<Rightarrow> exception_ptr option \<Rightarrow> ('v job, bool) exec" where
  "child_cancelled env cause =
     (if (case cause of Some c \<Rightarrow> is_cancellation_exception c | None \<Rightarrow> False) then return_e True
      else bind_e (make_cancelling env cause) (\<lambda>_. return_e (handles_exception env)))"

text \<open>\<open>SupervisorJobImpl\<close> overrides it.\<close>

definition supervisor_child_cancelled :: "exception_ptr option \<Rightarrow> ('v job, bool) exec" where
  "supervisor_child_cancelled cause = return_e False"

definition complete :: "job_env \<Rightarrow> 'v \<Rightarrow> ('v job, bool) exec" where
  "complete env v = make_completing env (Proposed_Value v)"

definition complete_exceptionally :: "job_env \<Rightarrow> exception_ptr \<Rightarrow> ('v job, bool) exec" where
  "complete_exceptionally env e = make_completing env (Proposed_Exception e)"

definition make_completing_once :: "job_env \<Rightarrow> 'v proposed \<Rightarrow> ('v job, completing_result) exec" where
  "make_completing_once env proposed = try_make_completing env proposed"

subsection \<open>Registration\<close>

definition promote_empty :: "'v job \<Rightarrow> 'v job" where
  "promote_empty j = (case jstate j of
     Empty True \<Rightarrow> j\<lparr>jstate := NodeListState\<rparr>
   | Empty False \<Rightarrow> j\<lparr>jstate := InactiveNodeList\<rparr>
   | _ \<Rightarrow> j)"

definition add_last_node :: "node_kind \<Rightarrow> ('v job, nat) exec" where
  "add_last_node k = read_e (\<lambda>j. seq_e (modify_e (\<lambda>j. j\<lparr>nodes := nodes j @
       [\<lparr>nid = next_nid j, kind = k, removed = False, invoked = False\<rparr>], next_nid := Suc (next_nid j)\<rparr>))
     (return_e (next_nid j)))"

text \<open>A node that is not in the list, for immediate invocation.\<close>

definition loose_node :: "node_kind \<Rightarrow> 'v job \<Rightarrow> jnode" where
  "loose_node k j = \<lparr>nid = next_nid j, kind = k, removed = False, invoked = False\<rparr>"

definition try_put_node_into_list :: "('v job, 'r) exec \<Rightarrow> ('v job, 'r) exec \<Rightarrow> ('v job, 'r) exec" where
  "try_put_node_into_list try_add on_completed = read_e (\<lambda>j.
     if incomplete (jstate j) then seq_e (modify_e promote_empty) try_add else on_completed)"

definition throw_option :: "exception_ptr option \<Rightarrow> ('v job, 'r) exec \<Rightarrow> ('v job, 'r) exec" where
  "throw_option e m = (case e of None \<Rightarrow> m | Some x \<Rightarrow> throw_e (Rethrown x))"

text \<open>A cancelling handler that was invoked on the spot is not invoked again: its node's flag says so.\<close>

definition invoke_on_completion ::
    "job_env \<Rightarrow> bool \<Rightarrow> bool \<Rightarrow> nat \<Rightarrow> ('v job, nat option) exec" where
  "invoke_on_completion env on_cancelling invoke_immediately h =
     (let k = (if on_cancelling then InvokeOnCancelling h else InvokeOnCompletion h);
          not_added = (\<lambda>invoke_again. read_e (\<lambda>j.
            if invoke_immediately \<and> invoke_again
            then bind_e (invoke_node env (state_cause (jstate j)) (loose_node k j))
                   (\<lambda>thrown. throw_option thrown (return_e None))
            else return_e None))
      in try_put_node_into_list
        (read_e (\<lambda>j. case (if on_cancelling \<and> is_cancelling (jstate j) then root_cause (jstate j) else None) of
             Some root \<Rightarrow>
               if invoke_immediately
               then bind_e (invoke_node env (Some root) (loose_node k j))
                      (\<lambda>thrown. throw_option thrown (not_added False))
               else not_added False
           | None \<Rightarrow> bind_e (add_last_node k) (\<lambda>n. return_e (Some n))))
        (not_added True))"

definition attach_child :: "job_env \<Rightarrow> nat \<Rightarrow> ('v job, nat option) exec" where
  "attach_child env c = try_put_node_into_list
     (bind_e (add_last_node (ChildHandleNode c)) (\<lambda>n. return_e (Some n)))
     (read_e (\<lambda>j. bind_e (invoke_node env (state_cause (jstate j)) (loose_node (ChildHandleNode c) j))
        (\<lambda>_. return_e None)))"

definition remove_node :: "nat \<Rightarrow> ('v job, unit) exec" where
  "remove_node n = read_e (\<lambda>j.
     if incomplete (jstate j)
     then modify_e (\<lambda>j. j\<lparr>nodes := map (\<lambda>x. if nid x = n then x\<lparr>removed := True\<rparr> else x) (nodes j)\<rparr>)
     else return_e ())"

definition join :: "nat \<Rightarrow> ('v job, bool) exec" where
  "join k = read_e (\<lambda>j.
     if \<not> incomplete (jstate j) then return_e False
     else bind_e start (\<lambda>_. try_put_node_into_list
       (bind_e (add_last_node (ResumeOnCompletion k)) (\<lambda>_. return_e True)) (return_e False)))"

definition state_value :: "('v job, 'v option) exec" where
  "state_value = read_e (\<lambda>j. case jstate j of
     CompletedExceptionally e _ \<Rightarrow> throw_e (Rethrown e)
   | CompletedState v \<Rightarrow> return_e (Some v)
   | _ \<Rightarrow> return_e None)"

definition await_internal :: "nat \<Rightarrow> ('v job, 'v option) exec" where
  "await_internal k = read_e (\<lambda>j.
     if \<not> incomplete (jstate j) then state_value
     else bind_e start (\<lambda>_. try_put_node_into_list
       (bind_e (add_last_node (ResumeAwaitOnCompletion k)) (\<lambda>_. return_e None)) state_value))"

text \<open>A child's completion as this job sees it: the child's state becomes final (from then on
  \<open>invoke_on_completion\<close> on it refuses the handler), it disposes its handle, which is \<open>remove_node\<close> here,
  and it invokes its completion handlers, this job's \<open>ChildCompletion\<close> among them if this job
  awaits it. Other operations may come in between.\<close>

definition child_completed :: "nat \<Rightarrow> 'v job \<Rightarrow> 'v job" where
  "child_completed c j = j\<lparr>completed_children := insert c (completed_children j)\<rparr>"

definition child_completion :: "job_env \<Rightarrow> nat \<Rightarrow> ('v job, unit) exec" where
  "child_completion env n = read_e (\<lambda>j. case map_of (awaited j) n of
     Some proposed \<Rightarrow> seq_e (modify_e (\<lambda>j. j\<lparr>awaited := filter (\<lambda>a. fst a \<noteq> n) (awaited j)\<rparr>))
                        (continue_completing env n proposed)
   | None \<Rightarrow> return_e ())"

definition child_is_completed :: "nat \<Rightarrow> 'v job \<Rightarrow> bool" where
  "child_is_completed n j \<longleftrightarrow> list_ex (\<lambda>x. nid x = n \<and> child_of x \<in> completed_children j) (nodes j)"

text \<open>The states handed to the completion hook, in order.\<close>

fun completion_hook :: "'v job_event \<Rightarrow> 'v job_state list" where
  "completion_hook (On_Completion_Hook s) = [s]"
| "completion_hook _ = []"

definition hooks :: "'v job \<Rightarrow> 'v job_state list" where
  "hooks j = concat (map completion_hook (jlog j))"

lemma hooks_simps [simp]:
  "hooks (j\<lparr>jstate := s\<rparr>) = hooks j" "hooks (j\<lparr>nodes := ns\<rparr>) = hooks j"
  "hooks (j\<lparr>next_nid := i\<rparr>) = hooks j" "hooks (j\<lparr>next_exc := i\<rparr>) = hooks j"
  "hooks (j\<lparr>parent_handle := h\<rparr>) = hooks j" "hooks (j\<lparr>awaited := a\<rparr>) = hooks j"
  "hooks (j\<lparr>completed_children := c\<rparr>) = hooks j"
  "hooks (j\<lparr>jlog := jlog j @ es\<rparr>) = hooks j @ concat (map completion_hook es)"
  by (simp_all add: hooks_def)

subsection \<open>What callbacks leave alone\<close>

text \<open>\<open>quiet j j'\<close>: only the log, the invoked flags, the parent's handle and the supply of
  exceptions differ, and the completion hook was not called.\<close>

definition same_node :: "jnode \<Rightarrow> jnode \<Rightarrow> bool" where
  "same_node x y \<longleftrightarrow> nid y = nid x \<and> kind y = kind x \<and> removed y = removed x"

definition quiet :: "'v job \<Rightarrow> 'v job \<Rightarrow> bool" where
  "quiet j j' \<longleftrightarrow> jstate j' = jstate j \<and> list_all2 same_node (nodes j) (nodes j') \<and> next_nid j' = next_nid j \<and>
     awaited j' = awaited j \<and> completed_children j' = completed_children j \<and> next_exc j \<le> next_exc j' \<and> hooks j' = hooks j"

lemma same_nodes_refl [simp]: "list_all2 same_node xs xs"
  by (simp add: list_all2_refl same_node_def)

lemma same_nodes_trans:
  "list_all2 same_node xs ys \<Longrightarrow> list_all2 same_node ys zs \<Longrightarrow> list_all2 same_node xs zs"
  by (rule list_all2_trans [of same_node same_node]) (auto simp: same_node_def)

lemma same_nodes_map: "(\<And>x. same_node x (f x)) \<Longrightarrow> list_all2 same_node xs (map f xs)"
  by (induction xs) auto

lemma quiet_refl [simp]: "quiet j j"
  by (simp add: quiet_def)

lemma quiet_trans: "quiet i j \<Longrightarrow> quiet j k \<Longrightarrow> quiet i k"
  by (auto simp: quiet_def intro: same_nodes_trans)

lemma quiet_simps [simp]:
  "quiet j (j\<lparr>parent_handle := h\<rparr>)" "quiet j (j\<lparr>next_exc := Suc (next_exc j)\<rparr>)"
  by (simp_all add: quiet_def)

lemma quiet_log [simp]: "quiet j (snd (log_j e j)) \<longleftrightarrow> completion_hook e = []" "fst (log_j e j) = Inr ()"
  by (simp_all add: log_j_def exec_simps quiet_def)

text \<open>Sequencing: \<open>quiet\<close> computations compose.\<close>

lemma quiet_bind:
  assumes "quiet i (snd (m i))" "\<And>x j. quiet i j \<Longrightarrow> quiet j (snd (f x j))"
  shows "quiet i (snd (bind_e m f i))"
  using assms by (auto simp: bind_e_def split: prod.split sum.split) (metis quiet_trans snd_conv)

lemma quiet_seq:
  assumes "quiet i (snd (m i))" "\<And>j. quiet i j \<Longrightarrow> quiet j (snd (n j))"
  shows "quiet i (snd (seq_e m n i))"
  unfolding seq_e_def using assms by (intro quiet_bind) auto

lemma quiet_return [simp]: "quiet j (snd (return_e x j))" "quiet j (snd (throw_e e j))"
  by (simp_all add: exec_simps)

lemma quiet_read: "quiet j (snd (f j j)) \<Longrightarrow> quiet j (snd (read_e f j))"
  by (simp add: read_e_def)

lemmas quiet_intros = quiet_bind quiet_seq quiet_read

lemma quiet_invoke_node [simp]: "quiet j (snd (invoke_node env cause n j))"
proof (cases "kind n")
  case (InvokeOnCancelling h)
  have "quiet j (snd (modify_e (\<lambda>j. j\<lparr>nodes := map (\<lambda>x. if nid x = nid n then x\<lparr>invoked := True\<rparr> else x) (nodes j)\<rparr>) j))"
    for j :: "'a job"
    by (simp add: quiet_def modify_e_def same_nodes_map same_node_def)
  then show ?thesis using InvokeOnCancelling by (auto simp: invoke_node_def intro!: quiet_intros)
qed (auto simp: invoke_node_def intro!: quiet_intros)

lemma quiet_invoke_nodes [simp]: "quiet j (snd (invoke_nodes env cause ns first j))"
  by (induction ns arbitrary: j first) (auto intro!: quiet_intros)

lemma quiet_helpers [simp]:
  "quiet j (snd (handle_on_completion_exception e j))"
  "quiet j (snd (cancel_parent env c j))"
  "quiet j (snd (default_cancellation_exception m j))"
  "quiet j (snd (create_cause_exception c0 j))"
proof -
  show "quiet j (snd (handle_on_completion_exception e j))"
    by (simp add: handle_on_completion_exception_def split: option.split)
  show "quiet j (snd (cancel_parent env c j))"
    by (auto simp: cancel_parent_def intro!: quiet_intros split: parent_link.split)
  have d: "quiet j (snd (default_cancellation_exception m j))" for m
    by (auto simp: default_cancellation_exception_def new_cancellation_def modify_e_def intro!: quiet_intros)
  then show "quiet j (snd (default_cancellation_exception m j))" .
  show "quiet j (snd (create_cause_exception c0 j))"
    using d by (simp add: create_cause_exception_def split: option.split)
qed

lemma quiet_notify [simp]:
  "quiet j (snd (notify_cancelling env c j))" "quiet j (snd (notify_completion env c0 j))"
  by (auto simp: notify_cancelling_def notify_completion_def intro!: quiet_intros)

lemma quiet_finalization [simp]: "quiet j (snd (complete_state_finalization env b u j))"
  by (auto simp: complete_state_finalization_def modify_e_def intro!: quiet_intros split: parent_link.split)

lemma default_exception_run: "\<exists>c j'. default_cancellation_exception m j = (Inr c, j') \<and> quiet j j' \<and> is_cancellation_exception c"
  by (auto simp: default_cancellation_exception_def new_cancellation_def exec_simps is_cancellation_exception_def)

lemma create_cause_run: "\<exists>c j'. create_cause_exception cause j = (Inr c, j') \<and> quiet j j' \<and> (cause \<noteq> None \<longrightarrow> cause = Some c)"
  using default_exception_run by (fastforce simp: create_cause_exception_def exec_simps split: option.split)

lemma final_root_run: "\<exists>r j'. get_final_root_cause b es j = (Inr r, j') \<and> quiet j j' \<and> (b \<longrightarrow> r \<noteq> None) \<and> (es \<noteq> [] \<longrightarrow> r \<noteq> None)"
  using default_exception_run [of None j]
  by (auto simp: get_final_root_cause_def exec_simps split: list.split option.split)

subsection \<open>Waiting for children\<close>

text \<open>\<open>settled C xs\<close>: the jobs of all children still listed in \<open>xs\<close> have completed.\<close>

definition settled :: "nat set \<Rightarrow> jnode list \<Rightarrow> bool" where
  "settled C xs \<longleftrightarrow> (\<forall>x\<in>set xs. live_child x \<longrightarrow> child_of x \<in> C)"

definition before :: "nat \<Rightarrow> jnode list \<Rightarrow> jnode list" where
  "before n xs = takeWhile (\<lambda>x. nid x \<noteq> n) xs"

lemma settled_simps [simp]:
  "settled C []" "settled C (x # xs) \<longleftrightarrow> (live_child x \<longrightarrow> child_of x \<in> C) \<and> settled C xs"
  "settled C (xs @ ys) \<longleftrightarrow> settled C xs \<and> settled C ys"
  by (auto simp: settled_def)

lemma settled_mono: "settled C xs \<Longrightarrow> C \<subseteq> D \<Longrightarrow> settled D xs"
  by (auto simp: settled_def)

lemma live_child_same: "same_node x y \<Longrightarrow> live_child y = live_child x \<and> child_of y = child_of x"
  by (simp add: same_node_def live_child_def child_of_def)

lemma settled_same: "list_all2 same_node xs ys \<Longrightarrow> settled C ys = settled C xs"
  by (induction rule: list_all2_induct) (auto dest: live_child_same)

lemma nids_same: "list_all2 same_node xs ys \<Longrightarrow> map nid ys = map nid xs"
  by (induction rule: list_all2_induct) (auto simp: same_node_def)

lemma before_same: "list_all2 same_node xs ys \<Longrightarrow> list_all2 same_node (before n xs) (before n ys)"
  by (induction rule: list_all2_induct) (auto simp: before_def same_node_def)

lemma before_append: "n \<in> nid ` set xs \<Longrightarrow> before n (xs @ ys) = before n xs"
  by (induction xs) (auto simp: before_def)

lemma before_unique:
  assumes "ns = xs @ x # ys" "distinct (map nid ns)"
  shows "before (nid x) ns = xs"
proof -
  have "nid x \<notin> nid ` set xs" using assms by auto
  then have "\<And>y. y \<in> set xs \<Longrightarrow> nid y \<noteq> nid x" by (metis imageI)
  then show ?thesis using assms(1) by (simp add: before_def takeWhile_append2)
qed

lemma split_at_nid:
  assumes "n \<in> nid ` set ns"
  obtains x ys where "ns = before n ns @ x # ys" "nid x = n" "tl (dropWhile (\<lambda>x. nid x \<noteq> n) ns) = ys"
proof -
  have "dropWhile (\<lambda>x. nid x \<noteq> n) ns \<noteq> []" using assms by (auto simp: dropWhile_eq_Nil_conv)
  then obtain x ys where d: "dropWhile (\<lambda>x. nid x \<noteq> n) ns = x # ys" by (cases "dropWhile (\<lambda>x. nid x \<noteq> n) ns") auto
  then have "nid x = n" using hd_dropWhile [of "\<lambda>x. nid x \<noteq> n" ns] by simp
  then show ?thesis using that [of x ys] d by (metis before_def list.sel(3) takeWhile_dropWhile_id)
qed

lemma no_unsettled: "dropWhile (\<lambda>x. child_of x \<in> C) (filter live_child ys) = [] \<Longrightarrow> settled C ys"
  by (induction ys) (auto split: if_splits)

lemma first_unsettled:
  assumes "dropWhile (\<lambda>x. child_of x \<in> C) (filter live_child ys) = m # zs"
  shows "\<exists>us vs. ys = us @ m # vs \<and> settled C us \<and> live_child m \<and> child_of m \<notin> C"
  using assms
proof (induction ys)
  case (Cons y ys)
  show ?case
  proof (cases "live_child y \<and> child_of y \<notin> C")
    case True
    then have "m = y" using Cons.prems by simp
    then show ?thesis using True by (intro exI [of _ "[]"] exI [of _ ys]) simp
  next
    case False
    then have "dropWhile (\<lambda>x. child_of x \<in> C) (filter live_child ys) = m # zs"
      using Cons.prems by (auto split: if_splits)
    then obtain us vs where u: "ys = us @ m # vs" "settled C us" "live_child m" "child_of m \<notin> C"
      using Cons.IH by blast
    then show ?thesis using False by (intro exI [of _ "y # us"] exI [of _ vs]) simp
  qed
qed simp

lemma wait_after:
  assumes ns: "ns = xs @ ys" and dist: "distinct (map nid ns)" and pre: "settled C xs"
    and d: "dropWhile (\<lambda>x. child_of x \<in> C) (filter live_child ys) = m # zs"
  shows "nid m \<in> nid ` set ns \<and> settled C (before (nid m) ns) \<and> live_child m \<and> m \<in> set ns \<and> child_of m \<notin> C"
proof -
  obtain us vs where u: "ys = us @ m # vs" "settled C us" "live_child m" "child_of m \<notin> C"
    using first_unsettled [OF d] by blast
  have "before (nid m) ns = xs @ us" using ns u dist by (intro before_unique [of _ _ _ vs]) auto
  then show ?thesis using u ns pre by simp
qed

subsection \<open>The invariant\<close>

text \<open>
  Between operations: node identities are unique; an \<open>Empty\<close> state has no list; nothing is sealed;
  a job that is completing awaits exactly one child, and all children listed before it have
  completed; a final job awaits nothing and all its listed children have completed. The completion hook has
  been called once, with the final state, if there is one.
\<close>

definition job_inv :: "'v job \<Rightarrow> bool" where
  "job_inv j \<longleftrightarrow> distinct (map nid (nodes j)) \<and> (\<forall>x\<in>set (nodes j). nid x < next_nid j) \<and>
     hooks j = (if incomplete (jstate j) then [] else [jstate j]) \<and>
     (case jstate j of
        Empty _ \<Rightarrow> nodes j = [] \<and> awaited j = []
      | Finishing completing _ eh \<Rightarrow> eh \<noteq> Holder_Sealed \<and>
          (if completing
           then \<exists>n p. awaited j = [(n, p)] \<and> n \<in> nid ` set (nodes j) \<and>
                  settled (completed_children j) (before n (nodes j))
           else awaited j = [])
      | CompletedState _ \<Rightarrow> awaited j = [] \<and> settled (completed_children j) (nodes j)
      | CompletedExceptionally _ _ \<Rightarrow> awaited j = [] \<and> settled (completed_children j) (nodes j)
      | _ \<Rightarrow> awaited j = [])"

lemma quiet_inv:
  assumes "quiet j j'" "job_inv j"
  shows "job_inv j'"
proof -
  have q: "jstate j' = jstate j" "list_all2 same_node (nodes j) (nodes j')" "next_nid j' = next_nid j"
    "awaited j' = awaited j" "completed_children j' = completed_children j"
    using assms(1) by (simp_all add: quiet_def)
  have ids: "map nid (nodes j') = map nid (nodes j)" using nids_same [OF q(2)] .
  have img: "nid ` set (nodes j') = nid ` set (nodes j)" using ids by (metis list.set_map)
  have lt: "\<forall>x\<in>set (nodes j'). nid x < next_nid j'"
  proof
    fix x assume "x \<in> set (nodes j')"
    then have "nid x \<in> nid ` set (nodes j)" using img by blast
    then show "nid x < next_nid j'" using assms(2) q(3) by (auto simp: job_inv_def)
  qed
  have emp: "nodes j' = [] \<longleftrightarrow> nodes j = []" using ids by (metis map_is_Nil_conv)
  have hk: "hooks j' = hooks j" using assms(1) by (simp add: quiet_def)
  note facts = hk ids img lt emp settled_same [OF q(2)] settled_same [OF before_same [OF q(2)]] q(1,4,5)
  show ?thesis using assms(2) by (cases "jstate j") (auto simp: job_inv_def facts split: if_splits)
qed

text \<open>The final state a job reaches in one go: the completion hook is called, nothing else that
  matters changes.\<close>

definition finalized :: "'v job \<Rightarrow> 'v job \<Rightarrow> bool" where
  "finalized j j' \<longleftrightarrow> \<not> incomplete (jstate j') \<and>
     quiet (j\<lparr>jstate := jstate j', jlog := jlog j @ [On_Completion_Hook (jstate j')]\<rparr>) j'"

lemma hooks_two [simp]: "hooks (j\<lparr>jstate := s, jlog := jlog j @ es\<rparr>) = hooks j @ concat (map completion_hook es)"
  by (simp add: hooks_def)

lemma finalized_inv:
  assumes "finalized j j'" "distinct (map nid (nodes j))" "\<forall>x\<in>set (nodes j). nid x < next_nid j"
    "awaited j = []" "settled (completed_children j) (nodes j)" "hooks j = []"
  shows "job_inv j'"
proof -
  have "job_inv (j\<lparr>jstate := jstate j', jlog := jlog j @ [On_Completion_Hook (jstate j')]\<rparr>)"
    using assms by (cases "jstate j'") (simp_all add: job_inv_def finalized_def)
  then show ?thesis using quiet_inv assms(1) by (auto simp: finalized_def)
qed

subsection \<open>The operations keep it\<close>

lemma finalized_quiet: "finalized j k \<Longrightarrow> quiet k l \<Longrightarrow> finalized j l"
  by (auto simp: finalized_def quiet_def intro: same_nodes_trans)

lemma finalized_bind:
  assumes "finalized j (snd (m j))" "\<And>x i. quiet i (snd (f x i))"
  shows "finalized j (snd (bind_e m f j))"
proof -
  have "quiet (snd (m j)) (snd (bind_e m f j))"
    using assms(2) by (auto simp: bind_e_def split: prod.split sum.split)
  then show ?thesis by (rule finalized_quiet [OF assms(1)])
qed

lemma quiet_finalized: "quiet i j \<Longrightarrow> finalized j k \<Longrightarrow> finalized i k"
  by (auto simp: finalized_def quiet_def intro: same_nodes_trans)

lemma simple_finalized:
  "\<not> incomplete update \<Longrightarrow> finalized j (snd (try_finalize_simple_state env update j))"
proof -
  assume f: "\<not> incomplete update"
  let ?j1 = "j\<lparr>jstate := update, jlog := jlog j @ [On_Cancelling_Hook None, On_Completion_Hook update]\<rparr>"
  have "try_finalize_simple_state env update j = complete_state_finalization env False update ?j1"
    by (simp add: try_finalize_simple_state_def set_state_def log_j_def exec_simps)
  moreover have "finalized j ?j1" using f by (simp add: finalized_def quiet_def)
  ultimately show ?thesis using finalized_quiet by fastforce
qed

lemma finishing_finalized:
  assumes "jstate j = Finishing completing root eh"
  shows "finalized j (snd (finalize_finishing_state env proposed j))"
proof -
  let ?p = "proposed_exception proposed" and ?l = "seal_locked (proposed_exception proposed) root eh"
  let ?j1 = "j\<lparr>jstate := Finishing completing root Holder_Sealed\<rparr>"
  obtain fe j2 where g: "get_final_root_cause (root \<noteq> None) ?l ?j1 = (Inr fe, j2)" "quiet ?j1 j2"
    using final_root_run [of "root \<noteq> None" ?l ?j1] by blast
  let ?pick = "case fe of
       None \<Rightarrow> return_e (proposed_state proposed)
     | Some e \<Rightarrow> bind_e (cancel_parent env e) (\<lambda>told.
         let final = (if fe = ?p then proposed_state proposed else CompletedExceptionally e False)
         in return_e (if told \<or> handle_job_exception env e then make_handled final else final))"
  have "\<exists>f j3. ?pick j2 = (Inr f, j3) \<and> quiet j2 j3 \<and> \<not> incomplete f"
  proof (cases fe)
    case None
    then show ?thesis by (cases proposed) (simp_all add: exec_simps)
  next
    case (Some e)
    obtain b j3 where b: "cancel_parent env e j2 = (Inr b, j3)"
      by (cases "parent_handle j2") (auto simp: cancel_parent_def log_j_def exec_simps)
    moreover have "quiet j2 j3" using quiet_helpers(2) [of j2 env e] b by simp
    ultimately show ?thesis using Some by (cases proposed) (auto simp: exec_simps Let_def)
  qed
  then obtain f j3 where p: "?pick j2 = (Inr f, j3)" "quiet j2 j3" "\<not> incomplete f" by blast
  let ?tail = "seq_e (if \<not> root \<noteq> None then log_j (On_Cancelling_Hook fe) else return_e ())
      (seq_e (log_j (On_Completion_Hook f)) (seq_e (set_state f)
        (seq_e (complete_state_finalization env True f) (return_e f))))"
  have eq: "finalize_finishing_state env proposed j = ?tail j3"
    using assms g(1) p(1)
    by (simp add: finalize_finishing_state_def set_state_def read_e_def seq_e_def bind_e_def modify_e_def Let_def)
  obtain j4 where h: "(if \<not> root \<noteq> None then log_j (On_Cancelling_Hook fe) else return_e ()) j3 = (Inr (), j4)" "quiet j3 j4"
    by (cases root) (auto simp: log_j_def exec_simps quiet_def)
  let ?j5 = "j4\<lparr>jlog := jlog j4 @ [On_Completion_Hook f], jstate := f\<rparr>"
  have t: "?tail j3 = (seq_e (complete_state_finalization env True f) (return_e f)) ?j5"
    using h(1) by (cases root) (simp_all add: log_j_def set_state_def exec_simps)
  have "quiet ?j5 (snd (?tail j3))"
    unfolding t by (auto intro!: quiet_intros)
  moreover have "finalized j4 ?j5" using p(3) by (simp add: finalized_def quiet_def)
  ultimately have "finalized j4 (snd (finalize_finishing_state env proposed j))"
    unfolding eq by (rule finalized_quiet [rotated])
  then have "finalized ?j1 (snd (finalize_finishing_state env proposed j))"
    using quiet_finalized g(2) p(2) h(2) by blast
  then show ?thesis by (simp add: finalized_def)
qed

text \<open>Waiting for a child, then either awaiting it or finalizing.\<close>

lemma wait_run:
  "try_wait_for_child cs p j =
     (case dropWhile (\<lambda>n. child_of n \<in> completed_children j) cs of
        [] \<Rightarrow> (Inr False, j)
      | n # _ \<Rightarrow> (Inr True, j\<lparr>awaited := awaited j @ [(nid n, p)], jlog := jlog j @ [Child_Awaited (child_of n)]\<rparr>))"
  by (simp add: try_wait_for_child_def log_j_def exec_simps split: list.split del: dropWhile_eq_Nil_conv)

lemma wait_or_finalize_inv:
  assumes js: "jstate j = Finishing True root eh" "eh \<noteq> Holder_Sealed" "awaited j = []" "hooks j = []"
    and ids: "distinct (map nid (nodes j))" "\<forall>x\<in>set (nodes j). nid x < next_nid j"
    and ns: "nodes j = xs @ ys" "settled (completed_children j) xs"
    and rest: "\<And>x i. quiet i (snd (f x i))"
  shows "job_inv (snd (bind_e (try_wait_for_child (filter live_child ys) p) (\<lambda>waiting.
      if waiting then return_e w else bind_e (finalize_finishing_state env p) f) j))"
proof (cases "dropWhile (\<lambda>x. child_of x \<in> completed_children j) (filter live_child ys)")
  case Nil
  then have "settled (completed_children j) (nodes j)" using no_unsettled [OF Nil] ns by simp
  moreover have "finalized j (snd (bind_e (finalize_finishing_state env p) f j))"
    using finishing_finalized [OF js(1)] rest by (rule finalized_bind)
  ultimately have "job_inv (snd (bind_e (finalize_finishing_state env p) f j))"
    using finalized_inv ids js(3,4) by blast
  moreover have "try_wait_for_child (filter live_child ys) p j = (Inr False, j)"
    by (simp only: wait_run Nil list.case)
  ultimately show ?thesis by (simp add: bind_e_def)
next
  case (Cons m zs)
  have "try_wait_for_child (filter live_child ys) p j =
      (Inr True, j\<lparr>awaited := awaited j @ [(nid m, p)], jlog := jlog j @ [Child_Awaited (child_of m)]\<rparr>)"
    by (simp only: wait_run Cons list.case)
  then show ?thesis
    using wait_after [OF ns(1) ids(1) ns(2) Cons] js ids
    by (simp add: bind_e_def return_e_def job_inv_def hooks_def)
qed

definition enter_finishing :: "'v job \<Rightarrow> 'v job" where
  "enter_finishing j = (case jstate j of Finishing _ _ _ \<Rightarrow> j | _ \<Rightarrow> j\<lparr>jstate := Finishing False None Holder_Null\<rparr>)"

definition completing_state :: "'v proposed \<Rightarrow> exception_ptr option \<Rightarrow> exceptions_holder \<Rightarrow> 'v job_state" where
  "completing_state p root eh = (case p of
     Proposed_Exception e \<Rightarrow> add_exception_locked e (Finishing True root eh)
   | Proposed_Value _ \<Rightarrow> Finishing True root eh)"

lemma slow_path_run:
  assumes "jstate (enter_finishing j) = Finishing c root eh"
  shows "try_make_completing_slow_path env p j =
    (if c then (Inr COMPLETING_ALREADY, enter_finishing j)
     else bind_e (try_wait_for_child (filter live_child (nodes j)) p) (\<lambda>waiting.
          if waiting then return_e COMPLETING_WAITING_CHILDREN
          else bind_e (finalize_finishing_state env p) (\<lambda>_. return_e Completing_Final))
        ((enter_finishing j)\<lparr>jstate := completing_state p root eh\<rparr>))"
proof -
  have n: "nodes (enter_finishing j) = nodes j" by (simp add: enter_finishing_def split: job_state.split)
  have e: "modify_e (\<lambda>j. case jstate j of Finishing _ _ _ \<Rightarrow> j | _ \<Rightarrow> j\<lparr>jstate := Finishing False None Holder_Null\<rparr>) j =
      (Inr (), enter_finishing j)"
    by (simp add: modify_e_def enter_finishing_def)
  show ?thesis
    using assms n e
    by (simp add: try_make_completing_slow_path_def set_state_def seq_e_def bind_e_def read_e_def return_e_def
        children_after_def completing_state_def modify_e_def)
qed

lemma slow_path_inv:
  assumes inv: "job_inv j" and inc: "incomplete (jstate j)"
  shows "job_inv (snd (try_make_completing_slow_path env p j))"
proof -
  obtain c r eh where f: "jstate (enter_finishing j) = Finishing c r eh" "eh \<noteq> Holder_Sealed"
    "c \<longrightarrow> enter_finishing j = j" "\<not> c \<longrightarrow> awaited (enter_finishing j) = []"
    using inv inc by (cases "jstate j") (auto simp: job_inv_def enter_finishing_def)
  have ids: "distinct (map nid (nodes j))" "\<forall>x\<in>set (nodes j). nid x < next_nid j"
    using inv by (auto simp: job_inv_def)
  have n: "nodes (enter_finishing j) = nodes j" "next_nid (enter_finishing j) = next_nid j"
    by (simp_all add: enter_finishing_def split: job_state.split)
  have hk: "hooks (enter_finishing j) = []"
    using inv inc by (simp add: enter_finishing_def job_inv_def split: job_state.split)
  show ?thesis
  proof (cases c)
    case True
    then show ?thesis using f inv by (simp add: slow_path_run [OF f(1)])
  next
    case False
    obtain r2 eh2 where s: "completing_state p r eh = (Finishing True r2 eh2 :: 'a job_state)" "eh2 \<noteq> Holder_Sealed"
      using f(2) by (cases p; cases r; cases eh) (auto simp: completing_state_def add_exception_locked_def)
    define k where "k = (enter_finishing j)\<lparr>jstate := completing_state p r eh\<rparr>"
    have "job_inv (snd (bind_e (try_wait_for_child (filter live_child (nodes k)) p) (\<lambda>waiting.
        if waiting then return_e COMPLETING_WAITING_CHILDREN
        else bind_e (finalize_finishing_state env p) (\<lambda>_. return_e Completing_Final)) k))"
      by (rule wait_or_finalize_inv [of k r2 eh2 "[]" "nodes k"]) (use s f(4) False ids n hk in \<open>auto simp: k_def\<close>)
    then show ?thesis using False by (simp add: slow_path_run [OF f(1)] k_def n)
  qed
qed

lemma try_make_completing_inv:
  assumes inv: "job_inv j"
  shows "job_inv (snd (try_make_completing env p j))"
proof -
  have simple: "job_inv (snd (seq_e (try_finalize_simple_state env (CompletedState v)) (return_e Completing_Final) j))"
    if "jstate j = Empty a" for a v
  proof -
    have fin: "finalized j (snd (seq_e (try_finalize_simple_state env (CompletedState v)) (return_e Completing_Final) j))"
      unfolding seq_e_def by (rule finalized_bind [OF simple_finalized]) auto
    show ?thesis
      by (rule finalized_inv [OF fin]) (use inv that in \<open>auto simp: job_inv_def\<close>)
  qed
  show ?thesis
  proof (cases "incomplete (jstate j)")
    case True
    then show ?thesis
      using simple slow_path_inv [OF inv True]
      by (cases "jstate j"; cases p) (simp_all add: try_make_completing_def read_e_def)
  qed (simp add: try_make_completing_def read_e_def return_e_def inv)
qed

lemma snd_bind_return: "snd (bind_e m (\<lambda>x. return_e (f x)) j) = snd (m j)"
  by (auto simp: exec_simps split: prod.split sum.split)

lemma make_completing_inv: "job_inv j \<Longrightarrow> job_inv (snd (make_completing env p j))"
  by (simp add: make_completing_def snd_bind_return try_make_completing_inv)

lemma add_last_inv:
  assumes "job_inv j" "incomplete (jstate j)" "\<forall>a. jstate j \<noteq> Empty a"
  shows "job_inv (snd (add_last_node k j))"
  using assms
  by (cases "jstate j")
    (auto simp: add_last_node_def exec_simps job_inv_def before_append less_Suc_eq split: if_splits)

lemma promote_empty_simps:
  assumes "job_inv j" "incomplete (jstate j)"
  shows "job_inv (promote_empty j)" "incomplete (jstate (promote_empty j))" "\<forall>a. jstate (promote_empty j) \<noteq> Empty a"
    "is_cancelling (jstate (promote_empty j)) = is_cancelling (jstate j)"
  using assms by (cases "jstate j"; auto simp: promote_empty_def job_inv_def split: bool.splits)+

lemma put_node_inv:
  assumes "job_inv j" "\<And>i. job_inv i \<Longrightarrow> incomplete (jstate i) \<Longrightarrow> \<forall>a. jstate i \<noteq> Empty a \<Longrightarrow> job_inv (snd (add i))"
    "job_inv (snd (closed j))"
  shows "job_inv (snd (try_put_node_into_list add closed j))"
  using assms promote_empty_simps [OF assms(1)]
  by (simp add: try_put_node_into_list_def exec_simps)

lemma start_inv: "job_inv j \<Longrightarrow> job_inv (snd (start j)) \<and> (incomplete (jstate j) \<longrightarrow> incomplete (jstate (snd (start j))))"
  by (cases "jstate j" rule: job_state.exhaust)
    (auto simp: start_def log_j_def set_state_def exec_simps job_inv_def hooks_def split: bool.split)

lemma start_returns: "\<exists>b. start j = (Inr b, snd (start j))"
  by (cases "jstate j") (auto simp: start_def log_j_def set_state_def exec_simps split: bool.split)

lemma make_cancelling_inv:
  assumes inv: "job_inv j"
  shows "job_inv (snd (make_cancelling env cause j))"
proof (cases "incomplete (jstate j)")
  case False
  then show ?thesis using inv by (cases "jstate j") (simp_all add: make_cancelling_def exec_simps)
next
  case inc: True
  obtain c j1 where c: "create_cause_exception cause j = (Inr c, j1)" "quiet j j1"
    using create_cause_run [of cause j] by blast
  have i1: "job_inv j1" using quiet_inv [OF c(2) inv] .
  have s1: "jstate j1 = jstate j" using c(2) by (simp add: quiet_def)
  show ?thesis
  proof (cases "\<exists>completing root eh. jstate j = Finishing completing root eh")
    case True
    then obtain completing root eh where f: "jstate j = Finishing completing root eh" by blast
    obtain r2 eh2 where a: "add_exception_locked c (Finishing completing root eh) = (Finishing completing r2 eh2 :: 'a job_state)"
      and ns: "eh2 \<noteq> Holder_Sealed"
      using inv f by (cases root; cases eh) (auto simp: add_exception_locked_def job_inv_def)
    have i2: "job_inv (j1\<lparr>jstate := Finishing completing r2 eh2\<rparr>)"
      using i1 ns s1 f by (auto simp: job_inv_def split: if_splits)
    have sealed: "eh \<noteq> Holder_Sealed" using inv f by (simp add: job_inv_def)
    have tail: "job_inv (snd (seq_e (case root_cause (jstate k) of
        Some r \<Rightarrow> if \<not> w then notify_cancelling env r else return_e () | None \<Rightarrow> return_e ()) (return_e Cancel_Accepted) k))"
      if "job_inv k" for k w
    proof -
      have "quiet k (snd (seq_e (case root_cause (jstate k) of
          Some r \<Rightarrow> if \<not> w then notify_cancelling env r else return_e () | None \<Rightarrow> return_e ()) (return_e Cancel_Accepted) k))"
        by (auto intro!: quiet_intros split: option.split)
      then show ?thesis using quiet_inv that by blast
    qed
    show ?thesis
    proof (cases "cause \<noteq> None \<or> root = None")
      case True
      then have "make_cancelling env cause j = (seq_e (case r2 of
          Some r \<Rightarrow> if \<not> root \<noteq> None then notify_cancelling env r else return_e () | None \<Rightarrow> return_e ()) (return_e Cancel_Accepted))
          (j1\<lparr>jstate := Finishing completing r2 eh2\<rparr>)"
        using f sealed c(1) a
        by (simp add: make_cancelling_def set_state_def seq_e_def bind_e_def read_e_def modify_e_def Let_def
            split: option.split)
      then show ?thesis using tail [OF i2, of "root \<noteq> None"] by simp
    next
      case False
      then have "make_cancelling env cause j = (seq_e (case root of
          Some r \<Rightarrow> if \<not> root \<noteq> None then notify_cancelling env r else return_e () | None \<Rightarrow> return_e ()) (return_e Cancel_Accepted)) j"
        using f sealed
        by (simp add: make_cancelling_def seq_e_def bind_e_def read_e_def return_e_def Let_def
            split: option.split)
      then show ?thesis using tail [OF inv, of "root \<noteq> None"] f by simp
    qed
  next
    case False
    then have eq: "make_cancelling env cause j =
        (if state_active (jstate j) then seq_e (try_make_cancelling env c) (return_e Cancel_Accepted)
         else bind_e (make_completing env (Proposed_Exception c)) (\<lambda>_. return_e Cancel_Accepted)) j1"
      using inc c(1) by (cases "jstate j") (simp_all add: make_cancelling_def read_e_def bind_e_def)
    have "job_inv (j1\<lparr>jstate := Finishing False (Some c) Holder_Null\<rparr>)"
      using i1 s1 False inc by (cases "jstate j") (auto simp: job_inv_def)
    moreover have "quiet (j1\<lparr>jstate := Finishing False (Some c) Holder_Null\<rparr>)
        (snd (seq_e (try_make_cancelling env c) (return_e Cancel_Accepted) j1))"
    proof -
      have "quiet k (snd (seq_e (notify_cancelling env c) (return_e Cancel_Accepted) k))" for k :: "'a job"
        by (auto intro!: quiet_intros)
      then show ?thesis
        by (simp add: try_make_cancelling_def set_state_def seq_e_def bind_e_def modify_e_def)
    qed
    ultimately show ?thesis
      using eq quiet_inv make_completing_inv [OF i1] by (auto simp: snd_bind_return)
  qed
qed

lemma mark_removed_settled: "settled C xs \<Longrightarrow> settled C (map (\<lambda>x. if nid x = n then x\<lparr>removed := True\<rparr> else x) xs)"
  by (induction xs) (auto simp: live_child_def child_of_def)

lemma mark_removed_before:
  "before k (map (\<lambda>x. if nid x = n then x\<lparr>removed := True\<rparr> else x) xs) =
    map (\<lambda>x. if nid x = n then x\<lparr>removed := True\<rparr> else x) (before k xs)"
  by (induction xs) (auto simp: before_def)

lemma mark_removed_nids:
  "map nid (map (\<lambda>x. if nid x = n then x\<lparr>removed := True\<rparr> else x) xs) = map nid xs"
  by (induction xs) auto

lemma remove_node_inv: "job_inv j \<Longrightarrow> job_inv (snd (remove_node n j))"
proof (cases "incomplete (jstate j)")
  case True
  assume inv: "job_inv j"
  let ?f = "\<lambda>x. if nid x = n then x\<lparr>removed := True\<rparr> else x"
  have ids: "map nid (map ?f (nodes j)) = map nid (nodes j)" by (rule mark_removed_nids)
  have img: "nid ` set (map ?f (nodes j)) = nid ` set (nodes j)" using ids by (metis list.set_map)
  have "\<forall>x\<in>set (map ?f (nodes j)). nid x < next_nid j" using inv by (auto simp: job_inv_def)
  then have "job_inv (j\<lparr>nodes := map ?f (nodes j)\<rparr>)"
    using inv True ids img mark_removed_settled [of "completed_children j" _ n]
    by (cases "jstate j") (auto simp: job_inv_def mark_removed_before simp del: map_map split: if_splits)
  then show ?thesis using True by (simp add: remove_node_def exec_simps)
qed (simp add: remove_node_def exec_simps)

lemma continue_run:
  "continue_completing env n p j = bind_e (try_wait_for_child (children_after (Some n) (nodes j)) p) (\<lambda>waiting.
     if waiting then return_e ()
     else bind_e (finalize_finishing_state env p) (\<lambda>final_state. log_j (After_Completion_Hook final_state))) j"
  by (simp add: continue_completing_def read_e_def bind_e_def wait_run split: list.split del: dropWhile_eq_Nil_conv)

lemma child_completed_inv: "job_inv j \<Longrightarrow> job_inv (child_completed c j)"
proof -
  assume i: "job_inv j"
  have "settled (insert c (completed_children j)) xs" if "settled (completed_children j) xs" for xs
    using settled_mono [OF that] by blast
  then show ?thesis using i by (cases "jstate j") (auto simp: job_inv_def child_completed_def split: if_splits)
qed

lemma awaited_split:
  assumes inv: "job_inv j" and aw: "map_of (awaited j) n = Some p" and c: "child_is_completed n j"
  obtains root eh xs ys where "jstate j = Finishing True root eh" "eh \<noteq> Holder_Sealed" "awaited j = [(n, p)]"
    "nodes j = xs @ ys" "settled (completed_children j) xs" "hooks j = []"
    "children_after (Some n) (nodes j) = filter live_child ys"
proof -
  have "(n, p) \<in> set (awaited j)" using aw by (rule map_of_SomeD)
  then obtain root eh where f: "jstate j = Finishing True root eh" "eh \<noteq> Holder_Sealed" "awaited j = [(n, p)]"
    "n \<in> nid ` set (nodes j)" "settled (completed_children j) (before n (nodes j))" "hooks j = []"
    using inv by (cases "jstate j") (auto simp: job_inv_def split: if_splits)
  obtain x ys where x: "nodes j = before n (nodes j) @ x # ys" "nid x = n"
    "tl (dropWhile (\<lambda>x. nid x \<noteq> n) (nodes j)) = ys"
    using split_at_nid [OF f(4)] by blast
  have d: "distinct (map nid (nodes j))" using inv by (simp add: job_inv_def)
  obtain y where y: "y \<in> set (nodes j)" "nid y = n" "child_of y \<in> completed_children j"
    using c by (auto simp: child_is_completed_def list_ex_iff)
  have "x \<in> set (nodes j)" using x(1) by (metis in_set_conv_decomp)
  then have "y = x" using d y x(2) by (auto simp: distinct_map inj_on_def)
  then have "settled (completed_children j) (before n (nodes j) @ [x])" using f(5) y(3) by simp
  then show ?thesis
    using that [of root eh "before n (nodes j) @ [x]" ys] f x(1,3) by (simp add: children_after_def)
qed

lemma child_completion_run:
  assumes "awaited j = [(n, p)]"
  shows "child_completion env n j = bind_e (try_wait_for_child (children_after (Some n) (nodes j)) p) (\<lambda>waiting.
     if waiting then return_e ()
     else bind_e (finalize_finishing_state env p) (\<lambda>final_state. log_j (After_Completion_Hook final_state)))
     (j\<lparr>awaited := []\<rparr>)"
proof -
  have "child_completion env n j = continue_completing env n p (j\<lparr>awaited := []\<rparr>)"
    using assms by (simp add: child_completion_def exec_simps)
  then show ?thesis by (simp add: continue_run)
qed

lemma child_completion_inv:
  assumes inv: "job_inv j" and c: "child_is_completed n j"
  shows "job_inv (snd (child_completion env n j))"
proof (cases "map_of (awaited j) n")
  case (Some p)
  obtain root eh xs ys where f: "jstate j = Finishing True root eh" "eh \<noteq> Holder_Sealed" "awaited j = [(n, p)]"
    "nodes j = xs @ ys" "settled (completed_children j) xs" "hooks j = []"
    "children_after (Some n) (nodes j) = filter live_child ys"
    using awaited_split [OF inv Some c] by blast
  have ids: "distinct (map nid (nodes j))" "\<forall>x\<in>set (nodes j). nid x < next_nid j"
    using inv by (auto simp: job_inv_def)
  show ?thesis unfolding child_completion_run [OF f(3)] f(7)
    by (rule wait_or_finalize_inv [of _ root eh xs ys]) (use f ids in auto)
qed (simp add: child_completion_def exec_simps inv)

subsection \<open>Histories\<close>

datatype 'v job_op =
    J_Start
  | J_Cancel "exception_ptr option"
  | J_Cancel_Coroutine "exception_ptr option"
  | J_Parent_Cancelled
  | J_Child_Cancelled "exception_ptr option"
  | J_Complete 'v
  | J_Complete_Exceptionally exception_ptr
  | J_Attach_Child nat
  | J_Invoke_On_Completion bool bool nat
  | J_Dispose nat
  | J_Join nat
  | J_Await nat
  | J_Child_Completed nat
  | J_Child_Notifies nat

fun run_job_op :: "job_env \<Rightarrow> 'v job_op \<Rightarrow> 'v job \<Rightarrow> 'v job" where
  "run_job_op env J_Start j = snd (start j)"
| "run_job_op env (J_Cancel c) j = snd (cancel_job env c j)"
| "run_job_op env (J_Cancel_Coroutine c) j = snd (cancel_coroutine env c j)"
| "run_job_op env J_Parent_Cancelled j = snd (job_parent_cancelled env j)"
| "run_job_op env (J_Child_Cancelled c) j = snd (child_cancelled env c j)"
| "run_job_op env (J_Complete v) j = snd (complete env v j)"
| "run_job_op env (J_Complete_Exceptionally e) j = snd (complete_exceptionally env e j)"
| "run_job_op env (J_Attach_Child c) j = snd (attach_child env c j)"
| "run_job_op env (J_Invoke_On_Completion oc imm h) j = snd (invoke_on_completion env oc imm h j)"
| "run_job_op env (J_Dispose n) j = snd (remove_node n j)"
| "run_job_op env (J_Join k) j = snd (join k j)"
| "run_job_op env (J_Await k) j = snd (await_internal k j)"
| "run_job_op env (J_Child_Completed c) j = child_completed c j"
| "run_job_op env (J_Child_Notifies n) j = (if child_is_completed n j then snd (child_completion env n j) else j)"

definition run_job :: "job_env \<Rightarrow> 'v job_op list \<Rightarrow> 'v job \<Rightarrow> 'v job" where
  "run_job env ops j = fold (run_job_op env) ops j"

lemma inv_bind:
  assumes "job_inv (snd (m j))" "\<And>x i. job_inv i \<Longrightarrow> job_inv (snd (f x i))"
  shows "job_inv (snd (bind_e m f j))"
  using assms by (auto simp: bind_e_def split: prod.split sum.split)

lemma quiet_keeps_inv: "(\<And>i. quiet i (snd (m i))) \<Longrightarrow> job_inv j \<Longrightarrow> job_inv (snd (m j))"
  using quiet_inv by blast

lemma job_inv_return [simp]: "snd (return_e x j) = j" "snd (throw_e e j) = j"
  by (simp_all add: exec_simps)

lemma job_inv_default: "job_inv j \<Longrightarrow> job_inv (snd (default_cancellation_exception m j))"
  using quiet_inv [OF quiet_helpers(3)] by blast

lemma cancel_inv: "job_inv j \<Longrightarrow> job_inv (snd (cancel_job env c j))"
  unfolding cancel_job_def
  by (intro inv_bind) (auto simp: make_cancelling_inv job_inv_default split: option.split)

lemma cancel_coroutine_inv: "job_inv j \<Longrightarrow> job_inv (snd (cancel_coroutine env c j))"
  unfolding cancel_coroutine_def
  by (intro inv_bind) (auto simp: make_cancelling_inv job_inv_default split: option.split)

lemma parent_cancelled_inv: "job_inv j \<Longrightarrow> job_inv (snd (job_parent_cancelled env j))"
  unfolding job_parent_cancelled_def by (intro inv_bind) (auto simp: job_inv_default cancel_inv)

lemma child_cancelled_inv: "job_inv j \<Longrightarrow> job_inv (snd (child_cancelled env c j))"
  by (simp add: child_cancelled_def snd_bind_return make_cancelling_inv)

lemma quiet_immediate:
  "quiet j (snd (bind_e (invoke_node env c n) (\<lambda>thrown. throw_option thrown (return_e r)) j))"
  by (auto intro!: quiet_intros simp: throw_option_def split: option.split)

lemma invoke_on_completion_inv:
  assumes "job_inv j"
  shows "job_inv (snd (invoke_on_completion env oc imm h j))"
  unfolding invoke_on_completion_def Let_def
proof (rule put_node_inv [OF assms])
  fix i :: "'a job"
  assume i: "job_inv i" "incomplete (jstate i)" "\<forall>a. jstate i \<noteq> Empty a"
  show "job_inv (snd (read_e (\<lambda>j. case (if oc \<and> is_cancelling (jstate j) then root_cause (jstate j) else None) of
      Some root \<Rightarrow>
        if imm then bind_e (invoke_node env (Some root)
            (loose_node (if oc then InvokeOnCancelling h else InvokeOnCompletion h) j))
          (\<lambda>thrown. throw_option thrown (read_e (\<lambda>j. if imm \<and> False
            then bind_e (invoke_node env (state_cause (jstate j)) (loose_node (if oc then InvokeOnCancelling h else InvokeOnCompletion h) j))
              (\<lambda>thrown. throw_option thrown (return_e None)) else return_e None)))
        else read_e (\<lambda>j. if imm \<and> False
            then bind_e (invoke_node env (state_cause (jstate j)) (loose_node (if oc then InvokeOnCancelling h else InvokeOnCompletion h) j))
              (\<lambda>thrown. throw_option thrown (return_e None)) else return_e None)
    | None \<Rightarrow> bind_e (add_last_node (if oc then InvokeOnCancelling h else InvokeOnCompletion h)) (\<lambda>n. return_e (Some n))) i))"
    using i add_last_inv [OF i]
    by (auto simp: read_e_def snd_bind_return throw_option_def intro!: quiet_inv [OF _ i(1)] quiet_intros
        split: option.split)
next
  show "job_inv (snd (read_e (\<lambda>j. if imm \<and> True
      then bind_e (invoke_node env (state_cause (jstate j)) (loose_node (if oc then InvokeOnCancelling h else InvokeOnCompletion h) j))
        (\<lambda>thrown. throw_option thrown (return_e None)) else return_e None) j))"
    using assms by (simp add: read_e_def quiet_inv [OF quiet_immediate assms])
qed

lemma attach_child_inv:
  assumes "job_inv j"
  shows "job_inv (snd (attach_child env c j))"
  unfolding attach_child_def
  by (rule put_node_inv [OF assms])
    (auto simp: snd_bind_return add_last_inv read_e_def intro!: quiet_inv [OF _ assms])

lemma state_value_same [simp]: "snd (state_value j) = j"
  by (simp add: state_value_def exec_simps split: job_state.split)

lemma started_put_inv:
  assumes "job_inv j" "job_inv (snd (closed (snd (start j))))"
  shows "job_inv (snd (bind_e start (\<lambda>_. try_put_node_into_list (bind_e (add_last_node n) (\<lambda>_. return_e r)) closed) j))"
proof -
  obtain b where b: "start j = (Inr b, snd (start j))" using start_returns by blast
  have "job_inv (snd (try_put_node_into_list (bind_e (add_last_node n) (\<lambda>_. return_e r)) closed (snd (start j))))"
    by (rule put_node_inv) (use start_inv [OF assms(1)] assms(2) in \<open>simp_all add: snd_bind_return add_last_inv\<close>)
  then show ?thesis by (subst bind_e_def, subst b) simp
qed

lemma join_inv: "job_inv j \<Longrightarrow> job_inv (snd (join k j))"
  using start_inv [of j] by (simp add: join_def read_e_def started_put_inv)

lemma await_inv: "job_inv j \<Longrightarrow> job_inv (snd (await_internal k j))"
  using start_inv [of j] by (simp add: await_internal_def read_e_def started_put_inv)

lemma run_job_op_inv: "job_inv j \<Longrightarrow> job_inv (run_job_op env op j)"
  by (cases op)
    (simp_all add: start_inv cancel_inv cancel_coroutine_inv parent_cancelled_inv child_cancelled_inv
      complete_def complete_exceptionally_def make_completing_inv attach_child_inv invoke_on_completion_inv
      remove_node_inv join_inv await_inv child_completed_inv child_completion_inv)

lemma new_job_inv: "job_inv (new_job active link)"
  by (simp add: new_job_def job_inv_def hooks_def)

lemma run_job_inv: "job_inv j \<Longrightarrow> job_inv (run_job env ops j)"
  unfolding run_job_def by (induction ops arbitrary: j) (auto simp: run_job_op_inv)

lemma make_cancelling_final: "\<not> incomplete (jstate j) \<Longrightarrow> make_cancelling env c j = (Inr TOO_LATE_TO_CANCEL, j)"
  by (cases "jstate j") (simp_all add: make_cancelling_def exec_simps)

lemma make_completing_final: "\<not> incomplete (jstate j) \<Longrightarrow> make_completing env p j = (Inr False, j)"
  by (simp add: make_completing_def try_make_completing_def exec_simps)

lemma quiet_state: "quiet i j \<Longrightarrow> jstate j = jstate i"
  by (simp add: quiet_def)

lemma default_exception_state: "jstate (snd (default_cancellation_exception m j)) = jstate j"
  by (rule quiet_state) simp

lemma cancel_final:
  assumes f: "\<not> incomplete (jstate j)"
  shows "jstate (snd (cancel_job env c j)) = jstate j"
proof (cases c)
  case None
  obtain d j' where d: "default_cancellation_exception None j = (Inr d, j')" "quiet j j'"
    using default_exception_run by blast
  have "\<not> incomplete (jstate j')" using f quiet_state [OF d(2)] by simp
  then show ?thesis using None d by (simp add: cancel_job_def bind_e_def make_cancelling_final return_e_def quiet_state)
qed (simp add: cancel_job_def exec_simps make_cancelling_final f)

lemma final_op:
  assumes f: "\<not> incomplete (jstate j)" and inv: "job_inv j"
  shows "jstate (run_job_op env op j) = jstate j"
proof -
  have aw: "awaited j = []" using f inv by (cases "jstate j") (auto simp: job_inv_def)
  have put: "try_put_node_into_list m n j = n j" for m and n :: "('a job, 'b) exec"
    using f by (simp add: try_put_node_into_list_def read_e_def)
  show ?thesis
  proof (cases op)
    case J_Start
    then show ?thesis using f by (cases "jstate j") (simp_all add: start_def read_e_def)
  next
    case (J_Cancel c)
    then show ?thesis using cancel_final [OF f] by simp
  next
    case (J_Cancel_Coroutine c)
    have "snd (cancel_coroutine env c j) = snd (cancel_job env c j)"
      by (auto simp: cancel_coroutine_def cancel_job_def bind_e_def split: prod.split sum.split)
    then show ?thesis using J_Cancel_Coroutine cancel_final [OF f] by simp
  next
    case J_Parent_Cancelled
    obtain d j' where d: "default_cancellation_exception (Some ''Parent cancelled'') j = (Inr d, j')" "quiet j j'"
      using default_exception_run by blast
    have "\<not> incomplete (jstate j')" using f quiet_state [OF d(2)] by simp
    then show ?thesis
      using J_Parent_Cancelled d by (simp add: job_parent_cancelled_def bind_e_def quiet_state cancel_final)
  next
    case (J_Child_Cancelled c)
    then show ?thesis using f by (simp add: child_cancelled_def bind_e_def make_cancelling_final)
  next
    case (J_Attach_Child c)
    have "quiet j (snd (attach_child env c j))"
      unfolding attach_child_def put by (auto intro!: quiet_intros)
    then show ?thesis using J_Attach_Child by (simp add: quiet_state)
  next
    case (J_Invoke_On_Completion oc imm h)
    have "quiet j (snd (invoke_on_completion env oc imm h j))"
      unfolding invoke_on_completion_def Let_def put by (simp add: read_e_def quiet_immediate)
    then show ?thesis using J_Invoke_On_Completion by (simp add: quiet_state)
  qed (use f aw in \<open>simp_all add: complete_def complete_exceptionally_def make_completing_final remove_node_def
      read_e_def join_def await_internal_def child_completed_def child_completion_def\<close>)
qed

lemma final_run: "\<not> incomplete (jstate j) \<Longrightarrow> job_inv j \<Longrightarrow> jstate (run_job env ops j) = jstate j"
  unfolding run_job_def by (induction ops arbitrary: j) (simp_all add: final_op run_job_op_inv)

lemma run_job_append: "run_job env (xs @ ys) j = run_job env ys (run_job env xs j)"
  by (simp add: run_job_def)

subsection \<open>Structured concurrency\<close>

text \<open>An environment for examples: no handler throws, the parent declines, nothing is handled.\<close>

definition calm_env :: job_env where
  "calm_env = \<lparr>handler_exception = (\<lambda>_. None), parent_child_cancelled = (\<lambda>_. False),
     handle_job_exception = (\<lambda>_. False), handles_exception = True\<rparr>"

lemma set_tl_dropWhile: "set (tl (dropWhile P xs)) \<subseteq> set xs"
  by (induction xs) auto

lemma set_children_after: "x \<in> set (children_after s ns) \<Longrightarrow> live_child x \<and> x \<in> set ns"
  using set_tl_dropWhile by (cases s) (fastforce simp: children_after_def)+

lemma reachable_inv: "job_inv (run_job env ops (new_job active link))"
  by (rule run_job_inv [OF new_job_inv])

text \<open>C10: Structured concurrency: whatever sequence of starts, cancellations, completions,
  registrations, disposals, joins and child completions a job has been through, once it is in a
  final state every child still listed has a completed job, and the job awaits no child.\<close>

theorem completed_after_children:
  assumes "job_is_completed (run_job env ops (new_job active link))"
    and "n \<in> set (nodes (run_job env ops (new_job active link)))" "live_child n"
  shows "child_of n \<in> completed_children (run_job env ops (new_job active link)) \<and>
    awaited (run_job env ops (new_job active link)) = []"
proof -
  have final: "awaited j = [] \<and> settled (completed_children j) (nodes j)"
    if "job_inv j" "\<not> incomplete (jstate j)" for j :: "'a job"
    using that by (cases "jstate j") (simp_all add: job_inv_def)
  show ?thesis
    using assms final [OF reachable_inv] unfolding job_is_completed_def settled_def by blast
qed

theorem completed_after_children_witness:
  "child_of \<lparr>nid = 0, kind = ChildHandleNode 7, removed = False, invoked = False\<rparr> \<in>
     completed_children (run_job calm_env [J_Attach_Child 7, J_Child_Completed 7, J_Complete (5::nat)] (new_job True No_Handle))"
proof -
  let ?ops = "[J_Attach_Child 7, J_Child_Completed 7, J_Complete (5::nat)]"
  let ?n = "\<lparr>nid = 0, kind = ChildHandleNode 7, removed = False, invoked = False\<rparr>"
  have "job_is_completed (run_job calm_env ?ops (new_job True No_Handle))" by code_simp
  moreover have "?n \<in> set (nodes (run_job calm_env ?ops (new_job True No_Handle)))" by code_simp
  moreover have "live_child ?n" by code_simp
  ultimately show ?thesis using completed_after_children by blast
qed

text \<open>C11: A completing job is never stuck: in every reachable completing state it awaits exactly one
  child, and if the jobs of all children have completed, then that child's completion
  notification completes the job.\<close>

theorem last_child_completes_job:
  assumes "jstate (run_job env ops (new_job active link)) = Finishing True root eh"
    and "settled (completed_children (run_job env ops (new_job active link))) (nodes (run_job env ops (new_job active link)))"
    and "list_all (\<lambda>(n, p). child_is_completed n (run_job env ops (new_job active link))) (awaited (run_job env ops (new_job active link)))"
  shows "\<exists>n p. awaited (run_job env ops (new_job active link)) = [(n, p)] \<and>
    job_is_completed (run_job env (ops @ [J_Child_Notifies n]) (new_job active link))"
proof -
  define j where "j = run_job env ops (new_job active link)"
  have inv: "job_inv j" unfolding j_def by (rule reachable_inv)
  obtain n p where a: "awaited j = [(n, p)]"
    using inv assms(1) by (auto simp: job_inv_def j_def split: if_splits)
  then have c: "child_is_completed n j" using assms(3) by (simp add: j_def [symmetric])
  have "dropWhile (\<lambda>x. child_of x \<in> completed_children j) (children_after (Some n) (nodes j)) = []"
    using assms(2) set_children_after [of _ "Some n" "nodes j"]
    by (simp add: dropWhile_eq_Nil_conv settled_def j_def [symmetric])
  then have w: "try_wait_for_child (children_after (Some n) (nodes j)) p (j\<lparr>awaited := []\<rparr>) = (Inr False, j\<lparr>awaited := []\<rparr>)"
    by (simp add: wait_run del: dropWhile_eq_Nil_conv)
  have "finalized (j\<lparr>awaited := []\<rparr>) (snd (bind_e (finalize_finishing_state env p)
      (\<lambda>f. log_j (After_Completion_Hook f)) (j\<lparr>awaited := []\<rparr>)))"
    by (rule finalized_bind [OF finishing_finalized [of _ True root eh]]) (simp_all add: assms(1) j_def)
  then have "job_is_completed (snd (child_completion env n j))"
    by (simp add: child_completion_run [OF a] bind_e_def [of "try_wait_for_child cs q" for cs q] w finalized_def job_is_completed_def)
  then show ?thesis using a c by (simp add: run_job_append j_def [symmetric]) (simp add: run_job_def)
qed

theorem last_child_completes_job_witness:
  "\<exists>n p. awaited (run_job calm_env [J_Attach_Child 7, J_Complete (5::nat), J_Child_Completed 7] (new_job True No_Handle)) = [(n, p)] \<and>
    job_is_completed (run_job calm_env ([J_Attach_Child 7, J_Complete (5::nat), J_Child_Completed 7] @ [J_Child_Notifies n]) (new_job True No_Handle))"
  by (rule last_child_completes_job [of _ _ _ _ None Holder_Null]) (code_simp, simp add: settled_def, code_simp, code_simp)

text \<open>C12: A final state is final: no later operation changes it, the completion hook has run exactly
  once, with that state.\<close>

theorem final_state_is_final:
  assumes "job_is_completed (run_job env ops (new_job active link))"
  shows "jstate (run_job env (ops @ later) (new_job active link)) = jstate (run_job env ops (new_job active link)) \<and>
    hooks (run_job env (ops @ later) (new_job active link)) = [jstate (run_job env ops (new_job active link))]"
proof -
  have s: "jstate (run_job env (ops @ later) (new_job active link)) = jstate (run_job env ops (new_job active link))"
    using assms final_run [OF _ reachable_inv] by (simp add: run_job_append job_is_completed_def)
  then show ?thesis
    using assms reachable_inv [of env "ops @ later" active link] by (simp add: job_inv_def job_is_completed_def)
qed

theorem final_state_is_final_witness:
  "hooks (run_job calm_env ([J_Complete (5::nat)] @ [J_Cancel None, J_Complete 6]) (new_job True No_Handle)) = [CompletedState 5]"
proof -
  have "job_is_completed (run_job calm_env [J_Complete (5::nat)] (new_job True No_Handle))" by code_simp
  moreover have "jstate (run_job calm_env [J_Complete (5::nat)] (new_job True No_Handle)) = CompletedState 5" by code_simp
  ultimately show ?thesis
    using final_state_is_final [of calm_env "[J_Complete (5::nat)]" True No_Handle "[J_Cancel None, J_Complete 6]"] by simp
qed

subsection \<open>Notifications\<close>

text \<open>What invoking a node logs and throws.\<close>

fun node_event :: "exception_ptr option \<Rightarrow> 'v job_state \<Rightarrow> jnode \<Rightarrow> 'v job_event list" where
  "node_event cause s n = (case kind n of
     InvokeOnCompletion h \<Rightarrow> [Handler_Invoked h cause]
   | InvokeOnCancelling h \<Rightarrow> if invoked n then [] else [Handler_Invoked h cause]
   | ChildHandleNode c \<Rightarrow> [Child_Told_Cancelled c]
   | ResumeOnCompletion k \<Rightarrow> [Join_Resumed k]
   | ResumeAwaitOnCompletion k \<Rightarrow> [Await_Resumed k s])"

fun node_throws :: "job_env \<Rightarrow> jnode \<Rightarrow> exception_ptr option" where
  "node_throws env n = (case kind n of
     InvokeOnCompletion h \<Rightarrow> handler_exception env h
   | InvokeOnCancelling h \<Rightarrow> if invoked n then None else handler_exception env h
   | _ \<Rightarrow> None)"

fun first_thrown :: "job_env \<Rightarrow> jnode list \<Rightarrow> exception_ptr option" where
  "first_thrown env [] = None"
| "first_thrown env (n # ns) = (case node_throws env n of None \<Rightarrow> first_thrown env ns | Some e \<Rightarrow> Some e)"

abbreviation events :: "exception_ptr option \<Rightarrow> 'v job_state \<Rightarrow> jnode list \<Rightarrow> 'v job_event list" where
  "events cause s ns \<equiv> concat (map (node_event cause s) ns)"

lemma invoke_node_run:
  "\<exists>j'. invoke_node env cause n j = (Inr (node_throws env n), j') \<and> quiet j j' \<and>
     parent_handle j' = parent_handle j \<and> jlog j' = jlog j @ node_event cause (jstate j) n"
proof -
  have "quiet j (snd (invoke_node env cause n j))" by simp
  then show ?thesis
    by (cases "kind n") (auto simp: invoke_node_def log_j_def exec_simps)
qed

lemma invoke_nodes_run:
  "\<exists>j'. invoke_nodes env cause ns first j = (Inr (if first = None then first_thrown env ns else first), j') \<and>
     quiet j j' \<and> parent_handle j' = parent_handle j \<and> jlog j' = jlog j @ events cause (jstate j) ns"
proof (induction ns arbitrary: j first)
  case (Cons n ns)
  obtain j1 where j1: "invoke_node env cause n j = (Inr (node_throws env n), j1)" "quiet j j1"
    "parent_handle j1 = parent_handle j" "jlog j1 = jlog j @ node_event cause (jstate j) n"
    using invoke_node_run by blast
  let ?f = "if first = None then node_throws env n else first"
  obtain j2 where j2: "invoke_nodes env cause ns ?f j1 = (Inr (if ?f = None then first_thrown env ns else ?f), j2)"
    "quiet j1 j2" "parent_handle j2 = parent_handle j1" "jlog j2 = jlog j1 @ events cause (jstate j1) ns"
    using Cons.IH by blast
  have "(if ?f = None then first_thrown env ns else ?f) = (if first = None then first_thrown env (n # ns) else first)"
    by (auto simp del: node_throws.simps split: option.split)
  then show ?case
    using j1 j2 quiet_trans quiet_state [OF j1(2)]
    by (auto simp: bind_e_def simp del: node_event.simps)
qed (simp add: exec_simps)

lemma same_live:
  "list_all2 same_node xs ys \<Longrightarrow> list_all2 same_node (filter (\<lambda>n. \<not> removed n) xs) (filter (\<lambda>n. \<not> removed n) ys)"
  by (induction rule: list_all2_induct) (auto simp: same_node_def)

lemma handle_exception_run:
  "handle_on_completion_exception t j = ((case t of None \<Rightarrow> Inr () | Some x \<Rightarrow> Inl (Rethrown x)), j)"
  by (simp add: handle_on_completion_exception_def exec_simps split: option.split)

lemma notify_completion_run:
  "\<exists>j'. notify_completion env cause j =
     ((case first_thrown env (filter (\<lambda>n. \<not> removed n) (nodes j)) of None \<Rightarrow> Inr () | Some x \<Rightarrow> Inl (Rethrown x)), j') \<and>
     quiet j j' \<and> parent_handle j' = parent_handle j \<and>
     jlog j' = jlog j @ events cause (jstate j) (filter (\<lambda>n. \<not> removed n) (nodes j))"
proof -
  obtain j' where "invoke_nodes env cause (filter (\<lambda>n. \<not> removed n) (nodes j)) None j =
      (Inr (first_thrown env (filter (\<lambda>n. \<not> removed n) (nodes j))), j')" "quiet j j'" "parent_handle j' = parent_handle j"
    "jlog j' = jlog j @ events cause (jstate j) (filter (\<lambda>n. \<not> removed n) (nodes j))"
    using invoke_nodes_run [of env cause _ None j] by (simp del: node_event.simps) blast
  then show ?thesis
    by (simp add: notify_completion_def read_e_def bind_e_def handle_exception_run del: node_event.simps)
qed

lemma notify_cancelling_run:
  assumes "parent_handle j \<noteq> Child_Handle"
  shows "\<exists>j'. notify_cancelling env cause j =
     ((case first_thrown env (filter (\<lambda>n. \<not> removed n \<and> on_cancelling_kind n) (nodes j)) of
         None \<Rightarrow> Inr () | Some x \<Rightarrow> Inl (Rethrown x)), j') \<and> quiet j j' \<and>
     jlog j' = jlog j @ [On_Cancelling_Hook (Some cause)] @
       events (Some cause) (jstate j) (filter (\<lambda>n. \<not> removed n \<and> on_cancelling_kind n) (nodes j))"
proof -
  let ?ns = "filter (\<lambda>n. \<not> removed n \<and> on_cancelling_kind n) (nodes j)"
  let ?j0 = "j\<lparr>jlog := jlog j @ [On_Cancelling_Hook (Some cause)]\<rparr>"
  obtain j' where r: "invoke_nodes env (Some cause) ?ns None ?j0 = (Inr (first_thrown env ?ns), j')" "quiet ?j0 j'"
    "parent_handle j' = parent_handle j" "jlog j' = jlog ?j0 @ events (Some cause) (jstate j) ?ns"
    using invoke_nodes_run [of env "Some cause" ?ns None ?j0] by (simp del: node_event.simps) blast
  have p: "cancel_parent env cause j' = (Inr False, j')"
    using assms r(3) by (cases "parent_handle j'") (simp_all add: cancel_parent_def exec_simps)
  have l: "log_j (On_Cancelling_Hook (Some cause)) j = (Inr (), ?j0)"
    by (simp add: log_j_def modify_e_def)
  have "notify_cancelling env cause j = handle_on_completion_exception (first_thrown env ?ns) j'"
    using l r(1) p by (simp add: notify_cancelling_def read_e_def seq_e_def bind_e_def)
  moreover have "quiet j j'" using r(2) by (auto simp: quiet_def hooks_def)
  ultimately show ?thesis using r(4) by (simp add: handle_exception_run del: node_event.simps)
qed


definition listening_job :: "nat job" where
  "listening_job = run_job calm_env [J_Invoke_On_Completion False True 3, J_Invoke_On_Completion True True 4, J_Join 9] (new_job True No_Handle)"


lemma cancellation_run:
  assumes "jstate j = NodeListState" "parent_handle j = No_Handle"
  shows "jstate (snd (cancel_job env (Some c) j)) = Finishing False (Some c) Holder_Null \<and>
    jlog (snd (cancel_job env (Some c) j)) = jlog j @ [On_Cancelling_Hook (Some c)] @
      events (Some c) (Finishing False (Some c) Holder_Null) (filter (\<lambda>n. \<not> removed n \<and> on_cancelling_kind n) (nodes j))"
proof -
  let ?j1 = "j\<lparr>jstate := Finishing False (Some c) Holder_Null\<rparr>"
  let ?ns = "filter (\<lambda>n. \<not> removed n \<and> on_cancelling_kind n) (nodes j)"
  obtain j2 where n: "snd (notify_cancelling env c ?j1) = j2" "quiet ?j1 j2"
    "jlog j2 = jlog j @ [On_Cancelling_Hook (Some c)] @ events (Some c) (Finishing False (Some c) Holder_Null) ?ns"
    using notify_cancelling_run [of ?j1 env c] assms(2) by (fastforce simp del: node_event.simps)
  have e: "snd (cancel_job env (Some c) j) = j2"
    using assms(1) n(1)
    by (auto simp: cancel_job_def make_cancelling_def try_make_cancelling_def create_cause_exception_def set_state_def
        exec_simps split: prod.split sum.split)
  have "jstate j2 = Finishing False (Some c) Holder_Null" using quiet_state [OF n(2)] by simp
  then show ?thesis using e n(3) by simp
qed



subsection \<open>Failures\<close>


definition family :: "nat job" where
  "family = run_job calm_env [J_Attach_Child 7, J_Attach_Child 8] (new_job True No_Handle)"


lemma find_ordinary:
  assumes "\<exists>e\<in>set es. \<not> is_cancellation_exception e"
  shows "\<exists>e. find (\<lambda>e. \<not> is_cancellation_exception e) es = Some e \<and> e \<in> set es \<and> \<not> is_cancellation_exception e"
  using assms by (induction es) auto

text \<open>C16: A failure is not hidden by a cancellation: if among the root cause, the stored exception and
  the proposed result there is one that is not a cancellation, then the job completes
  exceptionally with such an exception.\<close>

theorem failure_beats_cancellation:
  assumes "jstate j = Finishing completing root eh" "eh \<noteq> Holder_Sealed"
    and "e \<in> set_option root \<union> (case eh of Holder_One x \<Rightarrow> {x} | _ \<Rightarrow> {}) \<union> set_option (proposed_exception proposed)"
    and "\<not> is_cancellation_exception e"
  shows "\<exists>cause handled. jstate (snd (finalize_finishing_state env proposed j)) = CompletedExceptionally cause handled \<and>
    \<not> is_cancellation_exception cause \<and>
    cause \<in> set_option root \<union> (case eh of Holder_One x \<Rightarrow> {x} | _ \<Rightarrow> {}) \<union> set_option (proposed_exception proposed)"
proof -
  let ?es = "seal_locked (proposed_exception proposed) root eh"
  have set: "set ?es = set_option root \<union> (case eh of Holder_One x \<Rightarrow> {x} | _ \<Rightarrow> {}) \<union> set_option (proposed_exception proposed)"
    using assms(2) by (cases root; cases eh; cases "proposed_exception proposed") (auto simp: seal_locked_def)
  then obtain c where c: "find (\<lambda>e. \<not> is_cancellation_exception e) ?es = Some c" "c \<in> set ?es" "\<not> is_cancellation_exception c"
    using find_ordinary [of ?es] assms(3,4) by blast
  have g: "get_final_root_cause b ?es i = (Inr (Some c), i)" for b and i :: "'a job"
    using c(1) by (cases ?es) (auto simp: get_final_root_cause_def return_e_def)
  have "\<exists>h. jstate (snd (finalize_finishing_state env proposed j)) = CompletedExceptionally c h"
  proof -
    let ?p = "proposed_exception proposed"
    let ?j1 = "j\<lparr>jstate := Finishing completing root Holder_Sealed\<rparr>"
    obtain told j2 where t: "cancel_parent env c ?j1 = (Inr told, j2)"
      by (cases "parent_handle j") (auto simp: cancel_parent_def log_j_def exec_simps)
    let ?final = "if Some c = ?p then proposed_state proposed else CompletedExceptionally c False"
    have "\<exists>h. (if told \<or> handle_job_exception env c then make_handled ?final else ?final) = CompletedExceptionally c h"
      by (cases proposed) auto
    then obtain h where h: "(if told \<or> handle_job_exception env c then make_handled ?final else ?final) = CompletedExceptionally c h"
      by blast
    have "finalize_finishing_state env proposed j =
        seq_e (if \<not> root \<noteq> None then log_j (On_Cancelling_Hook (Some c)) else return_e ())
          (seq_e (log_j (On_Completion_Hook (CompletedExceptionally c h))) (seq_e (set_state (CompletedExceptionally c h))
            (seq_e (complete_state_finalization env True (CompletedExceptionally c h)) (return_e (CompletedExceptionally c h))))) j2"
      using assms(1) g t h
      by (simp add: finalize_finishing_state_def read_e_def set_state_def seq_e_def bind_e_def modify_e_def Let_def return_e_def)
    then have "\<exists>k. jstate k = CompletedExceptionally c h \<and> finalize_finishing_state env proposed j =
        seq_e (complete_state_finalization env True (CompletedExceptionally c h)) (return_e (CompletedExceptionally c h)) k"
      by (intro exI [of _ "(if root = None then j2\<lparr>jlog := jlog j2 @ [On_Cancelling_Hook (Some c), On_Completion_Hook (CompletedExceptionally c h)]\<rparr>
            else j2\<lparr>jlog := jlog j2 @ [On_Completion_Hook (CompletedExceptionally c h)]\<rparr>)\<lparr>jstate := CompletedExceptionally c h\<rparr>"])
        (simp add: log_j_def set_state_def seq_e_def bind_e_def modify_e_def return_e_def)
    then obtain k where k: "jstate k = CompletedExceptionally c h" "finalize_finishing_state env proposed j =
        seq_e (complete_state_finalization env True (CompletedExceptionally c h)) (return_e (CompletedExceptionally c h)) k"
      by blast
    have "quiet k (snd (finalize_finishing_state env proposed j))"
      unfolding k(2) by (auto intro!: quiet_intros)
    then show ?thesis using quiet_state k(1) by metis
  qed
  then show ?thesis using c(2,3) set by auto
qed

theorem failure_beats_cancellation_witness:
  "\<exists>cause handled. jstate (snd (finalize_finishing_state calm_env (Proposed_Exception (Exc 2 OrdinaryException ''boom''))
      (snd (cancel_job calm_env None listening_job)))) = CompletedExceptionally cause handled \<and> \<not> is_cancellation_exception cause"
proof -
  have "jstate (snd (cancel_job calm_env None listening_job)) =
      Finishing False (Some (Exc 0 CancellationException ''Job was cancelled'')) Holder_Null" by code_simp
  moreover have "\<not> is_cancellation_exception (Exc 2 OrdinaryException ''boom'')" by code_simp
  ultimately show ?thesis
    using failure_beats_cancellation [of "snd (cancel_job calm_env None listening_job)" False
      "Some (Exc 0 CancellationException ''Job was cancelled'')" Holder_Null "Exc 2 OrdinaryException ''boom''"
      "Proposed_Exception (Exc 2 OrdinaryException ''boom'')" calm_env] by auto
qed

text \<open>Only the root cause and one more exception are kept: a failure that arrives third is lost.\<close>

lemma third_exception_lost:
  "jstate (run_job calm_env [J_Cancel (Some (Exc 1 CancellationException ''a'')), J_Cancel (Some (Exc 2 CancellationException ''b'')),
     J_Child_Cancelled (Some (Exc 3 OrdinaryException ''failure'')), J_Complete (5::nat)] (new_job True No_Handle)) =
   CompletedExceptionally (Exc 1 CancellationException ''a'') False"
  by code_simp

text \<open>A job that waited for a child runs its \<open>after_completion\<close> hook twice.\<close>

lemma after_completion_twice:
  "jlog (run_job calm_env [J_Attach_Child 7, J_Complete (5::nat), J_Child_Completed 7, J_Child_Notifies 0] (new_job True No_Handle)) =
   [Child_Awaited 7, On_Cancelling_Hook None, On_Completion_Hook (CompletedState 5), Child_Told_Cancelled 7,
    After_Completion_Hook (CompletedState 5), After_Completion_Hook (CompletedState 5)]"
  by code_simp

text \<open>Completing exceptionally with a child attached leaves the child uncancelled while the job waits for it.\<close>

lemma exceptional_completion_spares_children:
  "jlog (run_job calm_env [J_Attach_Child 7, J_Complete_Exceptionally (Exc 1 OrdinaryException ''x'')] (new_job True No_Handle :: nat job)) =
    [Child_Awaited 7]"
  by code_simp

end
