(* ===== verification/Shared_Flow.thy ===== *)
theory Shared_Flow
  imports Prelude
begin

unbundle bit_operations_syntax

text \<open>
  \<open>flow/SharedFlow.hpp\<close>: the broadcast buffer of a shared flow. Every operation holds the flow's
  mutex, so each is one atomic step; what happens between them (which collector or emitter runs
  next, which continuation is cancelled) is the order of the steps. The buffer is the array of
  cells the code masks its indices into; 64-bit indices are \<open>int\<close>. Continuations are numbers;
  resuming one after the lock is released is logged in \<open>resumed\<close>. Two ghost fields record
  what the code does not keep: \<open>published\<close>, what each buffer index ever held (\<open>None\<close> for an index
  given up to a cancelled emitter), and \<open>taken\<close>, which collector read which index.

  \<open>allocate_slot\<close> and \<open>free_slot\<close> are declared in \<open>AbstractSharedFlow.hpp\<close> and defined nowhere in
  the repository: a collector's arrival and departure are steps that pick any slot, change the
  count of collectors and call the slot's own \<open>allocate_locked\<close> or \<open>free_locked\<close>.
\<close>

subsection \<open>State\<close>

datatype buffer_overflow = SUSPEND | DROP_OLDEST | DROP_LATEST

record flow_slot =
  slot_index :: int
  slot_cont :: "nat option"

record 'v emitter =
  e_index :: int
  e_value :: 'v
  e_cont :: nat

datatype 'v cell = Null_Cell | No_Value | Boxed 'v | Queued "'v emitter"

record 'v flow =
  replay :: int
  buffer_capacity :: int
  on_buffer_overflow :: buffer_overflow
  buffer :: "'v cell list option"
  replay_index :: int
  min_collector_index :: int
  buffer_size :: int
  queue_size :: int
  slots :: "flow_slot list"
  n_collectors :: int
  resumed :: "nat list"
  published :: "'v option list"
  taken :: "(nat \<times> int \<times> 'v) list"

definition new_flow :: "int \<Rightarrow> int \<Rightarrow> buffer_overflow \<Rightarrow> 'v flow" where
  "new_flow r c o' = \<lparr>replay = r, buffer_capacity = c, on_buffer_overflow = o', buffer = None,
     replay_index = 0, min_collector_index = 0, buffer_size = 0, queue_size = 0, slots = [],
     n_collectors = 0, resumed = [], published = [], taken = []\<rparr>"

text \<open>The factory: argument checks, and the 32-bit sum of the two capacities (where the sum
  overflows, C++ leaves the behaviour undefined). The messages leave out the offending number.\<close>

definition make_mutable_shared_flow :: "int \<Rightarrow> int \<Rightarrow> buffer_overflow \<Rightarrow> 'v flow res" where
  "make_mutable_shared_flow r extra o' =
     (if r < 0 then Inl (Invalid_Argument ''replay cannot be negative'')
      else if extra < 0 then Inl (Invalid_Argument ''extraBufferCapacity cannot be negative'')
      else if r = 0 \<and> extra = 0 \<and> o' \<noteq> SUSPEND
      then Inl (Invalid_Argument ''replay or extraBufferCapacity must be positive with non-default onBufferOverflow strategy'')
      else if r + extra \<ge> 2 ^ 31 then Inl Undefined_Behaviour
      else Inr (new_flow r (r + extra) o'))"

definition head :: "'v flow \<Rightarrow> int" where "head f = min (min_collector_index f) (replay_index f)"
definition replay_size :: "'v flow \<Rightarrow> int" where "replay_size f = head f + buffer_size f - replay_index f"
definition total_size :: "'v flow \<Rightarrow> int" where "total_size f = buffer_size f + queue_size f"
definition buffer_end :: "'v flow \<Rightarrow> int" where "buffer_end f = head f + buffer_size f"
definition queue_end :: "'v flow \<Rightarrow> int" where "queue_end f = head f + buffer_size f + queue_size f"

definition ring_index :: "int \<Rightarrow> nat \<Rightarrow> nat" where
  "ring_index i n = nat (i AND (int n - 1))"

definition get_buffer_at :: "'v flow \<Rightarrow> int \<Rightarrow> 'v cell" where
  "get_buffer_at f i = (case buffer f of None \<Rightarrow> Null_Cell | Some b \<Rightarrow> b ! ring_index i (length b))"

definition set_buffer_at :: "int \<Rightarrow> 'v cell \<Rightarrow> 'v flow \<Rightarrow> 'v flow" where
  "set_buffer_at i c f = (case buffer f of None \<Rightarrow> f
     | Some b \<Rightarrow> f\<lparr>buffer := Some (b[ring_index i (length b) := c])\<rparr>)"

text \<open>\<open>for_each_slot_locked\<close> visits nothing when there are no collectors.\<close>

definition visited_slots :: "'v flow \<Rightarrow> flow_slot list" where
  "visited_slots f = (if n_collectors f = 0 then [] else slots f)"

definition map_slots :: "(flow_slot \<Rightarrow> flow_slot) \<Rightarrow> 'v flow \<Rightarrow> 'v flow" where
  "map_slots g f = (if n_collectors f = 0 then f else f\<lparr>slots := map g (slots f)\<rparr>)"

definition publish :: "'v option \<Rightarrow> 'v flow \<Rightarrow> 'v flow" where
  "publish v f = f\<lparr>published := published f @ [v]\<rparr>"

subsection \<open>The ring buffer\<close>

definition copy_ring :: "int \<Rightarrow> int \<Rightarrow> 'v cell list \<Rightarrow> 'v cell list \<Rightarrow> 'v cell list" where
  "copy_ring h n old new = fold (\<lambda>i b. b[ring_index (h + i) (length b) := old ! ring_index (h + i) (length old)]) [0..n - 1] new"

text \<open>\<open>new_size\<close> is passed as a 32-bit \<open>int\<close>: doubling an array of \<open>2 ^ 30\<close> cells gives a negative size.\<close>

definition grow_buffer :: "'v cell list option \<Rightarrow> int \<Rightarrow> int \<Rightarrow> ('v flow, unit) exec" where
  "grow_buffer cur cur_size new_size = read_e (\<lambda>f.
     let n = sint (word_of_int new_size :: 32 word) in
     if n \<le> 0 then throw_e (Runtime_Error ''Buffer size overflow'')
     else modify_e (\<lambda>f. f\<lparr>buffer := Some (case cur of
         None \<Rightarrow> replicate (nat n) Null_Cell
       | Some old \<Rightarrow> copy_ring (head f) cur_size old (replicate (nat n) Null_Cell))\<rparr>))"

definition enqueue_locked :: "'v cell \<Rightarrow> ('v flow, unit) exec" where
  "enqueue_locked item = read_e (\<lambda>f.
     seq_e (case buffer f of
         None \<Rightarrow> grow_buffer None 0 2
       | Some b \<Rightarrow> if total_size f \<ge> int (length b) then grow_buffer (Some b) (total_size f) (int (length b) * 2)
                  else return_e ())
       (modify_e (\<lambda>g. set_buffer_at (head g + total_size f) item g)))"

definition clear_range :: "int \<Rightarrow> int \<Rightarrow> 'v flow \<Rightarrow> 'v flow" where
  "clear_range a b f = fold (\<lambda>i. set_buffer_at i Null_Cell) [a..b - 1] f"

definition update_buffer_locked :: "int \<Rightarrow> int \<Rightarrow> int \<Rightarrow> int \<Rightarrow> ('v flow, unit) exec" where
  "update_buffer_locked new_replay new_min new_buffer_end new_queue_end = read_e (\<lambda>f.
     let new_head = min new_min new_replay in
     if new_head < head f then throw_e Assertion_Failed
     else seq_e (modify_e (\<lambda>f. (clear_range (head f) new_head f)\<lparr>replay_index := new_replay,
              min_collector_index := new_min, buffer_size := new_buffer_end - new_head,
              queue_size := new_queue_end - new_buffer_end\<rparr>))
       (read_e (\<lambda>f. if buffer_size f < 0 \<or> queue_size f < 0 \<or> replay_index f > head f + buffer_size f
                    then throw_e Assertion_Failed else return_e ())))"

function cleanup_loop :: "'v flow \<Rightarrow> 'v flow" where
  "cleanup_loop f =
     (if queue_size f > 0 \<and> get_buffer_at f (head f + total_size f - 1) = No_Value
      then cleanup_loop (set_buffer_at (head f + total_size f - 1) Null_Cell (f\<lparr>queue_size := queue_size f - 1\<rparr>))
      else f)"
  by pat_completeness auto

lemma set_buffer_frame [simp]:
  "replay (set_buffer_at i c f) = replay f" "buffer_capacity (set_buffer_at i c f) = buffer_capacity f"
  "on_buffer_overflow (set_buffer_at i c f) = on_buffer_overflow f"
  "replay_index (set_buffer_at i c f) = replay_index f" "min_collector_index (set_buffer_at i c f) = min_collector_index f"
  "buffer_size (set_buffer_at i c f) = buffer_size f" "queue_size (set_buffer_at i c f) = queue_size f"
  "slots (set_buffer_at i c f) = slots f" "n_collectors (set_buffer_at i c f) = n_collectors f"
  "resumed (set_buffer_at i c f) = resumed f" "published (set_buffer_at i c f) = published f"
  "taken (set_buffer_at i c f) = taken f" "head (set_buffer_at i c f) = head f"
  "buffer_end (set_buffer_at i c f) = buffer_end f" "queue_end (set_buffer_at i c f) = queue_end f"
  "total_size (set_buffer_at i c f) = total_size f" "replay_size (set_buffer_at i c f) = replay_size f"
  by (simp_all add: set_buffer_at_def head_def buffer_end_def queue_end_def total_size_def replay_size_def split: option.split)

termination cleanup_loop
  by (relation "measure (\<lambda>f. nat (queue_size f))") auto

declare cleanup_loop.simps [simp del]

definition cleanup_tail_locked :: "'v flow \<Rightarrow> 'v flow" where
  "cleanup_tail_locked f =
     (if buffer_capacity f = 0 \<and> queue_size f \<le> 1 then f
      else if buffer f = None then f
      else cleanup_loop f)"

subsection \<open>Collectors\<close>

definition try_peek_locked :: "flow_slot \<Rightarrow> 'v flow \<Rightarrow> int" where
  "try_peek_locked s f =
     (if slot_index s < buffer_end f then slot_index s
      else if buffer_capacity f > 0 then -1
      else if slot_index s > head f then -1
      else if queue_size f = 0 then -1
      else slot_index s)"

definition get_peeked_value_locked_at :: "int \<Rightarrow> ('v flow, 'v option) exec" where
  "get_peeked_value_locked_at i = read_e (\<lambda>f. case get_buffer_at f i of
     No_Value \<Rightarrow> return_e None
   | Queued e \<Rightarrow> if i \<ge> buffer_end f then return_e (Some (e_value e)) else throw_e Undefined_Behaviour
   | Boxed v \<Rightarrow> if i \<ge> buffer_end f then throw_e Undefined_Behaviour else return_e (Some v)
   | Null_Cell \<Rightarrow> throw_e Undefined_Behaviour)"

text \<open>The vector of continuations to resume, doubled when full; its tail may hold nulls.\<close>

definition push_resume :: "nat \<Rightarrow> nat option list \<times> nat \<Rightarrow> nat option list \<times> nat" where
  "push_resume k p = (case p of (rs, n) \<Rightarrow>
     let rs1 = (if n \<ge> length rs then rs @ replicate (max 2 (2 * length rs) - length rs) None else rs)
     in (rs1[n := Some k], Suc n))"

definition ready_conts :: "'v flow \<Rightarrow> nat list" where
  "ready_conts f = concat (map (\<lambda>s. case slot_cont s of
      Some k \<Rightarrow> if try_peek_locked s f < 0 then [] else [k] | None \<Rightarrow> []) (visited_slots f))"

definition find_slots_to_resume_locked :: "nat option list \<Rightarrow> ('v flow, nat option list) exec" where
  "find_slots_to_resume_locked resumes = read_e (\<lambda>f.
     seq_e (modify_e (map_slots (\<lambda>s. if slot_cont s \<noteq> None \<and> \<not> try_peek_locked s f < 0 then s\<lparr>slot_cont := None\<rparr> else s)))
       (return_e (fst (fold push_resume (ready_conts f) (resumes, length resumes)))))"

text \<open>After the lock is released, every non-null continuation is resumed.\<close>

definition resume_all :: "nat option list \<Rightarrow> ('v flow, unit) exec" where
  "resume_all rs = modify_e (\<lambda>f. f\<lparr>resumed := resumed f @ concat (map (\<lambda>r. case r of Some k \<Rightarrow> [k] | None \<Rightarrow> []) rs)\<rparr>)"

subsection \<open>Operations under the lock\<close>

definition correct_collector_indexes_on_drop_oldest :: "int \<Rightarrow> 'v flow \<Rightarrow> 'v flow" where
  "correct_collector_indexes_on_drop_oldest new_head f =
     (map_slots (\<lambda>s. if slot_index s \<ge> 0 \<and> slot_index s < new_head then s\<lparr>slot_index := new_head\<rparr> else s) f)
       \<lparr>min_collector_index := new_head\<rparr>"

definition drop_head :: "'v flow \<Rightarrow> 'v flow" where
  "drop_head f =
     (let new_head = head f + 1;
          f1 = (set_buffer_at (head f) Null_Cell f)\<lparr>buffer_size := buffer_size f - 1\<rparr>;
          f2 = (if replay_index f1 < new_head then f1\<lparr>replay_index := new_head\<rparr> else f1)
      in if min_collector_index f2 < new_head then correct_collector_indexes_on_drop_oldest new_head f2 else f2)"

definition drop_oldest_locked :: "('v flow, unit) exec" where
  "drop_oldest_locked = read_e (\<lambda>f. seq_e (modify_e drop_head)
     (read_e (\<lambda>g. if head g \<noteq> head f + 1 then throw_e Assertion_Failed else return_e ())))"

definition grow_size :: "'v flow \<Rightarrow> 'v flow" where
  "grow_size f = f\<lparr>buffer_size := buffer_size f + 1\<rparr>"

definition try_emit_no_collectors_locked :: "'v \<Rightarrow> ('v flow, bool) exec" where
  "try_emit_no_collectors_locked v = read_e (\<lambda>f.
     if n_collectors f \<noteq> 0 then throw_e Assertion_Failed
     else if replay f = 0 then return_e True
     else seq_e (enqueue_locked (Boxed v))
       (seq_e (modify_e (publish (Some v) \<circ> grow_size))
         (seq_e (read_e (\<lambda>f. if buffer_size f > replay f then drop_oldest_locked else return_e ()))
           (seq_e (modify_e (\<lambda>f. f\<lparr>min_collector_index := head f + buffer_size f\<rparr>)) (return_e True)))))"

definition try_emit_locked :: "'v \<Rightarrow> ('v flow, bool) exec" where
  "try_emit_locked v = read_e (\<lambda>f.
     if n_collectors f = 0 then try_emit_no_collectors_locked v
     else if buffer_size f \<ge> buffer_capacity f \<and> min_collector_index f \<le> replay_index f \<and> on_buffer_overflow f = SUSPEND
     then return_e False
     else if buffer_size f \<ge> buffer_capacity f \<and> min_collector_index f \<le> replay_index f \<and> on_buffer_overflow f = DROP_LATEST
     then return_e True
     else seq_e (enqueue_locked (Boxed v))
       (seq_e (modify_e (publish (Some v) \<circ> grow_size))
         (seq_e (read_e (\<lambda>f. if buffer_size f > buffer_capacity f then drop_oldest_locked else return_e ()))
           (seq_e (read_e (\<lambda>f. if replay_size f > replay f
                 then update_buffer_locked (replay_index f + 1) (min_collector_index f) (buffer_end f) (queue_end f)
                 else return_e ()))
             (return_e True)))))"

text \<open>The loop that moves queued emitters into the buffer: \<open>e\<close> is the buffer's end so far, \<open>rs\<close> the
  continuations to resume. A cell of the queue that is neither an emitter nor \<open>No_Value\<close> would be
  read through a pointer of the wrong type.\<close>

fun resume_emitters :: "int list \<Rightarrow> nat \<Rightarrow> int \<Rightarrow> nat list \<Rightarrow> ('v flow, nat list \<times> int) exec" where
  "resume_emitters [] m e rs = return_e (rs, e)"
| "resume_emitters (i # is) m e rs = read_e (\<lambda>f. case get_buffer_at f i of
     No_Value \<Rightarrow> resume_emitters is m e rs
   | Queued em \<Rightarrow>
       seq_e (modify_e (\<lambda>f. publish (Some (e_value em)) (set_buffer_at e (Boxed (e_value em)) (set_buffer_at i No_Value f))))
         (if length rs + 1 \<ge> m then return_e (rs @ [e_cont em], e + 1)
          else resume_emitters is m (e + 1) (rs @ [e_cont em]))
   | _ \<Rightarrow> throw_e Undefined_Behaviour)"

definition lowest_index :: "'v flow \<Rightarrow> int" where
  "lowest_index f = fold (\<lambda>s m. if slot_index s \<ge> 0 \<and> slot_index s < m then slot_index s else m) (visited_slots f)
     (head f + buffer_size f + (if buffer_capacity f = 0 \<and> queue_size f > 0 then 1 else 0))"

definition resume_count :: "int \<Rightarrow> 'v flow \<Rightarrow> int" where
  "resume_count m f = (if n_collectors f > 0
     then min (queue_size f) (buffer_capacity f - (buffer_end f - m)) else queue_size f)"

text \<open>The second half: the emitters have moved, the buffer now ends at \<open>e\<close>.\<close>

definition settle_buffer :: "int \<Rightarrow> int \<Rightarrow> int \<Rightarrow> int \<Rightarrow> ('v flow, unit) exec" where
  "settle_buffer h m e qe = read_e (\<lambda>f.
     let m2 = (if n_collectors f = 0 then e else m);
         r = max (replay_index f) (e - min (replay f) (e - h));
         skip = (buffer_capacity f = 0 \<and> r < qe \<and> get_buffer_at f r = No_Value)
     in seq_e (if skip then modify_e (publish None) else return_e ())
       (seq_e (update_buffer_locked (if skip then r + 1 else r) m2 (if skip then e + 1 else e) qe)
         (modify_e cleanup_tail_locked)))"

definition update_collector_index_locked :: "int \<Rightarrow> ('v flow, nat option list) exec" where
  "update_collector_index_locked old = read_e (\<lambda>f.
     if old < min_collector_index f then throw_e Assertion_Failed
     else if old > min_collector_index f then return_e []
     else let m = lowest_index f in
       if m < min_collector_index f then throw_e Assertion_Failed
       else if m \<le> min_collector_index f then return_e []
       else let k = resume_count m f in
         bind_e (if k > 0 then resume_emitters [buffer_end f..queue_end f - 1] (nat k) (buffer_end f) []
                 else return_e ([], buffer_end f))
           (\<lambda>(rs, e). seq_e (settle_buffer (head f) m e (queue_end f))
             (if k > 0 then find_slots_to_resume_locked (map Some rs @ replicate (nat k - length rs) None)
              else return_e [])))"

definition update_new_collector_index_locked :: "('v flow, int) exec" where
  "update_new_collector_index_locked = read_e (\<lambda>f.
     seq_e (modify_e (\<lambda>f. if replay_index f < min_collector_index f then f\<lparr>min_collector_index := replay_index f\<rparr> else f))
       (return_e (replay_index f)))"

subsection \<open>Steps\<close>

definition try_emit :: "'v \<Rightarrow> ('v flow, bool) exec" where
  "try_emit v = bind_e (try_emit_locked v) (\<lambda>ok.
     if ok then bind_e (find_slots_to_resume_locked []) (\<lambda>rs. seq_e (resume_all rs) (return_e True))
     else return_e False)"

text \<open>The block \<open>emit_suspend\<close> runs with the emitter's continuation \<open>k\<close>; the result is the queued
  emitter, which is disposed when \<open>k\<close> is cancelled.\<close>

definition emit_suspend :: "'v \<Rightarrow> nat \<Rightarrow> ('v flow, 'v emitter option) exec" where
  "emit_suspend v k = bind_e (try_emit_locked v) (\<lambda>ok.
     if ok then seq_e (resume_all [Some k]) (bind_e (find_slots_to_resume_locked []) (\<lambda>rs. seq_e (resume_all rs) (return_e None)))
     else read_e (\<lambda>f. let em = \<lparr>e_index = head f + total_size f, e_value = v, e_cont = k\<rparr> in
       seq_e (enqueue_locked (Queued em))
         (seq_e (modify_e (\<lambda>f. f\<lparr>queue_size := queue_size f + 1\<rparr>))
           (bind_e (if buffer_capacity f = 0 then find_slots_to_resume_locked [] else return_e [])
             (\<lambda>rs. seq_e (resume_all rs) (return_e (Some em)))))))"

definition cancel_emitter :: "'v emitter \<Rightarrow> 'v flow \<Rightarrow> 'v flow" where
  "cancel_emitter em f =
     (if e_index em < head f then f
      else if buffer f = None then f
      else if get_buffer_at f (e_index em) \<noteq> Queued em then f
      else cleanup_tail_locked (set_buffer_at (e_index em) No_Value f))"

definition slot_at :: "nat \<Rightarrow> 'v flow \<Rightarrow> flow_slot" where "slot_at i f = slots f ! i"

definition set_slot :: "nat \<Rightarrow> flow_slot \<Rightarrow> 'v flow \<Rightarrow> 'v flow" where
  "set_slot i s f = f\<lparr>slots := (slots f)[i := s]\<rparr>"

definition try_take_value :: "nat \<Rightarrow> ('v flow, 'v option) exec" where
  "try_take_value i = read_e (\<lambda>f.
     let index = try_peek_locked (slot_at i f) f in
     if index < 0 then return_e None
     else let old = slot_index (slot_at i f) in
       bind_e (get_peeked_value_locked_at index) (\<lambda>value.
         seq_e (modify_e (\<lambda>f. (set_slot i ((slot_at i f)\<lparr>slot_index := index + 1\<rparr>) f)
             \<lparr>taken := taken f @ (case value of Some v \<Rightarrow> [(i, index, v)] | None \<Rightarrow> [])\<rparr>))
           (bind_e (update_collector_index_locked old) (\<lambda>rs. seq_e (resume_all rs) (return_e value)))))"

definition await_value :: "nat \<Rightarrow> nat \<Rightarrow> 'v flow \<Rightarrow> 'v flow" where
  "await_value i k f =
     (if try_peek_locked (slot_at i f) f < 0 then set_slot i ((slot_at i f)\<lparr>slot_cont := Some k\<rparr>) f
      else f\<lparr>resumed := resumed f @ [k]\<rparr>)"

definition reset_replay_cache :: "('v flow, unit) exec" where
  "reset_replay_cache = read_e (\<lambda>f.
     update_buffer_locked (buffer_end f) (min_collector_index f) (buffer_end f) (queue_end f))"

definition get_replay_cache :: "'v flow \<Rightarrow> 'v cell list" where
  "get_replay_cache f = map (\<lambda>i. get_buffer_at f (replay_index f + i)) [0..replay_size f - 1]"

definition allocate_locked :: "nat \<Rightarrow> ('v flow, bool) exec" where
  "allocate_locked i = read_e (\<lambda>f.
     if slot_index (slot_at i f) \<ge> 0 then return_e False
     else bind_e update_new_collector_index_locked (\<lambda>index.
       seq_e (modify_e (\<lambda>f. set_slot i ((slot_at i f)\<lparr>slot_index := index\<rparr>) f)) (return_e True)))"

definition free_locked :: "nat \<Rightarrow> ('v flow, nat option list) exec" where
  "free_locked i = read_e (\<lambda>f.
     let old = slot_index (slot_at i f) in
     if old < 0 then throw_e Assertion_Failed
     else seq_e (modify_e (set_slot i \<lparr>slot_index = -1, slot_cont = None\<rparr>)) (update_collector_index_locked old))"

subsection \<open>The ring buffer holds its window\<close>

definition capacity_of :: "'v flow \<Rightarrow> int" where
  "capacity_of f = (case buffer f of None \<Rightarrow> 0 | Some b \<Rightarrow> int (length b))"

text \<open>The array is absent, or its length is a power of two that fits an \<open>int\<close>.\<close>

definition ring_ok :: "'v flow \<Rightarrow> bool" where
  "ring_ok f \<longleftrightarrow> (\<forall>b. buffer f = Some b \<longrightarrow> (\<exists>k. 1 \<le> k \<and> k \<le> 30 \<and> length b = 2 ^ k))"

lemma ring_index_mod: "ring_index i (2 ^ k) = nat (i mod 2 ^ k)"
proof -
  have "i AND (int (2 ^ k) - 1) = take_bit k i" by (simp add: take_bit_eq_mask mask_eq_exp_minus_1)
  then show ?thesis by (simp add: ring_index_def take_bit_eq_mod)
qed

lemma ring_index_less: "ring_index i (2 ^ k) < 2 ^ k"
  by (simp add: ring_index_mod nat_less_iff)

lemma mod_window:
  fixes i j n :: int
  assumes "i \<noteq> j" "\<bar>i - j\<bar> < n"
  shows "i mod n \<noteq> j mod n"
proof
  assume "i mod n = j mod n"
  then have "n dvd (i - j)" by (simp add: mod_eq_dvd_iff)
  then show False using assms zdvd_imp_le [of n "\<bar>i - j\<bar>"] by auto
qed

lemma ring_index_window:
  assumes "i \<noteq> j" "\<bar>i - j\<bar> < int (2 ^ k)"
  shows "ring_index i (2 ^ k) \<noteq> ring_index j (2 ^ k)"
  using mod_window [OF assms(1), of "2 ^ k"] assms(2) by (simp add: ring_index_mod nat_eq_iff)

lemma set_buffer_cap [simp]: "capacity_of (set_buffer_at i c f) = capacity_of f" "ring_ok (set_buffer_at i c f) = ring_ok f"
  "buffer (set_buffer_at i c f) = None \<longleftrightarrow> buffer f = None"
  by (auto simp: capacity_of_def ring_ok_def set_buffer_at_def split: option.split)

lemma get_set_same: "ring_ok f \<Longrightarrow> buffer f \<noteq> None \<Longrightarrow> get_buffer_at (set_buffer_at i c f) i = c"
  using ring_index_less by (fastforce simp: ring_ok_def get_buffer_at_def set_buffer_at_def)

lemma get_set_other:
  "ring_ok f \<Longrightarrow> i \<noteq> j \<Longrightarrow> \<bar>i - j\<bar> < capacity_of f \<Longrightarrow> get_buffer_at (set_buffer_at i c f) j = get_buffer_at f j"
  using ring_index_window by (fastforce simp: ring_ok_def get_buffer_at_def set_buffer_at_def capacity_of_def split: option.splits)

lemma get_buffer_cong [simp]:
  "get_buffer_at (f\<lparr>replay_index := a\<rparr>) = get_buffer_at f" "get_buffer_at (f\<lparr>min_collector_index := a\<rparr>) = get_buffer_at f"
  "get_buffer_at (f\<lparr>buffer_size := a\<rparr>) = get_buffer_at f" "get_buffer_at (f\<lparr>queue_size := a\<rparr>) = get_buffer_at f"
  "get_buffer_at (f\<lparr>slots := s\<rparr>) = get_buffer_at f" "get_buffer_at (f\<lparr>n_collectors := a\<rparr>) = get_buffer_at f"
  "get_buffer_at (f\<lparr>resumed := r\<rparr>) = get_buffer_at f" "get_buffer_at (f\<lparr>published := p\<rparr>) = get_buffer_at f"
  "get_buffer_at (f\<lparr>taken := t\<rparr>) = get_buffer_at f"
  by (simp_all add: get_buffer_at_def fun_eq_iff)

lemma ring_cong [simp]:
  "ring_ok (f\<lparr>replay_index := a\<rparr>) = ring_ok f" "ring_ok (f\<lparr>min_collector_index := a\<rparr>) = ring_ok f"
  "ring_ok (f\<lparr>buffer_size := a\<rparr>) = ring_ok f" "ring_ok (f\<lparr>queue_size := a\<rparr>) = ring_ok f"
  "ring_ok (f\<lparr>slots := s\<rparr>) = ring_ok f" "ring_ok (f\<lparr>n_collectors := a\<rparr>) = ring_ok f"
  "ring_ok (f\<lparr>resumed := r\<rparr>) = ring_ok f" "ring_ok (f\<lparr>published := p\<rparr>) = ring_ok f" "ring_ok (f\<lparr>taken := t\<rparr>) = ring_ok f"
  "capacity_of (f\<lparr>replay_index := a\<rparr>) = capacity_of f" "capacity_of (f\<lparr>min_collector_index := a\<rparr>) = capacity_of f"
  "capacity_of (f\<lparr>buffer_size := a\<rparr>) = capacity_of f" "capacity_of (f\<lparr>queue_size := a\<rparr>) = capacity_of f"
  "capacity_of (f\<lparr>slots := s\<rparr>) = capacity_of f" "capacity_of (f\<lparr>n_collectors := a\<rparr>) = capacity_of f"
  "capacity_of (f\<lparr>resumed := r\<rparr>) = capacity_of f" "capacity_of (f\<lparr>published := p\<rparr>) = capacity_of f"
  "capacity_of (f\<lparr>taken := t\<rparr>) = capacity_of f"
  by (simp_all add: ring_ok_def capacity_of_def)

lemma clear_range_frame:
  "ring_ok f \<Longrightarrow> \<exists>b. clear_range x y f = f\<lparr>buffer := b\<rparr> \<and> ring_ok (clear_range x y f) \<and>
     capacity_of (clear_range x y f) = capacity_of f \<and>
     (\<forall>j. y \<le> j \<and> j < x + capacity_of f \<longrightarrow> get_buffer_at (clear_range x y f) j = get_buffer_at f j)"
proof -
  assume ok: "ring_ok f"
  have "\<exists>b. fold (\<lambda>i. set_buffer_at i Null_Cell) is f = f\<lparr>buffer := b\<rparr> \<and> ring_ok (f\<lparr>buffer := b\<rparr>) \<and>
      capacity_of (f\<lparr>buffer := b\<rparr>) = capacity_of f \<and>
      (\<forall>j. y \<le> j \<and> j < x + capacity_of f \<longrightarrow> get_buffer_at (f\<lparr>buffer := b\<rparr>) j = get_buffer_at f j)"
    if "set is \<subseteq> {x..<y}" for "is"
    using that ok
  proof (induction "is" arbitrary: f)
    case Nil
    then show ?case by (intro exI [of _ "buffer f"]) simp
  next
    case (Cons i "is")
    let ?g = "set_buffer_at i Null_Cell f"
    obtain b where b: "fold (\<lambda>i. set_buffer_at i Null_Cell) is ?g = ?g\<lparr>buffer := b\<rparr>" "ring_ok (?g\<lparr>buffer := b\<rparr>)"
      "capacity_of (?g\<lparr>buffer := b\<rparr>) = capacity_of ?g"
      "\<forall>j. y \<le> j \<and> j < x + capacity_of ?g \<longrightarrow> get_buffer_at (?g\<lparr>buffer := b\<rparr>) j = get_buffer_at ?g j"
      using Cons.IH [of ?g] Cons.prems by auto
    have e: "?g\<lparr>buffer := b\<rparr> = f\<lparr>buffer := b\<rparr>" by (simp add: set_buffer_at_def split: option.split)
    have "get_buffer_at ?g j = get_buffer_at f j" if "y \<le> j" "j < x + capacity_of f" for j
      using Cons.prems that by (intro get_set_other) auto
    then show ?case using b unfolding e by (intro exI [of _ b]) auto
  qed
  moreover have "set [x..y - 1] \<subseteq> {x..<y}" by auto
  ultimately obtain b where "fold (\<lambda>i. set_buffer_at i Null_Cell) [x..y - 1] f = f\<lparr>buffer := b\<rparr>"
    "ring_ok (f\<lparr>buffer := b\<rparr>)" "capacity_of (f\<lparr>buffer := b\<rparr>) = capacity_of f"
    "\<forall>j. y \<le> j \<and> j < x + capacity_of f \<longrightarrow> get_buffer_at (f\<lparr>buffer := b\<rparr>) j = get_buffer_at f j"
    by blast
  then show ?thesis unfolding clear_range_def by (intro exI [of _ b]) simp
qed

text \<open>Growing copies the window.\<close>

lemma copy_ring_at:
  assumes "length old = 2 ^ k" "length new = 2 ^ m" "k \<le> m" "n \<le> int (length old)"
  shows "length (copy_ring h n old new) = 2 ^ m \<and>
    (\<forall>j. h \<le> j \<and> j < h + n \<longrightarrow> copy_ring h n old new ! ring_index j (2 ^ m) = old ! ring_index j (2 ^ k))"
proof -
  define step where "step = (\<lambda>i b. b[ring_index (h + i) (length b) := old ! ring_index (h + i) (2 ^ k)])"
  have "length (fold step is new) = 2 ^ m \<and>
      (\<forall>i. 0 \<le> i \<and> i < n \<and> i \<in> set is \<longrightarrow> fold step is new ! ring_index (h + i) (2 ^ m) = old ! ring_index (h + i) (2 ^ k))"
    if "set is \<subseteq> {0..<n}" for "is"
    using that
  proof (induction "is" rule: rev_induct)
    case (snoc i "is")
    let ?b = "fold step is new"
    have b: "length ?b = 2 ^ m"
      "\<forall>i. 0 \<le> i \<and> i < n \<and> i \<in> set is \<longrightarrow> ?b ! ring_index (h + i) (2 ^ m) = old ! ring_index (h + i) (2 ^ k)"
      using snoc by auto
    have "step i ?b ! ring_index (h + l) (2 ^ m) = old ! ring_index (h + l) (2 ^ k)"
      if l: "0 \<le> l" "l < n" "l \<in> set (is @ [i])" for l
    proof (cases "l = i")
      case True
      then show ?thesis using b(1) by (simp add: step_def ring_index_less)
    next
      case False
      have "(2::nat) ^ k \<le> 2 ^ m" using assms(3) by simp
      then have "int (2 ^ k) \<le> int (2 ^ m)" by linarith
      moreover have "0 \<le> i" "i < n" using snoc.prems by auto
      ultimately have "\<bar>(h + i) - (h + l)\<bar> < int (2 ^ m)" using l assms(1,4) by linarith
      then have "ring_index (h + i) (2 ^ m) \<noteq> ring_index (h + l) (2 ^ m)"
        using False by (intro ring_index_window) auto
      then show ?thesis using b l False by (simp add: step_def)
    qed
    moreover have "length (step i ?b) = 2 ^ m" using b(1) by (simp add: step_def)
    ultimately show ?case by simp
  qed (simp add: assms(2))
  moreover have "set [0..n - 1] \<subseteq> {0..<n}" by auto
  moreover have "copy_ring h n old new = fold step [0..n - 1] new"
    by (simp add: copy_ring_def step_def assms(1))
  ultimately have c: "length (copy_ring h n old new) = 2 ^ m"
    "\<forall>i. 0 \<le> i \<and> i < n \<and> i \<in> set [0..n - 1] \<longrightarrow>
       copy_ring h n old new ! ring_index (h + i) (2 ^ m) = old ! ring_index (h + i) (2 ^ k)" by auto
  have "copy_ring h n old new ! ring_index j (2 ^ m) = old ! ring_index j (2 ^ k)" if "h \<le> j" "j < h + n" for j
    using c(2) [rule_format, of "j - h"] that by simp
  then show ?thesis using c(1) by blast
qed

lemma to_int32: "0 \<le> x \<Longrightarrow> x < 2 ^ 31 \<Longrightarrow> sint (word_of_int x :: 32 word) = x"
  by (simp add: sint_sbintrunc' signed_take_bit_int_eq_self)

lemma grow_doubles:
  assumes "k < 30"
  shows "sint (word_of_int (int (2 ^ k) * 2) :: 32 word) = int (2 ^ Suc k)"
proof -
  have "(2::int) ^ Suc k \<le> 2 ^ 30" using assms by (intro power_increasing) auto
  then show ?thesis by (subst to_int32) auto
qed

text \<open>Adding a cell behind the window: only the array changes, and it fails only when \<open>2 ^ 30\<close> cells are
  in use.\<close>

lemma enqueue_run:
  assumes ok: "ring_ok f" and size: "0 \<le> total_size f" "total_size f \<le> capacity_of f"
  shows "(\<exists>b. enqueue_locked c f = (Inr (), f\<lparr>buffer := Some b\<rparr>) \<and> ring_ok (f\<lparr>buffer := Some b\<rparr>) \<and>
      total_size f + 1 \<le> capacity_of (f\<lparr>buffer := Some b\<rparr>) \<and>
      get_buffer_at (f\<lparr>buffer := Some b\<rparr>) (head f + total_size f) = c \<and>
      (\<forall>i. head f \<le> i \<and> i < head f + total_size f \<longrightarrow> get_buffer_at (f\<lparr>buffer := Some b\<rparr>) i = get_buffer_at f i)) \<or>
    (enqueue_locked c f = (Inl (Runtime_Error ''Buffer size overflow''), f) \<and> total_size f = 2 ^ 30)"
proof -
  have put: "\<exists>b'. set_buffer_at (head f + total_size f) c (f\<lparr>buffer := Some b\<rparr>) = f\<lparr>buffer := Some b'\<rparr> \<and>
      ring_ok (f\<lparr>buffer := Some b'\<rparr>) \<and> total_size f + 1 \<le> capacity_of (f\<lparr>buffer := Some b'\<rparr>) \<and>
      get_buffer_at (f\<lparr>buffer := Some b'\<rparr>) (head f + total_size f) = c \<and>
      (\<forall>i. head f \<le> i \<and> i < head f + total_size f \<longrightarrow> get_buffer_at (f\<lparr>buffer := Some b'\<rparr>) i = get_buffer_at f i)"
    if b: "ring_ok (f\<lparr>buffer := Some b\<rparr>)" "total_size f < int (length b)"
      "\<forall>i. head f \<le> i \<and> i < head f + total_size f \<longrightarrow> get_buffer_at (f\<lparr>buffer := Some b\<rparr>) i = get_buffer_at f i" for b
  proof -
    let ?g = "f\<lparr>buffer := Some b\<rparr>" and ?i = "head f + total_size f"
    have e: "set_buffer_at ?i c ?g = f\<lparr>buffer := Some (b[ring_index ?i (length b) := c])\<rparr>"
      by (simp add: set_buffer_at_def)
    have "get_buffer_at (set_buffer_at ?i c ?g) ?i = c" by (rule get_set_same) (use b(1) in auto)
    moreover have "get_buffer_at (set_buffer_at ?i c ?g) i = get_buffer_at f i" if "head f \<le> i" "i < ?i" for i
      using that b get_set_other [of ?g ?i i c] by (simp add: capacity_of_def)
    moreover have "ring_ok (set_buffer_at ?i c ?g)" "capacity_of (set_buffer_at ?i c ?g) = int (length b)"
      using b(1) by (simp_all add: capacity_of_def set_buffer_at_def ring_ok_def)
    ultimately show ?thesis using b(2) unfolding e by (intro exI [of _ "b[ring_index ?i (length b) := c]"]) simp
  qed
  have frame: "head (f\<lparr>buffer := x\<rparr>) = head f" "total_size (f\<lparr>buffer := x\<rparr>) = total_size f" for x
    by (simp_all add: head_def total_size_def)
  show ?thesis
  proof (cases "buffer f")
    case None
    let ?b = "replicate 2 Null_Cell :: 'a cell list"
    have z: "total_size f = 0" using size None by (simp add: capacity_of_def)
    have e: "enqueue_locked c f = (Inr (), set_buffer_at (head f + total_size f) c (f\<lparr>buffer := Some ?b\<rparr>))"
      using None by (simp add: enqueue_locked_def grow_buffer_def exec_simps frame eval_nat_numeral)
    have "ring_ok (f\<lparr>buffer := Some ?b\<rparr>)" by (simp add: ring_ok_def) (intro exI [of _ 1], simp)
    moreover have "i < head f + total_size f \<Longrightarrow> \<not> head f \<le> i" for i using z by simp
    ultimately show ?thesis using put [of ?b] z e by fastforce
  next
    case (Some b)
    then obtain k where k: "1 \<le> k" "k \<le> 30" "length b = 2 ^ k" using ok by (auto simp: ring_ok_def)
    have same: "f\<lparr>buffer := Some b\<rparr> = f" using Some by simp
    show ?thesis
    proof (cases "total_size f < int (length b)")
      case True
      then have e: "enqueue_locked c f = (Inr (), set_buffer_at (head f + total_size f) c f)"
        using Some by (simp add: enqueue_locked_def exec_simps)
      show ?thesis using put [of b] True ok e same by auto
    next
      case False
      then have t: "total_size f = int (length b)" using size Some by (simp add: capacity_of_def)
      show ?thesis
      proof (cases "k = 30")
        case True
        then have "enqueue_locked c f = (Inl (Runtime_Error ''Buffer size overflow''), f)"
          using Some k(3) t by (simp add: enqueue_locked_def grow_buffer_def exec_simps)
        then show ?thesis using t k(3) True by simp
      next
        case False
        let ?new = "replicate (2 ^ Suc k) Null_Cell :: 'a cell list"
        let ?b = "copy_ring (head f) (total_size f) b ?new"
        have n: "sint (word_of_int (int (length b) * 2) :: 32 word) = int (2 ^ Suc k)"
          using grow_doubles [of k] k False by simp
        have c: "length ?b = 2 ^ Suc k"
          "\<forall>j. head f \<le> j \<and> j < head f + total_size f \<longrightarrow> ?b ! ring_index j (2 ^ Suc k) = b ! ring_index j (2 ^ k)"
          using copy_ring_at [of b k ?new "Suc k" "total_size f" "head f"] k t by auto
        have e: "enqueue_locked c f = (Inr (), set_buffer_at (head f + total_size f) c (f\<lparr>buffer := Some ?b\<rparr>))"
          using Some t n by (simp add: enqueue_locked_def grow_buffer_def exec_simps frame nat_power_eq del: power_Suc)
        have "ring_ok (f\<lparr>buffer := Some ?b\<rparr>)" using c(1) k False by (auto simp: ring_ok_def intro!: exI [of _ "Suc k"])
        moreover have "total_size f < int (length ?b)" using t k(3) c(1) by simp
        moreover have "\<forall>i. head f \<le> i \<and> i < head f + total_size f \<longrightarrow> get_buffer_at (f\<lparr>buffer := Some ?b\<rparr>) i = get_buffer_at f i"
          using c Some k(3) by (simp add: get_buffer_at_def)
        ultimately show ?thesis using put [of ?b] e by auto
      qed
    qed
  qed
qed

subsection \<open>The invariant\<close>

definition config_ok :: "'v flow \<Rightarrow> bool" where
  "config_ok f \<longleftrightarrow> 0 \<le> replay f \<and> replay f \<le> buffer_capacity f \<and> (on_buffer_overflow f \<noteq> SUSPEND \<longrightarrow> 0 < buffer_capacity f)"

text \<open>The buffered indices hold what was published there; the queue holds emitters, each at its own
  index, and the marks of cancelled ones.\<close>

definition cells_ok :: "'v flow \<Rightarrow> bool" where
  "cells_ok f \<longleftrightarrow> int (length (published f)) = buffer_end f \<and>
     (0 < buffer_capacity f \<longrightarrow> None \<notin> set (published f)) \<and>
     (\<forall>i. head f \<le> i \<and> i < buffer_end f \<longrightarrow>
        get_buffer_at f i = (case published f ! nat i of Some v \<Rightarrow> Boxed v | None \<Rightarrow> No_Value)) \<and>
     (\<forall>i. buffer_end f \<le> i \<and> i < queue_end f \<longrightarrow>
        get_buffer_at f i = No_Value \<or> (\<exists>e. get_buffer_at f i = Queued e \<and> e_index e = i))"

definition active_slots :: "'v flow \<Rightarrow> flow_slot list" where
  "active_slots f = filter (\<lambda>s. slot_index s \<ge> 0) (slots f)"

definition slots_ok :: "'v flow \<Rightarrow> bool" where
  "slots_ok f \<longleftrightarrow> n_collectors f = int (length (active_slots f)) \<and>
     (\<forall>s\<in>set (slots f). slot_index s \<ge> 0 \<longrightarrow> min_collector_index f \<le> slot_index s \<and>
        slot_index s \<le> buffer_end f + (if buffer_capacity f = 0 then 1 else 0))"

definition taken_ok :: "'v flow \<Rightarrow> bool" where
  "taken_ok f \<longleftrightarrow> (0 < buffer_capacity f \<longrightarrow>
     (\<forall>(i, x, v)\<in>set (taken f). 0 \<le> x \<and> x < int (length (published f)) \<and> published f ! nat x = Some v))"

text \<open>\<open>a\<close> bounds the buffered values, \<open>r\<close> the replayed ones.\<close>

definition sizes_ok :: "int \<Rightarrow> int \<Rightarrow> 'v flow \<Rightarrow> bool" where
  "sizes_ok a r f \<longleftrightarrow> 0 \<le> min_collector_index f \<and> 0 \<le> replay_index f \<and> 0 \<le> buffer_size f \<and> 0 \<le> queue_size f \<and>
     min_collector_index f \<le> buffer_end f \<and> replay_index f \<le> buffer_end f \<and> buffer_size f \<le> a \<and>
     buffer_end f - replay_index f \<le> r \<and>
     (0 < buffer_capacity f \<and> 0 < queue_size f \<longrightarrow> buffer_capacity f \<le> buffer_size f \<and> min_collector_index f \<le> replay_index f) \<and>
     (on_buffer_overflow f \<noteq> SUSPEND \<longrightarrow> queue_size f = 0)"

definition inv_at :: "int \<Rightarrow> int \<Rightarrow> 'v flow \<Rightarrow> bool" where
  "inv_at a r f \<longleftrightarrow> config_ok f \<and> sizes_ok a r f \<and> ring_ok f \<and> total_size f \<le> capacity_of f \<and>
     cells_ok f \<and> slots_ok f \<and> taken_ok f"

text \<open>In a flow with a buffer: without collectors no emitter waits and only what is replayed is
  buffered; with collectors, one of them is at the minimal index.\<close>

definition idle_ok :: "'v flow \<Rightarrow> bool" where
  "idle_ok f \<longleftrightarrow> (0 < buffer_capacity f \<and> n_collectors f = 0 \<longrightarrow> min_collector_index f = buffer_end f \<and> queue_size f = 0)"

definition tight :: "'v flow \<Rightarrow> bool" where
  "tight f \<longleftrightarrow> (0 < buffer_capacity f \<and> n_collectors f \<noteq> 0 \<longrightarrow> (\<exists>s\<in>set (slots f). slot_index s = min_collector_index f))"

definition flow_inv :: "'v flow \<Rightarrow> bool" where
  "flow_inv f \<longleftrightarrow> inv_at (max (buffer_capacity f) 1) (replay f) f \<and> idle_ok f \<and> tight f"

text \<open>A collector that waits has nothing to read (in a flow with a buffer).\<close>

definition parked :: "'v flow \<Rightarrow> bool" where
  "parked f \<longleftrightarrow> (\<forall>s\<in>set (slots f). slot_cont s \<noteq> None \<longrightarrow> 0 \<le> slot_index s)"

definition awake :: "'v flow \<Rightarrow> bool" where
  "awake f \<longleftrightarrow> parked f \<and>
     (0 < buffer_capacity f \<longrightarrow> (\<forall>s\<in>set (slots f). slot_cont s \<noteq> None \<longrightarrow> buffer_end f \<le> slot_index s))"

definition frame :: "'v flow \<Rightarrow> 'v flow \<Rightarrow> bool" where
  "frame f g \<longleftrightarrow> replay g = replay f \<and> buffer_capacity g = buffer_capacity f \<and> on_buffer_overflow g = on_buffer_overflow f \<and>
     n_collectors g = n_collectors f \<and> resumed g = resumed f \<and> taken g = taken f"

lemma frame_refl [simp]: "frame f f" by (simp add: frame_def)
lemma frame_trans: "frame f g \<Longrightarrow> frame g h \<Longrightarrow> frame f h" by (simp add: frame_def)

lemmas flow_sizes = head_def buffer_end_def queue_end_def total_size_def replay_size_def

lemma update_buffer_run:
  assumes "ring_ok f" "head f \<le> min m r" "r \<le> e" "m \<le> e" "e \<le> q"
  shows "\<exists>g. update_buffer_locked r m e q f = (Inr (), g) \<and> replay_index g = r \<and> min_collector_index g = m \<and>
    buffer_size g = e - min m r \<and> queue_size g = q - e \<and> head g = min m r \<and> buffer_end g = e \<and> queue_end g = q \<and>
    total_size g = q - min m r \<and> frame f g \<and> slots g = slots f \<and> published g = published f \<and>
    ring_ok g \<and> capacity_of g = capacity_of f \<and>
    (\<forall>j. min m r \<le> j \<and> j < head f + capacity_of f \<longrightarrow> get_buffer_at g j = get_buffer_at f j)"
proof -
  obtain b where b: "clear_range (head f) (min m r) f = f\<lparr>buffer := b\<rparr>" "ring_ok (f\<lparr>buffer := b\<rparr>)"
    "capacity_of (f\<lparr>buffer := b\<rparr>) = capacity_of f"
    "\<forall>j. min m r \<le> j \<and> j < head f + capacity_of f \<longrightarrow> get_buffer_at (f\<lparr>buffer := b\<rparr>) j = get_buffer_at f j"
    using clear_range_frame [OF assms(1), of "head f" "min m r"] by metis
  define g where "g = f\<lparr>buffer := b, replay_index := r, min_collector_index := m,
      buffer_size := e - min m r, queue_size := q - e\<rparr>"
  have hd: "head g = min m r" by (simp add: g_def head_def)
  have "\<not> min m r < head f" using assms(2) by (simp only: not_less)
  then have "update_buffer_locked r m e q f = (Inr (), g)"
    using assms(3-5) b(1) hd by (simp add: update_buffer_locked_def exec_simps Let_def g_def)
  then show ?thesis using b hd
    by (intro exI [of _ g]) (simp add: g_def frame_def flow_sizes)
qed

lemma inv_atD:
  assumes "inv_at a r f"
  shows "0 \<le> head f" "head f \<le> min_collector_index f" "head f \<le> replay_index f" "buffer_end f = head f + buffer_size f"
    "queue_end f = buffer_end f + queue_size f" "0 \<le> buffer_size f" "0 \<le> queue_size f" "buffer_size f \<le> a"
    "replay_index f \<le> buffer_end f" "min_collector_index f \<le> buffer_end f" "buffer_end f - replay_index f \<le> r"
    "ring_ok f" "total_size f \<le> capacity_of f" "0 \<le> total_size f" "total_size f = buffer_size f + queue_size f"
  using assms by (simp_all add: inv_at_def sizes_ok_def flow_sizes)

lemma taken_append:
  assumes "taken_ok f" "taken g = taken f" "buffer_capacity g = buffer_capacity f" "published g = published f @ xs"
  shows "taken_ok g"
proof -
  have "published g ! nat x = published f ! nat x" if "0 \<le> x" "x < int (length (published f))" for x
    using that assms(4) by (simp add: nth_append nat_less_iff)
  then show ?thesis using assms by (fastforce simp: taken_ok_def)
qed

lemma cells_shrink:
  assumes "cells_ok f" "published g = published f" "buffer_capacity g = buffer_capacity f" "buffer_end g = buffer_end f"
    "queue_end g \<le> queue_end f" "head f \<le> head g"
    "\<And>i. head g \<le> i \<Longrightarrow> i < buffer_end f \<or> i < queue_end g \<Longrightarrow> get_buffer_at g i = get_buffer_at f i"
    "head g \<le> buffer_end f"
  shows "cells_ok g"
proof -
  have "get_buffer_at g i = (case published g ! nat i of Some v \<Rightarrow> Boxed v | None \<Rightarrow> No_Value)"
    if "head g \<le> i" "i < buffer_end g" for i
    using assms(1,2,4,6) assms(7) [of i] that by (simp add: cells_ok_def)
  moreover have "get_buffer_at g i = No_Value \<or> (\<exists>e. get_buffer_at g i = Queued e \<and> e_index e = i)"
    if "buffer_end g \<le> i" "i < queue_end g" for i
    using assms(1,4,5,8) assms(7) [of i] that by (simp add: cells_ok_def)
  ultimately show ?thesis using assms(1-4) by (simp add: cells_ok_def)
qed

lemma seq_e_assoc: "seq_e (seq_e m n) k = seq_e m (seq_e n k)"
  by (simp add: seq_e_def bind_e_def fun_eq_iff split: prod.split sum.split)

lemma seq_e_run: "m f = (Inr x, g) \<Longrightarrow> seq_e m n f = n g" "m f = (Inl e, g) \<Longrightarrow> seq_e m n f = (Inl e, g)"
  by (simp_all add: seq_e_def bind_e_def)

text \<open>Appending a published value.\<close>

lemma append_inv:
  assumes inv: "inv_at a r f" and q: "queue_size f = 0"
  shows "(\<exists>g. seq_e (enqueue_locked (Boxed v)) (modify_e (publish (Some v) \<circ> grow_size)) f = (Inr (), g) \<and>
      inv_at (a + 1) (r + 1) g \<and> frame f g \<and> queue_size g = 0 \<and> buffer_end g = buffer_end f + 1 \<and> head g = head f \<and>
      min_collector_index g = min_collector_index f \<and> replay_index g = replay_index f \<and> slots g = slots f \<and>
      published g = published f @ [Some v]) \<or>
    (enqueue_locked (Boxed v) f = (Inl (Runtime_Error ''Buffer size overflow''), f) \<and> total_size f = 2 ^ 30)"
proof -
  note d = inv_atD [OF inv]
  consider b where "enqueue_locked (Boxed v) f = (Inr (), f\<lparr>buffer := Some b\<rparr>)" "ring_ok (f\<lparr>buffer := Some b\<rparr>)"
      "total_size f + 1 \<le> capacity_of (f\<lparr>buffer := Some b\<rparr>)"
      "get_buffer_at (f\<lparr>buffer := Some b\<rparr>) (head f + total_size f) = Boxed v"
      "\<forall>i. head f \<le> i \<and> i < head f + total_size f \<longrightarrow> get_buffer_at (f\<lparr>buffer := Some b\<rparr>) i = get_buffer_at f i"
    | "enqueue_locked (Boxed v) f = (Inl (Runtime_Error ''Buffer size overflow''), f)" "total_size f = 2 ^ 30"
    using enqueue_run [OF d(12,14,13), of "Boxed v"] by blast
  then show ?thesis
  proof cases
    case (1 b)
    let ?g = "f\<lparr>buffer := Some b, buffer_size := buffer_size f + 1, published := published f @ [Some v]\<rparr>"
    have run: "seq_e (enqueue_locked (Boxed v)) (modify_e (publish (Some v) \<circ> grow_size)) f = (Inr (), ?g)"
      using 1(1) by (simp add: seq_e_def bind_e_def modify_e_def publish_def grow_size_def)
    have s: "head ?g = head f" "buffer_end ?g = buffer_end f + 1" "queue_end ?g = buffer_end f + 1"
      "total_size ?g = total_size f + 1" "total_size f = buffer_size f"
      using q by (simp_all add: flow_sizes)
    have len: "int (length (published f)) = buffer_end f" using inv by (simp add: inv_at_def cells_ok_def)
    have "cells_ok ?g"
    proof -
      have "get_buffer_at ?g i = (case published ?g ! nat i of Some w \<Rightarrow> Boxed w | None \<Rightarrow> No_Value)"
        if "head f \<le> i" "i < buffer_end f + 1" for i
      proof (cases "i = buffer_end f")
        case True
        then have "nat i = length (published f)" using len by linarith
        then have "published ?g ! nat i = Some v" by (simp add: nth_append)
        moreover have "get_buffer_at ?g i = Boxed v" using 1(4) True d(4) s(5) by simp
        ultimately show ?thesis by simp
      next
        case False
        then have i: "i < buffer_end f" using that by simp
        then have "nat i < length (published f)" using len that d(1) by linarith
        then have "published ?g ! nat i = published f ! nat i" by (simp add: nth_append)
        moreover have "get_buffer_at ?g i = get_buffer_at f i" using 1(5) that i d(4) s(5) by simp
        ultimately show ?thesis using inv that(1) i by (simp add: inv_at_def cells_ok_def)
      qed
      then show ?thesis using inv len by (auto simp: cells_ok_def s inv_at_def)
    qed
    moreover have "sizes_ok (a + 1) (r + 1) ?g"
      using inv q d by (simp add: inv_at_def sizes_ok_def s)
    moreover have "slots_ok ?g" using inv by (auto simp: inv_at_def slots_ok_def s active_slots_def)
    moreover have "taken_ok ?g" using inv by (auto simp: inv_at_def intro: taken_append)
    moreover have "config_ok ?g" using inv by (simp add: inv_at_def config_ok_def)
    ultimately have "inv_at (a + 1) (r + 1) ?g" using 1(2,3) s(4) by (simp add: inv_at_def)
    then show ?thesis using run s q by (intro disjI1 exI [of _ ?g]) (simp add: frame_def)
  qed blast
qed

text \<open>Dropping the oldest value.\<close>

lemma drop_oldest_inv:
  assumes inv: "inv_at a r f" and q: "queue_size f = 0" and b: "0 < buffer_size f"
  shows "\<exists>g. drop_oldest_locked f = (Inr (), g) \<and> inv_at (a - 1) r g \<and> frame f g \<and> queue_size g = 0 \<and>
    buffer_end g = buffer_end f \<and> head g = head f + 1 \<and> published g = published f \<and>
    min_collector_index g = max (min_collector_index f) (head f + 1) \<and> replay_index g = max (replay_index f) (head f + 1) \<and>
    (tight f \<longrightarrow> tight g) \<and>
    (\<forall>s\<in>set (slots g). \<exists>t\<in>set (slots f). slot_cont s = slot_cont t \<and> slot_index t \<le> slot_index s \<and> (0 \<le> slot_index s \<longrightarrow> 0 \<le> slot_index t))"
proof -
  note d = inv_atD [OF inv]
  let ?h = "head f + 1"
  let ?move = "\<lambda>s. if slot_index s \<ge> 0 \<and> slot_index s < ?h then s\<lparr>slot_index := ?h\<rparr> else s"
  let ?f1 = "(set_buffer_at (head f) Null_Cell f)\<lparr>buffer_size := buffer_size f - 1\<rparr>"
  let ?f2 = "if replay_index f < ?h then ?f1\<lparr>replay_index := ?h\<rparr> else ?f1"
  define g where "g = (if min_collector_index f < ?h then correct_collector_indexes_on_drop_oldest ?h ?f2 else ?f2)"
  have dh: "drop_head f = g" by (simp add: drop_head_def Let_def g_def)
  have g: "replay_index g = max (replay_index f) ?h" "min_collector_index g = max (min_collector_index f) ?h"
    "buffer_size g = buffer_size f - 1" "queue_size g = 0" "frame f g" "published g = published f"
    "capacity_of g = capacity_of f" "ring_ok g = ring_ok f" "get_buffer_at g = get_buffer_at (set_buffer_at (head f) Null_Cell f)"
    "slots g = (if min_collector_index f < ?h \<and> n_collectors f \<noteq> 0 then map ?move (slots f) else slots f)"
    using q by (auto simp: g_def frame_def correct_collector_indexes_on_drop_oldest_def map_slots_def)
  have hd: "head f = min_collector_index f \<or> head f = replay_index f" by (auto simp: head_def min_def)
  have h: "head g = ?h" using g(1,2) d(2,3) hd by (auto simp: head_def)
  then have run: "drop_oldest_locked f = (Inr (), g)"
    by (simp add: drop_oldest_locked_def exec_simps dh)
  have e: "buffer_end g = buffer_end f" "queue_end g = queue_end f" "total_size g = total_size f - 1"
    using h g(3,4) q by (simp_all add: buffer_end_def queue_end_def total_size_def)
  have bnd: "buffer_end f - head f \<le> capacity_of f" using d(13,15,4) q by simp
  have cells: "get_buffer_at g i = get_buffer_at f i" if "?h \<le> i" "i < buffer_end f" for i
    using get_set_other [OF d(12), of "head f" i Null_Cell] that bnd g(9) by simp
  have len: "int (length (published f)) = buffer_end f" using inv by (simp add: inv_at_def cells_ok_def)
  have "cells_ok g"
    by (rule cells_shrink [of f]) (use inv cells e h g(5,6) d(4,5) q b in \<open>simp_all add: inv_at_def frame_def\<close>)
  moreover have "sizes_ok (a - 1) r g"
    using inv d g b e h by (simp add: inv_at_def sizes_ok_def) linarith
  moreover have sl: "slots_ok g"
  proof -
    have "length (active_slots g) = length (active_slots f)"
    proof -
      have "length (filter (\<lambda>s. slot_index s \<ge> 0) (map ?move xs)) = length (filter (\<lambda>s. slot_index s \<ge> 0) xs)" for xs :: "flow_slot list"
        using d(1) by (induction xs) auto
      then show ?thesis by (simp add: active_slots_def g(10))
    qed
    moreover have "n_collectors f = int (length (active_slots f))" using inv by (simp add: inv_at_def slots_ok_def)
    moreover have "\<forall>s\<in>set (slots g). slot_index s \<ge> 0 \<longrightarrow> min_collector_index g \<le> slot_index s \<and>
        slot_index s \<le> buffer_end f + (if buffer_capacity f = 0 then 1 else 0)"
    proof (intro ballI impI)
      fix s assume s: "s \<in> set (slots g)" "slot_index s \<ge> 0"
      show "min_collector_index g \<le> slot_index s \<and> slot_index s \<le> buffer_end f + (if buffer_capacity f = 0 then 1 else 0)"
      proof (cases "min_collector_index f < ?h \<and> n_collectors f \<noteq> 0")
        case True
        then obtain t where t: "t \<in> set (slots f)" "s = ?move t" using s(1) g(10) by auto
        then have "0 \<le> slot_index t" using s(2) by (auto split: if_splits)
        then have "min_collector_index f \<le> slot_index t" "slot_index t \<le> buffer_end f + (if buffer_capacity f = 0 then 1 else 0)"
          using t(1) inv by (auto simp: inv_at_def slots_ok_def)
        then show ?thesis using t(2) True d(4) b g(2) s(2) by (auto split: if_splits)
      next
        case False
        have "n_collectors f \<noteq> 0"
          using s False g(10) inv by (auto simp: inv_at_def slots_ok_def active_slots_def filter_empty_conv)
        then have "\<not> min_collector_index f < ?h" using False by simp
        then show ?thesis using s False g(2,10) inv by (auto simp: inv_at_def slots_ok_def)
      qed
    qed
    ultimately show ?thesis using g(5) e(1) by (simp add: slots_ok_def frame_def)
  qed
  moreover have "taken_ok g" using inv g(5,6) by (simp add: inv_at_def taken_ok_def frame_def)
  moreover have "config_ok g" using inv g(5) by (simp add: inv_at_def config_ok_def frame_def)
  ultimately have "inv_at (a - 1) r g" using inv g(7,8) e(3) by (simp add: inv_at_def)
  moreover have "\<forall>s\<in>set (slots g). \<exists>t\<in>set (slots f). slot_cont s = slot_cont t \<and> slot_index t \<le> slot_index s \<and> (0 \<le> slot_index s \<longrightarrow> 0 \<le> slot_index t)"
  proof
    fix s assume "s \<in> set (slots g)"
    then obtain t where t: "t \<in> set (slots f)" "s = t \<or> s = ?move t" by (auto simp: g(10) split: if_splits)
    have "slot_cont (?move t) = slot_cont t \<and> slot_index t \<le> slot_index (?move t) \<and>
        (0 \<le> slot_index (?move t) \<longrightarrow> 0 \<le> slot_index t)" by simp
    then show "\<exists>t\<in>set (slots f). slot_cont s = slot_cont t \<and> slot_index t \<le> slot_index s \<and> (0 \<le> slot_index s \<longrightarrow> 0 \<le> slot_index t)"
      using t by (intro bexI [of _ t]) auto
  qed
  moreover have "tight f \<longrightarrow> tight g"
  proof
    assume "tight f"
    show "tight g"
      unfolding tight_def
    proof
      assume a: "0 < buffer_capacity g \<and> n_collectors g \<noteq> 0"
      then have n: "n_collectors f \<noteq> 0" using g(5) by (simp add: frame_def)
      obtain t where t: "t \<in> set (slots f)" "slot_index t = min_collector_index f"
        using \<open>tight f\<close> a g(5) by (auto simp: tight_def frame_def)
      show "\<exists>s\<in>set (slots g). slot_index s = min_collector_index g"
      proof (cases "min_collector_index f < ?h")
        case True
        have "0 \<le> slot_index t" using t(2) d(1,2) by simp
        have "slots g = map ?move (slots f)" using True n g(10) by simp
        then have "?move t \<in> set (slots g)" using t(1) by simp
        moreover have "slot_index (?move t) = min_collector_index g"
          using True \<open>0 \<le> slot_index t\<close> t(2) g(2) by simp
        ultimately show ?thesis by blast
      next
        case False
        then show ?thesis using t g(2,10) by auto
      qed
    qed
  qed
  ultimately show ?thesis using run g e h by blast
qed

text \<open>Giving up the oldest replayed value.\<close>

lemma shrink_replay_inv:
  assumes inv: "inv_at a r f" and q: "queue_size f = 0" and b: "replay_index f < buffer_end f"
  shows "\<exists>g. update_buffer_locked (replay_index f + 1) (min_collector_index f) (buffer_end f) (queue_end f) f = (Inr (), g) \<and>
    inv_at a (r - 1) g \<and> frame f g \<and> queue_size g = 0 \<and> buffer_end g = buffer_end f \<and> slots g = slots f \<and>
    published g = published f \<and> min_collector_index g = min_collector_index f"
proof -
  note d = inv_atD [OF inv]
  let ?h = "min (min_collector_index f) (replay_index f + 1)"
  have h: "head f \<le> ?h" using d(2,3) by simp
  obtain g where g: "update_buffer_locked (replay_index f + 1) (min_collector_index f) (buffer_end f) (queue_end f) f = (Inr (), g)"
    "replay_index g = replay_index f + 1" "min_collector_index g = min_collector_index f"
    "buffer_size g = buffer_end f - ?h" "queue_size g = queue_end f - buffer_end f" "head g = ?h" "buffer_end g = buffer_end f"
    "queue_end g = queue_end f" "total_size g = queue_end f - ?h" "frame f g" "slots g = slots f" "published g = published f"
    "ring_ok g" "capacity_of g = capacity_of f"
    "\<forall>j. ?h \<le> j \<and> j < head f + capacity_of f \<longrightarrow> get_buffer_at g j = get_buffer_at f j"
    using update_buffer_run [OF d(12) h, of "buffer_end f" "queue_end f"] d b by auto
  have "cells_ok g"
    by (rule cells_shrink [of f]) (use inv g(6-15) d(4,5,9,10,13,15) q h b in \<open>simp_all add: inv_at_def frame_def\<close>)
  moreover have "sizes_ok a (r - 1) g"
    using inv d b h q g(2-10) by (simp add: inv_at_def sizes_ok_def) linarith
  moreover have "slots_ok g" using inv g(3,7,10,11) by (simp add: inv_at_def slots_ok_def active_slots_def frame_def)
  moreover have "taken_ok g" "config_ok g" using inv g(10,12) by (simp_all add: inv_at_def taken_ok_def config_ok_def frame_def)
  moreover have "total_size g \<le> capacity_of g" using g(9,14) d(5,4,13,15) h by linarith
  ultimately have "inv_at a (r - 1) g" using g(13) by (simp add: inv_at_def)
  then show ?thesis using g q d(5) by (intro exI [of _ g]) simp
qed

lemma inv_at_mono:
  assumes "inv_at a r f" "buffer_size f \<le> a'" "buffer_end f - replay_index f \<le> r'"
  shows "inv_at a' r' f"
  using assms by (simp add: inv_at_def sizes_ok_def)

text \<open>\<open>moved f g\<close>: the slots of \<open>g\<close> are those of \<open>f\<close>, some with a higher index.\<close>

definition moved :: "'v flow \<Rightarrow> 'v flow \<Rightarrow> bool" where
  "moved f g \<longleftrightarrow> (\<forall>s\<in>set (slots g). \<exists>t\<in>set (slots f). slot_cont s = slot_cont t \<and> slot_index t \<le> slot_index s \<and>
     (0 \<le> slot_index s \<longrightarrow> 0 \<le> slot_index t))"

lemma moved_same: "slots g = slots f \<Longrightarrow> moved f g"
  by (auto simp: moved_def)

lemma moved_parked: "moved f g \<Longrightarrow> parked f \<Longrightarrow> parked g"
  by (fastforce simp: moved_def parked_def)

lemma no_collectors_slots: "inv_at a r f \<Longrightarrow> n_collectors f = 0 \<Longrightarrow> s \<in> set (slots f) \<Longrightarrow> slot_index s < 0"
  by (auto simp: inv_at_def slots_ok_def active_slots_def filter_empty_conv)

definition emits :: "'v \<Rightarrow> 'v flow \<Rightarrow> 'v flow \<Rightarrow> bool" where
  "emits v f g \<longleftrightarrow> flow_inv g \<and> frame f g \<and> moved f g \<and> (published g = published f \<or> published g = published f @ [Some v])"

abbreviation overflows :: "'v flow \<Rightarrow> (cpp_error + 'a) \<times> 'v flow \<Rightarrow> bool" where
  "overflows f r \<equiv> r = (Inl (Runtime_Error ''Buffer size overflow''), f) \<and> total_size f = 2 ^ 30"

lemma emit_no_collectors:
  assumes inv: "flow_inv f" and n: "n_collectors f = 0" and r: "replay f \<noteq> 0"
  shows "(\<exists>g. try_emit_no_collectors_locked v f = (Inr True, g) \<and> emits v f g) \<or>
    overflows f (try_emit_no_collectors_locked v f)"
proof -
  have i: "inv_at (max (buffer_capacity f) 1) (replay f) f" "idle_ok f" "tight f" using inv by (simp_all add: flow_inv_def)
  note d = inv_atD [OF i(1)]
  have cfg: "0 < replay f" "replay f \<le> buffer_capacity f" using i(1) r by (simp_all add: inv_at_def config_ok_def)
  have idle: "min_collector_index f = buffer_end f" "queue_size f = 0" using i(2) n cfg by (simp_all add: idle_ok_def)
  have hd: "head f = replay_index f" using d(9) idle(1) by (simp add: head_def)
  consider g where "seq_e (enqueue_locked (Boxed v)) (modify_e (publish (Some v) \<circ> grow_size)) f = (Inr (), g)"
      "inv_at (max (buffer_capacity f) 1 + 1) (replay f + 1) g" "frame f g" "queue_size g = 0" "buffer_end g = buffer_end f + 1"
      "head g = head f" "min_collector_index g = min_collector_index f" "replay_index g = replay_index f" "slots g = slots f"
      "published g = published f @ [Some v]"
    | "overflows f (enqueue_locked (Boxed v) f)"
    using append_inv [OF i(1) idle(2), of v] by blast
  then show ?thesis
  proof cases
    case (1 g)
    note dg = inv_atD [OF 1(2)]
    have fr: "replay g = replay f" "n_collectors g = 0" "buffer_capacity g = buffer_capacity f"
      using 1(3) n by (simp_all add: frame_def)
    obtain h where h: "(read_e (\<lambda>f. if buffer_size f > replay f then drop_oldest_locked else return_e ())) g = (Inr (), h)"
      "inv_at (buffer_capacity f + 1) (replay f + 1) h" "frame g h" "queue_size h = 0" "buffer_end h = buffer_end f + 1" "moved g h"
      "published h = published g" "buffer_size h \<le> replay f" "head h = replay_index h"
    proof (cases "buffer_size g > replay g")
      case True
      obtain k where k: "drop_oldest_locked g = (Inr (), k)" "inv_at (max (buffer_capacity f) 1 + 1 - 1) (replay f + 1) k" "frame g k"
        "queue_size k = 0" "buffer_end k = buffer_end g" "head k = head g + 1" "published k = published g"
        "replay_index k = max (replay_index g) (head g + 1)"
        "\<forall>s\<in>set (slots k). \<exists>t\<in>set (slots g). slot_cont s = slot_cont t \<and> slot_index t \<le> slot_index s \<and> (0 \<le> slot_index s \<longrightarrow> 0 \<le> slot_index t)"
        using drop_oldest_inv [OF 1(2) 1(4)] True cfg fr(1) by auto
      have "buffer_size g \<le> replay f + 1" using 1(5,6) d(4,11) dg(4) hd by simp
      moreover have "head k = replay_index k" using k(6,8) 1(6,8) hd by simp
      ultimately show ?thesis
        using that [of k] k True 1(5,6) dg(4) inv_atD(4) [OF k(2)] cfg
        by (simp add: read_e_def moved_def inv_at_mono [OF k(2)] inv_atD(8) [OF k(2)])
    next
      case False
      show ?thesis
        using that [of g] False 1 fr hd cfg by (simp add: read_e_def return_e_def moved_same)
    qed
    define k where "k = h\<lparr>min_collector_index := head h + buffer_size h\<rparr>"
    note dh = inv_atD [OF h(2)]
    have frk: "frame f k" using 1(3) h(3) by (simp add: frame_def k_def)
    have e: "head k = head h" "buffer_end k = buffer_end h" "queue_end k = queue_end h" "total_size k = total_size h"
      using h(9) dh(4,9) by (simp_all add: k_def flow_sizes)
    have nh: "n_collectors k = 0" "buffer_capacity k = buffer_capacity f" "replay k = replay f"
      using frk n by (simp_all add: frame_def)
    have "cells_ok k"
      by (rule cells_shrink [of h]) (use h(2) e dh(4,6) in \<open>simp_all add: inv_at_def k_def\<close>)
    moreover have "sizes_ok (max (buffer_capacity k) 1) (replay k) k"
      using h(2,4,8,9) cfg dh nh e by (simp add: inv_at_def sizes_ok_def k_def)
    moreover have "slots_ok k"
      using no_collectors_slots [OF h(2)] nh(1) h(2)
      by (fastforce simp: slots_ok_def k_def active_slots_def inv_at_def)
    moreover have "taken_ok k" "config_ok k" using h(2) by (simp_all add: inv_at_def taken_ok_def config_ok_def k_def)
    moreover have "ring_ok k" "total_size k \<le> capacity_of k" using h(2) e by (simp_all add: inv_at_def k_def)
    moreover have "idle_ok k" "tight k" using nh e h(4) dh(4,5) by (auto simp: idle_ok_def tight_def k_def)
    ultimately have "flow_inv k" by (simp add: flow_inv_def inv_at_def)
    moreover have "moved f k" using h(6) 1(9) by (simp add: moved_def k_def)
    moreover have "published k = published f @ [Some v]" using h(7) 1(10) by (simp add: k_def)
    moreover have "try_emit_no_collectors_locked v f = (Inr True, k)"
    proof -
      have "try_emit_no_collectors_locked v f = seq_e (seq_e (enqueue_locked (Boxed v)) (modify_e (publish (Some v) \<circ> grow_size)))
          (seq_e (read_e (\<lambda>f. if buffer_size f > replay f then drop_oldest_locked else return_e ()))
            (seq_e (modify_e (\<lambda>f. f\<lparr>min_collector_index := head f + buffer_size f\<rparr>)) (return_e True))) f"
        using n r by (simp add: try_emit_no_collectors_locked_def read_e_def seq_e_assoc)
      then show ?thesis
        by (simp only: seq_e_run(1) [of "seq_e (enqueue_locked (Boxed v)) (modify_e (publish (Some v) \<circ> grow_size))", OF 1(1)]
          seq_e_run(1) [of "read_e (\<lambda>f. if buffer_size f > replay f then drop_oldest_locked else return_e ())", OF h(1)])
          (simp add: seq_e_def bind_e_def modify_e_def return_e_def k_def)
    qed
    ultimately show ?thesis using frk by (auto simp: emits_def)
  next
    case 2
    then have "overflows f (try_emit_no_collectors_locked v f)"
      using n r by (simp add: try_emit_no_collectors_locked_def read_e_def seq_e_def bind_e_def)
    then show ?thesis by blast
  qed
qed

lemma emit_with_collectors:
  assumes inv: "flow_inv f" and n: "n_collectors f \<noteq> 0"
    and room: "buffer_size f < buffer_capacity f \<or> replay_index f < min_collector_index f \<or> on_buffer_overflow f = DROP_OLDEST"
  shows "(\<exists>g. try_emit_locked v f = (Inr True, g) \<and> emits v f g \<and> published g = published f @ [Some v]) \<or>
    overflows f (try_emit_locked v f)"
proof -
  have i: "inv_at (max (buffer_capacity f) 1) (replay f) f" "tight f" using inv by (simp_all add: flow_inv_def)
  note d = inv_atD [OF i(1)]
  have cap: "0 < buffer_capacity f"
    using room i(1) d by (auto simp: inv_at_def config_ok_def)
  have q: "queue_size f = 0" using room i(1) cap by (auto simp: inv_at_def sizes_ok_def)
  have run: "try_emit_locked v f = seq_e (seq_e (enqueue_locked (Boxed v)) (modify_e (publish (Some v) \<circ> grow_size)))
      (seq_e (read_e (\<lambda>f. if buffer_size f > buffer_capacity f then drop_oldest_locked else return_e ()))
        (seq_e (read_e (\<lambda>f. if replay_size f > replay f
             then update_buffer_locked (replay_index f + 1) (min_collector_index f) (buffer_end f) (queue_end f)
             else return_e ())) (return_e True))) f"
    using n room by (auto simp: try_emit_locked_def read_e_def seq_e_assoc)
  consider g where "seq_e (enqueue_locked (Boxed v)) (modify_e (publish (Some v) \<circ> grow_size)) f = (Inr (), g)"
      "inv_at (buffer_capacity f + 1) (replay f + 1) g" "frame f g" "queue_size g = 0" "slots g = slots f"
      "published g = published f @ [Some v]" "min_collector_index g = min_collector_index f"
    | "overflows f (enqueue_locked (Boxed v) f)"
    using append_inv [OF i(1) q, of v] cap by auto
  then show ?thesis
  proof cases
    case (1 g)
    have fg: "replay g = replay f" "n_collectors g = n_collectors f" "buffer_capacity g = buffer_capacity f" "tight g"
      using 1(3,5,7) i(2) by (simp_all add: frame_def tight_def)
    obtain h where h: "(read_e (\<lambda>f. if buffer_size f > buffer_capacity f then drop_oldest_locked else return_e ())) g = (Inr (), h)"
      "inv_at (buffer_capacity f) (replay f + 1) h" "frame g h" "queue_size h = 0" "moved g h" "published h = published g"
      "tight h"
    proof (cases "buffer_size g > buffer_capacity g")
      case True
      then show ?thesis
        using drop_oldest_inv [OF 1(2,4)] cap fg that by (auto simp: read_e_def moved_def)
    next
      case False
      then show ?thesis
        using that [of g] 1 fg inv_at_mono [OF 1(2)] inv_atD(11) [OF 1(2)] by (simp add: read_e_def return_e_def moved_same)
    qed
    have fh: "replay h = replay f" "frame f h" using frame_trans [OF 1(3) h(3)] by (simp_all add: frame_def)
    obtain k where k: "(read_e (\<lambda>f. if replay_size f > replay f
         then update_buffer_locked (replay_index f + 1) (min_collector_index f) (buffer_end f) (queue_end f)
         else return_e ())) h = (Inr (), k)"
      "inv_at (buffer_capacity f) (replay f) k" "frame h k" "slots k = slots h" "published k = published h"
      "min_collector_index k = min_collector_index h"
    proof (cases "replay_size h > replay h")
      case True
      have "0 \<le> replay f" using i(1) by (simp add: inv_at_def config_ok_def)
      then have "replay_index h < buffer_end h" using True fh(1) by (simp add: replay_size_def buffer_end_def)
      then show ?thesis
        using shrink_replay_inv [OF h(2,4)] True that by (auto simp: read_e_def)
    next
      case False
      then have "buffer_end h - replay_index h \<le> replay f" using fh(1) by (simp add: replay_size_def buffer_end_def)
      then show ?thesis
        using that [of h] False h inv_at_mono [OF h(2) inv_atD(8) [OF h(2)]] by (simp add: read_e_def return_e_def)
    qed
    have fk: "frame f k" using frame_trans [OF fh(2) k(3)] .
    moreover have "tight k" using h(7) k(3,4,6) by (simp add: tight_def frame_def)
    ultimately have "flow_inv k" using k(2) cap n by (simp add: flow_inv_def idle_ok_def frame_def)
    moreover have "moved f k" using h(5) 1(5) k(4) by (simp add: moved_def)
    moreover have "published k = published f @ [Some v]" using k(5) h(6) 1(6) by simp
    moreover have "try_emit_locked v f = (Inr True, k)"
      unfolding run by (simp add: seq_e_run(1) [of "seq_e (enqueue_locked (Boxed v)) (modify_e (publish (Some v) \<circ> grow_size))", OF 1(1)]
        seq_e_run(1) [of "read_e (\<lambda>f. if buffer_size f > buffer_capacity f then drop_oldest_locked else return_e ())", OF h(1)]
        seq_e_run(1) [of "read_e (\<lambda>f. if replay_size f > replay f
             then update_buffer_locked (replay_index f + 1) (min_collector_index f) (buffer_end f) (queue_end f)
             else return_e ())", OF k(1)] return_e_def)
    ultimately show ?thesis using fk by (auto simp: emits_def)
  next
    case 2
    then have "overflows f (try_emit_locked v f)"
      unfolding run by (simp add: seq_e_assoc seq_e_run(2))
    then show ?thesis by blast
  qed
qed

text \<open>What \<open>try_emit_locked\<close> does on every branch; \<open>False\<close> only when a full buffer is configured to suspend.\<close>

lemma try_emit_locked_cases:
  assumes inv: "flow_inv f"
  obtains (emitted) g where "try_emit_locked v f = (Inr True, g)" "emits v f g"
    | (suspend) "try_emit_locked v f = (Inr False, f)" "n_collectors f \<noteq> 0" "buffer_capacity f \<le> buffer_size f"
        "min_collector_index f \<le> replay_index f" "on_buffer_overflow f = SUSPEND"
    | (overflow) "overflows f (try_emit_locked v f)"
proof -
  have same: "emits v f f" using inv by (simp add: emits_def moved_same)
  show ?thesis
  proof (cases "n_collectors f = 0")
    case True
    then have run: "try_emit_locked v f = try_emit_no_collectors_locked v f" by (simp add: try_emit_locked_def read_e_def)
    show ?thesis
    proof (cases "replay f = 0")
      case True
      then have "try_emit_locked v f = (Inr True, f)"
        unfolding run using \<open>n_collectors f = 0\<close> by (simp add: try_emit_no_collectors_locked_def read_e_def return_e_def)
      then show ?thesis using emitted same by blast
    next
      case False
      then show ?thesis using emit_no_collectors [OF inv True False, of v] emitted overflow unfolding run by blast
    qed
  next
    case False
    show ?thesis
    proof (cases "buffer_capacity f \<le> buffer_size f \<and> min_collector_index f \<le> replay_index f \<and> on_buffer_overflow f \<noteq> DROP_OLDEST")
      case True
      then show ?thesis
        using False emitted [of f] suspend same
        by (cases "on_buffer_overflow f") (auto simp: try_emit_locked_def read_e_def return_e_def)
    next
      case room: False
      then show ?thesis using emit_with_collectors [OF inv False, of v] emitted overflow by (auto simp: not_le)
    qed
  qed
qed

subsection \<open>Waking collectors\<close>

lemma slots_update:
  assumes "map slot_index ss = map slot_index (slots f)"
  shows "inv_at a r (f\<lparr>slots := ss\<rparr>) = inv_at a r f" "idle_ok (f\<lparr>slots := ss\<rparr>) = idle_ok f" "tight (f\<lparr>slots := ss\<rparr>) = tight f"
    "flow_inv (f\<lparr>slots := ss\<rparr>) = flow_inv f"
proof -
  have "length (filter (\<lambda>s. slot_index s \<ge> 0) xs) = length (filter (\<lambda>i. i \<ge> 0) (map slot_index xs))" for xs
    by (simp add: filter_map comp_def)
  then have len: "length (filter (\<lambda>s. slot_index s \<ge> 0) ss) = length (filter (\<lambda>s. slot_index s \<ge> 0) (slots f))"
    using assms by metis
  have img: "slot_index ` set ss = slot_index ` set (slots f)" using assms by (metis list.set_map)
  have all: "(\<forall>s\<in>set ss. P (slot_index s)) \<longleftrightarrow> (\<forall>s\<in>set (slots f). P (slot_index s))" for P
  proof -
    have "(\<forall>i\<in>slot_index ` set ss. P i) \<longleftrightarrow> (\<forall>i\<in>slot_index ` set (slots f). P i)" using img by simp
    then show ?thesis by simp
  qed
  have ex: "(\<exists>s\<in>set ss. slot_index s = m) \<longleftrightarrow> (\<exists>s\<in>set (slots f). slot_index s = m)" for m
  proof -
    have "(\<exists>i\<in>slot_index ` set ss. i = m) \<longleftrightarrow> (\<exists>i\<in>slot_index ` set (slots f). i = m)" using img by simp
    then show ?thesis by auto
  qed
  show i: "inv_at a r (f\<lparr>slots := ss\<rparr>) = inv_at a r f" for a r
    using len all [of "\<lambda>i. 0 \<le> i \<longrightarrow> min_collector_index f \<le> i \<and> i \<le> buffer_end f + (if buffer_capacity f = 0 then 1 else 0)"]
    by (simp add: inv_at_def config_ok_def sizes_ok_def cells_ok_def slots_ok_def taken_ok_def active_slots_def flow_sizes)
  show j: "idle_ok (f\<lparr>slots := ss\<rparr>) = idle_ok f" by (simp add: idle_ok_def flow_sizes)
  show k: "tight (f\<lparr>slots := ss\<rparr>) = tight f" using ex by (simp add: tight_def)
  show "flow_inv (f\<lparr>slots := ss\<rparr>) = flow_inv f" using i j k by (simp add: flow_inv_def)
qed

lemma resumed_update [simp]:
  "flow_inv (f\<lparr>resumed := x\<rparr>) = flow_inv f" "awake (f\<lparr>resumed := x\<rparr>) = awake f" "parked (f\<lparr>resumed := x\<rparr>) = parked f"
proof -
  have "config_ok (f\<lparr>resumed := x\<rparr>) = config_ok f" "sizes_ok a r (f\<lparr>resumed := x\<rparr>) = sizes_ok a r f"
    "cells_ok (f\<lparr>resumed := x\<rparr>) = cells_ok f" "slots_ok (f\<lparr>resumed := x\<rparr>) = slots_ok f"
    "taken_ok (f\<lparr>resumed := x\<rparr>) = taken_ok f" "idle_ok (f\<lparr>resumed := x\<rparr>) = idle_ok f" "tight (f\<lparr>resumed := x\<rparr>) = tight f"
    "total_size (f\<lparr>resumed := x\<rparr>) = total_size f" for a r
    by (simp_all add: config_ok_def sizes_ok_def cells_ok_def slots_ok_def taken_ok_def active_slots_def idle_ok_def tight_def flow_sizes)
  then show "flow_inv (f\<lparr>resumed := x\<rparr>) = flow_inv f" by (simp add: flow_inv_def inv_at_def)
  show "awake (f\<lparr>resumed := x\<rparr>) = awake f" "parked (f\<lparr>resumed := x\<rparr>) = parked f"
    by (simp_all add: awake_def parked_def flow_sizes)
qed

lemma find_slots_run:
  assumes "n_collectors f = 0 \<Longrightarrow> \<forall>s\<in>set (slots f). slot_index s < 0" and "parked f"
  shows "\<exists>ss rs'. find_slots_to_resume_locked rs f = (Inr rs', f\<lparr>slots := ss\<rparr>) \<and> map slot_index ss = map slot_index (slots f) \<and>
    awake (f\<lparr>slots := ss\<rparr>)"
proof -
  let ?g = "\<lambda>s. if slot_cont s \<noteq> None \<and> \<not> try_peek_locked s f < 0 then s\<lparr>slot_cont := None\<rparr> else s"
  have idx: "map slot_index (map ?g xs) = map slot_index xs" for xs by (induction xs) auto
  show ?thesis
  proof (cases "n_collectors f = 0")
    case True
    then have "awake f" using assms by (fastforce simp: awake_def parked_def)
    moreover have "f\<lparr>slots := slots f\<rparr> = f" by simp
    ultimately show ?thesis using True
      by (intro exI [of _ "slots f"]) (simp add: find_slots_to_resume_locked_def exec_simps map_slots_def)
  next
    case False
    define ss where "ss = map ?g (slots f)"
    have "0 \<le> slot_index s \<and> (0 < buffer_capacity f \<longrightarrow> buffer_end f \<le> slot_index s)"
      if s: "s \<in> set ss" "slot_cont s \<noteq> None" for s
    proof -
      obtain t where t: "t \<in> set (slots f)" "s = ?g t" using s(1) by (auto simp: ss_def)
      then have p: "s = t" "try_peek_locked t f < 0" "slot_cont t \<noteq> None" using s(2) by (auto split: if_splits)
      then have "0 \<le> slot_index t" using assms(2) t(1) by (simp add: parked_def)
      then show ?thesis using p by (auto simp: try_peek_locked_def split: if_splits)
    qed
    then have "awake (f\<lparr>slots := ss\<rparr>)" by (simp add: awake_def parked_def flow_sizes)
    moreover have "map slot_index ss = map slot_index (slots f)" using idx by (simp add: ss_def)
    ultimately show ?thesis using False
      by (intro exI [of _ ss]) (simp add: find_slots_to_resume_locked_def exec_simps map_slots_def ss_def)
  qed
qed

lemma find_slots_inv:
  assumes "flow_inv f" "parked f"
  shows "\<exists>g rs'. find_slots_to_resume_locked rs f = (Inr rs', g) \<and> flow_inv g \<and> awake g \<and> published g = published f \<and>
    frame f g \<and> map slot_index (slots g) = map slot_index (slots f) \<and> buffer_end g = buffer_end f \<and> queue_size g = queue_size f"
proof -
  have "\<forall>s\<in>set (slots f). slot_index s < 0" if "n_collectors f = 0"
    using that assms(1) no_collectors_slots by (auto simp: flow_inv_def)
  then obtain ss rs' where "find_slots_to_resume_locked rs f = (Inr rs', f\<lparr>slots := ss\<rparr>)"
    "map slot_index ss = map slot_index (slots f)" "awake (f\<lparr>slots := ss\<rparr>)"
    using find_slots_run [OF _ assms(2)] by metis
  then show ?thesis using assms(1) slots_update(4) [of ss f]
    by (intro exI [of _ "f\<lparr>slots := ss\<rparr>"] exI [of _ rs']) (simp add: frame_def flow_sizes)
qed

subsection \<open>The cleanup loop\<close>

lemma cleanup_loop_run:
  assumes "ring_ok f" "total_size f \<le> capacity_of f" "0 \<le> queue_size f" "0 \<le> buffer_size f" "buffer f \<noteq> None"
  shows "\<exists>b n. cleanup_loop f = f\<lparr>buffer := b, queue_size := n\<rparr> \<and> 0 \<le> n \<and> n \<le> queue_size f \<and>
    ring_ok (f\<lparr>buffer := b\<rparr>) \<and> capacity_of (f\<lparr>buffer := b\<rparr>) = capacity_of f \<and>
    (\<forall>i. head f \<le> i \<and> i < buffer_end f + n \<longrightarrow> get_buffer_at (f\<lparr>buffer := b\<rparr>) i = get_buffer_at f i) \<and>
    (0 < n \<longrightarrow> get_buffer_at f (buffer_end f + n - 1) \<noteq> No_Value)"
  using assms
proof (induction f rule: cleanup_loop.induct)
  case (1 f)
  let ?i = "head f + total_size f - 1"
  have ts: "?i = buffer_end f + queue_size f - 1" by (simp add: flow_sizes)
  show ?case
  proof (cases "queue_size f > 0 \<and> get_buffer_at f ?i = No_Value")
    case False
    then have "cleanup_loop f = f" by (subst cleanup_loop.simps) (rule if_not_P)
    then show ?thesis using "1.prems" False ts by (intro exI [of _ "buffer f"] exI [of _ "queue_size f"]) auto
  next
    case True
    let ?g = "set_buffer_at ?i Null_Cell (f\<lparr>queue_size := queue_size f - 1\<rparr>)"
    have e: "cleanup_loop f = cleanup_loop ?g" by (subst cleanup_loop.simps) (rule if_P [OF True])
    have g: "head ?g = head f" "buffer_end ?g = buffer_end f" "queue_size ?g = queue_size f - 1" "total_size ?g = total_size f - 1"
      "capacity_of ?g = capacity_of f" "ring_ok ?g = ring_ok f"
      by (simp_all add: flow_sizes)
    obtain b n where b: "cleanup_loop ?g = ?g\<lparr>buffer := b, queue_size := n\<rparr>" "0 \<le> n" "n \<le> queue_size f - 1"
      "ring_ok (?g\<lparr>buffer := b\<rparr>)" "capacity_of (?g\<lparr>buffer := b\<rparr>) = capacity_of f"
      "\<forall>i. head f \<le> i \<and> i < buffer_end f + n \<longrightarrow> get_buffer_at (?g\<lparr>buffer := b\<rparr>) i = get_buffer_at ?g i"
      "0 < n \<longrightarrow> get_buffer_at ?g (buffer_end f + n - 1) \<noteq> No_Value"
      using "1.IH" [OF True] "1.prems" True unfolding g by (auto simp: g)
    have gb: "?g\<lparr>buffer := b, queue_size := n\<rparr> = f\<lparr>buffer := b, queue_size := n\<rparr>" "get_buffer_at (?g\<lparr>buffer := b\<rparr>) = get_buffer_at (f\<lparr>buffer := b\<rparr>)"
      "ring_ok (?g\<lparr>buffer := b\<rparr>) = ring_ok (f\<lparr>buffer := b\<rparr>)" "capacity_of (?g\<lparr>buffer := b\<rparr>) = capacity_of (f\<lparr>buffer := b\<rparr>)"
      by (simp_all add: set_buffer_at_def get_buffer_at_def ring_ok_def capacity_of_def fun_eq_iff split: option.split)
    have "get_buffer_at ?g i = get_buffer_at f i" if "head f \<le> i" "i < ?i" for i
    proof -
      have "\<bar>?i - i\<bar> < capacity_of (f\<lparr>queue_size := queue_size f - 1\<rparr>)" using that "1.prems"(2) by simp
      then show ?thesis using get_set_other [of "f\<lparr>queue_size := queue_size f - 1\<rparr>" ?i i Null_Cell] "1.prems"(1) that by simp
    qed
    moreover have "buffer_end f + n - 1 < ?i" "buffer_end f + n \<le> ?i" using b(3) ts by simp_all
    moreover have "head f \<le> buffer_end f" using "1.prems"(4) by (simp add: buffer_end_def)
    ultimately show ?thesis using b e gb True by (intro exI [of _ b] exI [of _ n]) auto
  qed
qed

lemma cleanup_run:
  assumes "ring_ok f" "total_size f \<le> capacity_of f" "0 \<le> queue_size f" "0 \<le> buffer_size f"
  shows "\<exists>g. cleanup_tail_locked f = g \<and> 0 \<le> queue_size g \<and> queue_size g \<le> queue_size f \<and> ring_ok g \<and>
    capacity_of g = capacity_of f \<and> frame f g \<and> slots g = slots f \<and> published g = published f \<and>
    replay_index g = replay_index f \<and> min_collector_index g = min_collector_index f \<and> buffer_size g = buffer_size f \<and>
    (\<forall>i. head f \<le> i \<and> i < buffer_end f + queue_size g \<longrightarrow> get_buffer_at g i = get_buffer_at f i) \<and>
    (0 < queue_size g \<and> 0 < buffer_capacity f \<longrightarrow> get_buffer_at f (buffer_end f + queue_size g - 1) \<noteq> No_Value)"
proof (cases "buffer f = None \<or> (buffer_capacity f = 0 \<and> queue_size f \<le> 1)")
  case True
  then have "cleanup_tail_locked f = f" by (auto simp: cleanup_tail_locked_def)
  moreover have "queue_size f = 0" if "buffer f = None"
    using that assms by (simp add: capacity_of_def total_size_def)
  ultimately show ?thesis using True assms by auto
next
  case False
  then have c: "cleanup_tail_locked f = cleanup_loop f" and bn: "buffer f \<noteq> None"
    by (auto simp: cleanup_tail_locked_def)
  obtain b n where b: "cleanup_loop f = f\<lparr>buffer := b, queue_size := n\<rparr>" "0 \<le> n" "n \<le> queue_size f"
    "ring_ok (f\<lparr>buffer := b\<rparr>)" "capacity_of (f\<lparr>buffer := b\<rparr>) = capacity_of f"
    "\<forall>i. head f \<le> i \<and> i < buffer_end f + n \<longrightarrow> get_buffer_at (f\<lparr>buffer := b\<rparr>) i = get_buffer_at f i"
    "0 < n \<longrightarrow> get_buffer_at f (buffer_end f + n - 1) \<noteq> No_Value"
    using cleanup_loop_run [OF assms bn] by blast
  then show ?thesis unfolding c b(1)
    by (intro exI [of _ "f\<lparr>buffer := b, queue_size := n\<rparr>"]) (simp add: frame_def)
qed

subsection \<open>Moving emitters into the buffer\<close>

definition same_state :: "'v flow \<Rightarrow> 'v flow \<Rightarrow> bool" where
  "same_state f g \<longleftrightarrow> frame f g \<and> replay_index g = replay_index f \<and> min_collector_index g = min_collector_index f \<and>
     buffer_size g = buffer_size f \<and> queue_size g = queue_size f \<and> slots g = slots f"

lemma same_stateD:
  assumes "same_state f g"
  shows "head g = head f" "buffer_end g = buffer_end f" "queue_end g = queue_end f" "total_size g = total_size f"
  using assms by (simp_all add: same_state_def flow_sizes)

lemma same_state_trans: "same_state f g \<Longrightarrow> same_state g h \<Longrightarrow> same_state f h"
  by (auto simp: same_state_def intro: frame_trans)

definition published_to :: "int \<Rightarrow> 'v flow \<Rightarrow> bool" where
  "published_to e f \<longleftrightarrow> int (length (published f)) = e \<and> (\<forall>j. head f \<le> j \<and> j < e \<longrightarrow>
     get_buffer_at f j = (case published f ! nat j of Some v \<Rightarrow> Boxed v | None \<Rightarrow> No_Value))"

definition queue_at :: "int \<Rightarrow> int \<Rightarrow> 'v flow \<Rightarrow> bool" where
  "queue_at i q f \<longleftrightarrow> (\<forall>j. i \<le> j \<and> j < q \<longrightarrow>
     get_buffer_at f j = No_Value \<or> (\<exists>e. get_buffer_at f j = Queued e \<and> e_index e = j))"

lemma cells_ok_iff:
  "cells_ok f \<longleftrightarrow> published_to (buffer_end f) f \<and> queue_at (buffer_end f) (queue_end f) f \<and>
     (0 < buffer_capacity f \<longrightarrow> None \<notin> set (published f))"
  by (auto simp: cells_ok_def published_to_def queue_at_def)

lemma move_emitter:
  fixes v :: 'v
  assumes "ring_ok f" "0 \<le> head f" "head f \<le> e" "e \<le> i" "i < q" "q - head f \<le> capacity_of f"
    and "published_to e f" "\<forall>j. e \<le> j \<and> j < i \<longrightarrow> get_buffer_at f j = No_Value" "queue_at i q f"
    and g_def: "g = publish (Some v) (set_buffer_at e (Boxed v) (set_buffer_at i No_Value f))"
  shows "same_state f g" "ring_ok g" "capacity_of g = capacity_of f" "published_to (e + 1) g"
    "\<forall>j. e + 1 \<le> j \<and> j < i + 1 \<longrightarrow> get_buffer_at g j = No_Value" "queue_at (i + 1) q g" "published g = published f @ [Some v]"
proof -
  let ?g1 = "set_buffer_at i No_Value f"
  have "0 < capacity_of f" using assms(3-6) by linarith
  then have b: "buffer f \<noteq> None" by (auto simp: capacity_of_def split: option.splits)
  have get: "get_buffer_at g j = (if j = e then Boxed v else if j = i then No_Value else get_buffer_at f j)"
    if "head f \<le> j" "j < q" for j
  proof -
    have gg: "get_buffer_at g = get_buffer_at (set_buffer_at e (Boxed v) ?g1)" by (simp add: g_def publish_def)
    show ?thesis
    proof (cases "j = e")
      case True
      then show ?thesis using get_set_same [of ?g1 e "Boxed v"] assms(1) b gg by simp
    next
      case False
      then have "get_buffer_at g j = get_buffer_at ?g1 j"
        using get_set_other [of ?g1 e j "Boxed v"] assms that gg by simp
      then show ?thesis
        using False get_set_same [of f i No_Value] get_set_other [of f i j No_Value] assms that b by auto
    qed
  qed
  show p: "published g = published f @ [Some v]" by (simp add: g_def publish_def)
  have len: "int (length (published f)) = e" using assms(7) by (simp add: published_to_def)
  show "same_state f g" by (simp add: g_def publish_def same_state_def frame_def)
  show "ring_ok g" "capacity_of g = capacity_of f" using assms(1) by (simp_all add: g_def publish_def)
  have hd: "head g = head f" by (simp add: g_def publish_def head_def)
  have "get_buffer_at g j = (case published g ! nat j of Some v \<Rightarrow> Boxed v | None \<Rightarrow> No_Value)"
    if "head f \<le> j" "j < e + 1" for j
  proof (cases "j = e")
    case True
    then have "published g ! nat j = Some v" using len p by (metis nat_int nth_append_length)
    then show ?thesis using get [of j] that True assms(4,5) by simp
  next
    case False
    then have "nat j < length (published f)" using that len assms(2) by linarith
    then have "published g ! nat j = published f ! nat j" using p by (simp add: nth_append)
    then show ?thesis using get [of j] that False assms(4,5,7) by (simp add: published_to_def)
  qed
  then show "published_to (e + 1) g" using p len hd by (simp add: published_to_def)
  show "\<forall>j. e + 1 \<le> j \<and> j < i + 1 \<longrightarrow> get_buffer_at g j = No_Value"
    using get assms(3,5,8) by auto
  show "queue_at (i + 1) q g"
    using get assms(3,4,9) by (auto simp: queue_at_def)
qed

lemma queue_join:
  assumes "\<forall>j. a \<le> j \<and> j < b \<longrightarrow> get_buffer_at g j = No_Value" "queue_at b q g"
  shows "queue_at a q g"
  unfolding queue_at_def
proof (intro allI impI)
  fix j assume "a \<le> j \<and> j < q"
  then show "get_buffer_at g j = No_Value \<or> (\<exists>e. get_buffer_at g j = Queued e \<and> e_index e = j)"
    using assms by (cases "j < b") (simp_all add: queue_at_def)
qed

lemma resume_run:
  assumes "ring_ok f" "0 \<le> head f" "head f \<le> e" "e \<le> i" "i \<le> q" "q - head f \<le> capacity_of f"
    and "published_to e f" "\<forall>j. e \<le> j \<and> j < i \<longrightarrow> get_buffer_at f j = No_Value" "queue_at i q f" "length rs < m"
  shows "\<exists>rs' g e'. resume_emitters [i..q - 1] m e rs f = (Inr (rs @ rs', e'), g) \<and> e' = e + int (length rs') \<and> e' \<le> q \<and>
    same_state f g \<and> ring_ok g \<and> capacity_of g = capacity_of f \<and> published_to e' g \<and> queue_at e' q g \<and>
    length (rs @ rs') \<le> m \<and> (length (rs @ rs') = m \<or> (\<forall>j. e' \<le> j \<and> j < q \<longrightarrow> get_buffer_at g j = No_Value)) \<and>
    (\<exists>ps. published g = published f @ map Some ps)"
  using assms
proof (induction "nat (q - i)" arbitrary: i e rs f)
  case 0
  then have "[i..q - 1] = []" by simp
  moreover have "queue_at e q f" using 0 by (auto simp: queue_at_def)
  ultimately show ?case using 0
    by (intro exI [of _ "[]"] exI [of _ f] exI [of _ e]) (auto simp: return_e_def same_state_def)
next
  case (Suc n)
  then have i: "i < q" by simp
  have u: "[i..q - 1] = i # [i + 1..q - 1]" using i by (simp add: upto.simps)
  have n: "n = nat (q - (i + 1))" using Suc.hyps(2) by simp
  consider "get_buffer_at f i = No_Value" | em where "get_buffer_at f i = Queued em"
    using Suc.prems(9) i by (auto simp: queue_at_def)
  then show ?case
  proof cases
    case 1
    have nv: "\<forall>j. e \<le> j \<and> j < i + 1 \<longrightarrow> get_buffer_at f j = No_Value"
    proof (intro allI impI)
      fix j assume "e \<le> j \<and> j < i + 1"
      then show "get_buffer_at f j = No_Value" using Suc.prems(8) 1 by (cases "j = i") auto
    qed
    have "queue_at (i + 1) q f" using Suc.prems(9) by (simp add: queue_at_def)
    then have "\<exists>rs' g e'. resume_emitters [i + 1..q - 1] m e rs f = (Inr (rs @ rs', e'), g) \<and> e' = e + int (length rs') \<and> e' \<le> q \<and>
        same_state f g \<and> ring_ok g \<and> capacity_of g = capacity_of f \<and> published_to e' g \<and> queue_at e' q g \<and>
        length (rs @ rs') \<le> m \<and> (length (rs @ rs') = m \<or> (\<forall>j. e' \<le> j \<and> j < q \<longrightarrow> get_buffer_at g j = No_Value)) \<and>
        (\<exists>ps. published g = published f @ map Some ps)"
      using Suc.hyps(1) [OF n] Suc.prems nv i by simp
    then show ?thesis unfolding u using 1 by (simp add: read_e_def)
  next
    case 2
    define g where "g = publish (Some (e_value em)) (set_buffer_at e (Boxed (e_value em)) (set_buffer_at i No_Value f))"
    note mv = move_emitter [OF Suc.prems(1-4) i Suc.prems(6-9) g_def]
    have run: "resume_emitters (i # [i + 1..q - 1]) m e rs f =
        (if length rs + 1 \<ge> m then return_e (rs @ [e_cont em], e + 1)
         else resume_emitters [i + 1..q - 1] m (e + 1) (rs @ [e_cont em])) g"
      using 2 by (simp add: read_e_def seq_e_def bind_e_def modify_e_def g_def)
    show ?thesis
    proof (cases "length rs + 1 \<ge> m")
      case True
      have "resume_emitters [i..q - 1] m e rs f = (Inr (rs @ [e_cont em], e + 1), g)"
        unfolding u run using True by (simp add: return_e_def)
      moreover have "e + 1 = e + int (length [e_cont em])" "e + 1 \<le> q" using Suc.prems(4) i by simp_all
      moreover have "length (rs @ [e_cont em]) = m" using True Suc.prems(10) by simp
      moreover have "\<exists>ps. published g = published f @ map Some ps" using mv(7) by (intro exI [of _ "[e_value em]"]) simp
      ultimately show ?thesis using mv(1-4) queue_join [OF mv(5,6)] by (metis order_refl)
    next
      case False
      have hd: "head g = head f" using same_stateD(1) [OF mv(1)] .
      obtain rs' h e' where r: "resume_emitters [i + 1..q - 1] m (e + 1) (rs @ [e_cont em]) g = (Inr ((rs @ [e_cont em]) @ rs', e'), h)"
        "e' = e + 1 + int (length rs')" "e' \<le> q" "same_state g h" "ring_ok h" "capacity_of h = capacity_of g" "published_to e' h"
        "queue_at e' q h" "length ((rs @ [e_cont em]) @ rs') \<le> m"
        "length ((rs @ [e_cont em]) @ rs') = m \<or> (\<forall>j. e' \<le> j \<and> j < q \<longrightarrow> get_buffer_at h j = No_Value)"
        "\<exists>ps. published h = published g @ map Some ps"
        using Suc.hyps(1) [OF n, of g "e + 1" "rs @ [e_cont em]"] mv Suc.prems(2-6) hd i False by auto
      obtain ps where "published h = published g @ map Some ps" using r(11) by blast
      then have pp: "published h = published f @ map Some (e_value em # ps)" using mv(7) by simp
      have sh: "same_state f h" using same_state_trans [OF mv(1) r(4)] .
      have "resume_emitters [i..q - 1] m e rs f = (Inr (rs @ e_cont em # rs', e'), h)"
        unfolding u run using False r(1) by simp
      moreover have "e' = e + int (length (e_cont em # rs'))" using r(2) by simp
      moreover have "length (rs @ e_cont em # rs') \<le> m"
        "length (rs @ e_cont em # rs') = m \<or> (\<forall>j. e' \<le> j \<and> j < q \<longrightarrow> get_buffer_at h j = No_Value)"
        using r(9,10) by simp_all
      ultimately show ?thesis using r(3,5,6,7,8) mv(3) sh pp by metis
    qed
  qed
qed

subsection \<open>Settling the indices\<close>

text \<open>The bounds of the new indices, once \<open>e - be\<close> emitters have moved.\<close>

lemma settle_bounds:
  fixes h be e qe m ri rp cap qs :: int
  assumes cfg: "0 \<le> rp" "rp \<le> cap" and h: "h \<le> ri" "0 \<le> h" "ri \<le> be" "h \<le> be" "be - h \<le> max cap 1" "be - ri \<le> rp"
    and e: "be \<le> e" "e \<le> qe" "qe = be + qs" "0 \<le> qs" and m: "h < m" "m \<le> be + (if cap = 0 \<and> 0 < qs then 1 else 0)"
    and k: "e - be \<le> max 0 k" "k = (if col then min qs (cap - (be - m)) else qs)"
    and all: "0 < k \<Longrightarrow> e - be = k \<or> nv"
    and sk: "skip \<longleftrightarrow> cap = 0 \<and> r < qe \<and> c" "cap = 0 \<Longrightarrow> nv \<and> e < qe \<Longrightarrow> c"
    and r: "r = max ri (e - min rp (e - h))" "r' = (if skip then r + 1 else r)" "e' = (if skip then e + 1 else e)"
    and m2: "m2 = (if col then m else e)"
  shows "h \<le> min m2 r'" "r' \<le> e'" "m2 \<le> e'" "e' \<le> qe" "e' - r' \<le> rp" "e' - min m2 r' \<le> max cap 1"
    "0 < cap \<Longrightarrow> r' = r \<and> e' = e" "skip \<Longrightarrow> r = e" "\<not> col \<Longrightarrow> e = qe \<or> nv"
    "col \<Longrightarrow> 0 < cap \<Longrightarrow> e = qe \<or> nv \<or> cap \<le> e - min m r \<and> m \<le> r"
    "e \<le> e'"
proof -
  have rr: "ri \<le> r" "r \<le> e" "e - r \<le> rp" using r(1) h e cfg by (auto simp: min_def max_def)
  have z: "cap = 0 \<Longrightarrow> r = e" using r(1) h e cfg by (auto simp: min_def max_def)
  show "skip \<Longrightarrow> r = e" using sk(1) z by simp
  show re: "r' \<le> e'" "e' - r' \<le> rp" using rr r(2,3) by auto
  show "h \<le> min m2 r'" using m(1) m2 e h rr(1) r(2) by auto
  show "e' \<le> qe" using r(3) sk(1) z e(2) by auto
  show "0 < cap \<Longrightarrow> r' = r \<and> e' = e" using r(2,3) sk(1) by simp
  show "e \<le> e'" using r(3) by simp
  have k0: "0 < k" if "col" "0 < qs" "0 < cap"
    using that k(2) h(5) cfg m(1) by auto
  show "\<not> col \<Longrightarrow> e = qe \<or> nv" using k(2) all e by (cases "0 < k") auto
  show "m2 \<le> e'"
  proof (cases "col \<and> be < m")
    case True
    then have c: "cap = 0" "0 < qs" "m = be + 1" using m(2) by (auto split: if_splits)
    then have "k = 1" using k(2) True by simp
    then show ?thesis using all c True m2 r(3) sk z e by (cases "e = be") auto
  qed (use m2 e r(3) in auto)
  show "e' - min m2 r' \<le> max cap 1"
  proof (cases col)
    case True
    have "e - m \<le> cap"
    proof (cases "0 < k")
      case True
      then show ?thesis using k \<open>col\<close> by auto
    next
      case False
      then have "e = be" using k(1) e(1) by simp
      then show ?thesis using h(5) m(1) cfg by auto
    qed
    then show ?thesis using True m2 re(2) r(2,3) cfg rr sk(1) by (auto simp: min_def)
  next
    case False
    then show ?thesis using m2 re(2) cfg r(3) by (auto simp: min_def)
  qed
  show "e = qe \<or> nv \<or> cap \<le> e - min m r \<and> m \<le> r" if "col" "0 < cap"
  proof (cases "0 < qs")
    case True
    then have "e - be = k \<or> nv" using all k0 that by blast
    moreover have "cap \<le> e - min m r \<and> m \<le> r" if "e - be = k" "k \<noteq> qs"
    proof -
      have "e = m + cap" using that k(2) \<open>col\<close> by (auto simp: min_def split: if_splits)
      then show ?thesis using rr cfg by auto
    qed
    ultimately show ?thesis using e by auto
  qed (use e in auto)
qed

lemma settle_run:
  assumes cfg: "config_ok f" and sz: "sizes_ok (max (buffer_capacity f) 1) (replay f) f"
    and ring: "ring_ok f" "total_size f \<le> capacity_of f"
    and pub: "published_to e f" and que: "queue_at e (queue_end f) f"
    and nn: "0 < buffer_capacity f \<Longrightarrow> None \<notin> set (published f)" and tk: "taken_ok f"
    and n: "n_collectors f = int (length (active_slots f))"
    and idx: "\<forall>s\<in>set (slots f). 0 \<le> slot_index s \<longrightarrow> m \<le> slot_index s \<and>
      slot_index s \<le> buffer_end f + (if buffer_capacity f = 0 then 1 else 0)"
    and e: "buffer_end f \<le> e" "e \<le> queue_end f"
    and m: "min_collector_index f < m" "m \<le> buffer_end f + (if buffer_capacity f = 0 \<and> 0 < queue_size f then 1 else 0)"
    and k: "e - buffer_end f \<le> max 0 (resume_count m f)"
    and all: "0 < resume_count m f \<Longrightarrow> e - buffer_end f = resume_count m f \<or>
      (\<forall>j. e \<le> j \<and> j < queue_end f \<longrightarrow> get_buffer_at f j = No_Value)"
    and tg: "0 < buffer_capacity f \<Longrightarrow> n_collectors f \<noteq> 0 \<Longrightarrow> \<exists>s\<in>set (slots f). slot_index s = m"
  shows "\<exists>g. settle_buffer (head f) m e (queue_end f) f = (Inr (), g) \<and> flow_inv g \<and> frame f g \<and> slots g = slots f \<and>
    (\<exists>ps. published g = published f @ ps) \<and> (0 < buffer_capacity f \<longrightarrow> buffer_end g = e)"
proof -
  let ?qe = "queue_end f" and ?be = "buffer_end f" and ?cap = "buffer_capacity f" and ?h = "head f"
  define col where "col \<longleftrightarrow> n_collectors f \<noteq> 0"
  define m2 where "m2 = (if col then m else e)"
  define r where "r = max (replay_index f) (e - min (replay f) (e - ?h))"
  define c where "c \<longleftrightarrow> get_buffer_at f r = No_Value"
  define skip where "skip \<longleftrightarrow> ?cap = 0 \<and> r < ?qe \<and> c"
  define r' where "r' = (if skip then r + 1 else r)"
  define e' where "e' = (if skip then e + 1 else e)"
  define nv where "nv \<longleftrightarrow> (\<forall>j. e \<le> j \<and> j < ?qe \<longrightarrow> get_buffer_at f j = No_Value)"
  define f2 where "f2 = (if skip then publish None f else f)"
  have hs: "?h \<le> min_collector_index f" "?h \<le> replay_index f" "0 \<le> ?h" "?be = ?h + buffer_size f" "?qe = ?be + queue_size f"
    "total_size f = ?qe - ?h" "0 \<le> buffer_size f" "0 \<le> queue_size f"
    using sz by (auto simp: sizes_ok_def flow_sizes)
  have rc: "resume_count m f = (if col then min (queue_size f) (?cap - (?be - m)) else queue_size f)"
    using n by (simp add: resume_count_def col_def)
  have z: "r = e" if "?cap = 0"
  proof -
    have "replay f = 0" "replay_index f \<le> e" "0 \<le> e - ?h" using that cfg sz e(1) hs by (auto simp: config_ok_def sizes_ok_def)
    then show ?thesis by (simp add: r_def)
  qed
  have b: "?h \<le> min m2 r'" "r' \<le> e'" "m2 \<le> e'" "e' \<le> ?qe" "e' - r' \<le> replay f" "e' - min m2 r' \<le> max ?cap 1"
    "0 < ?cap \<Longrightarrow> r' = r \<and> e' = e" "skip \<Longrightarrow> r = e" "\<not> col \<Longrightarrow> e = ?qe \<or> nv"
    "col \<Longrightarrow> 0 < ?cap \<Longrightarrow> e = ?qe \<or> nv \<or> ?cap \<le> e - min m r \<and> m \<le> r" "e \<le> e'"
  proof -
    have h1: "0 \<le> replay f" "replay f \<le> ?cap" using cfg by (simp_all add: config_ok_def)
    have h2: "replay_index f \<le> ?be" "?h \<le> ?be" "?be - ?h \<le> max ?cap 1" "?be - replay_index f \<le> replay f"
      using sz hs by (simp_all add: sizes_ok_def)
    have h3: "?h < m" using m(1) hs(1) by simp
    have h4: "0 < resume_count m f \<Longrightarrow> e - ?be = resume_count m f \<or> nv" using all by (simp add: nv_def)
    have h5: "?cap = 0 \<Longrightarrow> nv \<and> e < ?qe \<Longrightarrow> c" using z by (simp add: nv_def c_def)
    note sb = settle_bounds [of "replay f" ?cap ?h "replay_index f" ?be e ?qe "queue_size f" m "resume_count m f" col nv skip r c r' e' m2,
        OF h1 hs(2,3) h2 e hs(5,8) h3 m(2) k rc h4 skip_def h5 r_def r'_def e'_def m2_def]
    show "?h \<le> min m2 r'" "r' \<le> e'" "m2 \<le> e'" "e' \<le> ?qe" "e' - r' \<le> replay f" "e' - min m2 r' \<le> max ?cap 1"
      by (rule sb; assumption)+
    show "0 < ?cap \<Longrightarrow> r' = r \<and> e' = e" "skip \<Longrightarrow> r = e" "\<not> col \<Longrightarrow> e = ?qe \<or> nv"
      "col \<Longrightarrow> 0 < ?cap \<Longrightarrow> e = ?qe \<or> nv \<or> ?cap \<le> e - min m r \<and> m \<le> r" "e \<le> e'"
      by (rule sb; assumption)+
  qed
  have f2: "same_state f f2" "ring_ok f2" "capacity_of f2 = capacity_of f" "get_buffer_at f2 = get_buffer_at f"
    "published f2 = published f @ (if skip then [None] else [])"
    using ring(1) by (auto simp: f2_def publish_def same_state_def frame_def)
  note st = same_stateD [OF f2(1)]
  have len: "int (length (published f)) = e" using pub by (simp add: published_to_def)
  have pub2: "published_to e' f2"
  proof -
    have "get_buffer_at f j = (case published f2 ! nat j of Some v \<Rightarrow> Boxed v | None \<Rightarrow> No_Value)" if j: "?h \<le> j" "j < e'" for j
    proof (cases "j < e")
      case True
      then have "nat j < length (published f)" using j len hs(3) by linarith
      then show ?thesis using pub j True f2(5) by (simp add: published_to_def nth_append)
    next
      case False
      then have s: "skip" "j = e" using j by (auto simp: e'_def split: if_splits)
      then have "nat j = length (published f)" using len by linarith
      then have "published f2 ! nat j = None" using f2(5) s(1) by simp
      moreover have "r = e" "c" using s(1) b(8) skip_def by blast+
      then have "get_buffer_at f j = No_Value" using s(2) c_def by simp
      ultimately show ?thesis by simp
    qed
    then show ?thesis using f2(4,5) len st(1) by (simp add: published_to_def e'_def)
  qed
  obtain g1 where g1: "update_buffer_locked r' m2 e' ?qe f2 = (Inr (), g1)" "replay_index g1 = r'" "min_collector_index g1 = m2"
    "buffer_size g1 = e' - min m2 r'" "queue_size g1 = ?qe - e'" "head g1 = min m2 r'" "buffer_end g1 = e'" "queue_end g1 = ?qe"
    "total_size g1 = ?qe - min m2 r'" "frame f2 g1" "slots g1 = slots f2" "published g1 = published f2" "ring_ok g1"
    "capacity_of g1 = capacity_of f2"
    "\<forall>j. min m2 r' \<le> j \<and> j < head f2 + capacity_of f2 \<longrightarrow> get_buffer_at g1 j = get_buffer_at f2 j"
    using update_buffer_run [OF f2(2) b(1) [folded st(1)] b(2-4)] by (elim exE conjE) (rule that, assumption+)
  have ts: "total_size g1 \<le> capacity_of g1" using g1(9,14) f2(3) b(1) hs(6) ring(2) by linarith
  have q0: "0 \<le> queue_size g1" "0 \<le> buffer_size g1" using g1(4,5) b(2-4) by auto
  obtain g where g: "cleanup_tail_locked g1 = g" "0 \<le> queue_size g" "queue_size g \<le> queue_size g1" "ring_ok g"
    "capacity_of g = capacity_of g1" "frame g1 g" "slots g = slots g1" "published g = published g1"
    "replay_index g = replay_index g1" "min_collector_index g = min_collector_index g1" "buffer_size g = buffer_size g1"
    "\<forall>i. head g1 \<le> i \<and> i < buffer_end g1 + queue_size g \<longrightarrow> get_buffer_at g i = get_buffer_at g1 i"
    "0 < queue_size g \<and> 0 < buffer_capacity g1 \<longrightarrow> get_buffer_at g1 (buffer_end g1 + queue_size g - 1) \<noteq> No_Value"
    using cleanup_run [OF g1(13) ts q0] by (elim exE conjE) (rule that, assumption+)
  have fr: "frame f g" using f2(1) frame_trans [OF g1(10) g(6)] by (auto simp: same_state_def intro: frame_trans)
  have frs: "replay g = replay f" "buffer_capacity g = ?cap" "on_buffer_overflow g = on_buffer_overflow f"
    "n_collectors g = n_collectors f" "taken g = taken f" "buffer_capacity g1 = ?cap"
    using fr f2(1) g1(10) by (simp_all add: frame_def same_state_def)
  have gs: "head g = min m2 r'" "buffer_end g = e'" "queue_end g = e' + queue_size g"
    using g(9-11) g1(2-7) by (simp_all add: flow_sizes)
  have sl: "slots g = slots f" using g(7) g1(11) f2(1) by (simp add: same_state_def)
  have cell: "get_buffer_at g j = get_buffer_at f j" if "head g \<le> j" "j < queue_end g" for j
  proof -
    have "j < ?qe" using that(2) gs(3) g(3) g1(5) by simp
    then have "j < head f2 + capacity_of f2" using st(1) f2(3) ring(2) hs(6) by simp
    then show ?thesis using that g(12) g1(6,7,15) gs f2(4) by simp
  qed
  have q1: "e = ?qe \<or> nv \<Longrightarrow> 0 < ?cap \<Longrightarrow> queue_size g = 0"
  proof (rule ccontr)
    assume a: "e = ?qe \<or> nv" "0 < ?cap" "queue_size g \<noteq> 0"
    then have p: "0 < queue_size g" using g(2) by simp
    have le: "e' + queue_size g \<le> ?qe" using g(3) g1(5) by simp
    then have "e \<noteq> ?qe" using p b(11) by simp
    then have nv using a(1) by simp
    then have "get_buffer_at f (e' + queue_size g - 1) = No_Value" using p le b(11) by (simp add: nv_def)
    moreover have "get_buffer_at g1 (e' + queue_size g - 1) \<noteq> No_Value" using g(13) p a(2) frs(6) g1(7) by simp
    moreover have "get_buffer_at g1 (e' + queue_size g - 1) = get_buffer_at g (e' + queue_size g - 1)"
      using g(12) g1(6,7) gs(1) p b(2,3) by simp
    moreover have "get_buffer_at g (e' + queue_size g - 1) = get_buffer_at f (e' + queue_size g - 1)"
      using cell [of "e' + queue_size g - 1"] gs p b(2,3) by simp
    ultimately show False by simp
  qed
  have "sizes_ok (max (buffer_capacity g) 1) (replay g) g"
    unfolding sizes_ok_def
  proof (intro conjI impI)
    show "0 \<le> min_collector_index g" "0 \<le> replay_index g" using g(9,10) g1(2,3) b(1) hs(3) by simp_all
    show "0 \<le> buffer_size g" "0 \<le> queue_size g" using g(2,11) q0(2) by simp_all
    show "min_collector_index g \<le> buffer_end g" "replay_index g \<le> buffer_end g" using g(9,10) g1(2,3) gs(2) b(2,3) by simp_all
    show "buffer_size g \<le> max (buffer_capacity g) 1" using g(11) g1(4) b(6) frs(2) by simp
    show "buffer_end g - replay_index g \<le> replay g" using gs(2) g(9) g1(2) b(5) frs(1) by simp
    show "on_buffer_overflow g \<noteq> SUSPEND \<Longrightarrow> queue_size g = 0"
    proof -
      assume "on_buffer_overflow g \<noteq> SUSPEND"
      then have "queue_size f = 0" using sz frs(3) by (simp add: sizes_ok_def)
      then show ?thesis using e hs(5) b(11) g(2,3) g1(5) by simp
    qed
    assume a: "0 < buffer_capacity g \<and> 0 < queue_size g"
    then have "\<not> (e = ?qe \<or> nv)" using q1 frs(2) by auto
    then have cc: "col" "m \<le> r" "?cap \<le> e - min m r" using b(9,10) a frs(2) by auto
    then have "?cap \<le> e - m" by (simp add: min_absorb1)
    then show "buffer_capacity g \<le> buffer_size g" "min_collector_index g \<le> replay_index g"
      using cc(1,2) a frs(2) b(7) g(9-11) g1(2-4) by (simp_all add: m2_def min_absorb1)
  qed
  moreover have "cells_ok g"
    unfolding cells_ok_iff
  proof (intro conjI)
    have "queue_at e' (queue_end g) g"
    proof -
      have "queue_at e' ?qe f" using que b(11) by (simp add: queue_at_def)
      moreover have "j < ?qe" "get_buffer_at g j = get_buffer_at f j" if "e' \<le> j" "j < e' + queue_size g" for j
      proof -
        show "j < ?qe" using that g(3) g1(5) by simp
        have "head g \<le> j" using that gs(1) b(2) by simp
        then show "get_buffer_at g j = get_buffer_at f j" using cell that gs(3) by simp
      qed
      ultimately show ?thesis using gs(3) by (simp add: queue_at_def)
    qed
    then show "queue_at (buffer_end g) (queue_end g) g" using gs(2) by simp
    have pc: "get_buffer_at g j = (case published f2 ! nat j of Some v \<Rightarrow> Boxed v | None \<Rightarrow> No_Value)"
      if "head g \<le> j" "j < e'" for j
    proof -
      have "head f \<le> j" using that(1) gs(1) b(1) by linarith
      then show ?thesis using pub2 that cell [of j] gs(3) g(2) st(1) f2(4) by (simp add: published_to_def)
    qed
    have "int (length (published f2)) = e'" using pub2 by (simp add: published_to_def)
    then show "published_to (buffer_end g) g"
      using pc gs(2) g(8) g1(12) by (simp add: published_to_def)
    show "0 < buffer_capacity g \<longrightarrow> None \<notin> set (published g)"
      using nn frs(2) g(8) g1(12) f2(5) by (simp add: skip_def)
  qed
  moreover have "slots_ok g"
    unfolding slots_ok_def
  proof (intro conjI ballI impI)
    show "n_collectors g = int (length (active_slots g))" using n frs(4) sl by (simp add: active_slots_def)
    fix s assume s: "s \<in> set (slots g)" "0 \<le> slot_index s"
    then have "s \<in> set (active_slots f)" using sl by (simp add: active_slots_def)
    then have "active_slots f \<noteq> []" by auto
    then have "n_collectors f \<noteq> 0" using n by simp
    then have "m2 = m" by (simp add: m2_def col_def)
    then show "min_collector_index g \<le> slot_index s" using s idx sl g(10) g1(3) by auto
    show "slot_index s \<le> buffer_end g + (if buffer_capacity g = 0 then 1 else 0)"
      using s idx sl gs(2) b(11) e(1) frs(2) by force
  qed
  moreover have "taken_ok g"
    by (rule taken_append [OF tk, of _ "if skip then [None] else []"]) (use frs g(8) g1(12) f2(5) in auto)
  moreover have "config_ok g" using cfg frs(1-3) by (simp add: config_ok_def)
  moreover have "total_size g \<le> capacity_of g" using ts g(3,5,11) by (simp add: total_size_def)
  ultimately have "inv_at (max (buffer_capacity g) 1) (replay g) g" using g(4) by (simp add: inv_at_def)
  moreover have "idle_ok g"
  proof -
    have "min_collector_index g = buffer_end g \<and> queue_size g = 0" if "0 < ?cap" "n_collectors f = 0"
      using that b(7,9) q1 g(10) g1(3) gs(2) by (simp add: col_def m2_def)
    then show ?thesis using frs(2,4) by (simp add: idle_ok_def)
  qed
  moreover have "tight g"
    using tg frs(2,4) sl g(10) g1(3) by (simp add: tight_def m2_def col_def)
  ultimately have "flow_inv g" by (simp add: flow_inv_def)
  moreover have "settle_buffer ?h m e ?qe f = (Inr (), g)"
  proof -
    have "settle_buffer ?h m e ?qe f = seq_e (update_buffer_locked r' m2 e' ?qe) (modify_e cleanup_tail_locked) f2"
      unfolding settle_buffer_def read_e_def Let_def m2_def col_def f2_def r'_def e'_def skip_def c_def r_def
      by (simp add: seq_e_def bind_e_def modify_e_def return_e_def)
    then show ?thesis using g1(1) g(1) by (simp add: seq_e_def bind_e_def modify_e_def)
  qed
  moreover have "\<exists>ps. published g = published f @ ps" using g(8) g1(12) f2(5) by simp
  moreover have "0 < ?cap \<longrightarrow> buffer_end g = e" using gs(2) b(7) by simp
  ultimately show ?thesis using fr sl by blast
qed

lemma lowest_fold:
  "(let l = fold (\<lambda>s m. if slot_index s \<ge> 0 \<and> slot_index s < m then slot_index s else m) xs m0
    in l \<le> m0 \<and> (\<forall>s\<in>set xs. 0 \<le> slot_index s \<longrightarrow> l \<le> slot_index s) \<and> (l = m0 \<or> (\<exists>s\<in>set xs. 0 \<le> slot_index s \<and> slot_index s = l)))"
proof (induction xs arbitrary: m0)
  case (Cons x xs)
  let ?m = "if slot_index x \<ge> 0 \<and> slot_index x < m0 then slot_index x else m0"
  show ?case using Cons.IH [of ?m] by (auto simp: Let_def split: if_splits)
qed simp

lemma lowest_index:
  "lowest_index f \<le> buffer_end f + (if buffer_capacity f = 0 \<and> queue_size f > 0 then 1 else 0)"
  "s \<in> set (visited_slots f) \<Longrightarrow> 0 \<le> slot_index s \<Longrightarrow> lowest_index f \<le> slot_index s"
  "lowest_index f = buffer_end f + (if buffer_capacity f = 0 \<and> queue_size f > 0 then 1 else 0) \<or>
    (\<exists>s\<in>set (visited_slots f). 0 \<le> slot_index s \<and> slot_index s = lowest_index f)"
  using lowest_fold [of "visited_slots f" "buffer_end f + (if buffer_capacity f = 0 \<and> queue_size f > 0 then 1 else 0)"]
  by (auto simp: lowest_index_def buffer_end_def Let_def)

lemma active_visited:
  assumes "inv_at a r f" "s \<in> set (slots f)" "0 \<le> slot_index s"
  shows "s \<in> set (visited_slots f)" "n_collectors f \<noteq> 0"
proof -
  show "n_collectors f \<noteq> 0" using no_collectors_slots [OF assms(1) _ assms(2)] assms(3) by force
  then show "s \<in> set (visited_slots f)" using assms(2) by (simp add: visited_slots_def)
qed

lemma collectors_active: "inv_at a r f \<Longrightarrow> n_collectors f \<noteq> 0 \<Longrightarrow> \<exists>s\<in>set (slots f). 0 \<le> slot_index s"
  by (auto simp: inv_at_def slots_ok_def active_slots_def filter_empty_conv)

lemma update_collector_inv:
  assumes inv: "inv_at (max (buffer_capacity f) 1) (replay f) f" and aw: "awake f" and old: "min_collector_index f \<le> old"
    and later: "min_collector_index f < old \<Longrightarrow> idle_ok f \<and> tight f"
  shows "\<exists>g rs. update_collector_index_locked old f = (Inr rs, g) \<and> flow_inv g \<and> awake g \<and> frame f g \<and>
    map slot_index (slots g) = map slot_index (slots f) \<and> (\<exists>ps. published g = published f @ ps)"
proof -
  let ?m = "lowest_index f"
  note d = inv_atD [OF inv]
  have nc: "n_collectors f = int (length (active_slots f))"
    and idx: "\<forall>s\<in>set (slots f). slot_index s \<ge> 0 \<longrightarrow> min_collector_index f \<le> slot_index s \<and>
        slot_index s \<le> buffer_end f + (if buffer_capacity f = 0 then 1 else 0)"
    using inv by (simp_all add: inv_at_def slots_ok_def)
  have vis: "set (visited_slots f) \<subseteq> set (slots f)" by (simp add: visited_slots_def)
  have m_min: "min_collector_index f \<le> ?m"
    using lowest_index(3) [of f] idx vis d(10) by (auto split: if_splits)
  show ?thesis
  proof (cases "min_collector_index f < old \<or> ?m \<le> min_collector_index f")
    case True
    have "idle_ok f \<and> tight f"
    proof (cases "min_collector_index f < old")
      case False
      then have m: "?m = min_collector_index f" using True m_min by simp
      have "idle_ok f"
        unfolding idle_ok_def
      proof
        assume a: "0 < buffer_capacity f \<and> n_collectors f = 0"
        then have "min_collector_index f = buffer_end f"
          using lowest_index(3) [of f] m by (simp add: visited_slots_def)
        moreover have "queue_size f = 0"
        proof (rule ccontr)
          assume "queue_size f \<noteq> 0"
          then have full: "buffer_capacity f \<le> buffer_size f" "min_collector_index f \<le> replay_index f"
            using inv a d(7) by (simp_all add: inv_at_def sizes_ok_def)
          have "head f = min_collector_index f" using full(2) by (simp add: head_def)
          then show False using full(1) \<open>min_collector_index f = buffer_end f\<close> d(4) a by linarith
        qed
        ultimately show "min_collector_index f = buffer_end f \<and> queue_size f = 0" by simp
      qed
      moreover have "tight f"
        unfolding tight_def
      proof
        assume a: "0 < buffer_capacity f \<and> n_collectors f \<noteq> 0"
        show "\<exists>s\<in>set (slots f). slot_index s = min_collector_index f"
        proof (cases "?m = buffer_end f")
          case True
          obtain s where s: "s \<in> set (slots f)" "0 \<le> slot_index s" using collectors_active [OF inv] a by blast
          have "min_collector_index f \<le> slot_index s \<and> slot_index s \<le> buffer_end f"
            using bspec [OF idx s(1)] s(2) a by simp
          then have "slot_index s = min_collector_index f" using m True by simp
          then show ?thesis using s by blast
        next
          case False
          then show ?thesis using lowest_index(3) [of f] a m vis by auto
        qed
      qed
      ultimately show ?thesis by simp
    qed (use later in simp)
    then have "flow_inv f" using inv by (simp add: flow_inv_def)
    moreover have "update_collector_index_locked old f = (Inr [], f)"
      using True old m_min by (auto simp: update_collector_index_locked_def read_e_def return_e_def Let_def)
    ultimately show ?thesis using aw by auto
  next
    case False
    then have o: "old = min_collector_index f" "min_collector_index f < ?m" using old by auto
    let ?k = "resume_count ?m f" and ?be = "buffer_end f" and ?qe = "queue_end f"
    have idxm: "\<forall>s\<in>set (slots f). 0 \<le> slot_index s \<longrightarrow> ?m \<le> slot_index s \<and>
        slot_index s \<le> buffer_end f + (if buffer_capacity f = 0 then 1 else 0)"
      using lowest_index(2) active_visited(1) [OF inv] idx by blast
    have tg: "\<exists>s\<in>set (slots f). slot_index s = ?m" if c: "0 < buffer_capacity f" "n_collectors f \<noteq> 0"
    proof (cases "?m = ?be")
      case True
      obtain s where s: "s \<in> set (slots f)" "0 \<le> slot_index s" using collectors_active [OF inv] c by blast
      have "?m \<le> slot_index s \<and> slot_index s \<le> ?be" using bspec [OF idxm s(1)] s(2) c by simp
      then have "slot_index s = ?m" using True by simp
      then show ?thesis using s by blast
    next
      case False
      then show ?thesis using lowest_index(3) [of f] c vis by auto
    qed
    have cells: "published_to ?be f" "queue_at ?be ?qe f" "0 < buffer_capacity f \<Longrightarrow> None \<notin> set (published f)"
      using inv by (auto simp: inv_at_def cells_ok_iff)
    have be: "0 \<le> head f" "head f \<le> ?be" "?be \<le> ?qe" "?qe - head f \<le> capacity_of f"
      using d by simp_all
    have sz: "sizes_ok (max (buffer_capacity f) 1) (replay f) f" "config_ok f" "taken_ok f"
      using inv by (simp_all add: inv_at_def)
    have run: "update_collector_index_locked old f =
      bind_e (if ?k > 0 then resume_emitters [?be..?qe - 1] (nat ?k) ?be [] else return_e ([], ?be))
        (\<lambda>(rs, e). seq_e (settle_buffer (head f) ?m e ?qe)
          (if ?k > 0 then find_slots_to_resume_locked (map Some rs @ replicate (nat ?k - length rs) None)
           else return_e [])) f"
      using o by (simp add: update_collector_index_locked_def read_e_def Let_def)
    show ?thesis
    proof (cases "0 < ?k")
      case True
      obtain rs g e where g: "resume_emitters [?be..?qe - 1] (nat ?k) ?be [] f = (Inr ([] @ rs, e), g)" "e = ?be + int (length rs)"
        "e \<le> ?qe" "same_state f g" "ring_ok g" "capacity_of g = capacity_of f" "published_to e g" "queue_at e ?qe g"
        "length ([] @ rs) \<le> nat ?k" "length ([] @ rs) = nat ?k \<or> (\<forall>j. e \<le> j \<and> j < ?qe \<longrightarrow> get_buffer_at g j = No_Value)"
        "\<exists>ps. published g = published f @ map Some ps"
      proof -
        have v: "\<forall>j. ?be \<le> j \<and> j < ?be \<longrightarrow> get_buffer_at f j = No_Value" by auto
        have l: "length ([] :: nat list) < nat ?k" using True by simp
        show ?thesis
          using resume_run [OF d(12) be(1,2) order_refl be(3,4) cells(1) v cells(2) l]
          by (elim exE conjE) (rule that, (assumption | (rule exI, assumption))+)
      qed
      note st = same_stateD [OF g(4)]
      have fr: "frame f g" "slots g = slots f" "buffer_size g = buffer_size f" "queue_size g = queue_size f"
        "min_collector_index g = min_collector_index f" "replay_index g = replay_index f"
        using g(4) by (simp_all add: same_state_def)
      have cf: "buffer_capacity g = buffer_capacity f" "replay g = replay f" "n_collectors g = n_collectors f"
        "on_buffer_overflow g = on_buffer_overflow f" "taken g = taken f"
        using fr(1) by (simp_all add: frame_def)
      have rc: "resume_count ?m g = ?k" by (simp add: resume_count_def cf fr st)
      obtain ps where ps: "published g = published f @ map Some ps" using g(11) by blast
      have s1: "config_ok g" "sizes_ok (max (buffer_capacity g) 1) (replay g) g"
        using sz by (simp_all add: config_ok_def sizes_ok_def cf fr st)
      have s2: "total_size g \<le> capacity_of g" "taken_ok g" "0 < buffer_capacity g \<Longrightarrow> None \<notin> set (published g)"
        using d(13) g(6) st(4) taken_append [OF sz(3) cf(5,1) ps] cells(3) ps cf(1) by auto
      have s3: "n_collectors g = int (length (active_slots g))" using nc by (simp add: cf fr active_slots_def)
      have "\<exists>h. settle_buffer (head g) ?m e (queue_end g) g = (Inr (), h) \<and> flow_inv h \<and> frame g h \<and> slots h = slots g \<and>
          (\<exists>ps. published h = published g @ ps) \<and> (0 < buffer_capacity g \<longrightarrow> buffer_end h = e)"
      proof (rule settle_run [OF s1 g(5) s2(1) g(7) _ s2(3,2) s3])
        show "queue_at e (queue_end g) g" using g(8) st(3) by simp
        show "\<forall>s\<in>set (slots g). 0 \<le> slot_index s \<longrightarrow> ?m \<le> slot_index s \<and>
            slot_index s \<le> buffer_end g + (if buffer_capacity g = 0 then 1 else 0)"
          using idxm by (simp add: fr st cf)
        show "buffer_end g \<le> e" "e \<le> queue_end g" using g(2,3) st by simp_all
        show "min_collector_index g < ?m" using o(2) fr by simp
        show "?m \<le> buffer_end g + (if buffer_capacity g = 0 \<and> 0 < queue_size g then 1 else 0)"
          using lowest_index(1) [of f] by (simp add: fr st cf)
        show "e - buffer_end g \<le> max 0 (resume_count ?m g)" using g(2,9) True by (simp add: rc st)
        show "e - buffer_end g = resume_count ?m g \<or> (\<forall>j. e \<le> j \<and> j < queue_end g \<longrightarrow> get_buffer_at g j = No_Value)"
          using g(2,10) True by (auto simp: rc st)
        show "0 < buffer_capacity g \<Longrightarrow> n_collectors g \<noteq> 0 \<Longrightarrow> \<exists>s\<in>set (slots g). slot_index s = ?m"
          using tg by (simp add: fr cf)
      qed
      then obtain h where h: "settle_buffer (head g) ?m e (queue_end g) g = (Inr (), h)" "flow_inv h" "frame g h" "slots h = slots g"
        "\<exists>ps. published h = published g @ ps" by blast
      have "parked h" using aw h(4) fr(2) by (simp add: awake_def parked_def)
      then obtain i rs' where i: "find_slots_to_resume_locked (map Some rs @ replicate (nat ?k - length rs) None) h = (Inr rs', i)"
        "flow_inv i" "awake i" "published i = published h" "frame h i" "map slot_index (slots i) = map slot_index (slots h)"
        using find_slots_inv [OF h(2)] by metis
      have "update_collector_index_locked old f = (Inr rs', i)"
        unfolding run using True g(1) h(1) i(1) st by (simp add: bind_e_def seq_e_def)
      moreover have "frame f i" using frame_trans [OF frame_trans [OF fr(1) h(3)] i(5)] .
      moreover have "map slot_index (slots i) = map slot_index (slots f)" using i(6) h(4) fr(2) by simp
      moreover have "\<exists>ps. published i = published f @ ps" using i(4) h(5) ps by auto
      ultimately show ?thesis using i(2,3) by blast
    next
      case False
      have "\<exists>h. settle_buffer (head f) ?m ?be ?qe f = (Inr (), h) \<and> flow_inv h \<and> frame f h \<and> slots h = slots f \<and>
          (\<exists>ps. published h = published f @ ps) \<and> (0 < buffer_capacity f \<longrightarrow> buffer_end h = ?be)"
        by (rule settle_run [OF sz(2,1) d(12,13) cells(1-3) sz(3) nc idxm order_refl be(3) o(2) lowest_index(1)])
          (use False tg in auto)
      then obtain h where h: "settle_buffer (head f) ?m ?be ?qe f = (Inr (), h)" "flow_inv h" "frame f h" "slots h = slots f"
        "\<exists>ps. published h = published f @ ps" "0 < buffer_capacity f \<longrightarrow> buffer_end h = ?be" by blast
      have "update_collector_index_locked old f = (Inr [], h)"
        unfolding run using False h(1) by (simp add: bind_e_def seq_e_def return_e_def)
      moreover have "awake h" using aw h(3,4,6) by (simp add: awake_def parked_def frame_def)
      ultimately show ?thesis using h by auto
    qed
  qed
qed

subsection \<open>Every step keeps the invariant\<close>

definition good :: "'v flow \<Rightarrow> bool" where
  "good f \<longleftrightarrow> flow_inv f \<and> awake f"

lemma goodD: "good f \<Longrightarrow> flow_inv f" "good f \<Longrightarrow> awake f" "good f \<Longrightarrow> parked f"
  "good f \<Longrightarrow> inv_at (max (buffer_capacity f) 1) (replay f) f" "good f \<Longrightarrow> idle_ok f" "good f \<Longrightarrow> tight f"
  by (simp_all add: good_def flow_inv_def awake_def)

definition resume_state :: "nat option list \<Rightarrow> 'v flow \<Rightarrow> 'v flow" where
  "resume_state rs f = f\<lparr>resumed := resumed f @ concat (map (\<lambda>r. case r of Some k \<Rightarrow> [k] | None \<Rightarrow> []) rs)\<rparr>"

lemma resume_all_run: "resume_all rs f = (Inr (), resume_state rs f)"
  by (simp add: resume_all_def resume_state_def modify_e_def)

lemma resume_state_simps [simp]:
  "good (resume_state rs f) = good f" "flow_inv (resume_state rs f) = flow_inv f" "parked (resume_state rs f) = parked f"
  "published (resume_state rs f) = published f" "taken (resume_state rs f) = taken f"
  "slots (resume_state rs f) = slots f" "buffer_capacity (resume_state rs f) = buffer_capacity f"
  "n_collectors (resume_state rs f) = n_collectors f" "replay (resume_state rs f) = replay f"
  by (simp_all add: resume_state_def good_def)

text \<open>Emitting, then waking collectors.\<close>

lemma emit_then_wake:
  assumes "good f" "emits v f g"
  shows "\<exists>h rs. find_slots_to_resume_locked [] g = (Inr rs, h) \<and> good h \<and> taken h = taken f \<and>
    buffer_capacity h = buffer_capacity f \<and> replay h = replay f \<and> published h = published g \<and> (published h = published f \<or> published h = published f @ [Some v])"
proof -
  have "parked g" using assms by (auto simp: emits_def intro: moved_parked goodD)
  then obtain h rs where "find_slots_to_resume_locked [] g = (Inr rs, h)" "flow_inv h" "awake h" "published h = published g" "frame g h"
    using find_slots_inv assms(2) unfolding emits_def by blast
  then show ?thesis using assms(2) by (intro exI [of _ h] exI [of _ rs]) (auto simp: emits_def good_def frame_def)
qed

definition appends :: "'v flow \<Rightarrow> 'v flow \<Rightarrow> bool" where
  "appends f g \<longleftrightarrow> good g \<and> buffer_capacity g = buffer_capacity f \<and> replay g = replay f \<and> (\<exists>ps. published g = published f @ ps)"

lemma try_emit_good:
  assumes "good f"
  shows "appends f (snd (try_emit v f)) \<and> taken (snd (try_emit v f)) = taken f \<and>
    (fst (try_emit v f) = Inr True \<or> fst (try_emit v f) = Inr False \<or>
     fst (try_emit v f) = Inl (Runtime_Error ''Buffer size overflow'') \<and> total_size f = 2 ^ 30)"
  using goodD(1) [OF assms]
proof (cases rule: try_emit_locked_cases [of f v])
  case (emitted g)
  obtain h rs where h: "find_slots_to_resume_locked [] g = (Inr rs, h)" "good h" "taken h = taken f"
    "buffer_capacity h = buffer_capacity f" "replay h = replay f" "published h = published f \<or> published h = published f @ [Some v]"
    using emit_then_wake [OF assms emitted(2)] by blast
  have "try_emit v f = (Inr True, resume_state rs h)"
    using emitted(1) h(1) by (simp add: try_emit_def bind_e_def seq_e_def return_e_def resume_all_run)
  then show ?thesis using h by (auto simp: appends_def)
qed (use assms in \<open>auto simp: try_emit_def bind_e_def return_e_def appends_def\<close>)

text \<open>Queueing an emitter.\<close>

lemma queue_emitter_inv:
  assumes inv: "good f" and full: "n_collectors f \<noteq> 0" "buffer_capacity f \<le> buffer_size f" "min_collector_index f \<le> replay_index f"
    "on_buffer_overflow f = SUSPEND" and em: "e_index em = head f + total_size f"
  shows "(\<exists>b. enqueue_locked (Queued em) f = (Inr (), f\<lparr>buffer := b\<rparr>) \<and> good (f\<lparr>buffer := b, queue_size := queue_size f + 1\<rparr>)) \<or>
    overflows f (enqueue_locked (Queued em) f)"
proof -
  note i = goodD(4) [OF inv]
  note d = inv_atD [OF i]
  consider b where "enqueue_locked (Queued em) f = (Inr (), f\<lparr>buffer := Some b\<rparr>)" "ring_ok (f\<lparr>buffer := Some b\<rparr>)"
      "total_size f + 1 \<le> capacity_of (f\<lparr>buffer := Some b\<rparr>)"
      "get_buffer_at (f\<lparr>buffer := Some b\<rparr>) (head f + total_size f) = Queued em"
      "\<forall>i. head f \<le> i \<and> i < head f + total_size f \<longrightarrow> get_buffer_at (f\<lparr>buffer := Some b\<rparr>) i = get_buffer_at f i"
    | "overflows f (enqueue_locked (Queued em) f)"
    using enqueue_run [OF d(12,14,13), of "Queued em"] by blast
  then show ?thesis
  proof cases
    case (1 b)
    let ?g = "f\<lparr>buffer := Some b, queue_size := queue_size f + 1\<rparr>"
    have s: "head ?g = head f" "buffer_end ?g = buffer_end f" "queue_end ?g = queue_end f + 1" "total_size ?g = total_size f + 1"
      by (simp_all add: flow_sizes)
    have qe: "head f + total_size f = queue_end f" by (simp add: flow_sizes)
    have old: "get_buffer_at ?g j = get_buffer_at f j" if "head f \<le> j" "j < queue_end f" for j
      using 1(5) that qe by simp
    have "cells_ok ?g"
      unfolding cells_ok_iff s
    proof (intro conjI)
      show "published_to (buffer_end f) ?g"
        using i old d(5,7) by (simp add: inv_at_def cells_ok_iff published_to_def s)
      have q: "queue_at (buffer_end f) (queue_end f) f" using i by (simp add: inv_at_def cells_ok_iff)
      show "queue_at (buffer_end f) (queue_end f + 1) ?g"
        unfolding queue_at_def
      proof (intro allI impI)
        fix j assume j: "buffer_end f \<le> j \<and> j < queue_end f + 1"
        show "get_buffer_at ?g j = No_Value \<or> (\<exists>e. get_buffer_at ?g j = Queued e \<and> e_index e = j)"
        proof (cases "j = queue_end f")
          case True
          then show ?thesis using 1(4) qe em by simp
        next
          case False
          then show ?thesis using q j old [of j] d(4,6) by (simp add: queue_at_def)
        qed
      qed
      show "0 < buffer_capacity ?g \<longrightarrow> None \<notin> set (published ?g)" using i by (simp add: inv_at_def cells_ok_iff)
    qed
    moreover have "sizes_ok (max (buffer_capacity f) 1) (replay f) ?g"
      using i full d(7) by (simp add: inv_at_def sizes_ok_def s)
    moreover have "slots_ok ?g" "taken_ok ?g" "config_ok ?g"
      using i by (simp_all add: inv_at_def slots_ok_def s active_slots_def taken_ok_def config_ok_def)
    ultimately have "inv_at (max (buffer_capacity f) 1) (replay f) ?g" using 1(2,3) s(4) by (simp add: inv_at_def)
    moreover have "idle_ok ?g" "tight ?g" using goodD(6) [OF inv] full(1) by (simp_all add: idle_ok_def tight_def)
    moreover have "awake ?g" using goodD(2) [OF inv] by (simp add: awake_def parked_def s)
    ultimately have "good ?g" by (simp add: good_def flow_inv_def)
    then show ?thesis using 1(1) by blast
  qed blast
qed

lemma emit_suspend_good:
  assumes "good f"
  shows "appends f (snd (emit_suspend v k f)) \<and> taken (snd (emit_suspend v k f)) = taken f \<and>
    ((\<exists>r. fst (emit_suspend v k f) = Inr r) \<or>
     fst (emit_suspend v k f) = Inl (Runtime_Error ''Buffer size overflow'') \<and> total_size f = 2 ^ 30)"
  using goodD(1) [OF assms]
proof (cases rule: try_emit_locked_cases [of f v])
  case (emitted g)
  let ?g = "resume_state [Some k] g"
  have gi: "flow_inv ?g" "parked ?g"
    using emitted(2) moved_parked goodD(3) [OF assms] by (auto simp: emits_def)
  obtain h rs where h: "find_slots_to_resume_locked [] ?g = (Inr rs, h)" "flow_inv h" "awake h" "published h = published ?g" "frame ?g h"
    using find_slots_inv [OF gi] by blast
  have "emit_suspend v k f = (Inr None, resume_state rs h)"
    using emitted(1) h(1) by (simp add: emit_suspend_def bind_e_def seq_e_def return_e_def resume_all_run)
  moreover have "good h" using h(2,3) by (simp add: good_def)
  moreover have "buffer_capacity ?g = buffer_capacity f" "replay ?g = replay f" "taken ?g = taken f" "published ?g = published f \<or> published ?g = published f @ [Some v]"
    using emitted(2) by (auto simp: emits_def frame_def)
  ultimately show ?thesis using h(4,5) by (auto simp: appends_def frame_def)
next
  case suspend
  let ?em = "\<lparr>e_index = head f + total_size f, e_value = v, e_cont = k\<rparr>"
  consider b where "enqueue_locked (Queued ?em) f = (Inr (), f\<lparr>buffer := b\<rparr>)" "good (f\<lparr>buffer := b, queue_size := queue_size f + 1\<rparr>)"
    | "overflows f (enqueue_locked (Queued ?em) f)"
    using queue_emitter_inv [OF assms suspend(2-5), of ?em] by auto
  then show ?thesis
  proof cases
    case (1 b)
    let ?g = "f\<lparr>buffer := b, queue_size := queue_size f + 1\<rparr>"
    obtain h rs where h: "(if buffer_capacity f = 0 then find_slots_to_resume_locked [] else return_e []) ?g = (Inr rs, h)"
      "good h" "published h = published f" "taken h = taken f" "buffer_capacity h = buffer_capacity f" "replay h = replay f"
    proof (cases "buffer_capacity f = 0")
      case True
      obtain h rs where "find_slots_to_resume_locked [] ?g = (Inr rs, h)" "flow_inv h" "awake h" "published h = published ?g" "frame ?g h"
        using find_slots_inv [OF goodD(1,3) [OF 1(2)]] by blast
      then show ?thesis using that [of rs h] True by (simp add: good_def frame_def)
    next
      case False
      then show ?thesis using that [of "[]" ?g] 1(2) by (simp add: return_e_def)
    qed
    have "emit_suspend v k f = (Inr (Some ?em), resume_state rs h)"
      using suspend(1) 1(1) h(1) by (simp add: emit_suspend_def bind_e_def seq_e_def return_e_def read_e_def modify_e_def Let_def resume_all_run)
    then show ?thesis using h by (simp add: appends_def)
  next
    case 2
    then have "enqueue_locked (Queued ?em) f = (Inl (Runtime_Error ''Buffer size overflow''), f)" by (rule conjunct1)
    then have "emit_suspend v k f = (Inl (Runtime_Error ''Buffer size overflow''), f)"
      using suspend(1) by (simp add: emit_suspend_def bind_e_def seq_e_def read_e_def Let_def)
    then show ?thesis using 2 assms by (simp add: appends_def)
  qed
qed (use assms in \<open>auto simp: emit_suspend_def bind_e_def appends_def\<close>)

lemma set_slot_simps [simp]:
  "replay (set_slot i s f) = replay f" "buffer_capacity (set_slot i s f) = buffer_capacity f"
  "on_buffer_overflow (set_slot i s f) = on_buffer_overflow f" "n_collectors (set_slot i s f) = n_collectors f"
  "replay_index (set_slot i s f) = replay_index f" "min_collector_index (set_slot i s f) = min_collector_index f"
  "buffer_size (set_slot i s f) = buffer_size f" "queue_size (set_slot i s f) = queue_size f"
  "resumed (set_slot i s f) = resumed f" "published (set_slot i s f) = published f" "taken (set_slot i s f) = taken f"
  "slots (set_slot i s f) = (slots f)[i := s]" "head (set_slot i s f) = head f" "buffer_end (set_slot i s f) = buffer_end f"
  "queue_end (set_slot i s f) = queue_end f" "total_size (set_slot i s f) = total_size f"
  "get_buffer_at (set_slot i s f) = get_buffer_at f" "ring_ok (set_slot i s f) = ring_ok f" "capacity_of (set_slot i s f) = capacity_of f"
  by (simp_all add: set_slot_def flow_sizes)

text \<open>Changing one slot: only the clauses on slots are at stake.\<close>

lemma count_update:
  "i < length xs \<Longrightarrow> int (length (filter P (xs[i := x]))) = int (length (filter P xs)) + of_bool (P x) - of_bool (P (xs ! i))"
proof (induction xs arbitrary: i)
  case (Cons a xs)
  then show ?case by (cases i) (auto split: if_splits)
qed simp

lemma slot_change:
  assumes inv: "inv_at a r f" and i: "i < length (slots f)"
    and g: "g = (set_slot i s f)\<lparr>n_collectors := n_collectors f + of_bool (0 \<le> slot_index s) - of_bool (0 \<le> slot_index (slot_at i f)),
      taken := t\<rparr>"
    and s: "0 \<le> slot_index s \<Longrightarrow> min_collector_index f \<le> slot_index s \<and>
        slot_index s \<le> buffer_end f + (if buffer_capacity f = 0 then 1 else 0)"
    and t: "taken_ok g"
  shows "inv_at a r g"
proof -
  have same: "head g = head f" "buffer_end g = buffer_end f" "queue_end g = queue_end f" "total_size g = total_size f"
    by (simp_all add: g flow_sizes)
  have "slots_ok g"
    unfolding slots_ok_def
  proof (intro conjI ballI impI)
    have "n_collectors f = int (length (active_slots f))" using inv by (simp add: inv_at_def slots_ok_def)
    then show "n_collectors g = int (length (active_slots g))"
      using count_update [OF i, of "\<lambda>s. 0 \<le> slot_index s" s] by (simp add: g active_slots_def slot_at_def)
    fix u assume u: "u \<in> set (slots g)" "0 \<le> slot_index u"
    have "u = s \<or> u \<in> set (slots f)" using u(1) by (auto simp: g dest: set_update_subset_insert [THEN subsetD])
    then show "min_collector_index g \<le> slot_index u" "slot_index u \<le> buffer_end g + (if buffer_capacity g = 0 then 1 else 0)"
      using u(2) s inv same by (auto simp: g inv_at_def slots_ok_def)
  qed
  moreover have "cells_ok g" using inv by (simp add: inv_at_def cells_ok_def same) (simp add: g)
  moreover have "sizes_ok a r g" using inv by (simp add: inv_at_def sizes_ok_def same) (simp add: g)
  moreover have "config_ok g" "ring_ok g" "total_size g \<le> capacity_of g" using inv by (simp_all add: inv_at_def config_ok_def same) (simp_all add: g)
  ultimately show ?thesis using t by (simp add: inv_at_def)
qed

lemma slot_mem: "i < length (slots f) \<Longrightarrow> slot_at i f \<in> set (slots f)"
  by (simp add: slot_at_def)

text \<open>What a collector reads.\<close>

lemma peeked:
  assumes inv: "good f" and i: "i < length (slots f)" "0 \<le> slot_index (slot_at i f)" and p: "\<not> try_peek_locked (slot_at i f) f < 0"
  shows "try_peek_locked (slot_at i f) f = slot_index (slot_at i f)"
    and "\<exists>v. get_peeked_value_locked_at (slot_index (slot_at i f)) f = (Inr v, f) \<and>
      (0 < buffer_capacity f \<longrightarrow> slot_index (slot_at i f) < buffer_end f \<and>
        (\<exists>w. v = Some w \<and> published f ! nat (slot_index (slot_at i f)) = Some w))"
    and "slot_index (slot_at i f) < buffer_end f + (if buffer_capacity f = 0 then 1 else 0)"
proof -
  let ?x = "slot_index (slot_at i f)"
  note v = goodD(4) [OF inv]
  note d = inv_atD [OF v]
  have mx: "min_collector_index f \<le> ?x" "?x \<le> buffer_end f + (if buffer_capacity f = 0 then 1 else 0)"
    using v slot_mem [OF i(1)] i(2) by (auto simp: inv_at_def slots_ok_def)
  show tp: "try_peek_locked (slot_at i f) f = ?x" using p by (simp add: try_peek_locked_def split: if_splits)
  have cases: "?x < buffer_end f \<or> (buffer_capacity f = 0 \<and> ?x = buffer_end f \<and> 0 < queue_size f)"
  proof -
    have "0 \<le> buffer_capacity f" using v by (simp add: inv_at_def config_ok_def)
    then show ?thesis using p mx d by (auto simp: try_peek_locked_def split: if_splits)
  qed
  then show "?x < buffer_end f + (if buffer_capacity f = 0 then 1 else 0)" by auto
  have hd: "head f \<le> ?x" using mx(1) d(2) by simp
  have cells: "cells_ok f" using v by (simp add: inv_at_def)
  show "\<exists>v. get_peeked_value_locked_at ?x f = (Inr v, f) \<and>
      (0 < buffer_capacity f \<longrightarrow> ?x < buffer_end f \<and> (\<exists>w. v = Some w \<and> published f ! nat ?x = Some w))"
  proof (cases "?x < buffer_end f")
    case True
    then have g: "get_buffer_at f ?x = (case published f ! nat ?x of Some v \<Rightarrow> Boxed v | None \<Rightarrow> No_Value)"
      and l: "nat ?x < length (published f)"
      using cells hd d(1) by (auto simp: cells_ok_def)
    have "0 < buffer_capacity f \<Longrightarrow> published f ! nat ?x \<noteq> None"
      using cells l by (metis cells_ok_def nth_mem)
    then show ?thesis using True g
      by (cases "published f ! nat ?x") (auto simp: get_peeked_value_locked_at_def read_e_def return_e_def)
  next
    case False
    then have c: "buffer_capacity f = 0" "?x = buffer_end f" "0 < queue_size f" using cases by auto
    then have "get_buffer_at f ?x = No_Value \<or> (\<exists>e. get_buffer_at f ?x = Queued e \<and> e_index e = ?x)"
      using cells d(5) by (simp add: cells_ok_def)
    then show ?thesis using c by (auto simp: get_peeked_value_locked_at_def read_e_def return_e_def)
  qed
qed

lemma try_take_good:
  assumes inv: "good f" and i: "i < length (slots f)" "0 \<le> slot_index (slot_at i f)"
  shows "\<exists>v g. try_take_value i f = (Inr v, g) \<and> appends f g \<and>
    (0 < buffer_capacity f \<longrightarrow> (case v of None \<Rightarrow> slot_index (slot_at i f) = buffer_end f \<and> g = f
       | Some w \<Rightarrow> published f ! nat (slot_index (slot_at i f)) = Some w \<and> slot_index (slot_at i f) < buffer_end f \<and>
           slot_index (slot_at i g) = slot_index (slot_at i f) + 1))"
proof (cases "try_peek_locked (slot_at i f) f < 0")
  case True
  have "try_take_value i f = (Inr None, f)" using True by (simp add: try_take_value_def read_e_def return_e_def Let_def)
  moreover have "slot_index (slot_at i f) = buffer_end f" if "0 < buffer_capacity f"
  proof -
    have "slot_index (slot_at i f) \<le> buffer_end f"
      using goodD(4) [OF inv] slot_mem [OF i(1)] i(2) that by (auto simp: inv_at_def slots_ok_def)
    then show ?thesis using True i(2) by (simp add: try_peek_locked_def split: if_splits)
  qed
  ultimately show ?thesis using inv by (auto simp: appends_def)
next
  case False
  let ?x = "slot_index (slot_at i f)"
  note v = goodD(4) [OF inv]
  note d = inv_atD [OF v]
  obtain v where val: "get_peeked_value_locked_at ?x f = (Inr v, f)"
    "0 < buffer_capacity f \<longrightarrow> ?x < buffer_end f \<and> (\<exists>w. v = Some w \<and> published f ! nat ?x = Some w)"
    using peeked(2) [OF inv i False] by blast
  define t where "t = taken f @ (case v of Some w \<Rightarrow> [(i, ?x, w)] | None \<Rightarrow> [])"
  let ?s = "(slot_at i f)\<lparr>slot_index := ?x + 1\<rparr>"
  define g where "g = (set_slot i ?s f)\<lparr>taken := t\<rparr>"
  have g': "g = (set_slot i ?s f)\<lparr>n_collectors := n_collectors f + of_bool (0 \<le> slot_index ?s) - of_bool (0 \<le> ?x), taken := t\<rparr>"
    using i(2) by (simp add: g_def set_slot_def)
  have mx: "min_collector_index f \<le> ?x"
    using v slot_mem [OF i(1)] i(2) by (auto simp: inv_at_def slots_ok_def)
  have tk: "taken_ok g"
  proof -
    have "int (length (published f)) = buffer_end f" using v by (simp add: inv_at_def cells_ok_def)
    then show ?thesis
      using v val(2) i(2) by (cases v) (auto simp: inv_at_def taken_ok_def g_def t_def)
  qed
  have ig: "inv_at (max (buffer_capacity f) 1) (replay f) g"
    by (rule slot_change [OF v i(1) g' _ tk]) (use mx peeked(3) [OF inv i False] in auto)
  have cf: "buffer_capacity g = buffer_capacity f" "replay g = replay f" "published g = published f" "n_collectors g = n_collectors f"
    "min_collector_index g = min_collector_index f" "buffer_end g = buffer_end f" "queue_size g = queue_size f" "slots g = (slots f)[i := ?s]"
    by (simp_all add: g_def flow_sizes)
  have aw: "awake g"
  proof -
    have "0 \<le> slot_index u \<and> (0 < buffer_capacity f \<longrightarrow> buffer_end f \<le> slot_index u)"
      if u: "u \<in> set (slots g)" "slot_cont u \<noteq> None" for u
    proof (cases "u \<in> set (slots f)")
      case True
      then show ?thesis using goodD(2) [OF inv] u(2) by (simp add: awake_def parked_def)
    next
      case False
      then have "u = ?s" using u(1) cf(8) by (auto dest: set_update_subset_insert [THEN subsetD])
      then have "slot_cont (slot_at i f) \<noteq> None" using u(2) by simp
      then have "0 < buffer_capacity f \<longrightarrow> buffer_end f \<le> ?x"
        using goodD(2) [OF inv] slot_mem [OF i(1)] by (auto simp: awake_def)
      then show ?thesis using \<open>u = ?s\<close> i(2) by auto
    qed
    then show ?thesis by (simp add: awake_def parked_def cf)
  qed
  have later: "idle_ok g \<and> tight g" if l: "min_collector_index g < ?x"
  proof -
    have "idle_ok g" using goodD(5) [OF inv] by (simp add: idle_ok_def cf)
    moreover have "tight g"
      unfolding tight_def
    proof
      assume "0 < buffer_capacity g \<and> n_collectors g \<noteq> 0"
      then obtain u where u: "u \<in> set (slots f)" "slot_index u = min_collector_index f"
        using goodD(6) [OF inv] by (auto simp: tight_def cf)
      then obtain j where j: "j < length (slots f)" "slots f ! j = u" by (auto simp: in_set_conv_nth)
      then have "j \<noteq> i" using u(2) l cf(5) by (auto simp: slot_at_def)
      then have "u \<in> set (slots g)" using j cf(8) by (metis length_list_update nth_list_update_neq nth_mem)
      then show "\<exists>s\<in>set (slots g). slot_index s = min_collector_index g" using u(2) cf(5) by auto
    qed
    ultimately show ?thesis by simp
  qed
  obtain h rs where h: "update_collector_index_locked ?x g = (Inr rs, h)" "flow_inv h" "awake h" "frame g h"
    "map slot_index (slots h) = map slot_index (slots g)" "\<exists>ps. published h = published g @ ps"
    using update_collector_inv [OF _ aw, of ?x] ig mx later cf by metis
  have "try_take_value i f = (Inr v, resume_state rs h)"
    using False val(1) h(1) peeked(1) [OF inv i False]
    by (simp add: try_take_value_def read_e_def bind_e_def seq_e_def modify_e_def return_e_def Let_def resume_all_run
        g_def t_def cong: option.case_cong)
  moreover have "good h" using h(2,3) by (simp add: good_def)
  then have "appends f (resume_state rs h)"
    using h(4,6) cf by (auto simp: appends_def frame_def)
  moreover have "slot_index (slot_at i (resume_state rs h)) = ?x + 1"
  proof -
    have l: "length (slots h) = length (slots f)" using h(5) cf(8) by (metis length_list_update length_map)
    have "map slot_index (slots h) ! i = map slot_index (slots g) ! i" using h(5) by simp
    then show ?thesis using i(1) l cf(8) by (simp add: slot_at_def)
  qed
  ultimately show ?thesis using val(2) by (intro exI [of _ v] exI [of _ "resume_state rs h"]) auto
qed

lemma await_good:
  assumes inv: "good f" and i: "i < length (slots f)" "0 \<le> slot_index (slot_at i f)"
  shows "appends f (await_value i k f) \<and> map slot_index (slots (await_value i k f)) = map slot_index (slots f)"
proof (cases "try_peek_locked (slot_at i f) f < 0")
  case True
  let ?s = "(slot_at i f)\<lparr>slot_cont := Some k\<rparr>"
  let ?g = "set_slot i ?s f"
  have m: "map slot_index ((slots f)[i := ?s]) = map slot_index (slots f)"
    using i(1) by (simp add: map_update slot_at_def list_update_same_conv)
  then have "flow_inv ?g" using slots_update(4) [of "(slots f)[i := ?s]" f] goodD(1) [OF inv] by (simp add: set_slot_def)
  moreover have "awake ?g"
  proof -
    have "0 \<le> slot_index u \<and> (0 < buffer_capacity f \<longrightarrow> buffer_end f \<le> slot_index u)"
      if u: "u \<in> set (slots ?g)" "slot_cont u \<noteq> None" for u
    proof (cases "u \<in> set (slots f)")
      case True
      then show ?thesis using goodD(2) [OF inv] u(2) by (simp add: awake_def parked_def)
    next
      case False
      then have "u = ?s" using u(1) by (auto dest: set_update_subset_insert [THEN subsetD])
      then show ?thesis using True i(2) by (simp add: try_peek_locked_def split: if_splits)
    qed
    then show ?thesis by (simp add: awake_def parked_def)
  qed
  ultimately show ?thesis using True m by (simp add: await_value_def appends_def good_def)
qed (use inv in \<open>simp add: await_value_def appends_def good_def\<close>)

definition collector_arrives :: "nat \<Rightarrow> 'v flow \<Rightarrow> 'v flow" where
  "collector_arrives i f = (case allocate_locked i f of
     (Inr True, g) \<Rightarrow> g\<lparr>n_collectors := n_collectors g + 1\<rparr> | (_, g) \<Rightarrow> g)"

definition collector_leaves :: "nat \<Rightarrow> 'v flow \<Rightarrow> 'v flow" where
  "collector_leaves i f = (case free_locked i (f\<lparr>n_collectors := n_collectors f - 1\<rparr>) of
     (Inr rs, g) \<Rightarrow> resume_state rs g | (_, g) \<Rightarrow> g)"

lemma lower_min:
  assumes inv: "inv_at a r f" and l: "replay_index f < min_collector_index f"
  shows "inv_at a r (f\<lparr>min_collector_index := replay_index f\<rparr>)"
proof -
  let ?g = "f\<lparr>min_collector_index := replay_index f\<rparr>"
  have s: "head ?g = head f" "buffer_end ?g = buffer_end f" "queue_end ?g = queue_end f" "total_size ?g = total_size f"
    using l by (simp_all add: flow_sizes)
  have "cells_ok ?g" using inv by (simp add: inv_at_def cells_ok_def s)
  moreover have "sizes_ok a r ?g" using inv by (simp add: inv_at_def sizes_ok_def s)
  moreover have "slots_ok ?g" using inv l by (auto simp: inv_at_def slots_ok_def s active_slots_def)
  ultimately show ?thesis using inv s by (simp add: inv_at_def config_ok_def taken_ok_def)
qed

lemma arrive_good:
  assumes inv: "good f" and i: "i < length (slots f)"
  shows "appends f (collector_arrives i f)"
proof (cases "0 \<le> slot_index (slot_at i f)")
  case True
  then show ?thesis using inv by (simp add: collector_arrives_def allocate_locked_def read_e_def return_e_def appends_def)
next
  case False
  note v = goodD(4) [OF inv]
  note d = inv_atD [OF v]
  let ?r = "replay_index f"
  define f1 where "f1 = (if ?r < min_collector_index f then f\<lparr>min_collector_index := ?r\<rparr> else f)"
  have f1: "inv_at (max (buffer_capacity f) 1) (replay f) f1" by (simp add: f1_def lower_min [OF v] v)
  have s1: "slots f1 = slots f" "n_collectors f1 = n_collectors f" "taken f1 = taken f" "published f1 = published f"
    "buffer_capacity f1 = buffer_capacity f" "replay f1 = replay f" "replay_index f1 = ?r" "min_collector_index f1 = min (min_collector_index f) ?r"
    "buffer_end f1 = buffer_end f"
    using d(2,3) by (auto simp: f1_def flow_sizes)
  let ?s = "(slot_at i f)\<lparr>slot_index := ?r\<rparr>"
  define g where "g = (set_slot i ?s f1)\<lparr>n_collectors := n_collectors f + 1\<rparr>"
  have ri: "0 \<le> ?r" "?r \<le> buffer_end f" using d(1,3,9) by simp_all
  have i1: "i < length (slots f1)" "slot_at i f1 = slot_at i f" using i s1(1) by (simp_all add: slot_at_def)
  have g': "g = (set_slot i ?s f1)\<lparr>n_collectors := n_collectors f1 + of_bool (0 \<le> slot_index ?s) - of_bool (0 \<le> slot_index (slot_at i f1)),
      taken := taken f1\<rparr>"
    using False ri(1) by (simp add: g_def s1 i1(2))
  have tk: "taken_ok g" using f1 by (simp add: inv_at_def taken_ok_def g_def)
  have "inv_at (max (buffer_capacity f) 1) (replay f) g"
    by (rule slot_change [OF f1 i1(1) g' _ tk]) (use ri s1 in auto)
  moreover have n: "n_collectors g \<noteq> 0" using v by (simp add: g_def inv_at_def slots_ok_def)
  moreover have "tight g"
  proof -
    have sg: "slots g = (slots f)[i := ?s]" "min_collector_index g = min (min_collector_index f) ?r" by (simp_all add: g_def s1)
    have mem: "?s \<in> set (slots g)" using i sg(1) by (simp add: set_update_memI)
    have "\<exists>s\<in>set (slots g). slot_index s = min_collector_index g" if c: "0 < buffer_capacity f"
    proof (cases "?r \<le> min_collector_index f")
      case True
      then show ?thesis using mem sg(2) by (intro bexI [OF _ mem]) simp
    next
      case low: False
      then have "n_collectors f \<noteq> 0" using goodD(5) [OF inv] c ri(2) by (auto simp: idle_ok_def)
      then obtain u where u: "u \<in> set (slots f)" "slot_index u = min_collector_index f"
        using goodD(6) [OF inv] c by (auto simp: tight_def)
      then obtain j where j: "j < length (slots f)" "slots f ! j = u" by (auto simp: in_set_conv_nth)
      have "0 \<le> slot_index u" using u(2) d(1,2) by simp
      then have "j \<noteq> i" using False j by (auto simp: slot_at_def)
      then have "u \<in> set (slots g)" using j sg(1) by (metis length_list_update nth_list_update_neq nth_mem)
      then show ?thesis using u(2) sg(2) low by (intro bexI [of _ u]) simp_all
    qed
    then show ?thesis by (simp add: tight_def g_def s1)
  qed
  moreover have "idle_ok g" using n by (simp add: idle_ok_def)
  moreover have "awake g"
  proof -
    have "u \<in> set (slots f)" if "u \<in> set (slots g)" "slot_cont u \<noteq> None" for u
    proof (rule ccontr)
      assume "u \<notin> set (slots f)"
      then have "u = ?s" using that(1) by (auto simp: g_def s1 dest: set_update_subset_insert [THEN subsetD])
      then have "slot_cont (slot_at i f) \<noteq> None" using that(2) by simp
      then show False using goodD(3) [OF inv] slot_mem [OF i] False by (simp add: parked_def)
    qed
    moreover have "buffer_end g = buffer_end f" "buffer_capacity g = buffer_capacity f" using s1(9) by (simp_all add: g_def s1 flow_sizes)
    ultimately show ?thesis using goodD(2) [OF inv] by (simp add: awake_def parked_def)
  qed
  moreover have "collector_arrives i f = g"
    using False by (simp add: collector_arrives_def allocate_locked_def update_new_collector_index_locked_def read_e_def
        bind_e_def seq_e_def modify_e_def return_e_def g_def f1_def slot_at_def)
  ultimately show ?thesis by (simp add: appends_def good_def flow_inv_def g_def s1)
qed

lemma leave_good:
  assumes inv: "good f" and i: "i < length (slots f)" "0 \<le> slot_index (slot_at i f)"
  shows "appends f (collector_leaves i f) \<and> (\<exists>rs g. free_locked i (f\<lparr>n_collectors := n_collectors f - 1\<rparr>) = (Inr rs, g))"
proof -
  note v = goodD(4) [OF inv]
  let ?x = "slot_index (slot_at i f)" and ?s = "\<lparr>slot_index = -1, slot_cont = None\<rparr>"
  define g where "g = (set_slot i ?s f)\<lparr>n_collectors := n_collectors f - 1\<rparr>"
  have g': "g = (set_slot i ?s f)\<lparr>n_collectors := n_collectors f + of_bool (0 \<le> slot_index ?s) - of_bool (0 \<le> ?x), taken := taken f\<rparr>"
    using i(2) by (simp add: g_def)
  have tk: "taken_ok g" using v by (simp add: inv_at_def taken_ok_def g_def)
  have ig: "inv_at (max (buffer_capacity f) 1) (replay f) g"
    by (rule slot_change [OF v i(1) g' _ tk]) simp
  have cf: "buffer_capacity g = buffer_capacity f" "replay g = replay f" "published g = published f" "n_collectors g = n_collectors f - 1"
    "min_collector_index g = min_collector_index f" "buffer_end g = buffer_end f" "slots g = (slots f)[i := ?s]"
    by (simp_all add: g_def flow_sizes)
  have sub: "u = ?s \<or> u \<in> set (slots f)" if "u \<in> set (slots g)" for u
    using that cf(7) by (auto dest: set_update_subset_insert [THEN subsetD])
  have mx: "min_collector_index f \<le> ?x"
    using v slot_mem [OF i(1)] i(2) by (auto simp: inv_at_def slots_ok_def)
  have aw: "awake g"
    using goodD(2) [OF inv] sub by (fastforce simp: awake_def parked_def cf)
  have later: "idle_ok g \<and> tight g" if l: "min_collector_index g < ?x"
  proof (cases "0 < buffer_capacity f")
    case True
    have "n_collectors f \<noteq> 0" using active_visited(2) [OF v slot_mem [OF i(1)] i(2)] .
    then obtain u where u: "u \<in> set (slots f)" "slot_index u = min_collector_index f"
      using goodD(6) [OF inv] True by (auto simp: tight_def)
    then obtain j where j: "j < length (slots f)" "slots f ! j = u" by (auto simp: in_set_conv_nth)
    then have "j \<noteq> i" using u(2) l cf(5) by (auto simp: slot_at_def)
    then have ug: "u \<in> set (slots g)" using j cf(7) by (metis length_list_update nth_list_update_neq nth_mem)
    moreover have "0 \<le> slot_index u" using u(2) inv_atD(1,2) [OF v] by simp
    ultimately have "n_collectors g \<noteq> 0" using active_visited(2) [OF ig] by blast
    then show ?thesis using ug u(2) cf(5) by (auto simp: idle_ok_def tight_def)
  next
    case False
    then show ?thesis by (simp add: idle_ok_def tight_def cf)
  qed
  obtain h rs where h: "update_collector_index_locked ?x g = (Inr rs, h)" "flow_inv h" "awake h" "frame g h"
    "\<exists>ps. published h = published g @ ps"
    using update_collector_inv [OF _ aw, of ?x] ig mx later cf by metis
  have st: "slot_at i (f\<lparr>n_collectors := n\<rparr>) = slot_at i f" "set_slot i ?s (f\<lparr>n_collectors := n_collectors f - 1\<rparr>) = g" for n
    by (simp_all add: slot_at_def set_slot_def g_def)
  have "free_locked i (f\<lparr>n_collectors := n_collectors f - 1\<rparr>) = (Inr rs, h)"
    using i(2) h(1) by (simp add: free_locked_def read_e_def seq_e_def bind_e_def modify_e_def Let_def st)
  moreover have "good h" using h(2,3) by (simp add: good_def)
  ultimately show ?thesis using h(4,5) cf by (auto simp: collector_leaves_def appends_def frame_def)
qed

text \<open>Cancelling a queued emitter, clearing the replay cache, making room for one more collector.\<close>

lemma get_set_ring:
  assumes "ring_ok f"
  shows "get_buffer_at (set_buffer_at i c f) j = get_buffer_at f j \<or>
    (get_buffer_at (set_buffer_at i c f) j = c \<and> get_buffer_at f j = get_buffer_at f i)"
proof (cases "buffer f")
  case (Some b)
  then have "ring_index i (length b) < length b" using assms ring_index_less by (auto simp: ring_ok_def)
  then show ?thesis using Some
    by (cases "ring_index i (length b) = ring_index j (length b)") (simp_all add: get_buffer_at_def set_buffer_at_def)
qed (simp add: get_buffer_at_def set_buffer_at_def)

lemma cancel_emitter_good:
  assumes inv: "good f"
  shows "appends f (cancel_emitter em f) \<and> taken (cancel_emitter em f) = taken f \<and> published (cancel_emitter em f) = published f"
proof (cases "e_index em < head f \<or> buffer f = None \<or> get_buffer_at f (e_index em) \<noteq> Queued em")
  case True
  then have "cancel_emitter em f = f" by (auto simp: cancel_emitter_def)
  then show ?thesis using inv by (simp add: appends_def)
next
  case False
  note v = goodD(4) [OF inv]
  note d = inv_atD [OF v]
  let ?g = "set_buffer_at (e_index em) No_Value f"
  have cells: "get_buffer_at ?g j = get_buffer_at f j \<or> (get_buffer_at ?g j = No_Value \<and> get_buffer_at f j = Queued em)" for j
    using get_set_ring [OF d(12), of "e_index em" No_Value j] False by auto
  obtain h where h: "cleanup_tail_locked ?g = h" "0 \<le> queue_size h" "queue_size h \<le> queue_size f" "ring_ok h"
    "capacity_of h = capacity_of f" "frame f h" "slots h = slots f" "published h = published f"
    "replay_index h = replay_index f" "min_collector_index h = min_collector_index f" "buffer_size h = buffer_size f"
    "\<forall>i. head f \<le> i \<and> i < buffer_end f + queue_size h \<longrightarrow> get_buffer_at h i = get_buffer_at ?g i"
    using cleanup_run [of ?g] d by (auto simp: frame_def)
  have s: "head h = head f" "buffer_end h = buffer_end f" "queue_end h = buffer_end f + queue_size h"
    "total_size h \<le> total_size f"
    using h(3,9-11) by (simp_all add: flow_sizes)
  have old: "cells_ok f" using v by (simp add: inv_at_def)
  have "cells_ok h"
    unfolding cells_ok_def
  proof (intro conjI allI impI)
    fix i assume i: "head h \<le> i \<and> i < buffer_end h"
    then have f: "get_buffer_at f i = (case published f ! nat i of Some v \<Rightarrow> Boxed v | None \<Rightarrow> No_Value)"
      using old s by (simp add: cells_ok_def)
    then have "get_buffer_at f i \<noteq> Queued em" by (simp split: option.split)
    then have "get_buffer_at h i = get_buffer_at f i" using cells [of i] h(2,12) i s by simp
    then show "get_buffer_at h i = (case published h ! nat i of Some v \<Rightarrow> Boxed v | None \<Rightarrow> No_Value)" using f h(8) by simp
  next
    fix i assume i: "buffer_end h \<le> i \<and> i < queue_end h"
    then have "get_buffer_at f i = No_Value \<or> (\<exists>e. get_buffer_at f i = Queued e \<and> e_index e = i)"
      using old s h(3) d(5) by (simp add: cells_ok_def)
    moreover have "get_buffer_at h i = get_buffer_at ?g i" using h(12) i s d(4,6) by simp
    ultimately show "get_buffer_at h i = No_Value \<or> (\<exists>e. get_buffer_at h i = Queued e \<and> e_index e = i)"
      using cells [of i] by auto
  qed (use old h(6,8) s in \<open>simp_all add: cells_ok_def frame_def\<close>)
  moreover have "sizes_ok (max (buffer_capacity f) 1) (replay f) h"
    using v h(2,3,6,9-11) s by (auto simp: inv_at_def sizes_ok_def frame_def)
  moreover have "slots_ok h" "taken_ok h" "config_ok h"
    using v h(6-8,10) s by (simp_all add: inv_at_def slots_ok_def active_slots_def taken_ok_def config_ok_def frame_def)
  ultimately have "inv_at (max (buffer_capacity f) 1) (replay f) h" using h(4,5) s(4) d(13) by (simp add: inv_at_def)
  moreover have "idle_ok h" "tight h" using goodD(5,6) [OF inv] h(2,3,6,7,10) s by (auto simp: idle_ok_def tight_def frame_def)
  moreover have "awake h" using goodD(2) [OF inv] h(6,7) s by (simp add: awake_def parked_def frame_def)
  moreover have "cancel_emitter em f = h" using False h(1) by (auto simp: cancel_emitter_def)
  ultimately show ?thesis using h(6,8) by (simp add: appends_def good_def flow_inv_def frame_def)
qed

lemma reset_replay_good:
  assumes inv: "good f"
  shows "\<exists>g. reset_replay_cache f = (Inr (), g) \<and> appends f g \<and> taken g = taken f \<and> published g = published f \<and>
    replay_size g = 0 \<and> slots g = slots f"
proof -
  note v = goodD(4) [OF inv]
  note d = inv_atD [OF v]
  let ?h = "min (min_collector_index f) (buffer_end f)"
  have h: "head f \<le> ?h" using d(2,6,4) by simp
  obtain g where g: "update_buffer_locked (buffer_end f) (min_collector_index f) (buffer_end f) (queue_end f) f = (Inr (), g)"
    "replay_index g = buffer_end f" "min_collector_index g = min_collector_index f"
    "buffer_size g = buffer_end f - ?h" "queue_size g = queue_end f - buffer_end f" "head g = ?h" "buffer_end g = buffer_end f"
    "queue_end g = queue_end f" "total_size g = queue_end f - ?h" "frame f g" "slots g = slots f" "published g = published f"
    "ring_ok g" "capacity_of g = capacity_of f"
    "\<forall>j. ?h \<le> j \<and> j < head f + capacity_of f \<longrightarrow> get_buffer_at g j = get_buffer_at f j"
    using update_buffer_run [OF d(12) h, of "buffer_end f" "queue_end f"] d by auto
  have old: "get_buffer_at g j = get_buffer_at f j" if "head g \<le> j" "j < buffer_end f \<or> j < queue_end g" for j
  proof -
    have "j < head f + capacity_of f" using that(2) g(8) d(4,5,7,13,15) by linarith
    then show ?thesis using that(1) g(6,15) by simp
  qed
  have new: "cells_ok f" "buffer_capacity g = buffer_capacity f" "queue_end g \<le> queue_end f" "head f \<le> head g" "head g \<le> buffer_end f"
    using v g(6,8,10) h by (simp_all only: inv_at_def frame_def)
  have "cells_ok g" by (rule cells_shrink [OF new(1) g(12) new(2) g(7) new(3,4) old new(5)])
  moreover have "sizes_ok (max (buffer_capacity f) 1) (replay f) g"
  proof -
    have "0 < queue_size f \<longrightarrow> 0 < buffer_capacity f \<longrightarrow> min_collector_index f \<le> replay_index f \<and> buffer_capacity f \<le> buffer_size f"
      using v by (simp add: inv_at_def sizes_ok_def)
    moreover have "head f = min_collector_index f" if "min_collector_index f \<le> replay_index f" using that by (simp add: head_def)
    ultimately show ?thesis
      using v d h g(2-10) by (simp add: inv_at_def sizes_ok_def frame_def config_ok_def)
  qed
  moreover have "slots_ok g" using v g(3,7,10,11) by (simp add: inv_at_def slots_ok_def active_slots_def frame_def)
  moreover have "taken_ok g" "config_ok g" using v g(10,12) by (simp_all add: inv_at_def taken_ok_def config_ok_def frame_def)
  moreover have "total_size g \<le> capacity_of g" using g(9,14) d(5,4,13,15) h by linarith
  ultimately have "inv_at (max (buffer_capacity f) 1) (replay f) g" using g(13) by (simp add: inv_at_def)
  moreover have "idle_ok g" "tight g" "awake g"
    using goodD(2,5,6) [OF inv] g(3,5,7,10,11) d(5) by (auto simp: idle_ok_def tight_def awake_def parked_def frame_def)
  moreover have "reset_replay_cache f = (Inr (), g)" using g(1) by (simp add: reset_replay_cache_def read_e_def)
  moreover have "replay_size g = 0" using g(2,4,6) by (simp add: replay_size_def)
  ultimately show ?thesis using g(10-12) by (simp add: appends_def good_def flow_inv_def frame_def)
qed

definition new_slot :: "'v flow \<Rightarrow> 'v flow" where
  "new_slot f = f\<lparr>slots := slots f @ [\<lparr>slot_index = -1, slot_cont = None\<rparr>]\<rparr>"

lemma new_slot_good:
  assumes inv: "good f"
  shows "appends f (new_slot f)"
proof -
  let ?g = "new_slot f"
  have s: "head ?g = head f" "buffer_end ?g = buffer_end f" "queue_end ?g = queue_end f" "total_size ?g = total_size f"
    "get_buffer_at ?g = get_buffer_at f" "ring_ok ?g = ring_ok f" "capacity_of ?g = capacity_of f" "active_slots ?g = active_slots f"
    by (simp_all add: new_slot_def flow_sizes active_slots_def)
  have "slots_ok ?g"
    using goodD(4) [OF inv] unfolding inv_at_def slots_ok_def s by (auto simp: new_slot_def)
  moreover have "cells_ok ?g" using goodD(4) [OF inv] unfolding inv_at_def cells_ok_def s by (simp add: new_slot_def)
  moreover have "sizes_ok (max (buffer_capacity f) 1) (replay f) ?g"
    using goodD(4) [OF inv] unfolding inv_at_def sizes_ok_def s by (simp add: new_slot_def)
  moreover have "taken_ok ?g" "config_ok ?g"
    using goodD(4) [OF inv] by (simp_all add: inv_at_def taken_ok_def config_ok_def new_slot_def)
  ultimately have "inv_at (max (buffer_capacity f) 1) (replay f) ?g" using goodD(4) [OF inv] by (simp add: inv_at_def s)
  moreover have "idle_ok ?g" using goodD(5) [OF inv] unfolding idle_ok_def s by (simp add: new_slot_def)
  moreover have "tight ?g" using goodD(6) [OF inv] by (auto simp: tight_def new_slot_def)
  moreover have "awake ?g" using goodD(2) [OF inv] unfolding awake_def parked_def s by (auto simp: new_slot_def)
  ultimately show ?thesis by (simp add: appends_def good_def flow_inv_def) (simp add: new_slot_def)
qed

subsection \<open>Histories\<close>

text \<open>What may happen to a flow: slots are allocated, collectors arrive and leave, values are emitted
  with and without suspending, a suspended emitter is cancelled, a collector tries to take the value
  at its index or parks, the replay cache is cleared. A collector's steps happen between its arrival
  and its departure.\<close>

datatype 'v flow_op = F_New_Slot | F_Subscribe nat | F_Unsubscribe nat | F_Try_Emit 'v | F_Emit_Suspend 'v nat
  | F_Cancel "'v emitter" | F_Take nat | F_Await nat nat | F_Reset_Replay

definition subscribed :: "nat \<Rightarrow> 'v flow \<Rightarrow> bool" where
  "subscribed i f \<longleftrightarrow> i < length (slots f) \<and> 0 \<le> slot_index (slot_at i f)"

definition ignore_e :: "('s, 'a) exec \<Rightarrow> ('s, unit) exec" where
  "ignore_e m = bind_e m (\<lambda>_. return_e ())"

fun flow_step :: "'v flow_op \<Rightarrow> ('v flow, unit) exec" where
  "flow_step F_New_Slot = modify_e new_slot"
| "flow_step (F_Subscribe i) = modify_e (\<lambda>f. if i < length (slots f) then collector_arrives i f else f)"
| "flow_step (F_Unsubscribe i) = read_e (\<lambda>f. if subscribed i f
     then seq_e (modify_e (\<lambda>f. f\<lparr>n_collectors := n_collectors f - 1\<rparr>)) (bind_e (free_locked i) resume_all)
     else return_e ())"
| "flow_step (F_Try_Emit v) = ignore_e (try_emit v)"
| "flow_step (F_Emit_Suspend v k) = ignore_e (emit_suspend v k)"
| "flow_step (F_Cancel em) = modify_e (cancel_emitter em)"
| "flow_step (F_Take i) = read_e (\<lambda>f. if subscribed i f then ignore_e (try_take_value i) else return_e ())"
| "flow_step (F_Await i k) = modify_e (\<lambda>f. if subscribed i f then await_value i k f else f)"
| "flow_step F_Reset_Replay = reset_replay_cache"

definition flow_run :: "'v flow_op list \<Rightarrow> 'v flow \<Rightarrow> 'v flow" where
  "flow_run ops f = fold (\<lambda>op f. snd (flow_step op f)) ops f"

lemma ignore_run: "fst (ignore_e m f) = (case fst (m f) of Inl e \<Rightarrow> Inl e | Inr _ \<Rightarrow> Inr ())" "snd (ignore_e m f) = snd (m f)"
  by (cases "m f"; cases "fst (m f)"; auto simp: ignore_e_def bind_e_def return_e_def)+

definition safe_result :: "'v flow \<Rightarrow> unit res \<Rightarrow> bool" where
  "safe_result f r \<longleftrightarrow> r = Inr () \<or> r = Inl (Runtime_Error ''Buffer size overflow'') \<and> total_size f = 2 ^ 30"

lemma flow_step_good:
  assumes "good f"
  shows "appends f (snd (flow_step op f)) \<and> safe_result f (fst (flow_step op f))"
proof -
  have same: "appends f f" using assms by (simp add: appends_def)
  show ?thesis
  proof (cases op)
    case (F_Unsubscribe i)
    then show ?thesis
    proof (cases "subscribed i f")
      case True
      then have i: "i < length (slots f)" "0 \<le> slot_index (slot_at i f)" by (simp_all add: subscribed_def)
      obtain rs g where g: "free_locked i (f\<lparr>n_collectors := n_collectors f - 1\<rparr>) = (Inr rs, g)" using leave_good [OF assms i] by blast
      then have "flow_step op f = (Inr (), collector_leaves i f)"
        using True F_Unsubscribe by (simp add: read_e_def seq_e_def bind_e_def modify_e_def resume_all_run collector_leaves_def)
      then show ?thesis using leave_good [OF assms i] by (simp add: safe_result_def)
    qed (use assms in \<open>simp add: exec_simps appends_def safe_result_def\<close>)
  next
    case (F_Take i)
    then show ?thesis
    proof (cases "subscribed i f")
      case True
      then have i: "i < length (slots f)" "0 \<le> slot_index (slot_at i f)" by (simp_all add: subscribed_def)
      then obtain v g where "try_take_value i f = (Inr v, g)" "appends f g" using try_take_good [OF assms i] by blast
      then show ?thesis using F_Take True by (simp add: read_e_def ignore_run safe_result_def)
    qed (use assms in \<open>simp add: exec_simps appends_def safe_result_def\<close>)
  next
    case (F_Try_Emit v)
    then show ?thesis using try_emit_good [OF assms, of v] by (auto simp: ignore_run safe_result_def split: sum.split)
  next
    case (F_Emit_Suspend v k)
    then show ?thesis using emit_suspend_good [OF assms, of v k] by (auto simp: ignore_run safe_result_def split: sum.split)
  next
    case F_Reset_Replay
    then show ?thesis using reset_replay_good [OF assms] by (auto simp: safe_result_def)
  next
    case (F_Await i k)
    then show ?thesis using await_good [OF assms, of i k] same by (simp add: modify_e_def safe_result_def subscribed_def)
  qed (use new_slot_good [OF assms] arrive_good [OF assms] cancel_emitter_good [OF assms] same in
    \<open>simp_all add: modify_e_def safe_result_def\<close>)
qed

lemma flow_run_good:
  assumes "good f"
  shows "appends f (flow_run ops f)"
  using assms
proof (induction ops arbitrary: f)
  case Nil
  then show ?case by (simp add: flow_run_def appends_def)
next
  case (Cons op ops)
  let ?g = "snd (flow_step op f)"
  have g: "appends f ?g" using flow_step_good [OF Cons.prems] by blast
  then have "appends ?g (flow_run ops ?g)" by (intro Cons.IH) (simp add: appends_def)
  then show ?case using g by (auto simp: appends_def flow_run_def)
qed

lemma new_flow_good:
  assumes "make_mutable_shared_flow r extra p = Inr f"
  shows "good f" "replay f = r" "buffer_capacity f = r + extra" "on_buffer_overflow f = p" "taken f = []"
proof -
  have a: "0 \<le> r" "0 \<le> extra" "0 < r + extra \<or> p = SUSPEND" and f: "f = new_flow r (r + extra) p"
    using assms by (auto simp: make_mutable_shared_flow_def split: if_splits)
  then show "replay f = r" "buffer_capacity f = r + extra" "on_buffer_overflow f = p" "taken f = []" by (simp_all add: new_flow_def)
  show "good f"
    unfolding good_def flow_inv_def inv_at_def
    using a by (auto simp: f new_flow_def config_ok_def sizes_ok_def ring_ok_def capacity_of_def cells_ok_def slots_ok_def
        active_slots_def taken_ok_def idle_ok_def tight_def awake_def parked_def flow_sizes)
qed

subsection \<open>Properties\<close>

definition buffer_is_full :: "'v flow \<Rightarrow> bool" where
  "buffer_is_full f \<longleftrightarrow> buffer_capacity f \<le> buffer_size f \<and> min_collector_index f \<le> replay_index f"

definition window :: "'v flow \<Rightarrow> 'v cell list" where
  "window f = map (get_buffer_at f) [head f..queue_end f - 1]"

lemma window_snoc: "a \<le> b + 1 \<Longrightarrow> [a..b + 1] = [a..b] @ [b + (1::int)]"
  using upto_rec2 [of a "b + 1"] by simp

text \<open>The ring buffer implements the sequence of its cells from the head to the end of the queue. Adding a cell
  appends to that sequence, wherever the indices fall in the array and whether or not the array has to be allocated or doubled;
  it fails only when the doubled length does not fit a 32-bit \<open>int\<close>, that is when \<open>2 ^ 30\<close> cells are in use.\<close>

lemma enqueue_appends_to_window:
  assumes "ring_ok f" "0 \<le> total_size f" "total_size f \<le> capacity_of f" "total_size f < 2 ^ 30"
  shows "\<exists>b. enqueue_locked c f = (Inr (), f\<lparr>buffer := Some b\<rparr>) \<and> ring_ok (f\<lparr>buffer := Some b\<rparr>) \<and>
    map (get_buffer_at (f\<lparr>buffer := Some b\<rparr>)) [head f..queue_end f] = window f @ [c]"
proof -
  obtain b where b: "enqueue_locked c f = (Inr (), f\<lparr>buffer := Some b\<rparr>)" "ring_ok (f\<lparr>buffer := Some b\<rparr>)"
    "get_buffer_at (f\<lparr>buffer := Some b\<rparr>) (head f + total_size f) = c"
    "\<forall>i. head f \<le> i \<and> i < head f + total_size f \<longrightarrow> get_buffer_at (f\<lparr>buffer := Some b\<rparr>) i = get_buffer_at f i"
    using enqueue_run [OF assms(1-3), of c] assms(4) by auto
  have q: "queue_end f = head f + total_size f" by (simp add: queue_end_def total_size_def)
  have "[head f..queue_end f] = [head f..queue_end f - 1] @ [queue_end f]"
    using window_snoc [of "head f" "queue_end f - 1"] assms(2) q by simp
  then show ?thesis using b q by (auto simp: window_def)
qed

lemma enqueue_appends_to_window_witness:
  "\<exists>b. enqueue_locked (Boxed 9) \<lparr>replay = 2, buffer_capacity = 2, on_buffer_overflow = SUSPEND, buffer = Some [Boxed 8, Boxed (7::nat)],
      replay_index = 3, min_collector_index = 3, buffer_size = 2, queue_size = 0, slots = [], n_collectors = 0, resumed = [],
      published = [Some 4, Some 5, Some 6, Some 7, Some 8], taken = []\<rparr> =
    (Inr (), \<lparr>replay = 2, buffer_capacity = 2, on_buffer_overflow = SUSPEND, buffer = Some b,
      replay_index = 3, min_collector_index = 3, buffer_size = 2, queue_size = 0, slots = [], n_collectors = 0, resumed = [],
      published = [Some 4, Some 5, Some 6, Some 7, Some 8], taken = []\<rparr>) \<and> length b = 4"
proof -
  let ?f = "\<lparr>replay = 2, buffer_capacity = 2, on_buffer_overflow = SUSPEND, buffer = Some [Boxed 8, Boxed (7::nat)],
      replay_index = 3, min_collector_index = 3, buffer_size = 2, queue_size = 0, slots = [], n_collectors = 0, resumed = [],
      published = [Some 4, Some 5, Some 6, Some 7, Some 8], taken = []\<rparr>"
  have "\<exists>k. 1 \<le> k \<and> k \<le> 30 \<and> Suc (Suc 0) = 2 ^ k" by (rule exI [of _ 1]) simp
  then have "ring_ok ?f" by (simp add: ring_ok_def)
  then obtain b where b: "enqueue_locked (Boxed 9) ?f = (Inr (), ?f\<lparr>buffer := Some b\<rparr>)"
    using enqueue_appends_to_window [of ?f "Boxed 9"] by (auto simp: total_size_def capacity_of_def)
  moreover have "case buffer (snd (enqueue_locked (Boxed 9) ?f)) of Some b \<Rightarrow> length b = 4 | None \<Rightarrow> False" by code_simp
  ultimately show ?thesis by (intro exI [of _ b]) simp
qed

text \<open>C24: However the steps of emitters and collectors interleave, a flow made by the factory keeps its bounds:
  at most \<open>replay + extraBufferCapacity\<close> values are buffered (one in a flow without a buffer), at most \<open>replay\<close> of
  them replayed, an emitter is queued only behind a full buffer of a flow that suspends; and every step returns: no assertion fails,
  no cell is read as what it is not, the only exception is the buffer's overflow at \<open>2 ^ 30\<close> cells.\<close>

theorem flow_is_safe:
  assumes "make_mutable_shared_flow r extra p = Inr f0" and f: "f = flow_run ops f0"
  shows "0 \<le> buffer_size f \<and> buffer_size f \<le> max (r + extra) 1 \<and> 0 \<le> replay_size f \<and> replay_size f \<le> r \<and> 0 \<le> queue_size f \<and>
    (queue_size f = 0 \<or> on_buffer_overflow f = SUSPEND \<and> r + extra \<le> buffer_size f) \<and>
    safe_result f (fst (flow_step op f))"
proof -
  have g: "good f" "buffer_capacity f = r + extra" "replay f = r"
    using flow_run_good [OF new_flow_good(1) [OF assms(1)], of ops] new_flow_good(2,3) [OF assms(1)]
    by (simp_all add: f appends_def)
  note d = inv_atD [OF goodD(4) [OF g(1)]]
  have "0 \<le> r + extra" using goodD(4) [OF g(1)] g(2) by (simp add: inv_at_def config_ok_def)
  then have "queue_size f = 0 \<or> on_buffer_overflow f = SUSPEND \<and> r + extra \<le> buffer_size f"
    using goodD(4) [OF g(1)] g(2) d(6,7) by (auto simp: inv_at_def sizes_ok_def)
  moreover have "0 \<le> replay_size f" "replay_size f \<le> r" using d(4,9,11) g(3) by (simp_all add: replay_size_def)
  ultimately show ?thesis using d(6-8) g flow_step_good [OF g(1), of op] by simp
qed

theorem flow_is_safe_witness:
  "buffer_size (flow_run [F_New_Slot, F_Subscribe 0, F_Try_Emit 5, F_Emit_Suspend 6 (1::nat), F_Emit_Suspend (7::nat) 2] (new_flow 1 1 SUSPEND)) \<le> 1 \<and>
   queue_size (flow_run [F_New_Slot, F_Subscribe 0, F_Try_Emit 5, F_Emit_Suspend 6 (1::nat), F_Emit_Suspend (7::nat) 2] (new_flow 1 1 SUSPEND)) = 2"
proof -
  let ?ops = "[F_New_Slot, F_Subscribe 0, F_Try_Emit 5, F_Emit_Suspend 6 1, F_Emit_Suspend (7::nat) 2]"
  have "make_mutable_shared_flow 1 0 SUSPEND = Inr (new_flow 1 1 SUSPEND :: nat flow)" by (simp add: make_mutable_shared_flow_def)
  from flow_is_safe [OF this refl, of ?ops F_Reset_Replay]
  have "buffer_size (flow_run ?ops (new_flow 1 1 SUSPEND)) \<le> 1" by simp
  moreover have "queue_size (flow_run ?ops (new_flow 1 1 SUSPEND)) = 2" by code_simp
  ultimately show ?thesis by blast
qed



text \<open>A collector of a flow with a buffer takes the published values one after the other: it gets the value
  published at its index and moves to the next one, and gets nothing only when everything published has been read.\<close>

lemma collector_takes_next:
  assumes "make_mutable_shared_flow r extra p = Inr f0" "0 < r + extra" and f: "f = flow_run ops f0" and "subscribed i f"
  shows "fst (try_take_value i f) =
      Inr (if slot_index (slot_at i f) = buffer_end f then None else published f ! nat (slot_index (slot_at i f))) \<and>
    slot_index (slot_at i (snd (try_take_value i f))) = min (buffer_end f) (slot_index (slot_at i f) + 1)"
proof -
  have g: "good f" "buffer_capacity f = r + extra"
    using flow_run_good [OF new_flow_good(1) [OF assms(1)], of ops] new_flow_good(3) [OF assms(1)] by (simp_all add: f appends_def)
  have i: "i < length (slots f)" "0 \<le> slot_index (slot_at i f)" using assms(4) by (simp_all add: subscribed_def)
  obtain v h where "try_take_value i f = (Inr v, h)" "case v of None \<Rightarrow> slot_index (slot_at i f) = buffer_end f \<and> h = f
       | Some w \<Rightarrow> published f ! nat (slot_index (slot_at i f)) = Some w \<and> slot_index (slot_at i f) < buffer_end f \<and>
           slot_index (slot_at i h) = slot_index (slot_at i f) + 1"
    using try_take_good [OF g(1) i] assms(2) g(2) by auto
  then show ?thesis by (cases v) auto
qed

lemma collector_takes_next_witness:
  "fst (try_take_value 0 (flow_run [F_New_Slot, F_Subscribe 0, F_Try_Emit 5, F_Try_Emit 6, F_Take 0] (new_flow 1 2 SUSPEND))) = Inr (Some (6::nat))"
proof -
  let ?ops = "[F_New_Slot, F_Subscribe 0, F_Try_Emit 5, F_Try_Emit 6, F_Take 0]"
  let ?f = "flow_run ?ops (new_flow 1 2 SUSPEND) :: nat flow"
  have m: "make_mutable_shared_flow 1 1 SUSPEND = Inr (new_flow 1 2 SUSPEND :: nat flow)" by (simp add: make_mutable_shared_flow_def)
  have s: "subscribed 0 ?f" "slot_index (slot_at 0 ?f) = 1" "buffer_end ?f = 2" "published ?f = [Some 5, Some 6]" by code_simp+
  show ?thesis using collector_takes_next [OF m _ refl, of 0 ?ops] s by simp
qed

text \<open>C25: No wake-up is lost in a flow with a buffer: whatever the order of the steps, a collector whose continuation is
  parked has read everything that was published (a step that publishes leaves no continuation parked before the new value).\<close>

theorem parked_collector_has_read_all:
  assumes "make_mutable_shared_flow r extra p = Inr f0" "0 < r + extra" and f: "f = flow_run ops f0"
    and "i < length (slots f)" "slot_cont (slot_at i f) = Some k"
  shows "slot_index (slot_at i f) = int (length (published f)) \<and> try_peek_locked (slot_at i f) f = -1"
proof -
  have g: "good f" "buffer_capacity f = r + extra"
    using flow_run_good [OF new_flow_good(1) [OF assms(1)], of ops] new_flow_good(3) [OF assms(1)] by (simp_all add: f appends_def)
  note mem = slot_mem [OF assms(4)]
  have "0 \<le> slot_index (slot_at i f)" "buffer_end f \<le> slot_index (slot_at i f)"
    using goodD(2) [OF g(1)] mem assms(2,5) g(2) by (auto simp: awake_def parked_def)
  then show ?thesis using goodD(4) [OF g(1)] mem assms(2) g(2)
    by (auto simp: inv_at_def slots_ok_def cells_ok_def try_peek_locked_def)
qed

theorem parked_collector_has_read_all_witness:
  "slot_index (slot_at 0 (flow_run [F_New_Slot, F_Subscribe 0, F_Try_Emit (5::nat), F_Take 0, F_Await 0 9] (new_flow 0 1 SUSPEND))) = 1"
proof -
  let ?ops = "[F_New_Slot, F_Subscribe 0, F_Try_Emit 5, F_Take 0, F_Await 0 9]"
  let ?f = "flow_run ?ops (new_flow 0 1 SUSPEND) :: nat flow"
  have m: "make_mutable_shared_flow 0 1 SUSPEND = Inr (new_flow 0 1 SUSPEND :: nat flow)" by (simp add: make_mutable_shared_flow_def)
  have s: "length (slots ?f) = 1" "slot_cont (slot_at 0 ?f) = Some 9" "length (published ?f) = 1" by code_simp+
  show ?thesis using parked_collector_has_read_all [OF m _ refl, of 0 ?ops 9] s by (simp add: slot_at_def)
qed



text \<open>A flow without a buffer can lose a wake-up. When the only collector leaves while the queue holds a
  cancelled emitter before a live one, moving the live one leaves the replay index beyond the minimal
  collector index: the next collector starts at index 2, \<open>try_peek_locked\<close> compares it with the head,
  which is 1, and the collector and the emitter that is queued at that very index both stay parked.\<close>

lemma rendezvous_loses_wakeup:
  "let f = flow_run [F_New_Slot, F_Subscribe 0, F_Emit_Suspend 7 100, F_Emit_Suspend 8 101,
      F_Cancel \<lparr>e_index = 0, e_value = 7, e_cont = 100\<rparr>, F_Unsubscribe 0, F_Subscribe 0,
      F_Await 0 200, F_Emit_Suspend 9 102] (new_flow 0 0 SUSPEND) :: nat flow
   in slot_cont (slot_at 0 f) = Some 200 \<and> slot_index (slot_at 0 f) = 2 \<and>
      get_buffer_at f 2 = Queued \<lparr>e_index = 2, e_value = 9, e_cont = 102\<rparr> \<and>
      resumed f = [101] \<and> fst (try_take_value 0 f) = Inr None"
  by code_simp

end
