(* ===== verification/Semaphore_Queue.thy ===== *)
theory Semaphore_Queue
  imports Prelude
begin

text \<open>
  \<open>sync/SemaphoreAndMutexImpl.hpp\<close>: the counter of permits and the queue of waiting acquirers, run
  by any number of threads. A step is one atomic access of the code (a fetch-and-add, a
  compare-and-set, an exchange); the program counter of a thread says which access comes next. The
  array of cells that the segments hold is a function of the index; which cells were cleaned is
  recorded, because a segment whose cells are all cleaned may be unlinked, and a release that looks
  for a cell of it fails. A continuation is a number; its state is what the semaphore can observe of
  it. \<open>int\<close> counters do not overflow: that takes \<open>2 ^ 31\<close> threads in the queue.
\<close>

subsection \<open>State\<close>

datatype sem_cell = NULL | Waiter nat | PERMIT | TAKEN | BROKEN | CANCELLED

text \<open>\<open>Resumed b\<close>: resumed and not yet running; \<open>b\<close> tells whether it was resumed with the callback
  that releases the permit if the continuation is cancelled before it runs.\<close>

datatype sem_cont = Active | Resumed bool | Cancelled | Consumed

datatype sem_pc =
    Idle | Holding
  | Enqueue nat | Install nat nat | Take nat nat | Set_Handler nat nat | Suspended nat "nat option" | Dec_Again nat
  | Releasing | Dequeue | Swap nat | Spin nat nat | Resume nat | Coerce | Crashed

record sem =
  permits :: int
  segment_size :: nat
  max_spin_cycles :: nat
  available :: int
  enq_idx :: nat
  deq_idx :: nat
  cells :: "nat \<Rightarrow> sem_cell"
  conts :: "sem_cont list"
  threads :: "sem_pc list"
  cleaning :: "nat list"
  cleaned :: "nat list"
  leaked :: int
  errors :: nat

text \<open>The constructor; the permits acquired from the start are held by the first threads.\<close>

definition new_semaphore :: "int \<Rightarrow> int \<Rightarrow> nat \<Rightarrow> nat \<Rightarrow> nat \<Rightarrow> sem res" where
  "new_semaphore p acquired sz spins n =
     (if p \<le> 0 then Inl (Invalid_Argument ''Semaphore should have at least 1 permit'')
      else if acquired < 0 \<or> acquired > p then Inl (Invalid_Argument ''The number of acquired permits should be in 0..permits'')
      else Inr \<lparr>permits = p, segment_size = sz, max_spin_cycles = spins, available = p - acquired, enq_idx = 0, deq_idx = 0,
        cells = (\<lambda>_. NULL), conts = [], threads = replicate (nat acquired) Holding @ replicate n Idle,
        cleaning = [], cleaned = [], leaked = 0, errors = 0\<rparr>)"

definition set_pc :: "nat \<Rightarrow> sem_pc \<Rightarrow> sem \<Rightarrow> sem" where
  "set_pc t pc s = s\<lparr>threads := (threads s)[t := pc]\<rparr>"

definition set_cell :: "nat \<Rightarrow> sem_cell \<Rightarrow> sem \<Rightarrow> sem" where
  "set_cell i c s = s\<lparr>cells := (cells s)(i := c)\<rparr>"

definition set_cont :: "nat \<Rightarrow> sem_cont \<Rightarrow> sem \<Rightarrow> sem" where
  "set_cont c x s = s\<lparr>conts := (conts s)[c := x]\<rparr>"

subsection \<open>The counter\<close>

text \<open>The loop of \<open>dec_permits\<close>: the value before the last decrement, and the counter after it. It
  iterates only when wrong releases have pushed the counter over its maximum.\<close>

function dec_permits :: "int \<Rightarrow> int \<Rightarrow> int \<times> int" where
  "dec_permits maximum a = (if a > maximum then dec_permits maximum (a - 1) else (a, a - 1))"
  by pat_completeness auto

termination dec_permits
  by (relation "measure (\<lambda>(m, a). nat (a - m))") auto

declare dec_permits.simps [simp del]

definition coerce_available_permits_at_maximum :: "int \<Rightarrow> int \<Rightarrow> int" where
  "coerce_available_permits_at_maximum maximum a = (if a \<le> maximum then a else maximum)"

definition try_acquire :: "int \<Rightarrow> int \<Rightarrow> bool \<times> int" where
  "try_acquire maximum a =
     (let p = coerce_available_permits_at_maximum maximum a in if p \<le> 0 then (False, p) else (True, p - 1))"

definition available_permits :: "sem \<Rightarrow> int" where
  "available_permits s = max (available s) 0"

subsection \<open>The queue\<close>

text \<open>\<open>cont->resume\<close> with the callback that releases: a continuation that was cancelled meanwhile
  calls it at once.\<close>

definition resume_waiter_with_permit :: "nat \<Rightarrow> nat \<Rightarrow> sem \<Rightarrow> sem" where
  "resume_waiter_with_permit t c s =
     (if conts s ! c = Active then set_pc t (Suspended c None) (set_cont c (Resumed True) s)
      else set_pc t Releasing s)"

definition on_cancellation :: "nat \<Rightarrow> sem \<Rightarrow> sem" where
  "on_cancellation i s = (set_cell i CANCELLED s)\<lparr>cleaned := i # cleaned s\<rparr>"

definition segment_removed :: "nat \<Rightarrow> sem \<Rightarrow> bool" where
  "segment_removed i s \<longleftrightarrow> length (filter (\<lambda>j. j div segment_size s = i div segment_size s) (cleaned s)) = segment_size s"

text \<open>Entering \<open>acquire\<close>: the permit is there, or a continuation is created and goes to the queue.\<close>

definition acquire :: "nat \<Rightarrow> sem \<Rightarrow> sem" where
  "acquire t s = (case dec_permits (permits s) (available s) of (p, a) \<Rightarrow>
     if p > 0 then set_pc t Holding (s\<lparr>available := a\<rparr>)
     else set_pc t (Enqueue (length (conts s))) (s\<lparr>available := a, conts := conts s @ [Active]\<rparr>))"

text \<open>The retry of \<open>acquire_internal\<close>.\<close>

definition acquire_internal :: "nat \<Rightarrow> nat \<Rightarrow> sem \<Rightarrow> sem" where
  "acquire_internal t c s = (case dec_permits (permits s) (available s) of (p, a) \<Rightarrow>
     if p > 0 then resume_waiter_with_permit t c (s\<lparr>available := a\<rparr>) else set_pc t (Enqueue c) (s\<lparr>available := a\<rparr>))"

text \<open>\<open>add_acquire_to_queue\<close> from the increment of \<open>enq_idx\<close> on.\<close>

fun add_acquire_to_queue :: "nat \<Rightarrow> sem_pc \<Rightarrow> sem \<Rightarrow> sem" where
  "add_acquire_to_queue t (Enqueue c) s = set_pc t (Install c (enq_idx s)) (s\<lparr>enq_idx := enq_idx s + 1\<rparr>)"
| "add_acquire_to_queue t (Install c i) s =
     (if cells s i = NULL then set_pc t (Set_Handler c i) (set_cell i (Waiter c) s) else set_pc t (Take c i) s)"
| "add_acquire_to_queue t (Take c i) s =
     (if cells s i = PERMIT then resume_waiter_with_permit t c (set_cell i TAKEN s)
      else if cells s i = BROKEN then set_pc t (Dec_Again c) s
      else set_pc t Crashed s)"
| "add_acquire_to_queue t (Set_Handler c i) s =
     (if conts s ! c = Cancelled then set_pc t Idle (on_cancellation i s) else set_pc t (Suspended c (Some i)) s)"
| "add_acquire_to_queue t (Dec_Again c) s = acquire_internal t c s"
| "add_acquire_to_queue t _ s = s"

text \<open>\<open>try_resume_acquire\<close> passes no callback to \<open>try_resume\<close>.\<close>

definition try_resume_acquire :: "nat \<Rightarrow> nat \<Rightarrow> sem \<Rightarrow> sem" where
  "try_resume_acquire t c s =
     (if conts s ! c = Active then set_pc t Idle (set_cont c (Resumed False) s) else set_pc t Releasing s)"

text \<open>The increment of \<open>release\<close>, repeated until no waiter is left to resume or one was resumed.\<close>

definition sem_release :: "nat \<Rightarrow> sem \<Rightarrow> sem" where
  "sem_release t s =
     (let p = available s; s1 = s\<lparr>available := p + 1\<rparr>
      in set_pc t (if p \<ge> permits s then Coerce else if p \<ge> 0 then Idle else Dequeue) s1)"

text \<open>\<open>try_resume_next_from_queue\<close>; \<open>gone\<close> tells whether a removed segment has been unlinked
  by the time the release looks for its cell. A cell that holds none of the expected values would be
  cast to a continuation.\<close>

fun try_resume_next_from_queue :: "nat \<Rightarrow> bool \<Rightarrow> sem_pc \<Rightarrow> sem \<Rightarrow> sem" where
  "try_resume_next_from_queue t gone Releasing s = sem_release t s"
| "try_resume_next_from_queue t gone Dequeue s = set_pc t (Swap (deq_idx s)) (s\<lparr>deq_idx := deq_idx s + 1\<rparr>)"
| "try_resume_next_from_queue t gone (Swap i) s =
     (if gone \<and> segment_removed i s then set_pc t Releasing s
      else set_pc t (case cells s i of NULL \<Rightarrow> Spin i 0 | CANCELLED \<Rightarrow> Releasing | Waiter c \<Rightarrow> Resume c | _ \<Rightarrow> Crashed)
        (set_cell i PERMIT s))"
| "try_resume_next_from_queue t gone (Spin i n) s =
     (if n < max_spin_cycles s then set_pc t (if cells s i = TAKEN then Idle else Spin i (n + 1)) s
      else if cells s i = PERMIT then set_pc t Releasing (set_cell i BROKEN s)
      else set_pc t Idle s)"
| "try_resume_next_from_queue t gone (Resume c) s = try_resume_acquire t c s"
| "try_resume_next_from_queue t gone Coerce s =
     set_pc t Idle (s\<lparr>available := coerce_available_permits_at_maximum (permits s) (available s), errors := errors s + 1\<rparr>)"
| "try_resume_next_from_queue t gone _ s = s"

subsection \<open>Steps\<close>

text \<open>What may happen: a thread enters an operation, makes its next access, runs after it was
  resumed; its continuation is cancelled while it waits (the handler then cleans the cell, maybe
  later) or after it was resumed.\<close>

datatype sem_op = S_Acquire nat | S_Try_Acquire nat | S_Release nat | S_Advance nat bool | S_Run nat | S_Cancel nat
  | S_Clean nat | S_Late_Cancel nat

fun cont_of :: "sem_pc \<Rightarrow> nat option" where
  "cont_of (Enqueue c) = Some c" | "cont_of (Install c i) = Some c" | "cont_of (Take c i) = Some c"
| "cont_of (Set_Handler c i) = Some c" | "cont_of (Suspended c i) = Some c" | "cont_of (Dec_Again c) = Some c"
| "cont_of _ = None"

definition cancel_waiter :: "nat \<Rightarrow> sem \<Rightarrow> sem" where
  "cancel_waiter t s = (case cont_of (threads s ! t) of
       Some c \<Rightarrow> if conts s ! c = Active
         then (case threads s ! t of
             Suspended c' (Some i) \<Rightarrow> (set_pc t Idle (set_cont c Cancelled s))\<lparr>cleaning := i # cleaning s\<rparr>
           | _ \<Rightarrow> set_cont c Cancelled s)
         else s
     | None \<Rightarrow> s)"

definition wake :: "nat \<Rightarrow> bool \<Rightarrow> sem \<Rightarrow> sem" where
  "wake t late s = (case threads s ! t of
       Suspended c i \<Rightarrow> (case conts s ! c of
           Resumed callback \<Rightarrow>
             if \<not> late then set_pc t Holding (set_cont c Consumed s)
             else if callback then set_pc t Releasing (set_cont c Consumed s)
             else (set_pc t Idle (set_cont c Consumed s))\<lparr>leaked := leaked s + 1\<rparr>
         | _ \<Rightarrow> s)
     | _ \<Rightarrow> s)"

fun sem_step :: "sem_op \<Rightarrow> sem \<Rightarrow> sem" where
  "sem_step (S_Acquire t) s = (if t < length (threads s) \<and> threads s ! t = Idle then acquire t s else s)"
| "sem_step (S_Try_Acquire t) s = (if t < length (threads s) \<and> threads s ! t = Idle
     then (case try_acquire (permits s) (available s) of (ok, a) \<Rightarrow> set_pc t (if ok then Holding else Idle) (s\<lparr>available := a\<rparr>))
     else s)"
| "sem_step (S_Release t) s = (if t < length (threads s) \<and> threads s ! t = Holding then set_pc t Releasing s else s)"
| "sem_step (S_Advance t gone) s =
     (if t < length (threads s) then try_resume_next_from_queue t gone (threads s ! t) (add_acquire_to_queue t (threads s ! t) s) else s)"
| "sem_step (S_Run t) s = (if t < length (threads s) then wake t False s else s)"
| "sem_step (S_Cancel t) s = (if t < length (threads s) then cancel_waiter t s else s)"
| "sem_step (S_Clean k) s = (if k < length (cleaning s)
     then on_cancellation (cleaning s ! k) (s\<lparr>cleaning := take k (cleaning s) @ drop (Suc k) (cleaning s)\<rparr>) else s)"
| "sem_step (S_Late_Cancel t) s = (if t < length (threads s) then wake t True s else s)"

definition sem_run :: "sem_op list \<Rightarrow> sem \<Rightarrow> sem" where
  "sem_run ops s = fold sem_step ops s"

subsection \<open>Who has a permit\<close>

definition count :: "('a \<Rightarrow> bool) \<Rightarrow> 'a list \<Rightarrow> int" where
  "count P xs = int (length (filter P xs))"

lemma count_nonneg [simp]: "0 \<le> count P xs" by (simp add: count_def)
lemma count_append [simp]: "count P (xs @ ys) = count P xs + count P ys" by (simp add: count_def)
lemma count_simps [simp]: "count P [] = 0" "count P (x # xs) = of_bool (P x) + count P xs" by (simp_all add: count_def)

lemma count_set: "i < length xs \<Longrightarrow> count P (xs[i := x]) = count P xs + of_bool (P x) - of_bool (P (xs ! i))"
proof (induction xs arbitrary: i)
  case (Cons a xs)
  then show ?case by (cases i) auto
qed simp

lemma count_cong: "(\<And>x. x \<in> set xs \<Longrightarrow> P x = Q x) \<Longrightarrow> count P xs = count Q xs"
  by (simp add: count_def cong: filter_cong)

lemma count_zero: "count P xs = 0 \<longleftrightarrow> (\<forall>x\<in>set xs. \<not> P x)"
  by (simp add: count_def filter_empty_conv)

lemma count_one_less:
  assumes "j < length xs" "P (xs ! j)" "\<not> Q (xs ! j)" "\<And>i. i < length xs \<Longrightarrow> i \<noteq> j \<Longrightarrow> P (xs ! i) = Q (xs ! i)"
  shows "count Q xs = count P xs - 1"
proof -
  have "count Q (take j xs @ drop (Suc j) xs) = count P (take j xs @ drop (Suc j) xs)"
    using assms(4) by (intro count_cong) (force simp: in_set_conv_nth)
  moreover have "xs = take j xs @ xs ! j # drop (Suc j) xs" using assms(1) by (simp add: id_take_nth_drop)
  then have "count R xs = count R (take j xs) + (of_bool (R (xs ! j)) + count R (drop (Suc j) xs))" for R
    by (metis count_append count_simps(2))
  ultimately show ?thesis using assms(2,3) by simp
qed

text \<open>A permit is in the hands of a thread, under way to a resumed continuation, carried by a release to
  a waiter, or lost.\<close>

definition holds :: "sem_pc \<Rightarrow> bool" where "holds pc \<longleftrightarrow> pc = Holding \<or> pc = Releasing"

definition granted :: "sem_cont \<Rightarrow> bool" where "granted x \<longleftrightarrow> (\<exists>b. x = Resumed b)"

fun carries :: "(nat \<Rightarrow> sem_cell) \<Rightarrow> sem_pc \<Rightarrow> bool" where
  "carries f Dequeue = True" | "carries f (Swap i) = True" | "carries f (Resume c) = True"
| "carries f (Spin i n) = (f i = PERMIT)" | "carries f _ = False"

definition held_permits :: "sem \<Rightarrow> int" where
  "held_permits s = count holds (threads s) + count granted (conts s)"

definition carried_permits :: "sem \<Rightarrow> int" where
  "carried_permits s = count (carries (cells s)) (threads s)"

fun enqueuing :: "sem_pc \<Rightarrow> bool" where "enqueuing (Enqueue c) = True" | "enqueuing _ = False"

definition permits_ok :: "sem \<Rightarrow> bool" where
  "permits_ok s \<longleftrightarrow> 0 < permits s \<and> 0 \<le> leaked s \<and>
     held_permits s + carried_permits s + leaked s = permits s - max 0 (available s) \<and>
     int (enq_idx s) + count enqueuing (threads s) - int (deq_idx s) - count (\<lambda>pc. pc = Dequeue) (threads s) = max 0 (- available s)"

subsection \<open>Who is at a cell\<close>

text \<open>The queue's invariant is stated over the functions it depends on: \<open>e\<close> and \<open>d\<close> are the two indices,
  \<open>f\<close> the cells, \<open>cs\<close> the continuations, \<open>th\<close> the program counters, \<open>cl\<close> and \<open>cd\<close> the cells that
  are being or have been cleaned.\<close>

fun acquirer_at :: "sem_pc \<Rightarrow> nat option" where
  "acquirer_at (Install c i) = Some i" | "acquirer_at (Take c i) = Some i" | "acquirer_at (Set_Handler c i) = Some i"
| "acquirer_at (Suspended c io) = io" | "acquirer_at _ = None"

fun releaser_at :: "sem_pc \<Rightarrow> nat option" where
  "releaser_at (Swap i) = Some i" | "releaser_at (Spin i n) = Some i" | "releaser_at _ = None"

fun deciding_at :: "sem_pc \<Rightarrow> nat option" where
  "deciding_at (Install c i) = Some i" | "deciding_at (Take c i) = Some i" | "deciding_at _ = None"

text \<open>\<open>undecided\<close>: the acquirer of the cell has yet to come or has not yet left its mark.\<close>

definition undecided :: "nat \<Rightarrow> (nat \<Rightarrow> sem_pc) \<Rightarrow> nat \<Rightarrow> bool" where
  "undecided e th i \<longleftrightarrow> e \<le> i \<or> (\<exists>u. deciding_at (th u) = Some i)"

definition one_at :: "(sem_pc \<Rightarrow> nat option) \<Rightarrow> nat \<Rightarrow> (nat \<Rightarrow> sem_pc) \<Rightarrow> bool" where
  "one_at g m th \<longleftrightarrow> (\<forall>t i. g (th t) = Some i \<longrightarrow> i < m) \<and> (\<forall>t u i. g (th t) = Some i \<and> g (th u) = Some i \<longrightarrow> t = u)"

fun pc_ok :: "nat \<Rightarrow> (nat \<Rightarrow> sem_cell) \<Rightarrow> sem_cont list \<Rightarrow> (nat \<Rightarrow> sem_pc) \<Rightarrow> sem_pc \<Rightarrow> bool" where
  "pc_ok e f cs th (Install c i) = (f i = NULL \<or> f i = PERMIT \<or> f i = BROKEN)"
| "pc_ok e f cs th (Take c i) = (f i = PERMIT \<or> f i = BROKEN)"
| "pc_ok e f cs th (Set_Handler c i) = ((f i = Waiter c \<or> f i = PERMIT) \<and> (cs ! c = Active \<longrightarrow> f i = Waiter c \<or> (\<exists>u. th u = Resume c)))"
| "pc_ok e f cs th (Suspended c io) = (case io of None \<Rightarrow> cs ! c \<noteq> Active
     | Some i \<Rightarrow> (f i = Waiter c \<or> f i = PERMIT) \<and> (cs ! c = Active \<longrightarrow> f i = Waiter c \<or> (\<exists>u. th u = Resume c)))"
| "pc_ok e f cs th (Swap i) = (f i = NULL \<or> f i = CANCELLED \<or> (\<exists>c. f i = Waiter c))"
| "pc_ok e f cs th (Spin i n) = (f i = TAKEN \<and> \<not> undecided e th i \<or> f i = PERMIT \<and> undecided e th i)"
| "pc_ok e f cs th Coerce = False"
| "pc_ok e f cs th Crashed = False"
| "pc_ok e f cs th _ = True"

definition cell_ok :: "nat \<Rightarrow> nat \<Rightarrow> (nat \<Rightarrow> sem_pc) \<Rightarrow> nat \<Rightarrow> sem_cell \<Rightarrow> bool" where
  "cell_ok e d th i x \<longleftrightarrow> (d \<le> i \<longrightarrow> x = NULL \<or> x = CANCELLED \<or> (\<exists>c. x = Waiter c)) \<and>
     (x = NULL \<longrightarrow> undecided e th i) \<and>
     (undecided e th i \<longrightarrow> x = NULL \<or> x = BROKEN \<or> (x = PERMIT \<and> (\<exists>u n. th u = Spin i n))) \<and>
     (i < d \<and> (x = NULL \<or> (\<exists>c. x = Waiter c)) \<longrightarrow> (\<exists>u. th u = Swap i))"

definition conts_ok :: "nat \<Rightarrow> (nat \<Rightarrow> sem_cell) \<Rightarrow> (nat \<Rightarrow> sem_pc) \<Rightarrow> bool" where
  "conts_ok n f th \<longleftrightarrow> (\<forall>t c. cont_of (th t) = Some c \<or> th t = Resume c \<longrightarrow> c < n) \<and> (\<forall>i c. f i = Waiter c \<longrightarrow> c < n)"

definition cleaned_ok :: "nat \<Rightarrow> (nat \<Rightarrow> sem_cell) \<Rightarrow> (nat \<Rightarrow> sem_pc) \<Rightarrow> nat list \<Rightarrow> nat list \<Rightarrow> bool" where
  "cleaned_ok e f th cl cd \<longleftrightarrow> distinct (cl @ cd) \<and>
     (\<forall>i\<in>set cl \<union> set cd. i < e \<and> (\<forall>t. acquirer_at (th t) \<noteq> Some i) \<and> f i \<noteq> TAKEN) \<and>
     (\<forall>i\<in>set cd. f i = CANCELLED \<or> f i = PERMIT)"

definition queue_ok :: "nat \<Rightarrow> nat \<Rightarrow> (nat \<Rightarrow> sem_cell) \<Rightarrow> sem_cont list \<Rightarrow> (nat \<Rightarrow> sem_pc) \<Rightarrow> nat list \<Rightarrow> nat list \<Rightarrow> bool" where
  "queue_ok e d f cs th cl cd \<longleftrightarrow> one_at acquirer_at e th \<and> one_at releaser_at d th \<and> (\<forall>t. pc_ok e f cs th (th t)) \<and>
     (\<forall>i. cell_ok e d th i (f i)) \<and> conts_ok (length cs) f th \<and> cleaned_ok e f th cl cd"

lemma other_thread: "\<exists>u. P (th u) \<Longrightarrow> \<not> P (th t) \<Longrightarrow> \<exists>u. P ((th(t := pc)) u)"
  by (metis fun_upd_other)

lemma deciding_acquirer: "deciding_at pc = Some i \<Longrightarrow> acquirer_at pc = Some i"
  by (cases pc) auto

lemma one_at_upd:
  assumes "one_at g m th" "m \<le> m'" "\<And>i. g pc = Some i \<Longrightarrow> i < m' \<and> (g (th t) = Some i \<or> (\<forall>u. g (th u) \<noteq> Some i))"
  shows "one_at g m' (th(t := pc))"
proof -
  have old: "\<And>u i. g (th u) = Some i \<Longrightarrow> i < m" "\<And>u v i. g (th u) = Some i \<Longrightarrow> g (th v) = Some i \<Longrightarrow> u = v"
    using assms(1) by (auto simp: one_at_def)
  show ?thesis
    unfolding one_at_def
  proof (intro conjI allI impI)
    fix u i assume "g ((th(t := pc)) u) = Some i"
    then show "i < m'" using old(1) assms(2,3) by (cases "u = t") (auto intro: less_le_trans)
  next
    fix u v i assume a: "g ((th(t := pc)) u) = Some i \<and> g ((th(t := pc)) v) = Some i"
    show "u = v"
    proof (cases "u = t \<or> v = t")
      case True
      then show ?thesis using a old(2) assms(3) by (auto split: if_splits)
    next
      case False
      then show ?thesis using a old(2) by auto
    qed
  qed
qed

lemma pc_ok_mono:
  assumes "pc_ok e f cs th p" "\<And>i. acquirer_at p = Some i \<or> releaser_at p = Some i \<Longrightarrow> f' i = f i"
    "\<And>i. releaser_at p = Some i \<Longrightarrow> undecided e' th' i = undecided e th i"
    "\<And>c. cont_of p = Some c \<Longrightarrow> cs' ! c = Active \<Longrightarrow> cs ! c = Active"
    "\<And>c. cs' ! c = Active \<Longrightarrow> \<exists>u. th u = Resume c \<Longrightarrow> \<exists>u. th' u = Resume c"
  shows "pc_ok e' f' cs' th' p"
  using assms by (cases p) (auto split: option.splits)

lemma cell_ok_mono:
  assumes "cell_ok e d th i x" "undecided e' th' i = undecided e th i"
    "\<exists>u. th u = Swap i \<Longrightarrow> \<exists>u. th' u = Swap i" "\<exists>u n. th u = Spin i n \<Longrightarrow> \<exists>u n. th' u = Spin i n"
  shows "cell_ok e' d th' i x"
  using assms unfolding cell_ok_def by blast

text \<open>The parts of the invariant, and how a thread's new program counter affects them.\<close>

lemma queue_okD:
  assumes "queue_ok e d f cs th cl cd"
  shows "one_at acquirer_at e th" "one_at releaser_at d th" "pc_ok e f cs th (th t)" "cell_ok e d th i (f i)"
    "conts_ok (length cs) f th" "cleaned_ok e f th cl cd"
    "acquirer_at (th t) = Some i \<Longrightarrow> i < e" "releaser_at (th t) = Some i \<Longrightarrow> i < d"
    "acquirer_at (th t) = Some i \<Longrightarrow> acquirer_at (th u) = Some i \<Longrightarrow> t = u"
    "releaser_at (th t) = Some i \<Longrightarrow> releaser_at (th u) = Some i \<Longrightarrow> t = u"
    "cont_of (th t) = Some c \<Longrightarrow> c < length cs" "th t = Resume c \<Longrightarrow> c < length cs" "f i = Waiter c \<Longrightarrow> c < length cs"
    "i \<in> set cl \<union> set cd \<Longrightarrow> i < e \<and> acquirer_at (th t) \<noteq> Some i \<and> f i \<noteq> TAKEN"
  using assms by (auto simp: queue_ok_def one_at_def conts_ok_def cleaned_ok_def)

lemma undecided_upd:
  assumes "deciding_at pc = deciding_at (th t)"
  shows "undecided e (th(t := pc)) i = undecided e th i"
proof -
  have "deciding_at ((th(t := pc)) u) = deciding_at (th u)" for u using assms by simp
  then show ?thesis unfolding undecided_def by presburger
qed

text \<open>A step that changes no cell; the thread may stop being an acquirer.\<close>

lemma queue_stay:
  assumes q: "queue_ok e d f cs th cl cd" and h: "h = th(t := pc)"
    and same: "acquirer_at pc = acquirer_at (th t) \<or> acquirer_at pc = None" "releaser_at pc = releaser_at (th t)"
      "deciding_at pc = deciding_at (th t)"
    and pc: "pc_ok e f cs' h pc" "\<And>c. cont_of pc = Some c \<or> pc = Resume c \<Longrightarrow> c < length cs'"
    and old: "\<And>i. th t \<noteq> Swap i" "\<And>i n. th t = Spin i n \<Longrightarrow> \<exists>n. pc = Spin i n"
      "\<And>c. th t = Resume c \<Longrightarrow> cs' ! c = Active \<Longrightarrow> pc = Resume c"
    and cont: "\<And>c. c < length cs \<Longrightarrow> cs' ! c = Active \<Longrightarrow> cs ! c = Active" "length cs \<le> length cs'"
    and clean: "cleaned_ok e f h cl' cd"
  shows "queue_ok e d f cs' h cl' cd"
proof -
  note u = undecided_upd [where pc = pc and th = th and t = t, OF same(3), folded h]
  have r: "\<exists>u. h u = Resume c" if "cs' ! c = Active" "\<exists>u. th u = Resume c" for c
    using that old(3) by (metis fun_upd_apply h)
  have "pc_ok e f cs' h (th v)" for v
    by (rule pc_ok_mono [OF queue_okD(3) [OF q]]) (use u r cont(1) queue_okD(11) [OF q] in auto)
  then have "\<forall>v. pc_ok e f cs' h (h v)" using pc(1) by (simp add: h)
  moreover have "cell_ok e d h i (f i)" for i
  proof (rule cell_ok_mono [OF queue_okD(4) [OF q] u])
    show "\<exists>u. th u = Swap i \<Longrightarrow> \<exists>u. h u = Swap i" using old(1) by (metis fun_upd_other h)
    show "\<exists>u n. th u = Spin i n \<Longrightarrow> \<exists>u n. h u = Spin i n" using old(2) by (metis fun_upd_apply h)
  qed
  moreover have "one_at acquirer_at e h"
    unfolding h by (rule one_at_upd [OF queue_okD(1) [OF q]], simp) (use queue_okD(7) [OF q] same in auto)
  moreover have "one_at releaser_at d h"
    unfolding h by (rule one_at_upd [OF queue_okD(2) [OF q]], simp) (use queue_okD(8) [OF q] same in auto)
  moreover have "conts_ok (length cs') f h"
    using pc(2) cont(2) queue_okD(11-13) [OF q] by (fastforce simp: conts_ok_def h intro: less_le_trans)
  ultimately show ?thesis using clean by (simp add: queue_ok_def)
qed

text \<open>A step of thread \<open>t\<close> at cell \<open>i\<close>: everything at the other cells is as before.\<close>

lemma queue_core:
  assumes q: "queue_ok e d f cs th cl cd" and h: "h = th(t := pc)"
    and f: "\<And>j. j \<noteq> i \<Longrightarrow> f' j = f j"
    and und: "\<And>j. j \<noteq> i \<Longrightarrow> undecided e' h j = undecided e th j"
    and d: "\<And>j. j \<noteq> i \<Longrightarrow> d' \<le> j \<longleftrightarrow> d \<le> j"
    and oth: "\<And>u. u \<noteq> t \<Longrightarrow> acquirer_at (th u) = Some i \<or> releaser_at (th u) = Some i \<Longrightarrow> pc_ok e' f' cs' h (th u)"
    and cont: "\<And>c. c < length cs \<Longrightarrow> cs' ! c = Active \<Longrightarrow> cs ! c = Active" "length cs \<le> length cs'"
    and res: "\<And>c. cs' ! c = Active \<Longrightarrow> th t = Resume c \<Longrightarrow> pc = Resume c"
    and pc: "pc_ok e' f' cs' h pc" and cell: "cell_ok e' d' h i (f' i)"
    and swap: "\<And>j. j \<noteq> i \<Longrightarrow> th t = Swap j \<Longrightarrow> pc = Swap j"
    and spin: "\<And>j n. j \<noteq> i \<Longrightarrow> th t = Spin j n \<Longrightarrow> \<exists>n. pc = Spin j n"
    and one: "\<And>j. acquirer_at pc = Some j \<Longrightarrow> j < e' \<and> (acquirer_at (th t) = Some j \<or> (\<forall>u. acquirer_at (th u) \<noteq> Some j))" "e \<le> e'"
      "\<And>j. releaser_at pc = Some j \<Longrightarrow> j < d' \<and> (releaser_at (th t) = Some j \<or> (\<forall>u. releaser_at (th u) \<noteq> Some j))" "d \<le> d'"
    and conts: "\<And>c. cont_of pc = Some c \<or> pc = Resume c \<Longrightarrow> c < length cs'" "\<And>c. f' i = Waiter c \<Longrightarrow> c < length cs'"
    and clean: "cleaned_ok e' f' h cl' cd'"
  shows "queue_ok e' d' f' cs' h cl' cd'"
proof -
  have r: "\<exists>u. h u = Resume c" if a: "cs' ! c = Active" "\<exists>u. th u = Resume c" for c
  proof -
    obtain u where u: "th u = Resume c" using a(2) by blast
    show ?thesis using u res [OF a(1)] by (cases "u = t") (auto simp: h)
  qed
  have "pc_ok e' f' cs' h (h u)" for u
  proof (cases "u = t \<or> acquirer_at (th u) = Some i \<or> releaser_at (th u) = Some i")
    case True
    then show ?thesis using pc oth [of u] by (cases "u = t") (auto simp: h)
  next
    case False
    have "pc_ok e' f' cs' h (th u)"
      by (rule pc_ok_mono [OF queue_okD(3) [OF q]]) (use False f und cont(1) queue_okD(11) [OF q, of u] r in auto)
    then show ?thesis using False by (simp add: h)
  qed
  moreover have "cell_ok e' d' h j (f' j)" for j
  proof (cases "j = i")
    case False
    have "cell_ok e' d h j (f j)"
    proof (rule cell_ok_mono [OF queue_okD(4) [OF q] und [OF False]])
      show "\<exists>u. th u = Swap j \<Longrightarrow> \<exists>u. h u = Swap j" using swap [OF False] unfolding h by (metis fun_upd_apply)
      show "\<exists>u n. th u = Spin j n \<Longrightarrow> \<exists>u n. h u = Spin j n" using spin [OF False] unfolding h by (metis fun_upd_apply)
    qed
    then show ?thesis using d [OF False] f [OF False] by (simp add: cell_ok_def) (meson not_le)
  qed (use cell in simp)
  moreover have "one_at acquirer_at e' h"
    unfolding h by (rule one_at_upd [OF queue_okD(1) [OF q] one(2)]) (rule one(1))
  moreover have "one_at releaser_at d' h"
    unfolding h by (rule one_at_upd [OF queue_okD(2) [OF q] one(4)]) (rule one(3))
  moreover have "conts_ok (length cs') f' h"
    unfolding conts_ok_def
  proof (intro conjI allI impI)
    fix u c assume a: "cont_of (h u) = Some c \<or> h u = Resume c"
    show "c < length cs'"
    proof (cases "u = t")
      case True
      then show ?thesis using a conts(1) by (simp add: h)
    next
      case False
      then have "c < length cs" using a queue_okD(11,12) [OF q] by (auto simp: h)
      then show ?thesis using cont(2) by simp
    qed
  next
    fix j c assume a: "f' j = Waiter c"
    show "c < length cs'" using a f [of j] conts(2) queue_okD(13) [OF q] cont(2) by (cases "j = i") (auto intro: less_le_trans)
  qed
  ultimately show ?thesis using clean by (simp add: queue_ok_def)
qed

lemma no_deciding_elsewhere:
  assumes q: "queue_ok e d f cs th cl cd" and t: "acquirer_at (th t) = Some i" and pc: "deciding_at pc \<noteq> Some i"
  shows "\<not> undecided e (th(t := pc)) i"
proof -
  have "deciding_at ((th(t := pc)) u) \<noteq> Some i" for u
    using pc queue_okD(9) [OF q t] deciding_acquirer by (cases "u = t") auto
  then show ?thesis using queue_okD(7) [OF q t] by (auto simp: undecided_def)
qed

lemma undecided_elsewhere:
  assumes "deciding_at (th t) = None \<or> deciding_at (th t) = Some i" "deciding_at pc = None \<or> deciding_at pc = Some i" "j \<noteq> i"
  shows "undecided e (th(t := pc)) j = undecided e th j"
proof -
  have "deciding_at ((th(t := pc)) u) = Some j \<longleftrightarrow> deciding_at (th u) = Some j" for u
    using assms by (cases "u = t") auto
  then show ?thesis by (simp add: undecided_def)
qed

lemma cleaned_stay:
  assumes "cleaned_ok e f th cl cd" "e \<le> e'" "\<And>j. acquirer_at pc = Some j \<Longrightarrow> j \<notin> set cl \<union> set cd"
    "\<And>j. j \<in> set cl \<union> set cd \<Longrightarrow> f' j = f j"
  shows "cleaned_ok e' f' (th(t := pc)) cl cd"
  unfolding cleaned_ok_def
proof (intro conjI ballI)
  show "distinct (cl @ cd)" using assms(1) by (simp add: cleaned_ok_def)
  fix i assume i: "i \<in> set cl \<union> set cd"
  have o: "i < e" "acquirer_at (th u) \<noteq> Some i" "f i \<noteq> TAKEN" for u using assms(1) i by (auto simp: cleaned_ok_def)
  show "i < e'" using o(1) assms(2) by simp
  show "\<forall>u. acquirer_at ((th(t := pc)) u) \<noteq> Some i" using o(2) assms(3) i by auto
  show "f' i \<noteq> TAKEN" using o(3) assms(4) [OF i] by simp
next
  fix i assume "i \<in> set cd"
  then show "f' i = CANCELLED \<or> f' i = PERMIT" using assms(1,4) by (auto simp: cleaned_ok_def)
qed

text \<open>The acquirer's steps.\<close>

lemma queue_enqueue:
  assumes q: "queue_ok e d f cs th cl cd" and t: "th t = Enqueue c"
  shows "queue_ok (Suc e) d f cs (th(t := Install c e)) cl cd"
proof -
  have no: "acquirer_at (th u) \<noteq> Some e" for u using queue_okD(7) [OF q, of u e] by auto
  have ue: "undecided e th e" "undecided (Suc e) (th(t := Install c e)) e"
    by (auto simp: undecided_def intro!: exI [of _ t])
  have uj: "undecided (Suc e) (th(t := Install c e)) j = undecided e th j" if "j \<noteq> e" for j
    using undecided_elsewhere [of th t e "Install c e" j "Suc e"] t that by (auto simp: undecided_def)
  have u: "undecided (Suc e) (th(t := Install c e)) j = undecided e th j" for j using ue uj by (cases "j = e") auto
  have fe: "f e = NULL \<or> f e = PERMIT \<or> f e = BROKEN" using queue_okD(4) [OF q, of e] ue(1) by (auto simp: cell_ok_def)
  have cell: "cell_ok (Suc e) d (th(t := Install c e)) j (f j)" for j
  proof (rule cell_ok_mono [OF queue_okD(4) [OF q] u])
    show "\<exists>u. th u = Swap j \<Longrightarrow> \<exists>u. (th(t := Install c e)) u = Swap j"
      by (rule other_thread [where P = "\<lambda>p. p = Swap j"]) (simp_all add: t)
    show "\<exists>u n. th u = Spin j n \<Longrightarrow> \<exists>u n. (th(t := Install c e)) u = Spin j n"
      by (rule other_thread [where P = "\<lambda>p. \<exists>n. p = Spin j n"]) (simp_all add: t)
  qed
  show ?thesis
  proof (rule queue_core [OF q refl, where i = e])
    show "pc_ok (Suc e) f cs (th(t := Install c e)) (th v)" if "v \<noteq> t" "acquirer_at (th v) = Some e \<or> releaser_at (th v) = Some e" for v
      by (rule pc_ok_mono [OF queue_okD(3) [OF q]]) (use other_thread [where P = "\<lambda>p. p = Resume _" and t = t] in \<open>simp_all add: u t\<close>)
    show "cleaned_ok (Suc e) f (th(t := Install c e)) cl cd"
      by (rule cleaned_stay [OF queue_okD(6) [OF q]]) (use queue_okD(14) [OF q] in auto)
  qed (use no fe queue_okD(11) [OF q, of t] queue_okD(13) [OF q] in \<open>simp_all add: t uj cell\<close>)
qed

lemma queue_install:
  assumes q: "queue_ok e d f cs th cl cd" and t: "th t = Install c i" and f: "f i = NULL"
  shows "queue_ok e d (f(i := Waiter c)) cs (th(t := Set_Handler c i)) cl cd"
proof -
  let ?h = "th(t := Set_Handler c i)"
  have at: "acquirer_at (th t) = Some i" by (simp add: t)
  have only: "acquirer_at (th u) \<noteq> Some i" if "u \<noteq> t" for u using queue_okD(9) [OF q at] that by auto
  have nu: "\<not> undecided e ?h i" by (rule no_deciding_elsewhere [OF q at]) simp
  have uj: "undecided e ?h j = undecided e th j" if "j \<noteq> i" for j by (rule undecided_elsewhere) (use t that in auto)
  have rel: "pc_ok e (f(i := Waiter c)) cs ?h (th v)" if "releaser_at (th v) = Some i" for v
    using queue_okD(3) [OF q, of v] that f by (cases "th v") auto
  have "\<exists>u. th u = Swap i" if "i < d" using queue_okD(4) [OF q, of i] that f by (auto simp: cell_ok_def)
  then have sw: "\<exists>u. ?h u = Swap i" if "i < d"
    using that by (intro other_thread [where P = "\<lambda>p. p = Swap i"]) (simp_all add: t)
  have ic: "c < length cs" using queue_okD(11) [OF q, of t c] t by simp
  have no: "i \<notin> set cl \<union> set cd" using queue_okD(14) [OF q, of i t] at by blast
  show ?thesis
  proof (rule queue_core [OF q refl, where i = i])
    show "cleaned_ok e (f(i := Waiter c)) ?h cl cd"
      by (rule cleaned_stay [OF queue_okD(6) [OF q]]) (use no in auto)
    show "cell_ok e d ?h i ((f(i := Waiter c)) i)" using nu sw by (auto simp: cell_ok_def)
  qed (use only queue_okD(7) [OF q at] in \<open>simp_all add: t uj rel ic\<close>)
qed

lemma queue_take:
  assumes q: "queue_ok e d f cs th cl cd" and t: "th t = Take c i" and f: "f i = PERMIT"
    and pc: "pc = Suspended c None \<and> cs' = cs[c := Resumed True] \<or> pc = Releasing \<and> cs' = cs"
  shows "queue_ok e d (f(i := TAKEN)) cs' (th(t := pc)) cl cd"
proof -
  let ?h = "th(t := pc)"
  have at: "acquirer_at (th t) = Some i" by (simp add: t)
  have only: "acquirer_at (th u) \<noteq> Some i" if "u \<noteq> t" for u using queue_okD(9) [OF q at] that by auto
  have nu: "\<not> undecided e ?h i" by (rule no_deciding_elsewhere [OF q at]) (use pc in auto)
  have uj: "undecided e ?h j = undecided e th j" if "j \<noteq> i" for j by (rule undecided_elsewhere) (use t that pc in auto)
  have rel: "pc_ok e (f(i := TAKEN)) cs' ?h (th v)" if "releaser_at (th v) = Some i" for v
    using queue_okD(3) [OF q, of v] that f nu by (cases "th v") auto
  have ic: "c < length cs" using queue_okD(11) [OF q, of t c] t by simp
  have ic': "c < length cs'" "length cs' = length cs" using ic pc by auto
  have id: "i < d" using queue_okD(4) [OF q, of i] f by (auto simp: cell_ok_def)
  have no: "i \<notin> set cl \<union> set cd" using queue_okD(14) [OF q, of i t] at by blast
  show ?thesis
  proof (rule queue_core [OF q refl, where i = i])
    show "cleaned_ok e (f(i := TAKEN)) ?h cl cd"
      by (rule cleaned_stay [OF queue_okD(6) [OF q]]) (use no pc in auto)
    show "cell_ok e d ?h i ((f(i := TAKEN)) i)" using nu id by (auto simp: cell_ok_def)
    show "cs ! x = Active" if "x < length cs" "cs' ! x = Active" for x
      using that pc by (cases "x = c") auto
  qed (use only ic ic' pc in \<open>auto simp: t uj rel\<close>)
qed

lemma queue_broken:
  assumes q: "queue_ok e d f cs th cl cd" and t: "th t = Take c i" and f: "f i = BROKEN"
  shows "queue_ok e d f cs (th(t := Dec_Again c)) cl cd"
proof -
  let ?h = "th(t := Dec_Again c)"
  have at: "acquirer_at (th t) = Some i" by (simp add: t)
  have only: "acquirer_at (th u) \<noteq> Some i" if "u \<noteq> t" for u using queue_okD(9) [OF q at] that by auto
  have nu: "\<not> undecided e ?h i" by (rule no_deciding_elsewhere [OF q at]) simp
  have uj: "undecided e ?h j = undecided e th j" if "j \<noteq> i" for j by (rule undecided_elsewhere) (use t that in auto)
  have rel: "pc_ok e f cs ?h (th v)" if "releaser_at (th v) = Some i" for v
    using queue_okD(3) [OF q, of v] that f nu by (cases "th v") auto
  have id: "i < d" using queue_okD(4) [OF q, of i] f by (auto simp: cell_ok_def)
  show ?thesis
  proof (rule queue_core [OF q refl, where i = i])
    show "cleaned_ok e f ?h cl cd" by (rule cleaned_stay [OF queue_okD(6) [OF q]]) auto
    show "cell_ok e d ?h i (f i)" using nu id f by (auto simp: cell_ok_def)
  qed (use only queue_okD(11) [OF q, of t c] queue_okD(13) [OF q] in \<open>simp_all add: t uj rel\<close>)
qed

lemma undecided_deciding:
  assumes q: "queue_ok e d f cs th cl cd" and "undecided e th i" "acquirer_at (th u) = Some i"
  shows "deciding_at (th u) = Some i"
proof -
  obtain v where v: "deciding_at (th v) = Some i"
    using assms(2) queue_okD(7) [OF q assms(3)] by (auto simp: undecided_def)
  then show ?thesis using queue_okD(9) [OF q deciding_acquirer [OF v] assms(3)] by simp
qed

lemma queue_handler_cancelled:
  assumes q: "queue_ok e d f cs th cl cd" and t: "th t = Set_Handler c i"
  shows "queue_ok e d (f(i := CANCELLED)) cs (th(t := Idle)) cl (i # cd)"
proof -
  let ?h = "th(t := Idle)"
  have at: "acquirer_at (th t) = Some i" by (simp add: t)
  have only: "acquirer_at (th u) \<noteq> Some i" if "u \<noteq> t" for u using queue_okD(9) [OF q at] that by auto
  have nu: "\<not> undecided e ?h i" by (rule no_deciding_elsewhere [OF q at]) simp
  have uj: "undecided e ?h j = undecided e th j" for j by (rule undecided_upd) (simp add: t)
  have fi: "f i = Waiter c \<or> f i = PERMIT" using queue_okD(3) [OF q, of t] t by simp
  have rel: "pc_ok e (f(i := CANCELLED)) cs ?h (th v)" if "releaser_at (th v) = Some i" for v
    using queue_okD(3) [OF q, of v] that fi nu uj by (cases "th v") auto
  have no: "i \<notin> set cl \<union> set cd" using queue_okD(14) [OF q, of i t] at by blast
  have "cleaned_ok e (f(i := CANCELLED)) ?h cl cd" by (rule cleaned_stay [OF queue_okD(6) [OF q]]) (use no in auto)
  then have "cleaned_ok e (f(i := CANCELLED)) ?h cl (i # cd)"
    using no only queue_okD(7) [OF q at] by (auto simp: cleaned_ok_def)
  moreover have "cell_ok e d ?h i CANCELLED" using nu by (simp add: cell_ok_def)
  ultimately show ?thesis
    by (intro queue_core [OF q refl, where i = i]) (use only in \<open>auto simp: t uj rel\<close>)
qed

lemma queue_clean:
  assumes q: "queue_ok e d f cs th (xs @ i # ys) cd"
  shows "queue_ok e d (f(i := CANCELLED)) cs th (xs @ ys) (i # cd)"
proof -
  have i: "i < e" "acquirer_at (th t) \<noteq> Some i" "f i \<noteq> TAKEN" for t using queue_okD(14) [OF q, of i t] by auto
  have nu: "\<not> undecided e th i" using i(1,2) deciding_acquirer by (auto simp: undecided_def)
  have rel: "pc_ok e (f(i := CANCELLED)) cs th (th v)" if "releaser_at (th v) = Some i" for v
    using queue_okD(3) [OF q, of v] that nu i(3) by (cases "th v") auto
  have cl: "cleaned_ok e f th (xs @ i # ys) cd" by (rule queue_okD(6) [OF q])
  then have "cleaned_ok e (f(i := CANCELLED)) th (xs @ ys) (i # cd)" by (auto simp: cleaned_ok_def)
  moreover have "cell_ok e d th i CANCELLED" using nu by (simp add: cell_ok_def)
  moreover have "pc_ok e (f(i := CANCELLED)) cs th (th 0)"
  proof (cases "releaser_at (th 0) = Some i")
    case False
    show ?thesis by (rule pc_ok_mono [OF queue_okD(3) [OF q]]) (use False i(2) [of 0] in auto)
  qed (rule rel)
  ultimately show ?thesis
    by (intro queue_core [OF q, of th 0 "th 0", where i = i])
      (use i(2) queue_okD(7,8,11,12) [OF q, of 0] in \<open>auto simp: rel\<close>)
qed

text \<open>The releaser's steps.\<close>

lemma queue_dequeue:
  assumes q: "queue_ok e d f cs th cl cd" and t: "th t = Dequeue"
  shows "queue_ok e (Suc d) f cs (th(t := Swap d)) cl cd"
proof -
  let ?h = "th(t := Swap d)"
  have no: "releaser_at (th u) \<noteq> Some d" for u using queue_okD(8) [OF q, of u d] by auto
  have u: "undecided e ?h j = undecided e th j" for j by (rule undecided_upd) (simp add: t)
  have fd: "f d = NULL \<or> f d = CANCELLED \<or> (\<exists>c. f d = Waiter c)" using queue_okD(4) [OF q, of d] by (auto simp: cell_ok_def)
  have c: "cell_ok e (Suc d) ?h d (f d)" using queue_okD(4) [OF q, of d] u fd by (auto simp: cell_ok_def)
  have o: "pc_ok e f cs ?h (th v)" for v
    by (rule pc_ok_mono [OF queue_okD(3) [OF q]]) (use other_thread [where P = "\<lambda>p. p = Resume _" and t = t] t in \<open>simp_all add: u\<close>)
  have "cleaned_ok e f ?h cl cd" by (rule cleaned_stay [OF queue_okD(6) [OF q]]) auto
  then show ?thesis
    by (intro queue_core [OF q refl, where i = d]) (use no fd queue_okD(13) [OF q] in \<open>auto simp: t u c o\<close>)
qed

lemma queue_swap:
  assumes q: "queue_ok e d f cs th cl cd" and t: "th t = Swap i"
    and pc: "pc = (case f i of NULL \<Rightarrow> Spin i 0 | CANCELLED \<Rightarrow> Releasing | Waiter c \<Rightarrow> Resume c | _ \<Rightarrow> Crashed)"
  shows "queue_ok e d (f(i := PERMIT)) cs (th(t := pc)) cl cd"
proof -
  let ?h = "th(t := pc)"
  have at: "releaser_at (th t) = Some i" by (simp add: t)
  have only: "releaser_at (th u) \<noteq> Some i" if "u \<noteq> t" for u using queue_okD(10) [OF q at] that by auto
  have fi: "f i = NULL \<and> undecided e th i \<and> pc = Spin i 0 \<or> f i = CANCELLED \<and> pc = Releasing \<or> (\<exists>c. f i = Waiter c \<and> pc = Resume c)"
    using queue_okD(3) [OF q, of t] queue_okD(4) [OF q, of i] t pc by (auto simp: cell_ok_def)
  have u: "undecided e ?h j = undecided e th j" for j by (rule undecided_upd) (use fi t in auto)
  have nu: "\<not> undecided e th i" if "f i \<noteq> NULL"
    using fi that queue_okD(4) [OF q, of i] by (auto simp: cell_ok_def)
  have id: "i < d" using queue_okD(8) [OF q at] .
  have acq: "pc_ok e (f(i := PERMIT)) cs ?h (th v)" if v: "acquirer_at (th v) = Some i" for v
  proof -
    have "\<exists>u. ?h u = Resume c" if "f i = Waiter c" for c using fi that by (intro exI [of _ t]) auto
    moreover have "f i \<noteq> PERMIT" using fi by auto
    ultimately show ?thesis using queue_okD(3) [OF q, of v] v by (cases "th v") (simp_all split: option.splits)
  qed
  have "\<exists>u n. ?h u = Spin i n" if "f i = NULL" using fi that by (intro exI [of _ t] exI [of _ 0]) auto
  moreover have "f i = NULL" if "undecided e ?h i" using that nu u by auto
  ultimately have "cell_ok e d ?h i PERMIT" using id unfolding cell_ok_def by (intro conjI) (simp_all del: fun_upd_apply)
  moreover have "cleaned_ok e (f(i := PERMIT)) ?h cl cd"
  proof -
    have "acquirer_at pc = None" using fi by auto
    then have "cleaned_ok e f ?h cl cd" by (intro cleaned_stay [OF queue_okD(6) [OF q]]) auto
    then show ?thesis by (auto simp: cleaned_ok_def)
  qed
  moreover have "pc_ok e (f(i := PERMIT)) cs ?h pc" using fi u [of i] by (elim disjE conjE exE) simp_all
  ultimately show ?thesis
    by (intro queue_core [OF q refl, where i = i]) (use fi only queue_okD(13) [OF q] id in \<open>auto simp: t u acq\<close>)
qed

lemma queue_gone:
  assumes q: "queue_ok e d f cs th cl cd" and t: "th t = Swap i" and i: "i \<in> set cd"
  shows "queue_ok e d f cs (th(t := Releasing)) cl cd"
proof -
  let ?h = "th(t := Releasing)"
  have at: "releaser_at (th t) = Some i" by (simp add: t)
  have only: "releaser_at (th u) \<noteq> Some i" if "u \<noteq> t" for u using queue_okD(10) [OF q at] that by auto
  have u: "undecided e ?h j = undecided e th j" for j by (rule undecided_upd) (simp add: t)
  have a: "acquirer_at (th v) \<noteq> Some i" "i < e" for v using queue_okD(14) [OF q, of i v] i by auto
  then have nu: "\<not> undecided e th i" using deciding_acquirer by (auto simp: undecided_def)
  have "f i = CANCELLED \<or> f i = PERMIT" using queue_okD(6) [OF q] i by (auto simp: cleaned_ok_def)
  then have "cell_ok e d ?h i (f i)" using nu u queue_okD(8) [OF q at] by (auto simp: cell_ok_def)
  moreover have "cleaned_ok e f ?h cl cd" by (rule cleaned_stay [OF queue_okD(6) [OF q]]) auto
  ultimately show ?thesis
    by (intro queue_core [OF q refl, where i = i]) (use a only queue_okD(13) [OF q] in \<open>auto simp: t u\<close>)
qed

lemma queue_spin_end:
  assumes q: "queue_ok e d f cs th cl cd" and t: "th t = Spin i n"
    and x: "f i = TAKEN \<and> x = TAKEN \<and> pc = Idle \<or> f i = PERMIT \<and> x = BROKEN \<and> pc = Releasing"
  shows "queue_ok e d (f(i := x)) cs (th(t := pc)) cl cd"
proof -
  let ?h = "th(t := pc)"
  have at: "releaser_at (th t) = Some i" by (simp add: t)
  have only: "releaser_at (th u) \<noteq> Some i" if "u \<noteq> t" for u using queue_okD(10) [OF q at] that by auto
  have u: "undecided e ?h j = undecided e th j" for j by (rule undecided_upd) (use x t in auto)
  have und: "f i = PERMIT \<longleftrightarrow> undecided e th i" using queue_okD(3) [OF q, of t] t x by auto
  have acq: "pc_ok e (f(i := x)) cs ?h (th v)" if v: "acquirer_at (th v) = Some i" for v
  proof -
    have "f i = PERMIT \<Longrightarrow> deciding_at (th v) = Some i" using undecided_deciding [OF q _ v] und by blast
    then show ?thesis using queue_okD(3) [OF q, of v] v x by (cases "th v") (auto split: option.splits)
  qed
  have "cell_ok e d ?h i x" using und u queue_okD(8) [OF q at] x by (auto simp: cell_ok_def)
  moreover have "cleaned_ok e (f(i := x)) ?h cl cd"
  proof -
    have "i \<notin> set cl \<union> set cd"
    proof
      assume i: "i \<in> set cl \<union> set cd"
      have "f i \<noteq> TAKEN" "i < e" "\<And>v. deciding_at (th v) \<noteq> Some i" using queue_okD(14) [OF q i] deciding_acquirer by blast+
      then show False using und x by (auto simp: undecided_def)
    qed
    then show ?thesis by (intro cleaned_stay [OF queue_okD(6) [OF q]]) (use x in auto)
  qed
  ultimately show ?thesis
    by (intro queue_core [OF q refl, where i = i]) (use x only in \<open>auto simp: t u acq\<close>)
qed

subsection \<open>The invariant of the semaphore\<close>

definition pc_at :: "sem \<Rightarrow> nat \<Rightarrow> sem_pc" where
  "pc_at s u = (if u < length (threads s) then threads s ! u else Idle)"

definition sem_queue_ok :: "sem \<Rightarrow> bool" where
  "sem_queue_ok s \<longleftrightarrow> queue_ok (enq_idx s) (deq_idx s) (cells s) (conts s) (pc_at s) (cleaning s) (cleaned s)"

definition sem_ok :: "sem \<Rightarrow> bool" where
  "sem_ok s \<longleftrightarrow> permits_ok s \<and> sem_queue_ok s \<and> 0 < segment_size s \<and> errors s = 0"

lemma sem_okD:
  assumes "sem_ok s"
  shows "permits_ok s" "sem_queue_ok s" "0 < segment_size s"
    "queue_ok (enq_idx s) (deq_idx s) (cells s) (conts s) (pc_at s) (cleaning s) (cleaned s)"
  using assms by (simp_all add: sem_ok_def sem_queue_ok_def)

lemma sem_updates [simp]:
  "permits (set_pc t pc s) = permits s" "available (set_pc t pc s) = available s" "enq_idx (set_pc t pc s) = enq_idx s"
  "deq_idx (set_pc t pc s) = deq_idx s" "cells (set_pc t pc s) = cells s" "conts (set_pc t pc s) = conts s"
  "threads (set_pc t pc s) = (threads s)[t := pc]" "cleaning (set_pc t pc s) = cleaning s" "cleaned (set_pc t pc s) = cleaned s"
  "segment_size (set_pc t pc s) = segment_size s" "leaked (set_pc t pc s) = leaked s" "errors (set_pc t pc s) = errors s"
  "permits (set_cell i x s) = permits s" "available (set_cell i x s) = available s" "enq_idx (set_cell i x s) = enq_idx s"
  "deq_idx (set_cell i x s) = deq_idx s" "cells (set_cell i x s) = (cells s)(i := x)" "conts (set_cell i x s) = conts s"
  "threads (set_cell i x s) = threads s" "cleaning (set_cell i x s) = cleaning s" "cleaned (set_cell i x s) = cleaned s"
  "segment_size (set_cell i x s) = segment_size s" "leaked (set_cell i x s) = leaked s" "errors (set_cell i x s) = errors s"
  "permits (set_cont c y s) = permits s" "available (set_cont c y s) = available s" "enq_idx (set_cont c y s) = enq_idx s"
  "deq_idx (set_cont c y s) = deq_idx s" "cells (set_cont c y s) = cells s" "conts (set_cont c y s) = (conts s)[c := y]"
  "threads (set_cont c y s) = threads s" "cleaning (set_cont c y s) = cleaning s" "cleaned (set_cont c y s) = cleaned s"
  "segment_size (set_cont c y s) = segment_size s" "leaked (set_cont c y s) = leaked s" "errors (set_cont c y s) = errors s"
  by (simp_all add: set_pc_def set_cell_def set_cont_def)

lemma pc_at_upd: "threads s' = (threads s)[t := pc] \<Longrightarrow> t < length (threads s) \<Longrightarrow> pc_at s' = (pc_at s)(t := pc)"
  by (auto simp: pc_at_def fun_eq_iff)

lemma pc_at_same: "threads s' = threads s \<Longrightarrow> pc_at s' = pc_at s"
  by (simp add: pc_at_def fun_eq_iff)

lemma pc_at_eq: "t < length (threads s) \<Longrightarrow> pc_at s t = threads s ! t"
  by (simp add: pc_at_def)

lemmas permit_defs = permits_ok_def held_permits_def carried_permits_def

text \<open>A step that changes at most cell \<open>i\<close>, at which no other thread spins.\<close>

lemma carries_set:
  assumes "t < length xs" "\<And>u n. u < length xs \<Longrightarrow> u \<noteq> t \<Longrightarrow> xs ! u = Spin i n \<Longrightarrow> x = PERMIT \<longleftrightarrow> f i = PERMIT"
  shows "count (carries (f(i := x))) (xs[t := pc]) = count (carries f) xs + of_bool (carries (f(i := x)) pc) - of_bool (carries f (xs ! t))"
proof -
  have "carries (f(i := x)) p = carries f p" if m: "p \<in> set (xs[t := Idle])" for p
  proof -
    obtain u where "u < length (xs[t := Idle])" "xs[t := Idle] ! u = p" using m unfolding in_set_conv_nth by blast
    then show ?thesis using assms(2) [of u] by (cases "u = t"; cases p) auto
  qed
  then have "count (carries (f(i := x))) (xs[t := Idle]) = count (carries f) (xs[t := Idle])" by (rule count_cong)
  then show ?thesis using assms(1) count_set [of t xs "carries (f(i := x))" Idle] count_set [of t xs "carries f" Idle]
      count_set [of t xs "carries (f(i := x))" pc] by simp
qed

lemma count_pos: "x \<in> set xs \<Longrightarrow> P x \<Longrightarrow> 1 \<le> count P xs"
  using count_zero [of P xs] count_nonneg [of P xs] by (metis dual_order.antisym int_one_le_iff_zero_less linorder_not_le)

lemma permits_step:
  assumes "permits_ok s" "t < length (threads s)" and th: "threads s' = (threads s)[t := pc]" and p: "permits s' = permits s"
    and carr: "count (carries (cells s')) ((threads s)[t := pc]) = carried_permits s + dc"
    and gr: "count granted (conts s') = count granted (conts s) + dg" and leak: "leaked s' = leaked s + dl" "0 \<le> dl"
    and bal: "of_bool (holds pc) - of_bool (holds (threads s ! t)) + dg + dc + dl = max 0 (available s) - max 0 (available s')"
    and queue: "int (enq_idx s') - int (enq_idx s) + of_bool (enqueuing pc) - of_bool (enqueuing (threads s ! t))
      - (int (deq_idx s') - int (deq_idx s)) - of_bool (pc = Dequeue) + of_bool (threads s ! t = Dequeue)
      = max 0 (- available s') - max 0 (- available s)"
  shows "permits_ok s'"
proof -
  have c: "count holds (threads s') = count holds (threads s) + of_bool (holds pc) - of_bool (holds (threads s ! t))"
    "count enqueuing (threads s') = count enqueuing (threads s) + of_bool (enqueuing pc) - of_bool (enqueuing (threads s ! t))"
    "count (\<lambda>pc. pc = Dequeue) (threads s') = count (\<lambda>pc. pc = Dequeue) (threads s) + of_bool (pc = Dequeue) - of_bool (threads s ! t = Dequeue)"
    using assms(2) by (simp_all add: th count_set)
  have k: "carried_permits s' = carried_permits s + dc" using carr by (simp add: carried_permits_def th)
  have o: "0 < permits s" "0 \<le> leaked s" "held_permits s + carried_permits s + leaked s = permits s - max 0 (available s)"
    "int (enq_idx s) + count enqueuing (threads s) - int (deq_idx s) - count (\<lambda>pc. pc = Dequeue) (threads s) = max 0 (- available s)"
    using assms(1) by (simp_all add: permits_ok_def)
  show ?thesis
    unfolding permits_ok_def
  proof (intro conjI)
    show "held_permits s' + carried_permits s' + leaked s' = permits s' - max 0 (available s')"
      using o(3) c(1) k gr leak bal p unfolding held_permits_def by linarith
    show "int (enq_idx s') + count enqueuing (threads s') - int (deq_idx s') - count (\<lambda>pc. pc = Dequeue) (threads s') = max 0 (- available s')"
      using o(4) c(2,3) queue by linarith
  qed (use o p leak in simp_all)
qed

lemma carries_same: "t < length (threads s) \<Longrightarrow>
    count (carries (cells s)) ((threads s)[t := pc]) = carried_permits s + (of_bool (carries (cells s) pc) - of_bool (carries (cells s) (threads s ! t)))"
  by (simp add: carried_permits_def count_set)

text \<open>The counter never exceeds its maximum, and stays below it while a thread has a permit.\<close>

lemma available_le: "permits_ok s \<Longrightarrow> available s \<le> permits s"
  unfolding permit_defs using count_nonneg [of holds "threads s"] count_nonneg [of granted "conts s"]
    count_nonneg [of "carries (cells s)" "threads s"] by linarith

lemma available_less:
  assumes "permits_ok s" "t < length (threads s)" "holds (threads s ! t)"
  shows "available s < permits s"
  using assms(1) count_pos [OF nth_mem [OF assms(2)], of holds, OF assms(3)] count_nonneg [of granted "conts s"]
    count_nonneg [of "carries (cells s)" "threads s"] unfolding permit_defs by linarith

lemma dec_permits_ok: "a \<le> m \<Longrightarrow> dec_permits m a = (a, a - 1)"
  by (subst dec_permits.simps) simp

text \<open>Each access of the acquirer.\<close>

lemma sem_enqueue:
  assumes ok: "sem_ok s" and t: "t < length (threads s)" "threads s ! t = Enqueue c"
  shows "sem_ok (set_pc t (Install c (enq_idx s)) (s\<lparr>enq_idx := enq_idx s + 1\<rparr>))" (is "sem_ok ?s")
proof -
  have "queue_ok (Suc (enq_idx s)) (deq_idx s) (cells s) (conts s) ((pc_at s)(t := Install c (enq_idx s))) (cleaning s) (cleaned s)"
    by (rule queue_enqueue [OF sem_okD(4) [OF ok]]) (simp add: pc_at_eq t)
  then have "sem_queue_ok ?s" using pc_at_upd [of ?s s t] t(1) by (simp add: sem_queue_ok_def)
  moreover have "permits_ok ?s" using sem_okD(1) [OF ok] t by (simp add: permit_defs count_set holds_def)
  ultimately show ?thesis using ok by (simp add: sem_ok_def)
qed

lemma sem_install:
  assumes ok: "sem_ok s" and t: "t < length (threads s)" "threads s ! t = Install c i"
  shows "sem_ok (add_acquire_to_queue t (Install c i) s)"
proof (cases "cells s i = NULL")
  case True
  let ?s = "set_pc t (Set_Handler c i) (set_cell i (Waiter c) s)"
  note q = sem_okD(4) [OF ok]
  have "queue_ok (enq_idx s) (deq_idx s) ((cells s)(i := Waiter c)) (conts s) ((pc_at s)(t := Set_Handler c i)) (cleaning s) (cleaned s)"
    by (rule queue_install [OF q]) (simp_all add: pc_at_eq t True)
  then have "sem_queue_ok ?s" using pc_at_upd [of ?s s t] t(1) by (simp add: sem_queue_ok_def)
  moreover have no: "threads s ! u \<noteq> Spin i n" if "u < length (threads s)" for u n
    using queue_okD(3) [OF q, of u] that True by (auto simp: pc_at_eq)
  have "permits_ok ?s"
    by (rule permits_step [OF sem_okD(1) [OF ok] t(1), where dc = 0 and dg = 0 and dl = 0])
      (use carries_set [of t "threads s" i "Waiter c" "cells s" "Set_Handler c i"] no t in \<open>auto simp: holds_def carried_permits_def\<close>)
  ultimately show ?thesis using ok True by (simp add: sem_ok_def)
next
  case False
  let ?s = "set_pc t (Take c i) s"
  note q = sem_okD(4) [OF ok]
  have pc: "cells s i = PERMIT \<or> cells s i = BROKEN" using queue_okD(3) [OF q, of t] False t by (simp add: pc_at_eq)
  have "queue_ok (enq_idx s) (deq_idx s) (cells s) (conts s) ((pc_at s)(t := Take c i)) (cleaning s) (cleaned s)"
  proof (rule queue_stay [OF q refl])
    show "cleaned_ok (enq_idx s) (cells s) ((pc_at s)(t := Take c i)) (cleaning s) (cleaned s)"
      by (rule cleaned_stay [OF queue_okD(6) [OF q]]) (use queue_okD(14) [OF q, of i t] t in \<open>auto simp: pc_at_eq\<close>)
  qed (use pc queue_okD(11) [OF q, of t] in \<open>simp_all add: pc_at_eq t\<close>)
  then have "sem_queue_ok ?s" using pc_at_upd [of ?s s t] t(1) by (simp add: sem_queue_ok_def)
  moreover have "permits_ok ?s" using sem_okD(1) [OF ok] t by (simp add: permit_defs count_set holds_def)
  ultimately show ?thesis using ok False by (simp add: sem_ok_def)
qed

text \<open>A step that changes no cell and neither index, as \<open>queue_stay\<close>.\<close>

lemma sem_stay:
  assumes ok: "sem_ok s" and t: "t < length (threads s)" and th: "threads s' = (threads s)[t := pc]"
    and fields: "cells s' = cells s" "enq_idx s' = enq_idx s" "deq_idx s' = deq_idx s" "cleaned s' = cleaned s"
      "segment_size s' = segment_size s" "errors s' = errors s" "permits s' = permits s"
    and same: "acquirer_at pc = acquirer_at (threads s ! t) \<or> acquirer_at pc = None" "releaser_at pc = releaser_at (threads s ! t)"
      "deciding_at pc = deciding_at (threads s ! t)"
    and pc: "pc_ok (enq_idx s) (cells s) (conts s') (pc_at s') pc" "\<And>c. cont_of pc = Some c \<or> pc = Resume c \<Longrightarrow> c < length (conts s')"
    and old: "\<And>i. threads s ! t \<noteq> Swap i" "\<And>i n. threads s ! t = Spin i n \<Longrightarrow> \<exists>n. pc = Spin i n"
      "\<And>c. threads s ! t = Resume c \<Longrightarrow> conts s' ! c = Active \<Longrightarrow> pc = Resume c"
    and cont: "\<And>c. c < length (conts s) \<Longrightarrow> conts s' ! c = Active \<Longrightarrow> conts s ! c = Active" "length (conts s) \<le> length (conts s')"
    and clean: "cleaning s' = cleaning s \<or> (\<exists>i. acquirer_at (threads s ! t) = Some i \<and> acquirer_at pc = None \<and>
      (\<exists>c. threads s ! t = Suspended c (Some i)) \<and> cleaning s' = i # cleaning s)"
    and gr: "count granted (conts s') = count granted (conts s) + dg" and leak: "leaked s' = leaked s + dl" "0 \<le> dl"
    and bal: "of_bool (holds pc) - of_bool (holds (threads s ! t)) + dg
      + (of_bool (carries (cells s) pc) - of_bool (carries (cells s) (threads s ! t))) + dl = max 0 (available s) - max 0 (available s')"
    and queue: "of_bool (enqueuing pc) - of_bool (enqueuing (threads s ! t))
      - of_bool (pc = Dequeue) + of_bool (threads s ! t = Dequeue) = max 0 (- available s') - max 0 (- available s)"
  shows "sem_ok s'"
proof -
  note q = sem_okD(4) [OF ok]
  have h: "pc_at s' = (pc_at s)(t := pc)" by (rule pc_at_upd [OF th t])
  note pt = pc_at_eq [OF t]
  have "j \<notin> set (cleaning s) \<union> set (cleaned s)" if "acquirer_at pc = Some j" for j
    using that same(1) queue_okD(14) [OF q, of j t] pt by auto
  then have cl0: "cleaned_ok (enq_idx s) (cells s) (pc_at s') (cleaning s) (cleaned s)"
    unfolding h by (intro cleaned_stay [OF queue_okD(6) [OF q]]) auto
  have cl: "cleaned_ok (enq_idx s) (cells s) (pc_at s') (cleaning s') (cleaned s)"
    using clean
  proof (elim disjE exE conjE)
    fix i c assume i: "acquirer_at (threads s ! t) = Some i" "acquirer_at pc = None" "cleaning s' = i # cleaning s" "threads s ! t = Suspended c (Some i)"
    have at: "acquirer_at (pc_at s t) = Some i" using i(1) pt by simp
    have n: "i \<notin> set (cleaning s) \<union> set (cleaned s)" using queue_okD(14) [OF q, of i t] at by blast
    have f: "cells s i \<noteq> TAKEN" using queue_okD(3) [OF q, of t] i(4) pt by auto
    have u: "acquirer_at (pc_at s' u) \<noteq> Some i" for u using queue_okD(9) [OF q at, of u] i(2) by (auto simp: h)
    show ?thesis using cl0 n f u queue_okD(7) [OF q at] i(3) by (auto simp: cleaned_ok_def)
  qed (use cl0 in simp)
  have "queue_ok (enq_idx s) (deq_idx s) (cells s) (conts s') (pc_at s') (cleaning s') (cleaned s)"
    by (rule queue_stay [OF q h _ _ _ pc _ _ _ cont cl]) (use same old pt in auto)
  then have "sem_queue_ok s'" by (simp add: sem_queue_ok_def fields)
  moreover have "permits_ok s'"
    by (rule permits_step [OF sem_okD(1) [OF ok] t th fields(7) _ gr leak])
      (use carries_same [OF t, of pc] bal queue in \<open>simp_all add: fields\<close>)
  ultimately show ?thesis using ok by (simp add: sem_ok_def fields)
qed

lemma granted_simps [simp]: "\<not> granted Active" "granted (Resumed b)" "\<not> granted Cancelled" "\<not> granted Consumed"
  by (simp_all add: granted_def)

lemma cont_at:
  assumes ok: "sem_ok s" and t: "t < length (threads s)"
  shows "cont_of (threads s ! t) = Some c \<Longrightarrow> c < length (conts s)" "threads s ! t = Resume c \<Longrightarrow> c < length (conts s)"
  using queue_okD(11,12) [OF sem_okD(4) [OF ok], of t c] pc_at_eq [OF t] by simp_all

lemma active_upd: "(conts s)[c := y] ! d = Active \<Longrightarrow> y \<noteq> Active \<Longrightarrow> conts s ! d = Active"
  by (cases "c < length (conts s)") (auto simp: nth_list_update not_less list_update_beyond split: if_splits)

lemma sem_dec_again:
  assumes ok: "sem_ok s" and t: "t < length (threads s)" "threads s ! t = Dec_Again c"
  shows "sem_ok (add_acquire_to_queue t (Dec_Again c) s)"
proof -
  note c = cont_at [OF ok t(1)]
  have a: "dec_permits (permits s) (available s) = (available s, available s - 1)"
    by (rule dec_permits_ok [OF available_le [OF sem_okD(1) [OF ok]]])
  consider "available s > 0" "conts s ! c = Active" | "available s > 0" "conts s ! c \<noteq> Active" | "available s \<le> 0" by linarith
  then show ?thesis
  proof cases
    case 1
    let ?s = "set_pc t (Suspended c None) (set_cont c (Resumed True) (s\<lparr>available := available s - 1\<rparr>))"
    have "sem_ok ?s"
      by (rule sem_stay [OF ok t(1), where pc = "Suspended c None" and dg = 1 and dl = 0])
        (use 1 c active_upd [of s c "Resumed True"] in \<open>simp_all add: t(2) holds_def count_set\<close>)
    then show ?thesis using 1 a by (simp add: acquire_internal_def resume_waiter_with_permit_def)
  next
    case 2
    let ?s = "set_pc t Releasing (s\<lparr>available := available s - 1\<rparr>)"
    have "sem_ok ?s"
      by (rule sem_stay [OF ok t(1), where pc = Releasing and dg = 0 and dl = 0]) (use 2 in \<open>simp_all add: t(2) holds_def\<close>)
    then show ?thesis using 2 a by (simp add: acquire_internal_def resume_waiter_with_permit_def)
  next
    case 3
    let ?s = "set_pc t (Enqueue c) (s\<lparr>available := available s - 1\<rparr>)"
    have "sem_ok ?s"
      by (rule sem_stay [OF ok t(1), where pc = "Enqueue c" and dg = 0 and dl = 0]) (use 3 c in \<open>simp_all add: t(2) holds_def\<close>)
    then show ?thesis using 3 a by (simp add: acquire_internal_def)
  qed
qed

lemma sem_handler:
  assumes ok: "sem_ok s" and t: "t < length (threads s)" "threads s ! t = Set_Handler c i"
  shows "sem_ok (add_acquire_to_queue t (Set_Handler c i) s)"
proof (cases "conts s ! c = Cancelled")
  case True
  note q = sem_okD(4) [OF ok]
  let ?s = "set_pc t Idle (on_cancellation i s)"
  have fi: "cells s i = Waiter c \<or> cells s i = PERMIT" using queue_okD(3) [OF q, of t] t by (simp add: pc_at_eq)
  have "queue_ok (enq_idx s) (deq_idx s) ((cells s)(i := CANCELLED)) (conts s) ((pc_at s)(t := Idle)) (cleaning s) (i # cleaned s)"
    by (rule queue_handler_cancelled [OF q]) (simp add: pc_at_eq t)
  then have "sem_queue_ok ?s" using pc_at_upd [of ?s s t] t(1) by (simp add: sem_queue_ok_def on_cancellation_def)
  moreover have no: "threads s ! u \<noteq> Spin i n" if u: "u < length (threads s)" for u n
  proof
    assume "threads s ! u = Spin i n"
    then have "undecided (enq_idx s) (pc_at s) i \<and> cells s i = PERMIT" using queue_okD(3) [OF q, of u] u fi by (auto simp: pc_at_eq)
    then have "deciding_at (pc_at s t) = Some i" using undecided_deciding [OF q, of i t] t by (simp add: pc_at_eq)
    then show False using t by (simp add: pc_at_eq)
  qed
  have "permits_ok ?s"
    by (rule permits_step [OF sem_okD(1) [OF ok] t(1), where dc = 0 and dg = 0 and dl = 0])
      (use carries_set [of t "threads s" i CANCELLED "cells s" Idle] no t in
        \<open>auto simp: holds_def carried_permits_def on_cancellation_def\<close>)
  ultimately show ?thesis using ok True by (simp add: sem_ok_def on_cancellation_def)
next
  case False
  note q = sem_okD(4) [OF ok]
  let ?s = "set_pc t (Suspended c (Some i)) s"
  have old: "pc_ok (enq_idx s) (cells s) (conts s) (pc_at s) (Set_Handler c i)" using queue_okD(3) [OF q, of t] t by (simp add: pc_at_eq)
  have "pc_at ?s = (pc_at s)(t := Suspended c (Some i))" by (rule pc_at_upd) (simp_all add: t)
  then have "\<exists>u. pc_at s u = Resume c \<Longrightarrow> \<exists>u. pc_at ?s u = Resume c"
    using other_thread [of "\<lambda>p. p = Resume c" "pc_at s" t "Suspended c (Some i)"] t by (simp add: pc_at_eq)
  then have "pc_ok (enq_idx s) (cells s) (conts s) (pc_at ?s) (Suspended c (Some i))" using old by auto
  then have "sem_ok ?s"
    by (intro sem_stay [OF ok t(1), where pc = "Suspended c (Some i)" and dg = 0 and dl = 0])
      (use cont_at [OF ok t(1)] in \<open>simp_all add: t(2) holds_def\<close>)
  then show ?thesis using False by simp
qed

lemma sem_take:
  assumes ok: "sem_ok s" and t: "t < length (threads s)" "threads s ! t = Take c i"
  shows "sem_ok (add_acquire_to_queue t (Take c i) s)"
proof (cases "cells s i = PERMIT")
  case True
  note q = sem_okD(4) [OF ok]
  have c: "c < length (conts s)" using cont_at [OF ok t(1)] t by simp
  have at: "acquirer_at (pc_at s t) = Some i" "deciding_at (pc_at s t) = Some i" using t by (simp_all add: pc_at_eq)
  then have und: "undecided (enq_idx s) (pc_at s) i" by (auto simp: undecided_def)
  then obtain u n where u: "pc_at s u = Spin i n" using queue_okD(4) [OF q, of i] True by (auto simp: cell_ok_def)
  then have ul: "u < length (threads s)" "threads s ! u = Spin i n" by (auto simp: pc_at_def split: if_splits)
  have ut: "u \<noteq> t" using ul t by auto
  have one: "count (carries ((cells s)(i := TAKEN))) (threads s) = count (carries (cells s)) (threads s) - 1"
  proof (rule count_one_less [OF ul(1)])
    fix v assume v: "v < length (threads s)" "v \<noteq> u"
    have "releaser_at (threads s ! v) \<noteq> Some i"
      using queue_okD(10) [OF q, of u i v] u v by (auto simp: pc_at_eq)
    then show "carries (cells s) (threads s ! v) = carries ((cells s)(i := TAKEN)) (threads s ! v)" by (cases "threads s ! v") auto
  qed (use ul True in simp_all)
  define pc cs where "pc = (if conts s ! c = Active then Suspended c None else Releasing)"
    and "cs = (if conts s ! c = Active then (conts s)[c := Resumed True] else conts s)"
  let ?s = "set_pc t pc ((set_cell i TAKEN s)\<lparr>conts := cs\<rparr>)"
  have e: "add_acquire_to_queue t (Take c i) s = ?s"
    using True by (simp add: resume_waiter_with_permit_def pc_def cs_def set_cont_def set_cell_def set_pc_def)
  have "queue_ok (enq_idx s) (deq_idx s) ((cells s)(i := TAKEN)) cs ((pc_at s)(t := pc)) (cleaning s) (cleaned s)"
    by (rule queue_take [OF q _ True]) (use t in \<open>auto simp: pc_at_eq pc_def cs_def\<close>)
  then have "sem_queue_ok ?s" using pc_at_upd [of ?s s t] t(1) by (simp add: sem_queue_ok_def)
  moreover have "permits_ok ?s"
  proof (rule permits_step [OF sem_okD(1) [OF ok] t(1), where dc = "-1" and dg = "of_bool (conts s ! c = Active)" and dl = 0])
    show "count (carries (cells ?s)) ((threads s)[t := pc]) = carried_permits s + - 1"
      using one t by (simp add: count_set carried_permits_def pc_def)
    show "count granted (conts ?s) = count granted (conts s) + of_bool (conts s ! c = Active)"
      using c by (simp add: cs_def count_set)
  qed (use t in \<open>auto simp: pc_def holds_def\<close>)
  ultimately show ?thesis unfolding e using ok by (simp add: sem_ok_def)
next
  case False
  note q = sem_okD(4) [OF ok]
  have f: "cells s i = BROKEN" using queue_okD(3) [OF q, of t] False t by (simp add: pc_at_eq)
  let ?s = "set_pc t (Dec_Again c) s"
  have "queue_ok (enq_idx s) (deq_idx s) (cells s) (conts s) ((pc_at s)(t := Dec_Again c)) (cleaning s) (cleaned s)"
    by (rule queue_broken [OF q _ f]) (use t in \<open>simp add: pc_at_eq\<close>)
  then have "sem_queue_ok ?s" using pc_at_upd [of ?s s t] t(1) by (simp add: sem_queue_ok_def)
  moreover have "permits_ok ?s"
    by (rule permits_step [OF sem_okD(1) [OF ok] t(1), where pc = "Dec_Again c" and dc = 0 and dg = 0 and dl = 0])
      (use carries_same [OF t(1), of "Dec_Again c"] t in \<open>simp_all add: holds_def\<close>)
  ultimately show ?thesis using ok f by (simp add: sem_ok_def)
qed

text \<open>Each access of the releaser.\<close>

lemma sem_releasing:
  assumes ok: "sem_ok s" and t: "t < length (threads s)" "threads s ! t = Releasing"
  shows "sem_ok (try_resume_next_from_queue t gone Releasing s)"
proof -
  have l: "available s < permits s" using available_less [OF sem_okD(1) [OF ok] t(1)] t(2) by (simp add: holds_def)
  define pc where "pc = (if available s \<ge> 0 then Idle else Dequeue)"
  have "sem_ok (set_pc t pc (s\<lparr>available := available s + 1\<rparr>))"
    by (rule sem_stay [OF ok t(1), where pc = pc and dg = 0 and dl = 0]) (auto simp: t(2) holds_def pc_def split: if_splits)
  then show ?thesis using l by (simp add: sem_release_def pc_def Let_def)
qed

lemma sem_dequeue:
  assumes ok: "sem_ok s" and t: "t < length (threads s)" "threads s ! t = Dequeue"
  shows "sem_ok (try_resume_next_from_queue t gone Dequeue s)"
proof -
  let ?s = "set_pc t (Swap (deq_idx s)) (s\<lparr>deq_idx := deq_idx s + 1\<rparr>)"
  have "queue_ok (enq_idx s) (Suc (deq_idx s)) (cells s) (conts s) ((pc_at s)(t := Swap (deq_idx s))) (cleaning s) (cleaned s)"
    by (rule queue_dequeue [OF sem_okD(4) [OF ok]]) (simp add: pc_at_eq t)
  then have "sem_queue_ok ?s" using pc_at_upd [of ?s s t] t(1) by (simp add: sem_queue_ok_def)
  moreover have "permits_ok ?s"
    by (rule permits_step [OF sem_okD(1) [OF ok] t(1), where pc = "Swap (deq_idx s)" and dc = 0 and dg = 0 and dl = 0])
      (use carries_same [OF t(1), of "Swap (deq_idx s)"] t in \<open>simp_all add: holds_def\<close>)
  ultimately show ?thesis using ok by (simp add: sem_ok_def)
qed

text \<open>A removed segment has only cleaned cells.\<close>

lemma segment_removed_cleaned:
  assumes ok: "sem_ok s" and r: "segment_removed i s"
  shows "i \<in> set (cleaned s)"
proof (rule ccontr)
  assume n: "i \<notin> set (cleaned s)"
  define z k where "z = segment_size s" and "k = i div z"
  have z: "0 < z" using sem_okD(3) [OF ok] by (simp add: z_def)
  let ?l = "filter (\<lambda>j. j div z = k) (cleaned s)"
  have "distinct (cleaned s)" using queue_okD(6) [OF sem_okD(4) [OF ok]] by (simp add: cleaned_ok_def)
  then have "card (set ?l) = length ?l" by (intro distinct_card distinct_filter)
  then have "card (set ?l) = z" using r by (simp only: segment_removed_def z_def k_def)
  moreover have "set ?l \<subseteq> {k * z..<k * z + z} - {i}"
  proof
    fix j assume "j \<in> set ?l"
    then have "j div z = k" "j \<noteq> i" using n by auto
    moreover have "j = j div z * z + j mod z" by simp
    moreover have "j mod z < z" using z by simp
    ultimately show "j \<in> {k * z..<k * z + z} - {i}" by auto
  qed
  moreover have "i \<in> {k * z..<k * z + z}"
  proof -
    have "i = k * z + i mod z" by (simp add: k_def)
    moreover have "i mod z < z" using z by simp
    ultimately show ?thesis by auto
  qed
  then have "card ({k * z..<k * z + z} - {i}) = z - 1" by simp
  ultimately show False using card_mono [of "{k * z..<k * z + z} - {i}" "set ?l"] z by simp
qed

lemma sem_swap:
  assumes ok: "sem_ok s" and t: "t < length (threads s)" "threads s ! t = Swap i"
  shows "sem_ok (try_resume_next_from_queue t gone (Swap i) s)"
proof (cases "gone \<and> segment_removed i s")
  case True
  let ?s = "set_pc t Releasing s"
  have "i \<in> set (cleaned s)" using segment_removed_cleaned [OF ok] True by blast
  then have "queue_ok (enq_idx s) (deq_idx s) (cells s) (conts s) ((pc_at s)(t := Releasing)) (cleaning s) (cleaned s)"
    by (intro queue_gone [OF sem_okD(4) [OF ok]]) (simp_all add: pc_at_eq t)
  then have "sem_queue_ok ?s" using pc_at_upd [of ?s s t] t(1) by (simp add: sem_queue_ok_def)
  moreover have "permits_ok ?s"
    by (rule permits_step [OF sem_okD(1) [OF ok] t(1), where pc = Releasing and dc = "-1" and dg = 0 and dl = 0])
      (use carries_same [OF t(1), of Releasing] t in \<open>simp_all add: holds_def\<close>)
  ultimately show ?thesis using ok True by (simp add: sem_ok_def)
next
  case False
  note q = sem_okD(4) [OF ok]
  define pc where "pc = (case cells s i of NULL \<Rightarrow> Spin i 0 | CANCELLED \<Rightarrow> Releasing | Waiter c \<Rightarrow> Resume c | _ \<Rightarrow> Crashed)"
  let ?s = "set_pc t pc (set_cell i PERMIT s)"
  have at: "releaser_at (pc_at s t) = Some i" using t by (simp add: pc_at_eq)
  have f: "cells s i = NULL \<or> cells s i = CANCELLED \<or> (\<exists>c. cells s i = Waiter c)"
    using queue_okD(3) [OF q, of t] t by (simp add: pc_at_eq)
  have "queue_ok (enq_idx s) (deq_idx s) ((cells s)(i := PERMIT)) (conts s) ((pc_at s)(t := pc)) (cleaning s) (cleaned s)"
    by (rule queue_swap [OF q _ pc_def]) (use t in \<open>simp add: pc_at_eq\<close>)
  then have "sem_queue_ok ?s" using pc_at_upd [of ?s s t] t(1) by (simp add: sem_queue_ok_def)
  moreover have no: "threads s ! u \<noteq> Spin i n" if "u < length (threads s)" "u \<noteq> t" for u n
    using queue_okD(10) [OF q at, of u] that by (auto simp: pc_at_eq)
  have "permits_ok ?s"
    by (rule permits_step [OF sem_okD(1) [OF ok] t(1), where dc = "- of_bool (pc = Releasing)" and dg = 0 and dl = 0])
      (use carries_set [of t "threads s" i PERMIT "cells s" pc] no t f in \<open>auto simp: holds_def carried_permits_def pc_def\<close>)
  moreover have "try_resume_next_from_queue t gone (Swap i) s = ?s" using False by (auto simp: pc_def)
  ultimately show ?thesis using ok by (simp add: sem_ok_def)
qed

lemma sem_spin:
  assumes ok: "sem_ok s" and t: "t < length (threads s)" "threads s ! t = Spin i n"
  shows "sem_ok (try_resume_next_from_queue t gone (Spin i n) s)"
proof -
  note q = sem_okD(4) [OF ok]
  have f: "cells s i = TAKEN \<or> cells s i = PERMIT" using queue_okD(3) [OF q, of t] t by (auto simp: pc_at_eq)
  have at: "releaser_at (pc_at s t) = Some i" using t by (simp add: pc_at_eq)
  have no: "threads s ! u \<noteq> Spin i m" if "u < length (threads s)" "u \<noteq> t" for u m
    using queue_okD(10) [OF q at, of u] that by (auto simp: pc_at_eq)
  have finish: "sem_ok (set_pc t pc (set_cell i x s))"
    if x: "cells s i = TAKEN \<and> x = TAKEN \<and> pc = Idle \<or> cells s i = PERMIT \<and> x = BROKEN \<and> pc = Releasing" for x pc
  proof -
    let ?s = "set_pc t pc (set_cell i x s)"
    have "queue_ok (enq_idx s) (deq_idx s) ((cells s)(i := x)) (conts s) ((pc_at s)(t := pc)) (cleaning s) (cleaned s)"
      by (rule queue_spin_end [OF q _ x]) (use t in \<open>simp add: pc_at_eq\<close>)
    then have "sem_queue_ok ?s" using pc_at_upd [of ?s s t] t(1) by (simp add: sem_queue_ok_def)
    moreover have "permits_ok ?s"
      by (rule permits_step [OF sem_okD(1) [OF ok] t(1), where pc = pc and dc = "- of_bool (pc = Releasing)" and dg = 0 and dl = 0])
        (use carries_set [of t "threads s" i x "cells s" pc] no t x in \<open>auto simp: holds_def carried_permits_def\<close>)
    ultimately show ?thesis using ok by (simp add: sem_ok_def)
  qed
  have idle: "set_pc t Idle (set_cell i TAKEN s) = set_pc t Idle s" if "cells s i = TAKEN"
    using that by (simp add: set_pc_def set_cell_def fun_upd_idem)
  show ?thesis
  proof (cases "n < max_spin_cycles s \<and> cells s i \<noteq> TAKEN")
    case True
    have h: "pc_at (set_pc t (Spin i (n + 1)) s) = (pc_at s)(t := Spin i (n + 1))" by (rule pc_at_upd) (simp_all add: t)
    have "undecided (enq_idx s) (pc_at (set_pc t (Spin i (n + 1)) s)) i = undecided (enq_idx s) (pc_at s) i"
      unfolding h by (rule undecided_upd) (simp add: t pc_at_eq)
    then have "pc_ok (enq_idx s) (cells s) (conts s) (pc_at (set_pc t (Spin i (n + 1)) s)) (Spin i (n + 1))"
      using queue_okD(3) [OF q, of t] t by (simp add: pc_at_eq)
    then have "sem_ok (set_pc t (Spin i (n + 1)) s)"
      by (intro sem_stay [OF ok t(1), where pc = "Spin i (n + 1)" and dg = 0 and dl = 0]) (simp_all add: t(2) holds_def)
    then show ?thesis using True by simp
  next
    case False
    then show ?thesis using f finish [of TAKEN Idle] finish [of BROKEN Releasing] idle by auto
  qed
qed

lemma sem_resume:
  assumes ok: "sem_ok s" and t: "t < length (threads s)" "threads s ! t = Resume c"
  shows "sem_ok (try_resume_next_from_queue t gone (Resume c) s)"
proof (cases "conts s ! c = Active")
  case True
  have "sem_ok (set_pc t Idle (set_cont c (Resumed False) s))"
    by (rule sem_stay [OF ok t(1), where pc = Idle and dg = 1 and dl = 0])
      (use True cont_at [OF ok t(1)] active_upd [of s c "Resumed False"] in \<open>auto simp: t(2) holds_def count_set\<close>)
  then show ?thesis using True by (simp add: try_resume_acquire_def)
next
  case False
  have "sem_ok (set_pc t Releasing s)"
    by (rule sem_stay [OF ok t(1), where pc = Releasing and dg = 0 and dl = 0]) (use False in \<open>auto simp: t(2) holds_def\<close>)
  then show ?thesis using False by (simp add: try_resume_acquire_def)
qed

text \<open>Entering an operation.\<close>

lemma sem_acquire:
  assumes ok: "sem_ok s" and t: "t < length (threads s)" "threads s ! t = Idle"
  shows "sem_ok (acquire t s)"
proof (cases "available s > 0")
  case True
  have "sem_ok (set_pc t Holding (s\<lparr>available := available s - 1\<rparr>))"
    by (rule sem_stay [OF ok t(1), where pc = Holding and dg = 0 and dl = 0]) (use True in \<open>simp_all add: t(2) holds_def\<close>)
  then show ?thesis using True dec_permits_ok [OF available_le [OF sem_okD(1) [OF ok]]] by (simp add: acquire_def)
next
  case False
  have "sem_ok (set_pc t (Enqueue (length (conts s))) (s\<lparr>available := available s - 1, conts := conts s @ [Active]\<rparr>))"
    by (rule sem_stay [OF ok t(1), where pc = "Enqueue (length (conts s))" and dg = 0 and dl = 0])
      (use False in \<open>auto simp: t(2) holds_def nth_append\<close>)
  then show ?thesis using False dec_permits_ok [OF available_le [OF sem_okD(1) [OF ok]]] by (simp add: acquire_def)
qed

lemma sem_try_acquire:
  assumes ok: "sem_ok s" and t: "t < length (threads s)" "threads s ! t = Idle"
  shows "sem_ok (sem_step (S_Try_Acquire t) s)"
proof -
  have c: "coerce_available_permits_at_maximum (permits s) (available s) = available s"
    using available_le [OF sem_okD(1) [OF ok]] by (simp add: coerce_available_permits_at_maximum_def)
  have "sem_ok (set_pc t Holding (s\<lparr>available := available s - 1\<rparr>))" if "0 < available s"
    by (rule sem_stay [OF ok t(1), where pc = Holding and dg = 0 and dl = 0]) (use that in \<open>simp_all add: t(2) holds_def\<close>)
  moreover have "set_pc t Idle s = s" using t by (simp add: set_pc_def list_update_same_conv)
  ultimately show ?thesis using t c ok by (simp add: try_acquire_def Let_def)
qed

text \<open>What happens to a continuation.\<close>

lemma sem_wake:
  assumes ok: "sem_ok s" and t: "t < length (threads s)"
  shows "sem_ok (wake t late s)"
proof (cases "\<exists>c io b. threads s ! t = Suspended c io \<and> conts s ! c = Resumed b")
  case True
  then obtain c io b where p: "threads s ! t = Suspended c io" "conts s ! c = Resumed b" by blast
  have c: "c < length (conts s)" using cont_at [OF ok t] p(1) by simp
  define pc l where "pc = (if \<not> late then Holding else if b then Releasing else Idle)" and "l = (of_bool (late \<and> \<not> b) :: int)"
  have "sem_ok ((set_pc t pc (set_cont c Consumed s))\<lparr>leaked := leaked s + l\<rparr>)"
    by (rule sem_stay [OF ok t, where pc = pc and dg = "-1" and dl = l])
      (use c p active_upd [of s c Consumed] in \<open>auto simp: holds_def count_set pc_def l_def split: if_splits\<close>)
  moreover have "wake t late s = (set_pc t pc (set_cont c Consumed s))\<lparr>leaked := leaked s + l\<rparr>"
    using p by (simp add: wake_def pc_def l_def set_pc_def set_cont_def)
  ultimately show ?thesis by simp
next
  case False
  then have "wake t late s = s" by (auto simp: wake_def split: sem_pc.split sem_cont.split)
  then show ?thesis using ok by simp
qed

lemma sem_cancel:
  assumes ok: "sem_ok s" and t: "t < length (threads s)"
  shows "sem_ok (cancel_waiter t s)"
proof (cases "\<exists>c. cont_of (threads s ! t) = Some c \<and> conts s ! c = Active")
  case False
  then have "cancel_waiter t s = s" by (auto simp: cancel_waiter_def split: option.split)
  then show ?thesis using ok by simp
next
  case True
  then obtain c where p: "cont_of (threads s ! t) = Some c" "conts s ! c = Active" by blast
  have c: "c < length (conts s)" using cont_at [OF ok t] p(1) by simp
  note q = sem_okD(4) [OF ok]
  have old: "pc_ok (enq_idx s) (cells s) (conts s) (pc_at s) (threads s ! t)" using queue_okD(3) [OF q, of t] t by (simp add: pc_at_eq)
  show ?thesis
  proof (cases "\<exists>i. threads s ! t = Suspended c (Some i)")
    case True
    then obtain i where i: "threads s ! t = Suspended c (Some i)" by blast
    have "sem_ok ((set_pc t Idle (set_cont c Cancelled s))\<lparr>cleaning := i # cleaning s\<rparr>)"
      by (rule sem_stay [OF ok t, where pc = Idle and dg = 0 and dl = 0])
        (use c p i active_upd [of s c Cancelled] in \<open>auto simp: holds_def count_set\<close>)
    then show ?thesis using i p by (simp add: cancel_waiter_def)
  next
    case False
    have e: "cancel_waiter t s = set_cont c Cancelled s"
      using False p by (cases "threads s ! t") (auto simp: cancel_waiter_def split: option.split)
    have same: "pc_at (set_cont c Cancelled s) = pc_at s" by (rule pc_at_same) simp
    have "pc_ok (enq_idx s) (cells s) (conts (set_cont c Cancelled s)) (pc_at (set_cont c Cancelled s)) (threads s ! t)"
      unfolding same by (rule pc_ok_mono [OF old]) (use active_upd [of s c Cancelled] in auto)
    moreover have "\<not> (\<exists>i. threads s ! t = Swap i) \<and> \<not> (\<exists>d. threads s ! t = Resume d)" using p by auto
    ultimately have "sem_ok (set_cont c Cancelled s)"
      by (intro sem_stay [OF ok t, where pc = "threads s ! t" and dg = 0 and dl = 0])
        (use c p active_upd [of s c Cancelled] cont_at [OF ok t] in \<open>auto simp: count_set\<close>)
    then show ?thesis using e by simp
  qed
qed

lemma sem_clean:
  assumes ok: "sem_ok s" and k: "k < length (cleaning s)"
  shows "sem_ok (sem_step (S_Clean k) s)"
proof -
  note q = sem_okD(4) [OF ok]
  define xs i ys where "xs = take k (cleaning s)" and "i = cleaning s ! k" and "ys = drop (Suc k) (cleaning s)"
  have cl: "cleaning s = xs @ i # ys" using k by (simp add: xs_def i_def ys_def id_take_nth_drop [symmetric])
  let ?s = "on_cancellation i (s\<lparr>cleaning := xs @ ys\<rparr>)"
  have "queue_ok (enq_idx s) (deq_idx s) ((cells s)(i := CANCELLED)) (conts s) (pc_at s) (xs @ ys) (i # cleaned s)"
    using queue_clean [of _ _ _ _ _ xs i ys] q cl by simp
  moreover have "pc_at ?s = pc_at s" by (rule pc_at_same) (simp add: on_cancellation_def)
  ultimately have "sem_queue_ok ?s" by (simp add: sem_queue_ok_def on_cancellation_def)
  moreover have "threads s ! u \<noteq> Spin i n" if u: "u < length (threads s)" for u n
  proof
    assume a: "threads s ! u = Spin i n"
    have i: "i < enq_idx s" "\<And>v. acquirer_at (pc_at s v) \<noteq> Some i" "cells s i \<noteq> TAKEN" using queue_okD(14) [OF q, of i] cl by auto
    then have "\<not> undecided (enq_idx s) (pc_at s) i" using deciding_acquirer by (auto simp: undecided_def)
    then show False using queue_okD(3) [OF q, of u] a u i(3) by (simp add: pc_at_eq)
  qed
  then have "carries ((cells s)(i := CANCELLED)) p = carries (cells s) p" if "p \<in> set (threads s)" for p
    using that by (cases p) (auto simp: in_set_conv_nth)
  then have "count (carries ((cells s)(i := CANCELLED))) (threads s) = count (carries (cells s)) (threads s)" by (rule count_cong)
  then have "carried_permits ?s = carried_permits s" by (simp add: carried_permits_def on_cancellation_def)
  then have "permits_ok ?s" using sem_okD(1) [OF ok] by (simp add: permits_ok_def held_permits_def on_cancellation_def)
  ultimately have "sem_ok ?s" using ok by (simp add: sem_ok_def on_cancellation_def)
  then show ?thesis using k by (simp add: xs_def i_def ys_def)
qed

subsection \<open>Histories\<close>

lemma sem_step_ok:
  assumes ok: "sem_ok s"
  shows "sem_ok (sem_step op s)"
proof (cases op)
  case (S_Acquire t)
  then show ?thesis using ok sem_acquire by simp
next
  case (S_Try_Acquire t)
  then show ?thesis using ok sem_try_acquire [OF ok, of t] by simp
next
  case (S_Release t)
  have "sem_ok (set_pc t Releasing s)" if "t < length (threads s)" "threads s ! t = Holding"
    by (rule sem_stay [OF ok that(1), where pc = Releasing and dg = 0 and dl = 0]) (simp_all add: that(2) holds_def)
  then show ?thesis using S_Release ok by simp
next
  case (S_Advance t gone)
  show ?thesis
  proof (cases "t < length (threads s)")
    case True
    show ?thesis
      using S_Advance True ok sem_enqueue [OF ok True] sem_install [OF ok True] sem_take [OF ok True] sem_handler [OF ok True]
        sem_dec_again [OF ok True] sem_releasing [OF ok True] sem_dequeue [OF ok True] sem_swap [OF ok True] sem_spin [OF ok True]
        sem_resume [OF ok True] queue_okD(3) [OF sem_okD(4) [OF ok], of t] pc_at_eq [OF True]
      by (cases "threads s ! t") auto
  qed (use S_Advance ok in simp)
next
  case (S_Run t)
  then show ?thesis using ok sem_wake [OF ok, of t] by simp
next
  case (S_Cancel t)
  then show ?thesis using ok sem_cancel [OF ok, of t] by simp
next
  case (S_Clean k)
  then show ?thesis using ok sem_clean [OF ok, of k] by auto
next
  case (S_Late_Cancel t)
  then show ?thesis using ok sem_wake [OF ok, of t] by simp
qed

lemma sem_run_ok: "sem_ok s \<Longrightarrow> sem_ok (sem_run ops s)"
  unfolding sem_run_def by (induction ops arbitrary: s) (auto simp del: sem_step.simps intro: sem_step_ok)

lemma sem_run_permits: "permits (sem_run ops s) = permits s"
proof -
  have a: "permits (add_acquire_to_queue t pc s) = permits s" for t pc s
    by (cases pc) (auto simp: acquire_internal_def on_cancellation_def resume_waiter_with_permit_def split: prod.split)
  have r: "permits (try_resume_next_from_queue t gone pc s) = permits s" for t gone pc s
    by (cases pc) (auto simp: sem_release_def try_resume_acquire_def Let_def)
  have "permits (sem_step op s) = permits s" for op s
    by (cases op)
      (auto simp: a r acquire_def wake_def cancel_waiter_def on_cancellation_def
        split: prod.split sem_pc.split sem_cont.split option.split)
  then show ?thesis unfolding sem_run_def by (induction ops arbitrary: s) (simp_all del: sem_step.simps)
qed

lemma new_semaphore_ok:
  assumes "new_semaphore p a sz spins n = Inr s" "0 < sz"
  shows "sem_ok s" "permits s = p"
proof -
  have a: "0 < p" "0 \<le> a" "a \<le> p" using assms(1) by (auto simp: new_semaphore_def split: if_splits)
  have s: "permits s = p" "segment_size s = sz" "available s = p - a" "enq_idx s = 0" "deq_idx s = 0" "cells s = (\<lambda>_. NULL)"
    "conts s = []" "threads s = replicate (nat a) Holding @ replicate n Idle" "cleaning s = []" "cleaned s = []" "leaked s = 0" "errors s = 0"
    using assms(1) by (auto simp: new_semaphore_def split: if_splits)
  show "permits s = p" by (rule s(1))
  have c: "count P (replicate m x) = (if P x then int m else 0)" for P :: "sem_pc \<Rightarrow> bool" and m x by (simp add: count_def)
  have "permits_ok s" using a by (simp add: permit_defs s c holds_def)
  moreover have th: "pc_at s u = Holding \<or> pc_at s u = Idle" for u
    by (cases "u < nat a") (auto simp: pc_at_def s nth_append)
  have "acquirer_at (pc_at s u) = None \<and> releaser_at (pc_at s u) = None \<and> cont_of (pc_at s u) = None \<and> pc_at s u \<noteq> Resume c \<and>
      pc_ok 0 (\<lambda>_. NULL) [] (pc_at s) (pc_at s u)" for u c
    using th [of u] by (elim disjE) simp_all
  then have "sem_queue_ok s"
    by (simp add: sem_queue_ok_def s queue_ok_def one_at_def cell_ok_def conts_ok_def cleaned_ok_def undecided_def)
  ultimately show "sem_ok s" using assms(2) by (simp add: sem_ok_def s)
qed

subsection \<open>Properties\<close>





text \<open>\<open>try_resume\<close> gets no cancellation callback: a waiter that is resumed and then cancelled before it
  runs keeps the permit for good. Here nobody holds the only permit and nobody can ever get it.\<close>

lemma late_cancellation_loses_permit:
  "let s = sem_run [S_Acquire 1, S_Advance 1 False, S_Advance 1 False, S_Advance 1 False, S_Release 0, S_Advance 0 False,
      S_Advance 0 False, S_Advance 0 False, S_Advance 0 False, S_Late_Cancel 1, S_Try_Acquire 0]
    \<lparr>permits = 1, segment_size = 16, max_spin_cycles = 100, available = 0, enq_idx = 0, deq_idx = 0, cells = (\<lambda>_. NULL), conts = [],
      threads = [Holding, Idle], cleaning = [], cleaned = [], leaked = 0, errors = 0\<rparr>
   in threads s = [Idle, Idle] \<and> available_permits s = 0 \<and> held_permits s = 0 \<and> leaked s = 1"
  by code_simp

text \<open>A release too many throws and puts the counter back to its maximum.\<close>

lemma release_too_many:
  assumes "t < length (threads s)" "threads s ! t = Releasing" "permits s \<le> available s"
  shows "let r = sem_step (S_Advance t b) (sem_step (S_Advance t a) s)
    in available r = permits s \<and> errors r = errors s + 1 \<and> threads r = (threads s)[t := Idle]"
  using assms by (simp add: sem_release_def coerce_available_permits_at_maximum_def Let_def)

end
