(* ===== verification/Locks.thy ===== *)
theory Locks
  imports Semaphore_Queue
begin

text \<open>
  The locks built on a counter of permits alone: \<open>MutexImpl\<close> of \<open>sync/Mutex.cpp\<close>, which takes and gives
  back the permit of a \<open>SemaphoreAndMutexImpl\<close> and never uses its queue; \<open>MutexImpl\<close> of
  \<open>sync/Mutex.hpp\<close>, the same protocol on a counter of its own; and \<open>SemaphoreImpl\<close> of
  \<open>sync/Semaphore.hpp\<close>, which spins instead of queueing. The protocol of the owner field is modelled
  once, over the operations of the counter; the locale states what they have to provide.
\<close>

subsection \<open>The owner protocol of a mutex\<close>

datatype owner_ref = NO_OWNER | Owned "nat option"

text \<open>The owner is a pointer, possibly null. The flag of the locking states tells \<open>lock\<close>, which goes on
  to \<open>lock_suspend\<close>, from \<open>try_lock\<close>; the second owner of the unlocking ones is the argument.\<close>

datatype lock_pc =
    Unlocked
  | Try_Permit "nat option" bool | Check_Locked "nat option" bool | Read_Owner "nat option" bool | Store_Owner "nat option"
  | Lock_Suspend "nat option"
  | Locked "nat option"
  | Unlock_Check "nat option" "nat option" | Unlock_Read "nat option" "nat option" | Unlock_Cas "nat option" "nat option" owner_ref
  | Unlock_Release
  | Lock_Crashed

datatype lock_error = Not_Locked | Wrong_Owner | Already_Locked

record 'c mutex =
  counter :: 'c
  mutex_owner :: owner_ref
  lockers :: "lock_pc list"
  lock_errors :: "lock_error list"

definition set_locker :: "nat \<Rightarrow> lock_pc \<Rightarrow> 'c mutex \<Rightarrow> 'c mutex" where
  "set_locker t pc m = m\<lparr>lockers := (lockers m)[t := pc]\<rparr>"

definition lock_failed :: "nat option \<Rightarrow> bool \<Rightarrow> lock_pc" where
  "lock_failed o' blocking = (if blocking then Lock_Suspend o' else Unlocked)"

definition lock_throws :: "nat \<Rightarrow> lock_pc \<Rightarrow> lock_error \<Rightarrow> 'c mutex \<Rightarrow> 'c mutex" where
  "lock_throws t pc e m = (set_locker t pc m)\<lparr>lock_errors := lock_errors m @ [e]\<rparr>"

text \<open>The next access of a thread. \<open>try_permit\<close> and \<open>give_back\<close> are the operations of the counter,
  \<open>locked\<close> is \<open>is_locked\<close>; \<open>again\<close> tells the \<open>lock_suspend\<close> of the header, which calls \<open>try_lock\<close> again, from
  that of \<open>Mutex.cpp\<close>, which spins on the permit.\<close>

fun lock_step :: "('c \<Rightarrow> bool \<times> 'c) \<Rightarrow> ('c \<Rightarrow> bool) \<Rightarrow> bool \<Rightarrow> nat \<Rightarrow> lock_pc \<Rightarrow> 'c mutex \<Rightarrow> 'c mutex" where
  "lock_step try_permit locked again t (Try_Permit o' bl) m = (case try_permit (counter m) of (ok, c) \<Rightarrow>
     set_locker t (if ok then Store_Owner o' else if o' = None then lock_failed o' bl else Check_Locked o' bl) (m\<lparr>counter := c\<rparr>))"
| "lock_step try_permit locked again t (Check_Locked o' bl) m =
     set_locker t (if locked (counter m) then Read_Owner o' bl else Try_Permit o' bl) m"
| "lock_step try_permit locked again t (Read_Owner o' bl) m =
     (if mutex_owner m = NO_OWNER then set_locker t (Check_Locked o' bl) m
      else if mutex_owner m = Owned o' then lock_throws t Unlocked Already_Locked m
      else set_locker t (lock_failed o' bl) m)"
| "lock_step try_permit locked again t (Lock_Suspend o') m =
     (if again then set_locker t (Try_Permit o' True) m
      else case try_permit (counter m) of (ok, c) \<Rightarrow> set_locker t (if ok then Store_Owner o' else Lock_Suspend o') (m\<lparr>counter := c\<rparr>))"
| "lock_step try_permit locked again t (Store_Owner o') m =
     (if mutex_owner m = NO_OWNER then set_locker t (Locked o') (m\<lparr>mutex_owner := Owned o'\<rparr>) else set_locker t Lock_Crashed m)"
| "lock_step try_permit locked again t _ m = m"

fun unlock_step :: "('c \<Rightarrow> bool) \<Rightarrow> ('c \<Rightarrow> 'c) \<Rightarrow> nat \<Rightarrow> lock_pc \<Rightarrow> 'c mutex \<Rightarrow> 'c mutex" where
  "unlock_step locked give_back t (Unlock_Check o' a) m =
     (if locked (counter m) then set_locker t (Unlock_Read o' a) m else lock_throws t (Locked o') Not_Locked m)"
| "unlock_step locked give_back t (Unlock_Read o' a) m =
     (if mutex_owner m = NO_OWNER then set_locker t (Unlock_Check o' a) m
      else if mutex_owner m \<noteq> Owned a \<and> a \<noteq> None then lock_throws t (Locked o') Wrong_Owner m
      else set_locker t (Unlock_Cas o' a (mutex_owner m)) m)"
| "unlock_step locked give_back t (Unlock_Cas o' a cur) m =
     (if mutex_owner m = cur then set_locker t Unlock_Release (m\<lparr>mutex_owner := NO_OWNER\<rparr>) else set_locker t (Unlock_Check o' a) m)"
| "unlock_step locked give_back t Unlock_Release m = set_locker t Unlocked (m\<lparr>counter := give_back (counter m)\<rparr>)"
| "unlock_step locked give_back t _ m = m"

text \<open>A thread that is inside unlocks with its own owner or with null.\<close>

datatype mutex_op = M_Lock nat "nat option" | M_Try_Lock nat "nat option" | M_Unlock nat bool | M_Advance nat

fun mutex_step :: "('c \<Rightarrow> bool \<times> 'c) \<Rightarrow> ('c \<Rightarrow> bool) \<Rightarrow> ('c \<Rightarrow> 'c) \<Rightarrow> bool \<Rightarrow> mutex_op \<Rightarrow> 'c mutex \<Rightarrow> 'c mutex" where
  "mutex_step tp lk gb again (M_Lock t o') m =
     (if t < length (lockers m) \<and> lockers m ! t = Unlocked then set_locker t (Try_Permit o' True) m else m)"
| "mutex_step tp lk gb again (M_Try_Lock t o') m =
     (if t < length (lockers m) \<and> lockers m ! t = Unlocked then set_locker t (Try_Permit o' False) m else m)"
| "mutex_step tp lk gb again (M_Unlock t own) m =
     (if t < length (lockers m) then (case lockers m ! t of
        Locked o' \<Rightarrow> set_locker t (Unlock_Check o' (if own then o' else None)) m | _ \<Rightarrow> m) else m)"
| "mutex_step tp lk gb again (M_Advance t) m =
     (if t < length (lockers m) then unlock_step lk gb t (lockers m ! t) (lock_step tp lk again t (lockers m ! t) m) else m)"

definition mutex_run :: "('c \<Rightarrow> bool \<times> 'c) \<Rightarrow> ('c \<Rightarrow> bool) \<Rightarrow> ('c \<Rightarrow> 'c) \<Rightarrow> bool \<Rightarrow> mutex_op list \<Rightarrow> 'c mutex \<Rightarrow> 'c mutex" where
  "mutex_run tp lk gb again ops m = fold (mutex_step tp lk gb again) ops m"

subsection \<open>What the protocol guarantees\<close>

fun inside :: "lock_pc \<Rightarrow> bool" where
  "inside (Store_Owner o') = True" | "inside (Locked o') = True" | "inside (Unlock_Check o' a) = True" | "inside (Unlock_Read o' a) = True"
| "inside (Unlock_Cas o' a cur) = True" | "inside Unlock_Release = True" | "inside _ = False"

fun locker_ok :: "owner_ref \<Rightarrow> lock_pc \<Rightarrow> bool" where
  "locker_ok w (Store_Owner o') = (w = NO_OWNER)" | "locker_ok w Unlock_Release = (w = NO_OWNER)"
| "locker_ok w (Locked o') = (w = Owned o')" | "locker_ok w (Unlock_Check o' a) = (w = Owned o' \<and> (a = None \<or> a = o'))"
| "locker_ok w (Unlock_Read o' a) = (w = Owned o' \<and> (a = None \<or> a = o'))"
| "locker_ok w (Unlock_Cas o' a cur) = (w = Owned o' \<and> cur = w)"
| "locker_ok w Lock_Crashed = False" | "locker_ok w _ = True"

definition locker_at :: "'c mutex \<Rightarrow> nat \<Rightarrow> lock_pc" where
  "locker_at m t = (if t < length (lockers m) then lockers m ! t else Unlocked)"

definition mutex_ok :: "('c \<Rightarrow> bool) \<Rightarrow> ('c \<Rightarrow> bool) \<Rightarrow> 'c mutex \<Rightarrow> bool" where
  "mutex_ok valid locked m \<longleftrightarrow> valid (counter m) \<and> (locked (counter m) \<longleftrightarrow> (\<exists>t. inside (locker_at m t))) \<and>
     (\<forall>t u. inside (locker_at m t) \<and> inside (locker_at m u) \<longrightarrow> t = u) \<and> (\<forall>t. locker_ok (mutex_owner m) (locker_at m t)) \<and>
     (\<not> locked (counter m) \<longrightarrow> mutex_owner m = NO_OWNER) \<and> Not_Locked \<notin> set (lock_errors m) \<and> Wrong_Owner \<notin> set (lock_errors m)"

lemma locker_at_upd: "lockers m' = (lockers m)[t := pc] \<Longrightarrow> t < length (lockers m) \<Longrightarrow> locker_at m' = (locker_at m)(t := pc)"
  by (auto simp: locker_at_def fun_eq_iff)

lemma outside_ok: "\<not> inside pc \<Longrightarrow> pc \<noteq> Lock_Crashed \<Longrightarrow> locker_ok w pc"
  by (cases pc) auto

text \<open>A thread outside moves and stays outside.\<close>

lemma mutex_outside:
  assumes ok: "mutex_ok valid locked m" and t: "t < length (lockers m)" "\<not> inside (lockers m ! t)"
    and m': "lockers m' = (lockers m)[t := pc]" "counter m' = counter m" "mutex_owner m' = mutex_owner m"
      "set (lock_errors m') \<subseteq> set (lock_errors m) \<union> {Already_Locked}"
    and pc: "\<not> inside pc" "pc \<noteq> Lock_Crashed"
  shows "mutex_ok valid locked m'"
proof -
  have h: "locker_at m' = (locker_at m)(t := pc)" by (rule locker_at_upd [OF m'(1) t(1)])
  have i: "inside (locker_at m' u) = inside (locker_at m u)" for u using t pc(1) by (auto simp: h locker_at_def)
  have "locker_ok (mutex_owner m) (locker_at m' u)" for u
    using ok pc outside_ok [OF pc] by (simp add: mutex_ok_def h)
  then show ?thesis using ok i m'(2-4) by (auto simp: mutex_ok_def)
qed

text \<open>A thread that is inside, or finds the permit free, has the state to itself.\<close>

lemma mutex_exclusive:
  assumes ok: "mutex_ok valid locked m" and t: "t < length (lockers m)" "inside (lockers m ! t) \<or> \<not> locked (counter m)"
    and m': "lockers m' = (lockers m)[t := pc]" "set (lock_errors m') \<subseteq> set (lock_errors m) \<union> {Already_Locked}"
    and c: "valid (counter m')" "locked (counter m') \<longleftrightarrow> inside pc"
    and pc: "locker_ok (mutex_owner m') pc" "\<not> inside pc \<Longrightarrow> mutex_owner m' = NO_OWNER"
  shows "mutex_ok valid locked m'"
proof -
  have h: "locker_at m' = (locker_at m)(t := pc)" by (rule locker_at_upd [OF m'(1) t(1)])
  have out: "\<not> inside (locker_at m u)" if "u \<noteq> t" for u
    using ok t that unfolding mutex_ok_def by (metis locker_at_def)
  moreover have "locker_at m u \<noteq> Lock_Crashed" for u using ok by (metis locker_ok.simps(7) mutex_ok_def)
  ultimately have "locker_ok (mutex_owner m') (locker_at m' u)" for u
    using pc(1) outside_ok by (cases "u = t") (auto simp: h)
  moreover have "inside (locker_at m' u) \<longleftrightarrow> u = t \<and> inside pc" for u using out by (auto simp: h)
  ultimately show ?thesis using ok m'(2) c pc(2) by (auto simp: mutex_ok_def)
qed

text \<open>The operations of the counter the protocol relies on: taking the permit when it is free, refusing
  it when it is not, giving it back.\<close>

locale permit_counter =
  fixes try_permit :: "'c \<Rightarrow> bool \<times> 'c" and locked :: "'c \<Rightarrow> bool" and give_back :: "'c \<Rightarrow> 'c" and valid :: "'c \<Rightarrow> bool"
  assumes take_free: "valid c \<Longrightarrow> \<not> locked c \<Longrightarrow> \<exists>d. try_permit c = (True, d) \<and> valid d \<and> locked d"
    and refuse: "valid c \<Longrightarrow> locked c \<Longrightarrow> try_permit c = (False, c)"
    and give: "valid c \<Longrightarrow> locked c \<Longrightarrow> valid (give_back c) \<and> \<not> locked (give_back c)"
begin

lemma try_cases:
  assumes "mutex_ok valid locked m"
  obtains (free) d where "\<not> locked (counter m)" "try_permit (counter m) = (True, d)" "valid d" "locked d" "mutex_owner m = NO_OWNER"
    | (taken) "locked (counter m)" "try_permit (counter m) = (False, counter m)"
  using assms take_free refuse unfolding mutex_ok_def by metis

lemma lock_step_ok:
  assumes ok: "mutex_ok valid locked m" and t: "t < length (lockers m)"
  shows "mutex_ok valid locked (lock_step try_permit locked again t (lockers m ! t) m)"
proof -
  have own: "locker_ok (mutex_owner m) (lockers m ! t)" using ok t unfolding mutex_ok_def by (metis locker_at_def)
  note out = mutex_outside [OF ok t] and ex = mutex_exclusive [OF ok t]
  show ?thesis
  proof (cases "lockers m ! t")
    case (Try_Permit o' bl)
    show ?thesis using ok
    proof (cases rule: try_cases)
      case (free d)
      then show ?thesis using Try_Permit by (simp, intro ex) (simp add: set_locker_def subset_insertI)+
    next
      case taken
      then show ?thesis using Try_Permit by (simp, intro conjI impI out) (simp add: set_locker_def subset_insertI lock_failed_def)+
    qed
  next
    case (Lock_Suspend o')
    show ?thesis using ok
    proof (cases rule: try_cases)
      case (free d)
      show ?thesis
      proof (cases again)
        case True
        then show ?thesis using Lock_Suspend by (simp, intro out) (simp add: set_locker_def subset_insertI)+
      next
        case False
        then show ?thesis using Lock_Suspend free by (simp, intro ex) (simp add: set_locker_def subset_insertI)+
      qed
    next
      case taken
      then show ?thesis using Lock_Suspend by (simp, intro conjI impI out) (simp add: set_locker_def subset_insertI)+
    qed
  next
    case (Check_Locked o' bl)
    then show ?thesis by (simp, intro conjI impI out) (simp add: set_locker_def subset_insertI)+
  next
    case (Read_Owner o' bl)
    then show ?thesis by (simp, intro conjI impI out) ((simp add: set_locker_def subset_insertI lock_throws_def lock_failed_def)+)
  next
    case (Store_Owner o')
    have "valid (counter m)" "locked (counter m)"
      using ok t Store_Owner unfolding mutex_ok_def by (metis inside.simps(1) locker_at_def)+
    then show ?thesis using Store_Owner own by (simp, intro ex) (simp add: set_locker_def subset_insertI)+
  qed (use ok in simp_all)
qed

lemma unlock_step_ok:
  assumes ok: "mutex_ok valid locked m" and t: "t < length (lockers m)"
  shows "mutex_ok valid locked (unlock_step locked give_back t (lockers m ! t) m)"
proof -
  have own: "locker_ok (mutex_owner m) (lockers m ! t)" using ok t unfolding mutex_ok_def by (metis locker_at_def)
  have v: "valid (counter m)" using ok by (simp add: mutex_ok_def)
  have l: "locked (counter m)" if "inside (lockers m ! t)" using ok t that unfolding mutex_ok_def by (metis locker_at_def)
  note ex = mutex_exclusive [OF ok t]
  show ?thesis
  proof (cases "lockers m ! t")
    case (Unlock_Check o' a)
    then show ?thesis using own v l by (simp, intro ex) (simp add: set_locker_def subset_insertI)+
  next
    case (Unlock_Read o' a)
    then show ?thesis using own v l by (auto simp: set_locker_def intro!: ex)
  next
    case (Unlock_Cas o' a cur)
    then show ?thesis using own v l by (simp, intro ex) (simp add: set_locker_def subset_insertI)+
  next
    case Unlock_Release
    then show ?thesis using own v l give [OF v] by (simp, intro ex) (simp add: set_locker_def subset_insertI)+
  qed (use ok in simp_all)
qed

lemma mutex_step_ok:
  assumes ok: "mutex_ok valid locked m"
  shows "mutex_ok valid locked (mutex_step try_permit locked give_back again op m)"
proof (cases op)
  case (M_Advance t)
  show ?thesis
  proof (cases "t < length (lockers m)")
    case True
    let ?m = "lock_step try_permit locked again t (lockers m ! t) m"
    have "unlock_step locked give_back t (lockers m ! t) ?m = ?m \<or> ?m = m" by (cases "lockers m ! t") simp_all
    then show ?thesis using M_Advance True lock_step_ok [OF ok True, of again] unlock_step_ok [OF ok True] by auto
  qed (use M_Advance ok in simp)
next
  case (M_Unlock t own)
  show ?thesis
  proof (cases "t < length (lockers m) \<and> (\<exists>o'. lockers m ! t = Locked o')")
    case True
    then obtain o' where t: "t < length (lockers m)" "lockers m ! t = Locked o'" by blast
    have "mutex_owner m = Owned o'" "valid (counter m)" "locked (counter m)"
      using ok t unfolding mutex_ok_def by (metis inside.simps(2) locker_at_def locker_ok.simps(3))+
    then have "mutex_ok valid locked (set_locker t (Unlock_Check o' (if own then o' else None)) m)"
      by (intro mutex_exclusive [OF ok t(1)]) (simp add: set_locker_def subset_insertI t(2))+
    then show ?thesis using M_Unlock t by simp
  qed (use M_Unlock ok in \<open>auto split: lock_pc.split\<close>)
next
  case (M_Lock t o')
  have "mutex_ok valid locked (set_locker t (Try_Permit o' True) m)" if "t < length (lockers m)" "lockers m ! t = Unlocked"
    by (rule mutex_outside [OF ok that(1)]) (simp add: set_locker_def subset_insertI that)+
  then show ?thesis using M_Lock ok by simp
next
  case (M_Try_Lock t o')
  have "mutex_ok valid locked (set_locker t (Try_Permit o' False) m)" if "t < length (lockers m)" "lockers m ! t = Unlocked"
    by (rule mutex_outside [OF ok that(1)]) (simp add: set_locker_def subset_insertI that)+
  then show ?thesis using M_Try_Lock ok by simp
qed

lemma mutex_run_ok: "mutex_ok valid locked m \<Longrightarrow> mutex_ok valid locked (mutex_run try_permit locked give_back again ops m)"
  unfolding mutex_run_def by (induction ops arbitrary: m) (auto simp del: mutex_step.simps intro: mutex_step_ok)

end

subsection \<open>The two mutexes\<close>

text \<open>\<open>release\<close> of a semaphore that has no waiter: the counter goes up, unless it is at its maximum.\<close>

definition give_permit :: "int \<Rightarrow> int \<Rightarrow> int" where
  "give_permit maximum a = (if a \<ge> maximum then coerce_available_permits_at_maximum maximum (a + 1) else a + 1)"

definition is_locked :: "int \<Rightarrow> bool" where "is_locked a \<longleftrightarrow> max a 0 = 0"

text \<open>The counter of the header's mutex: a compare-and-set from 1 to 0, and an increment.\<close>

definition header_try_permit :: "int \<Rightarrow> bool \<times> int" where "header_try_permit a = (if a = 1 then (True, 0) else (False, a))"
definition header_is_locked :: "int \<Rightarrow> bool" where "header_is_locked a \<longleftrightarrow> a = 0"
definition header_give :: "int \<Rightarrow> int" where "header_give a = a + 1"

definition one_permit :: "int \<Rightarrow> bool" where "one_permit a \<longleftrightarrow> a = 0 \<or> a = 1"

interpretation semaphore_permit: permit_counter "try_acquire 1" is_locked "give_permit 1" one_permit
  by unfold_locales (auto simp: one_permit_def is_locked_def give_permit_def try_acquire_def coerce_available_permits_at_maximum_def)

interpretation header_permit: permit_counter header_try_permit header_is_locked header_give one_permit
  by unfold_locales (auto simp: one_permit_def header_is_locked_def header_give_def header_try_permit_def)

definition new_mutex :: "bool \<Rightarrow> nat \<Rightarrow> int mutex" where
  "new_mutex l n = \<lparr>counter = (if l then 0 else 1), mutex_owner = (if l then Owned None else NO_OWNER),
     lockers = (if l then [Locked None] else []) @ replicate n Unlocked, lock_errors = []\<rparr>"

definition mutex_history :: "bool \<Rightarrow> nat \<Rightarrow> mutex_op list \<Rightarrow> int mutex" where
  "mutex_history l n ops = mutex_run (try_acquire 1) is_locked (give_permit 1) False ops (new_mutex l n)"

definition header_mutex_history :: "bool \<Rightarrow> nat \<Rightarrow> mutex_op list \<Rightarrow> int mutex" where
  "header_mutex_history l n ops = mutex_run header_try_permit header_is_locked header_give True ops (new_mutex l n)"

lemma new_mutex_ok:
  assumes "\<And>a. one_permit a \<Longrightarrow> locked a \<longleftrightarrow> a = 0"
  shows "mutex_ok one_permit locked (new_mutex l n)"
proof -
  have "locker_at (new_mutex l n) t = (if l \<and> t = 0 then Locked None else Unlocked)" for t
    by (cases t) (auto simp: locker_at_def new_mutex_def nth_append)
  moreover have "locked 0" "\<not> locked 1" using assms by (simp_all add: one_permit_def)
  ultimately show ?thesis
    by (cases l) (simp_all add: mutex_ok_def, simp_all add: new_mutex_def one_permit_def)
qed

definition mutex_safe :: "'c mutex \<Rightarrow> bool" where
  "mutex_safe m \<longleftrightarrow> length (filter inside (lockers m)) \<le> 1 \<and> Lock_Crashed \<notin> set (lockers m) \<and>
     Not_Locked \<notin> set (lock_errors m) \<and> Wrong_Owner \<notin> set (lock_errors m)"

lemma mutex_ok_safe:
  assumes ok: "mutex_ok valid locked m"
  shows "mutex_safe m"
proof -
  have "length (filter P xs) \<le> 1" if "\<And>t u. t < length xs \<Longrightarrow> u < length xs \<Longrightarrow> P (xs ! t) \<Longrightarrow> P (xs ! u) \<Longrightarrow> t = u" for P and xs :: "lock_pc list"
    using that
  proof (induction xs)
    case (Cons a xs)
    have "length (filter P xs) \<le> 1" using Cons.prems [of "Suc _" "Suc _"] by (intro Cons.IH) auto
    moreover have "filter P xs = []" if "P a"
      using that Cons.prems [of 0 "Suc _"] by (auto simp: filter_empty_conv in_set_conv_nth)
    ultimately show ?case by simp
  qed simp
  moreover have "t = u" if "t < length (lockers m)" "u < length (lockers m)" "inside (lockers m ! t)" "inside (lockers m ! u)" for t u
    using ok that unfolding mutex_ok_def by (metis locker_at_def)
  moreover have "Lock_Crashed \<notin> set (lockers m)"
  proof
    assume "Lock_Crashed \<in> set (lockers m)"
    then obtain t where "t < length (lockers m)" "lockers m ! t = Lock_Crashed" by (auto simp: in_set_conv_nth)
    then have "locker_at m t = Lock_Crashed" by (simp add: locker_at_def)
    then show False using ok unfolding mutex_ok_def by (metis locker_ok.simps(7))
  qed
  ultimately show ?thesis using ok by (simp add: mutex_safe_def mutex_ok_def)
qed

text \<open>C38: Both mutexes exclude: whatever the interleaving of threads that lock, try to lock and unlock what they hold,
  at most one thread is between taking the permit and giving it back; the owner field is free whenever the permit has just been taken,
  so the assertion never fails; and an \<open>unlock\<close> of the lock one holds, with its owner or with null, never throws.\<close>

theorem mutex_excludes:
  "mutex_safe (mutex_history l n ops) \<and> mutex_safe (header_mutex_history l n ops)"
proof -
  have "mutex_ok one_permit is_locked (mutex_history l n ops)"
    unfolding mutex_history_def by (intro semaphore_permit.mutex_run_ok new_mutex_ok) (auto simp: is_locked_def one_permit_def)
  moreover have "mutex_ok one_permit header_is_locked (header_mutex_history l n ops)"
    unfolding header_mutex_history_def by (intro header_permit.mutex_run_ok new_mutex_ok) (auto simp: header_is_locked_def)
  ultimately show ?thesis using mutex_ok_safe by blast
qed

lemma mutex_excludes_example:
  "mutex_owner (mutex_history False 2 [M_Lock 0 (Some 7), M_Advance 0, M_Advance 0, M_Try_Lock 1 (Some 8), M_Advance 1, M_Advance 1, M_Advance 1]) = Owned (Some 7)"
  by code_simp

subsection \<open>The spinning semaphore\<close>

datatype spin_pc = Out | Spinning | In

record spin_sem =
  spin_permits :: int
  spin_available :: int
  spinners :: "spin_pc list"
  contended :: int
  spin_errors :: nat

definition new_spin_semaphore :: "int \<Rightarrow> int \<Rightarrow> nat \<Rightarrow> spin_sem res" where
  "new_spin_semaphore p acquired n =
     (if p \<le> 0 then Inl (Invalid_Argument ''Semaphore should have at least 1 permit'')
      else if acquired < 0 \<or> acquired > p then Inl (Invalid_Argument ''The number of acquired permits should be in 0..permits'')
      else Inr \<lparr>spin_permits = p, spin_available = p - acquired, spinners = replicate (nat acquired) In @ replicate n Out,
        contended = 0, spin_errors = 0\<rparr>)"

text \<open>\<open>acquire\<close> decrements the counter, and when that gave no permit calls \<open>try_acquire\<close> until it succeeds,
  which decrements it again. The ghost \<open>contended\<close> counts the calls that had to spin.\<close>

datatype spin_op = P_Acquire nat | P_Spin nat | P_Try nat | P_Release nat

fun spin_step :: "spin_op \<Rightarrow> spin_sem \<Rightarrow> spin_sem" where
  "spin_step (P_Acquire t) s = (if t < length (spinners s) \<and> spinners s ! t = Out then
     (case dec_permits (spin_permits s) (spin_available s) of (p, a) \<Rightarrow>
        if p > 0 then s\<lparr>spinners := (spinners s)[t := In], spin_available := a\<rparr>
        else s\<lparr>spinners := (spinners s)[t := Spinning], spin_available := a, contended := contended s + 1\<rparr>) else s)"
| "spin_step (P_Spin t) s = (if t < length (spinners s) \<and> spinners s ! t = Spinning then
     (case try_acquire (spin_permits s) (spin_available s) of (got, a) \<Rightarrow>
        s\<lparr>spinners := (spinners s)[t := if got then In else Spinning], spin_available := a\<rparr>) else s)"
| "spin_step (P_Try t) s = (if t < length (spinners s) \<and> spinners s ! t = Out then
     (case try_acquire (spin_permits s) (spin_available s) of (got, a) \<Rightarrow>
        s\<lparr>spinners := (spinners s)[t := if got then In else Out], spin_available := a\<rparr>) else s)"
| "spin_step (P_Release t) s = (if t < length (spinners s) \<and> spinners s ! t = In then
     (if spin_available s \<ge> spin_permits s
      then s\<lparr>spinners := (spinners s)[t := Out],
          spin_available := coerce_available_permits_at_maximum (spin_permits s) (spin_available s + 1), spin_errors := spin_errors s + 1\<rparr>
      else s\<lparr>spinners := (spinners s)[t := Out], spin_available := spin_available s + 1\<rparr>) else s)"

definition spin_run :: "spin_op list \<Rightarrow> spin_sem \<Rightarrow> spin_sem" where
  "spin_run ops s = fold spin_step ops s"

definition spin_inv :: "int \<Rightarrow> spin_sem \<Rightarrow> bool" where
  "spin_inv p s \<longleftrightarrow> spin_permits s = p \<and> 0 \<le> contended s \<and> count (\<lambda>x. x = In) (spinners s) + spin_available s + contended s = p \<and>
     count (\<lambda>x. x = In) (spinners s) \<le> p \<and> spin_errors s = 0"

lemma spin_step_inv:
  assumes "spin_inv p s"
  shows "spin_inv p (spin_step op s) \<and> contended s \<le> contended (spin_step op s)"
proof -
  have le: "spin_available s \<le> p"
    using assms count_nonneg [of "\<lambda>x. x = In" "spinners s"] unfolding spin_inv_def by linarith
  then have d: "dec_permits (spin_permits s) (spin_available s) = (spin_available s, spin_available s - 1)"
    "try_acquire (spin_permits s) (spin_available s) = (if spin_available s \<le> 0 then (False, spin_available s) else (True, spin_available s - 1))"
    using assms dec_permits_ok by (simp_all add: spin_inv_def try_acquire_def coerce_available_permits_at_maximum_def Let_def)
  have lt: "spin_available s < p" if "t < length (spinners s)" "spinners s ! t = In" for t
    using assms count_pos [OF nth_mem [OF that(1)], of "\<lambda>x. x = In", OF that(2)] unfolding spin_inv_def by linarith
  show ?thesis
  proof (cases op)
    case (P_Release t)
    then show ?thesis using assms lt [of t] by (auto simp: spin_inv_def count_set)
  qed (use assms d in \<open>auto simp: spin_inv_def count_set\<close>)
qed

lemma spin_run_inv: "spin_inv p s \<Longrightarrow> spin_inv p (spin_run ops s)"
  unfolding spin_run_def by (induction ops arbitrary: s) (auto simp del: spin_step.simps dest: spin_step_inv)

text \<open>The spinning semaphore never lets more than \<open>permits\<close> threads in, but each \<open>acquire\<close> that finds no permit takes one
  away for good: the threads inside, the counter and the number of such calls add up to \<open>permits\<close>. Once there were \<open>permits\<close> of
  them the counter can never be positive again, so no thread that spins ever gets in.\<close>

lemma spinning_acquire_costs_a_permit:
  assumes "new_spin_semaphore p a n = Inr s0" and s: "s = spin_run ops s0" and "p \<le> contended s"
  shows "count (\<lambda>x. x = In) (spinners s) \<le> p \<and> spin_available s \<le> 0 \<and> try_acquire p (spin_available s) = (False, spin_available s)"
proof -
  have c: "count (\<lambda>x. x = In) (replicate m x) = (if x = In then int m else 0)" for m x by (simp add: count_def)
  have i0: "spin_inv p s0"
    using assms(1) by (auto simp: new_spin_semaphore_def spin_inv_def c split: if_splits)
  have i: "spin_inv p s" unfolding s by (rule spin_run_inv [OF i0])
  moreover have "0 < p" using assms(1) by (auto simp: new_spin_semaphore_def split: if_splits)
  moreover have "spin_available s \<le> 0"
    using i assms(3) count_nonneg [of "\<lambda>x. x = In" "spinners s"] unfolding spin_inv_def by linarith
  ultimately show ?thesis by (simp add: spin_inv_def try_acquire_def coerce_available_permits_at_maximum_def)
qed

lemma spinning_acquire_costs_a_permit_witness:
  "spin_available (spin_run [P_Acquire 1, P_Release 0, P_Spin 1]
    \<lparr>spin_permits = 1, spin_available = 0, spinners = [In, Out], contended = 0, spin_errors = 0\<rparr>) \<le> 0"
proof -
  let ?s = "\<lparr>spin_permits = 1, spin_available = 0, spinners = [In, Out], contended = 0, spin_errors = 0\<rparr>"
  have n: "new_spin_semaphore 1 1 1 = Inr ?s" by (simp add: new_spin_semaphore_def)
  have "contended (spin_run [P_Acquire 1, P_Release 0, P_Spin 1] ?s) = 1" by code_simp
  then show ?thesis using spinning_acquire_costs_a_permit [OF n refl, of "[P_Acquire 1, P_Release 0, P_Spin 1]"] by simp
qed

end
