(* ===== verification/Coroutine_Context.thy ===== *)
theory Coroutine_Context
  imports Prelude
begin

text \<open>
  \<open>CoroutineContext.hpp\<close>, \<open>context_impl.hpp\<close> and \<open>CoroutineContext.common.cpp\<close>: the context of a
  coroutine, a set of elements indexed by key. A key is the address of a static object, a number
  here; the null pointer that \<open>minus_key\<close> returns for an empty context is \<open>None\<close>. The pointer
  comparison that lets \<open>minus_key\<close> share an unchanged context is a comparison of contents, which
  gives the same elements.
\<close>

subsection \<open>Contexts\<close>

datatype 'v element = Element (elem_key: nat) (elem_value: 'v)

datatype 'v ctx = Empty_Context | Single "'v element" | Combined "'v ctx" "'v element"

fun ctx_get :: "nat \<Rightarrow> 'v ctx \<Rightarrow> 'v element option" where
  "ctx_get k Empty_Context = None"
| "ctx_get k (Single e) = (if elem_key e = k then Some e else None)"
| "ctx_get k (Combined l e) = (if elem_key e = k then Some e else ctx_get k l)"

text \<open>The elements in the order \<open>for_each\<close> visits them.\<close>

fun for_each :: "'v ctx \<Rightarrow> 'v element list" where
  "for_each Empty_Context = []"
| "for_each (Single e) = [e]"
| "for_each (Combined l e) = for_each l @ [e]"

definition ctx_fold :: "'r \<Rightarrow> ('r \<Rightarrow> 'v element \<Rightarrow> 'r) \<Rightarrow> 'v ctx \<Rightarrow> 'r" where
  "ctx_fold initial f c = foldl f initial (for_each c)"

fun minus_key :: "nat \<Rightarrow> 'v ctx \<Rightarrow> 'v ctx option" where
  "minus_key k Empty_Context = None"
| "minus_key k (Single e) = (if elem_key e = k then None else Some (Single e))"
| "minus_key k (Combined l e) =
     (if elem_key e = k then Some l
      else case minus_key k l of
          None \<Rightarrow> Some (Single e)
        | Some l' \<Rightarrow> if l' = l then Some (Combined l e) else Some (Combined l' e))"

definition plus_element :: "'v ctx \<Rightarrow> 'v element \<Rightarrow> 'v ctx" where
  "plus_element acc e = (case minus_key (elem_key e) acc of None \<Rightarrow> Single e | Some removed \<Rightarrow> Combined removed e)"

definition ctx_plus :: "'v ctx \<Rightarrow> 'v ctx option \<Rightarrow> 'v ctx" where
  "ctx_plus c other = (case other of None \<Rightarrow> c | Some d \<Rightarrow> ctx_fold c plus_element d)"

text \<open>\<open>name_of\<close> stands for the dynamic cast to \<open>CoroutineName\<close>.\<close>

definition coroutine_name :: "nat \<Rightarrow> ('v \<Rightarrow> string option) \<Rightarrow> 'v ctx option \<Rightarrow> string" where
  "coroutine_name name_key name_of c = (case c of None \<Rightarrow> []
     | Some c \<Rightarrow> (case ctx_get name_key c of None \<Rightarrow> []
         | Some e \<Rightarrow> (case name_of (elem_value e) of None \<Rightarrow> [] | Some n \<Rightarrow> n)))"

subsection \<open>Lists of elements\<close>

text \<open>The elements of an optional context; null is the empty context.\<close>

definition elements :: "'v ctx option \<Rightarrow> 'v element list" where
  "elements c = (case c of None \<Rightarrow> [] | Some c \<Rightarrow> for_each c)"

lemma elements_simps [simp]: "elements None = []" "elements (Some c) = for_each c"
  by (simp_all add: elements_def)

definition distinct_keys :: "'v ctx \<Rightarrow> bool" where
  "distinct_keys c \<longleftrightarrow> distinct (map elem_key (for_each c))"

definition without :: "nat \<Rightarrow> 'v element list \<Rightarrow> 'v element list" where
  "without k es = filter (\<lambda>e. elem_key e \<noteq> k) es"

lemma without_same: "k \<notin> elem_key ` set es \<Longrightarrow> without k es = es"
  by (auto simp: without_def filter_id_conv)

lemma without_append [simp]: "without k (xs @ ys) = without k xs @ without k ys"
  by (simp add: without_def)

lemma without_keys [simp]: "elem_key ` set (without k es) = elem_key ` set es - {k}"
  by (auto simp: without_def)

lemma without_distinct: "distinct (map elem_key es) \<Longrightarrow> distinct (map elem_key (without k es))"
  by (simp add: without_def distinct_map inj_on_def)

text \<open>A lookup finds the last element with the key.\<close>

lemma get_last: "ctx_get k c = (case filter (\<lambda>e. elem_key e = k) (for_each c) of [] \<Rightarrow> None | es \<Rightarrow> Some (last es))"
  by (induction c) (auto split: list.splits)

lemma get_None_iff: "ctx_get k c = None \<longleftrightarrow> k \<notin> elem_key ` set (for_each c)"
  by (induction c) auto

lemma get_SomeD: "ctx_get k c = Some e \<Longrightarrow> e \<in> set (for_each c) \<and> elem_key e = k"
  by (induction c) (auto split: if_splits)

lemma get_distinct: "distinct_keys c \<Longrightarrow> ctx_get k c = Some e \<longleftrightarrow> e \<in> set (for_each c) \<and> elem_key e = k"
  by (induction c) (auto simp: distinct_keys_def dest: get_SomeD)

text \<open>Removing a key.\<close>

lemma minus_key_elements:
  assumes "distinct_keys c"
  shows "elements (minus_key k c) = without k (for_each c)"
  using assms
proof (induction c)
  case (Combined l e)
  then have "elements (minus_key k l) = without k (for_each l)" by (simp add: distinct_keys_def)
  moreover have "elem_key e \<notin> elem_key ` set (for_each l)" using Combined.prems by (simp add: distinct_keys_def)
  ultimately show ?case
    using without_same [of k "for_each l"] by (auto simp: without_def split: option.split)
qed (simp_all add: without_def)

lemma minus_key_get:
  assumes "distinct_keys c"
  shows "(case minus_key k c of None \<Rightarrow> None | Some d \<Rightarrow> ctx_get j d) = (if j = k then None else ctx_get j c)"
  using assms
proof (induction c)
  case (Combined l e)
  then have "distinct_keys l" "elem_key e \<notin> elem_key ` set (for_each l)" by (simp_all add: distinct_keys_def)
  then show ?case using Combined.IH get_None_iff [of k l] by (auto split: option.splits)
qed auto

text \<open>Adding an element, and a context.\<close>

lemma plus_element_elements:
  assumes "distinct_keys c"
  shows "for_each (plus_element c e) = without (elem_key e) (for_each c) @ [e]" "distinct_keys (plus_element c e)"
proof -
  show "for_each (plus_element c e) = without (elem_key e) (for_each c) @ [e]"
    using minus_key_elements [OF assms, of "elem_key e"] by (auto simp: plus_element_def split: option.split)
  then show "distinct_keys (plus_element c e)"
    using assms without_distinct [of "for_each c" "elem_key e"] without_keys [of "elem_key e" "for_each c"]
    by (simp add: distinct_keys_def)
qed

lemma fold_elements:
  assumes "distinct_keys c" "distinct (map elem_key es)"
  shows "for_each (foldl plus_element c es) = filter (\<lambda>e. elem_key e \<notin> elem_key ` set es) (for_each c) @ es \<and>
    distinct_keys (foldl plus_element c es)"
  using assms
proof (induction es arbitrary: c)
  case (Cons e es)
  let ?c = "plus_element c e"
  have "for_each (foldl plus_element ?c es) = filter (\<lambda>e. elem_key e \<notin> elem_key ` set es) (for_each ?c) @ es \<and>
      distinct_keys (foldl plus_element ?c es)"
    using Cons plus_element_elements [OF Cons.prems(1), of e] by simp
  moreover have "elem_key e \<notin> elem_key ` set es" using Cons.prems(2) by simp
  moreover have "filter (\<lambda>x. elem_key x \<notin> elem_key ` set es) (without (elem_key e) (for_each c)) =
      filter (\<lambda>x. elem_key x \<notin> elem_key ` set (e # es)) (for_each c)"
    by (simp add: without_def)
  ultimately show ?case using plus_element_elements(1) [OF Cons.prems(1), of e] by simp
qed simp

lemma get_plus_element: "ctx_get k (plus_element c e) = (if elem_key e = k then Some e else ctx_get k c)"
proof -
  have m: "(case minus_key j c of None \<Rightarrow> None | Some d \<Rightarrow> ctx_get k d) = ctx_get k c" if "j \<noteq> k" for j
    using that by (induction c) (auto split: option.splits)
  show ?thesis
  proof (cases "elem_key e = k")
    case False
    then show ?thesis using m [of "elem_key e"] by (cases "minus_key (elem_key e) c") (simp_all add: plus_element_def)
  qed (simp add: plus_element_def split: option.split)
qed

lemma get_fold: "ctx_get k (foldl plus_element c es) =
    (case filter (\<lambda>e. elem_key e = k) es of [] \<Rightarrow> ctx_get k c | xs \<Rightarrow> Some (last xs))"
  by (induction es arbitrary: c) (auto simp: get_plus_element split: list.splits)

lemma get_plus: "ctx_get k (ctx_plus c d) = (case d of None \<Rightarrow> ctx_get k c
     | Some e \<Rightarrow> (case ctx_get k e of None \<Rightarrow> ctx_get k c | Some x \<Rightarrow> Some x))"
proof (cases d)
  case (Some e)
  then have "ctx_get k (ctx_plus c d) = ctx_get k (foldl plus_element c (for_each e))"
    by (simp add: ctx_plus_def ctx_fold_def)
  then show ?thesis
    using Some get_fold [of k c "for_each e"] get_last [of k e]
    by (cases "filter (\<lambda>x. elem_key x = k) (for_each e)") simp_all
qed (simp add: ctx_plus_def)

lemma keys_of_merge: "f ` ({x \<in> A. f x \<notin> f ` C} \<union> C) = f ` A \<union> f ` C"
proof (rule set_eqI)
  show "y \<in> f ` ({x \<in> A. f x \<notin> f ` C} \<union> C) \<longleftrightarrow> y \<in> f ` A \<union> f ` C" for y
    by (cases "y \<in> f ` C") blast+
qed

lemma plus_elements:
  assumes "distinct_keys x" "distinct_keys y"
  shows "for_each (ctx_plus x (Some y)) = filter (\<lambda>e. elem_key e \<notin> elem_key ` set (for_each y)) (for_each x) @ for_each y"
    "distinct_keys (ctx_plus x (Some y))"
proof -
  have "distinct (map elem_key (for_each y))" using assms(2) by (simp add: distinct_keys_def)
  from fold_elements [OF assms(1) this]
  show "for_each (ctx_plus x (Some y)) = filter (\<lambda>e. elem_key e \<notin> elem_key ` set (for_each y)) (for_each x) @ for_each y"
    "distinct_keys (ctx_plus x (Some y))"
    by (simp_all add: ctx_plus_def ctx_fold_def)
qed

subsection \<open>Properties\<close>



text \<open>The sum of two contexts has the elements of the first whose keys the second does not have, in their order,
  followed by the elements of the second; no key ever occurs twice, so the sum is associative on elements, and a later fold sees
  each key once.\<close>

lemma plus_merges_elements:
  assumes "distinct_keys a" "distinct_keys b" "distinct_keys c"
  shows "for_each (ctx_plus a (Some b)) = filter (\<lambda>e. elem_key e \<notin> elem_key ` set (for_each b)) (for_each a) @ for_each b \<and>
    distinct_keys (ctx_plus a (Some b)) \<and>
    for_each (ctx_plus (ctx_plus a (Some b)) (Some c)) = for_each (ctx_plus a (Some (ctx_plus b (Some c))))"
proof -
  have ab: "distinct_keys (ctx_plus a (Some b))" "distinct_keys (ctx_plus b (Some c))" using plus_elements assms by blast+
  have "for_each (ctx_plus (ctx_plus a (Some b)) (Some c)) = for_each (ctx_plus a (Some (ctx_plus b (Some c))))"
    using plus_elements(1) [OF ab(1) assms(3)] plus_elements(1) [OF assms(1) ab(2)]
      plus_elements(1) [OF assms(1,2)] plus_elements(1) [OF assms(2,3)]
    by (simp add: keys_of_merge conj_commute)
  then show ?thesis using plus_elements [OF assms(1,2)] by blast
qed

lemma plus_merges_elements_witness:
  "for_each (ctx_plus (Combined (Single (Element 1 ''a'')) (Element 2 ''b'')) (Some (Combined (Single (Element 3 ''c'')) (Element 1 ''d''))))
    = [Element 2 ''b'', Element 3 ''c'', Element 1 ''d'']"
proof -
  have "distinct_keys (Combined (Single (Element 1 ''a'')) (Element 2 ''b''))" "distinct_keys (Combined (Single (Element 3 ''c'')) (Element 1 ''d''))"
    "distinct_keys (Single (Element 5 ''e''))" by (simp_all add: distinct_keys_def)
  from plus_merges_elements [OF this] show ?thesis by simp
qed

end
