(* ===== verification/Loops.thy ===== *)
theory Loops
  imports Prelude
begin

text \<open>
  Operations that contain loops: a computation over a state that returns, throws, or never ends.
  Not ending is \<open>None\<close>, as \<open>partial_function (option)\<close> defines it, so that a theorem about the
  result of such an operation says that it returns.
\<close>

type_synonym ('s, 'a) lexec = "'s \<Rightarrow> ('a res \<times> 's) option"

definition return_l :: "'a \<Rightarrow> ('s, 'a) lexec" where
  "return_l x s = Some (Inr x, s)"

definition throw_l :: "cpp_error \<Rightarrow> ('s, 'a) lexec" where
  "throw_l e s = Some (Inl e, s)"

definition modify_l :: "('s \<Rightarrow> 's) \<Rightarrow> ('s, unit) lexec" where
  "modify_l f s = Some (Inr (), f s)"

definition read_l :: "('s \<Rightarrow> ('s, 'a) lexec) \<Rightarrow> ('s, 'a) lexec" where
  "read_l f s = f s s"

definition bind_l :: "('s, 'a) lexec \<Rightarrow> ('a \<Rightarrow> ('s, 'b) lexec) \<Rightarrow> ('s, 'b) lexec" where
  "bind_l m f s = Option.bind (m s) (\<lambda>p. case fst p of Inl e \<Rightarrow> Some (Inl e, snd p) | Inr x \<Rightarrow> f x (snd p))"

definition seq_l :: "('s, unit) lexec \<Rightarrow> ('s, 'b) lexec \<Rightarrow> ('s, 'b) lexec" where
  "seq_l m n = bind_l m (\<lambda>_. n)"

lemma bind_l_mono [partial_function_mono]:
  assumes "\<And>s. mono_option (\<lambda>g. B g s)" "\<And>y s. mono_option (\<lambda>g. C g y s)"
  shows "mono_option (\<lambda>g. bind_l (B g) (C g) s)"
proof -
  have "mono_option (\<lambda>g. case fst p of Inl e \<Rightarrow> Some (Inl e, snd p) | Inr x \<Rightarrow> C g x (snd p))" for p
    using assms(2) by (cases "fst p") (simp_all add: monotone_def flat_ord_def fun_ord_def)
  then show ?thesis unfolding bind_l_def using assms(1) by (intro bind_mono)
qed

lemma seq_l_mono [partial_function_mono]:
  assumes "\<And>s. mono_option (\<lambda>g. B g s)" "\<And>s. mono_option (\<lambda>g. C g s)"
  shows "mono_option (\<lambda>g. seq_l (B g) (C g) s)"
  unfolding seq_l_def by (rule bind_l_mono [OF assms])

lemma if_l_mono [partial_function_mono]:
  assumes "mono_option (\<lambda>g. B g s)" "mono_option (\<lambda>g. C g s)"
  shows "mono_option (\<lambda>g. (if b then B g else C g) s)"
  using assms by (cases b) simp_all

lemma read_l_mono [partial_function_mono]:
  assumes "mono_option (\<lambda>g. C g s s)"
  shows "mono_option (\<lambda>g. read_l (C g) s)"
  using assms by (simp add: read_l_def)

lemma let_l_mono [partial_function_mono]:
  assumes "mono_option (\<lambda>g. C g t s)"
  shows "mono_option (\<lambda>g. Let t (C g) s)"
  using assms by (simp add: Let_def)

text \<open>Running an operation.\<close>

lemma run_l [simp]:
  "return_l x s = Some (Inr x, s)" "throw_l e s = Some (Inl e, s)" "modify_l f s = Some (Inr (), f s)"
  "read_l h s = h s s"
  by (simp_all add: return_l_def throw_l_def modify_l_def read_l_def)

lemma bind_l_return: "m s = Some (Inr x, s') \<Longrightarrow> bind_l m f s = f x s'"
  by (simp add: bind_l_def)

lemma bind_l_throw: "m s = Some (Inl e, s') \<Longrightarrow> bind_l m f s = Some (Inl e, s')"
  by (simp add: bind_l_def)

lemma seq_l_return: "m s = Some (Inr (), s') \<Longrightarrow> seq_l m n s = n s'"
  by (simp add: seq_l_def bind_l_def)

lemma bind_l_run [simp]:
  "bind_l (return_l x) f s = f x s" "bind_l (throw_l e) f s = Some (Inl e, s)"
  "bind_l (modify_l h) g s = g () (h s)" "bind_l (read_l k) f s = bind_l (k s) f s"
  by (simp_all add: bind_l_def)

lemma seq_l_run [simp]:
  "seq_l (return_l u) n s = n s" "seq_l (throw_l e) n s = Some (Inl e, s)"
  "seq_l (modify_l h) n s = n (h s)"
  by (simp_all add: seq_l_def bind_l_def)

end
