(* ===== verification/Segment_List.thy ===== *)
theory Segment_List
  imports Loops
begin

text \<open>
  \<open>internal/ConcurrentLinkedList.hpp\<close>: the doubly linked list of segments under the semaphore and
  the channels. A segment is known by its id: a new one gets the id of the last one plus one, so an
  id names one node. The state maps ids to the fields of the node; every operation runs without
  interleaving, so a compare-and-set succeeds exactly when the code's comparison does.
\<close>

subsection \<open>Nodes\<close>

datatype seg_link = Link_Null | Link_Closed | Link nat

record seg_list =
  slots :: "32 word"
  next_ref :: "nat \<Rightarrow> seg_link"
  prev_ref :: "nat \<Rightarrow> nat option"
  cleaned_and_pointers :: "nat \<Rightarrow> 32 word"

definition next_seg :: "seg_list \<Rightarrow> nat \<Rightarrow> nat option" where
  "next_seg s g = (case next_ref s g of Link h \<Rightarrow> Some h | _ \<Rightarrow> None)"

definition is_tail :: "seg_list \<Rightarrow> nat \<Rightarrow> bool" where
  "is_tail s g \<longleftrightarrow> next_seg s g = None"

definition is_removed :: "seg_list \<Rightarrow> nat \<Rightarrow> bool" where
  "is_removed s g \<longleftrightarrow> cleaned_and_pointers s g = slots s \<and> \<not> is_tail s g"

definition try_set_next :: "nat \<Rightarrow> nat \<Rightarrow> seg_list \<Rightarrow> bool \<times> seg_list" where
  "try_set_next g h s = (if next_ref s g = Link_Null then (True, s\<lparr>next_ref := (next_ref s)(g := Link h)\<rparr>) else (False, s))"

definition mark_as_closed :: "nat \<Rightarrow> seg_list \<Rightarrow> bool \<times> seg_list" where
  "mark_as_closed g s = (if next_ref s g = Link_Null then (True, s\<lparr>next_ref := (next_ref s)(g := Link_Closed)\<rparr>) else (False, s))"

definition clean_prev :: "nat \<Rightarrow> seg_list \<Rightarrow> seg_list" where
  "clean_prev g s = s\<lparr>prev_ref := (prev_ref s)(g := None)\<rparr>"

definition pointer_unit :: "32 word" where
  "pointer_unit = push_bit 16 1"

text \<open>The constructor; a segment created by a lookup has no pointers, the first one three.\<close>

definition new_segment :: "nat \<Rightarrow> nat option \<Rightarrow> nat \<Rightarrow> seg_list \<Rightarrow> seg_list" where
  "new_segment g p pointers s = s\<lparr>next_ref := (next_ref s)(g := Link_Null), prev_ref := (prev_ref s)(g := p),
     cleaned_and_pointers := (cleaned_and_pointers s)(g := push_bit 16 (of_nat pointers))\<rparr>"

subsection \<open>Removal\<close>

partial_function (option) alive_segment_left :: "seg_list \<Rightarrow> nat option \<Rightarrow> nat option option" where
  "alive_segment_left s cur = (case cur of None \<Rightarrow> Some None
     | Some g \<Rightarrow> if is_removed s g then alive_segment_left s (prev_ref s g) else Some (Some g))"

partial_function (option) alive_segment_right :: "seg_list \<Rightarrow> nat option \<Rightarrow> nat option option" where
  "alive_segment_right s cur = (case cur of None \<Rightarrow> Some None
     | Some g \<Rightarrow> if is_removed s g
         then (case next_seg s g of None \<Rightarrow> Some (Some g) | Some h \<Rightarrow> alive_segment_right s (Some h))
         else Some (Some g))"

definition relink :: "nat option \<Rightarrow> nat \<Rightarrow> seg_list \<Rightarrow> seg_list" where
  "relink p n s =
     (let s1 = (if prev_ref s n = None then s else s\<lparr>prev_ref := (prev_ref s)(n := p)\<rparr>)
      in case p of None \<Rightarrow> s1 | Some q \<Rightarrow> s1\<lparr>next_ref := (next_ref s1)(q := Link n)\<rparr>)"

partial_function (option) remove_loop :: "nat \<Rightarrow> (seg_list, unit) lexec" where
  "remove_loop g s =
     Option.bind (alive_segment_left s (prev_ref s g)) (\<lambda>p.
     Option.bind (alive_segment_right s (next_seg s g)) (\<lambda>n. case n of
         None \<Rightarrow> Some (Inl Undefined_Behaviour, s)
       | Some n \<Rightarrow>
           (let s' = relink p n s
            in if is_removed s' n \<and> \<not> is_tail s' n then remove_loop g s'
               else if p \<noteq> None \<and> is_removed s' (the p) then remove_loop g s'
               else Some (Inr (), s'))))"

definition remove_seg :: "nat \<Rightarrow> (seg_list, unit) lexec" where
  "remove_seg g s =
     (if \<not> (is_removed s g \<or> is_tail s g) then Some (Inl Assertion_Failed, s)
      else if is_tail s g then Some (Inr (), s)
      else remove_loop g s)"

definition on_slot_cleaned :: "nat \<Rightarrow> (seg_list, unit) lexec" where
  "on_slot_cleaned g s =
     (let s' = s\<lparr>cleaned_and_pointers := (cleaned_and_pointers s)(g := cleaned_and_pointers s g + 1)\<rparr>
      in if cleaned_and_pointers s' g = slots s' then remove_seg g s' else Some (Inr (), s'))"

definition try_inc_pointers :: "nat \<Rightarrow> seg_list \<Rightarrow> bool \<times> seg_list" where
  "try_inc_pointers g s =
     (if cleaned_and_pointers s g = slots s \<and> \<not> is_tail s g then (False, s)
      else (True, s\<lparr>cleaned_and_pointers := (cleaned_and_pointers s)(g := cleaned_and_pointers s g + pointer_unit)\<rparr>))"

definition dec_pointers :: "nat \<Rightarrow> seg_list \<Rightarrow> bool \<times> seg_list" where
  "dec_pointers g s =
     (let s' = s\<lparr>cleaned_and_pointers := (cleaned_and_pointers s)(g := cleaned_and_pointers s g - pointer_unit)\<rparr>
      in (cleaned_and_pointers s' g = slots s' \<and> \<not> is_tail s' g, s'))"

subsection \<open>Lookup and closing\<close>

text \<open>The closed marker as a result is \<open>None\<close>.\<close>

partial_function (option) find_segment_internal :: "nat \<Rightarrow> nat \<Rightarrow> (seg_list, nat option) lexec" where
  "find_segment_internal cur i s =
     (if \<not> (cur < i \<or> is_removed s cur) then Some (Inr (Some cur), s)
      else case next_ref s cur of
          Link_Closed \<Rightarrow> Some (Inr None, s)
        | Link h \<Rightarrow> find_segment_internal h i s
        | Link_Null \<Rightarrow>
            (case try_set_next cur (cur + 1) (new_segment (cur + 1) (Some cur) 0 s) of
               (ok, s1) \<Rightarrow> if ok
                 then seq_l (if is_removed s1 cur then remove_seg cur else return_l ()) (find_segment_internal (cur + 1) i) s1
                 else find_segment_internal (case next_seg s cur of Some h \<Rightarrow> h | None \<Rightarrow> cur) i s))"

text \<open>The reference is the id it points to; the result is whether it moved and where it points.\<close>

definition move_forward :: "nat \<Rightarrow> nat \<Rightarrow> (seg_list, bool \<times> nat) lexec" where
  "move_forward ref to s =
     (if to \<le> ref then Some (Inr (True, ref), s)
      else case try_inc_pointers to s of
          (False, s1) \<Rightarrow> Some (Inr (False, ref), s1)
        | (True, s1) \<Rightarrow> (case dec_pointers ref s1 of
              (True, s2) \<Rightarrow> seq_l (remove_seg ref) (return_l (True, to)) s2
            | (False, s2) \<Rightarrow> Some (Inr (True, to), s2)))"

partial_function (option) find_segment_and_move_forward :: "nat \<Rightarrow> nat \<Rightarrow> nat \<Rightarrow> (seg_list, nat option \<times> nat) lexec" where
  "find_segment_and_move_forward ref i start s =
     bind_l (find_segment_internal start i) (\<lambda>r. case r of
         None \<Rightarrow> return_l (None, ref)
       | Some to \<Rightarrow> bind_l (move_forward ref to) (\<lambda>p.
           if fst p then return_l (Some to, snd p) else find_segment_and_move_forward (snd p) i start)) s"

partial_function (option) close_list :: "nat \<Rightarrow> seg_list \<Rightarrow> (nat \<times> seg_list) option" where
  "close_list cur s = (case next_ref s cur of
       Link_Closed \<Rightarrow> Some (cur, s)
     | Link h \<Rightarrow> close_list h s
     | Link_Null \<Rightarrow> (case mark_as_closed cur s of (ok, s') \<Rightarrow> if ok then Some (cur, s') else close_list cur s'))"

subsection \<open>Well-formed lists\<close>

text \<open>
  Segments up to \<open>lst\<close> exist; each but the last has a link to the right, links in both directions
  skip only segments all of whose slots are cleaned and that nothing points to.
\<close>

definition gone :: "seg_list \<Rightarrow> nat \<Rightarrow> bool" where
  "gone s g \<longleftrightarrow> cleaned_and_pointers s g = slots s"

definition gone_between :: "seg_list \<Rightarrow> nat \<Rightarrow> nat \<Rightarrow> bool" where
  "gone_between s g h \<longleftrightarrow> (\<forall>k. g < k \<and> k < h \<longrightarrow> gone s k)"

definition segs_ok :: "nat \<Rightarrow> seg_list \<Rightarrow> bool" where
  "segs_ok lst s \<longleftrightarrow>
     (\<forall>g<lst. \<exists>h. next_ref s g = Link h \<and> g < h \<and> h \<le> lst \<and> gone_between s g h) \<and>
     next_seg s lst = None \<and>
     (\<forall>g\<le>lst. \<forall>p. prev_ref s g = Some p \<longrightarrow> p < g \<and> gone_between s p g)"

lemma segs_okD:
  assumes "segs_ok lst s"
  shows "g < lst \<Longrightarrow> \<exists>h. next_ref s g = Link h \<and> g < h \<and> h \<le> lst \<and> gone_between s g h"
    "next_seg s lst = None"
    "g \<le> lst \<Longrightarrow> prev_ref s g = Some p \<Longrightarrow> p < g \<and> gone_between s p g"
  using assms by (auto simp: segs_ok_def)

lemma segs_ok_tail: "segs_ok lst s \<Longrightarrow> g \<le> lst \<Longrightarrow> is_tail s g \<longleftrightarrow> g = lst"
  using segs_okD(1) [of lst s g] segs_okD(2) [of lst s] by (fastforce simp: is_tail_def next_seg_def)

lemma segs_ok_removed: "segs_ok lst s \<Longrightarrow> g \<le> lst \<Longrightarrow> is_removed s g \<longleftrightarrow> gone s g \<and> g < lst"
  using segs_ok_tail [of lst s g] by (auto simp: is_removed_def gone_def)

lemma segs_ok_next: "segs_ok lst s \<Longrightarrow> g < lst \<Longrightarrow> \<exists>h. next_seg s g = Some h \<and> g < h \<and> h \<le> lst \<and> gone_between s g h"
  using segs_okD(1) [of lst s g] by (auto simp: next_seg_def)

lemma gone_between_trans: "gone_between s a b \<Longrightarrow> gone_between s b c \<Longrightarrow> gone s b \<Longrightarrow> gone_between s a c"
  unfolding gone_between_def by (metis nat_neq_iff)

lemma gone_between_cong:
  "cleaned_and_pointers s' = cleaned_and_pointers s \<Longrightarrow> slots s' = slots s \<Longrightarrow> gone_between s' a b = gone_between s a b"
  by (simp add: gone_between_def gone_def)

subsection \<open>Removal keeps the list well formed\<close>

lemma alive_left_finds:
  assumes "segs_ok lst s" "g \<le> lst" "case cur of None \<Rightarrow> True | Some c \<Rightarrow> c < g \<and> gone_between s c g"
  shows "\<exists>p. alive_segment_left s cur = Some p \<and>
    (case p of None \<Rightarrow> True | Some q \<Rightarrow> q < g \<and> gone_between s q g \<and> \<not> is_removed s q)"
  using assms(3)
proof (induction "case cur of None \<Rightarrow> 0 | Some c \<Rightarrow> Suc c" arbitrary: cur rule: less_induct)
  case less
  show ?case
  proof (cases cur)
    case (Some c)
    show ?thesis
    proof (cases "is_removed s c")
      case True
      have c: "c < g" "gone_between s c g" "gone s c" using less.prems Some True by (auto simp: is_removed_def gone_def)
      have p: "case prev_ref s c of None \<Rightarrow> True | Some d \<Rightarrow> d < c \<and> gone_between s d c"
        using segs_okD(3) [OF assms(1), of c] c(1) assms(2) by (simp split: option.split)
      then have "case prev_ref s c of None \<Rightarrow> True | Some d \<Rightarrow> d < g \<and> gone_between s d g"
        using c gone_between_trans [of s _ c g] by (auto split: option.splits)
      moreover have "(case prev_ref s c of None \<Rightarrow> 0 | Some c \<Rightarrow> Suc c) < Suc c" using p by (simp split: option.splits)
      ultimately show ?thesis using less.hyps [of "prev_ref s c"] Some True
        by (simp add: alive_segment_left.simps [of s "Some c"])
    qed (use less.prems Some in \<open>simp add: alive_segment_left.simps [of s "Some c"]\<close>)
  qed (simp add: alive_segment_left.simps)
qed

lemma alive_right_finds:
  assumes "segs_ok lst s" "g < c" "c \<le> lst" "gone_between s g c"
  shows "\<exists>n. alive_segment_right s (Some c) = Some (Some n) \<and> g < n \<and> n \<le> lst \<and> gone_between s g n \<and> \<not> is_removed s n"
  using assms(2-)
proof (induction "lst - c" arbitrary: c rule: less_induct)
  case less
  show ?case
  proof (cases "is_removed s c")
    case True
    then have "c < lst" "gone s c" using segs_ok_removed [OF assms(1) less.prems(2)] by auto
    then obtain h where "next_seg s c = Some h" "c < h" "h \<le> lst" "gone_between s c h"
      using segs_ok_next [OF assms(1)] by blast
    then show ?thesis
      using less.hyps [of h] less.prems True gone_between_trans [OF less.prems(3) _ \<open>gone s c\<close>, of h]
      by (simp add: alive_segment_right.simps [of s "Some c"])
  qed (use less.prems in \<open>simp add: alive_segment_right.simps [of s "Some c"]\<close>)
qed

lemma relink_frame [simp]:
  "cleaned_and_pointers (relink p n s) = cleaned_and_pointers s" "slots (relink p n s) = slots s"
  by (simp_all add: relink_def Let_def split: option.split)

lemma relink_links:
  "next_ref (relink p n s) = (case p of None \<Rightarrow> next_ref s | Some q \<Rightarrow> (next_ref s)(q := Link n))"
  "prev_ref (relink p n s) = (if prev_ref s n = None then prev_ref s else (prev_ref s)(n := p))"
  by (auto simp: relink_def Let_def split: option.split)

lemma relink_ok:
  assumes "segs_ok lst s" "g < n" "n \<le> lst" "gone_between s g n" "gone s g"
    "case p of None \<Rightarrow> True | Some q \<Rightarrow> q < g \<and> gone_between s q g"
  shows "segs_ok lst (relink p n s)" "next_ref (relink p n s) lst = next_ref s lst"
proof -
  have q: "q < n \<and> gone_between s q n" if "p = Some q" for q
    using assms(2,6) gone_between_trans [OF _ assms(4,5), of q] that by auto
  note gb = gone_between_cong [OF relink_frame]
  show t: "next_ref (relink p n s) lst = next_ref s lst"
    using q assms(3) by (auto simp: relink_links split: option.split)
  have "\<exists>h. next_ref (relink p n s) k = Link h \<and> k < h \<and> h \<le> lst \<and> gone_between s k h" if k: "k < lst" for k
    using segs_okD(1) [OF assms(1) k] q assms(3) by (auto simp: relink_links split: option.split)
  moreover have "x < k \<and> gone_between s x k" if k: "k \<le> lst" "prev_ref (relink p n s) k = Some x" for k x
    using segs_okD(3) [OF assms(1) k(1), of x] q k(2) by (auto simp: relink_links split: if_splits)
  moreover have "next_seg (relink p n s) lst = None" using segs_okD(2) [OF assms(1)] t by (simp add: next_seg_def)
  ultimately show "segs_ok lst (relink p n s)" unfolding segs_ok_def gb by blast
qed

lemma remove_returns:
  assumes "segs_ok lst s" "g \<le> lst" "is_removed s g \<or> is_tail s g"
  shows "\<exists>s'. remove_seg g s = Some (Inr (), s') \<and> segs_ok lst s' \<and> next_ref s' lst = next_ref s lst \<and>
    cleaned_and_pointers s' = cleaned_and_pointers s \<and> slots s' = slots s"
proof (cases "is_tail s g")
  case False
  then have g: "g < lst" "gone s g" using assms segs_ok_removed [OF assms(1,2)] by auto
  have "case prev_ref s g of None \<Rightarrow> True | Some c \<Rightarrow> c < g \<and> gone_between s c g"
    using segs_okD(3) [OF assms(1,2)] by (simp split: option.split)
  from alive_left_finds [OF assms(1,2) this]
  obtain p where p: "alive_segment_left s (prev_ref s g) = Some p"
    "case p of None \<Rightarrow> True | Some q \<Rightarrow> q < g \<and> gone_between s q g \<and> \<not> is_removed s q" by blast
  obtain h where h: "next_seg s g = Some h" "g < h" "h \<le> lst" "gone_between s g h"
    using segs_ok_next [OF assms(1) g(1)] by blast
  from alive_right_finds [OF assms(1) h(2,3,4)]
  obtain n where n: "alive_segment_right s (Some h) = Some (Some n)" "g < n" "n \<le> lst" "gone_between s g n" "\<not> is_removed s n"
    by blast
  have p': "case p of None \<Rightarrow> True | Some q \<Rightarrow> q < g \<and> gone_between s q g" using p(2) by (simp split: option.splits)
  note ok = relink_ok [OF assms(1) n(2-4) g(2) p']
  have same: "is_removed (relink p n s) k = is_removed s k" if k: "k \<le> lst" for k
    using segs_ok_removed [OF ok(1) k] segs_ok_removed [OF assms(1) k] by (simp add: gone_def)
  have "\<not> is_removed (relink p n s) n" using same n(3,5) by simp
  moreover have "p = None \<or> \<not> is_removed (relink p n s) (the p)" using same p(2) assms(2) by (auto split: option.splits)
  ultimately have "remove_loop g s = Some (Inr (), relink p n s)"
    using p(1) n(1) h(1) by (subst remove_loop.simps) (auto simp: Let_def)
  then show ?thesis using assms(3) False ok by (simp add: remove_seg_def)
qed (use assms in \<open>simp add: remove_seg_def\<close>)

subsection \<open>Lookup\<close>

lemma find_walk:
  assumes "segs_ok lst s" "cur \<le> lst" "i \<le> lst"
  shows "\<exists>r. find_segment_internal cur i s = Some (Inr (Some r), s) \<and> max cur i \<le> r \<and> r \<le> lst \<and> \<not> is_removed s r \<and>
    (\<forall>k. max cur i \<le> k \<and> k < r \<longrightarrow> is_removed s k)"
  using assms(2)
proof (induction "lst - cur" arbitrary: cur rule: less_induct)
  case less
  note step = find_segment_internal.simps [of cur i s]
  show ?case
  proof (cases "cur < i \<or> is_removed s cur")
    case True
    then have cur: "cur < lst" using less.prems assms(3) segs_ok_removed [OF assms(1) less.prems] by auto
    then obtain h where h: "next_ref s cur = Link h" "cur < h" "h \<le> lst" "gone_between s cur h"
      using segs_okD(1) [OF assms(1)] by blast
    have "lst - h < lst - cur" using cur h by simp
    from less.hyps [OF this h(3)] obtain r where r: "find_segment_internal h i s = Some (Inr (Some r), s)" "max h i \<le> r" "r \<le> lst"
      "\<not> is_removed s r" "\<forall>k. max h i \<le> k \<and> k < r \<longrightarrow> is_removed s k" by blast
    have "is_removed s k" if k: "max cur i \<le> k" "k < r" for k
    proof (cases "h \<le> k")
      case False
      then show ?thesis using k True h(3,4) segs_ok_removed [OF assms(1), of k] by (cases "k = cur") (auto simp: gone_between_def)
    qed (use r k in auto)
    then show ?thesis using True h r step by auto
  qed (use less.prems step in auto)
qed

text \<open>A lookup beyond the last segment creates the missing ones, unless the list is closed.\<close>

lemma new_segment_ok:
  assumes "segs_ok lst s" "next_ref s lst = Link_Null" "s' = snd (try_set_next lst (lst + 1) (new_segment (lst + 1) (Some lst) 0 s))"
  shows "segs_ok (lst + 1) s' \<and> next_ref s' (lst + 1) = Link_Null \<and> slots s' = slots s \<and>
    cleaned_and_pointers s' = (cleaned_and_pointers s)(lst + 1 := 0)"
proof -
  have f: "next_ref s' = (next_ref s)(lst + 1 := Link_Null, lst := Link (lst + 1))" "prev_ref s' = (prev_ref s)(lst + 1 := Some lst)"
    "cleaned_and_pointers s' = (cleaned_and_pointers s)(lst + 1 := 0)" "slots s' = slots s"
    using assms(2,3) by (auto simp: try_set_next_def new_segment_def fun_eq_iff)
  have gb: "gone_between s' a b \<longleftrightarrow> gone_between s a b" if "b \<le> lst + 1" for a b
    using that by (simp add: gone_between_def gone_def f)
  have "\<exists>h. next_ref s' k = Link h \<and> k < h \<and> h \<le> lst + 1 \<and> gone_between s' k h" if k: "k < lst + 1" for k
  proof (cases "k = lst")
    case False
    then have "k < lst" using k by simp
    from segs_okD(1) [OF assms(1) this] False k gb show ?thesis by (auto simp: f)
  qed (auto simp: f gone_between_def)
  moreover have "x < k \<and> gone_between s' x k" if k: "k \<le> lst + 1" "prev_ref s' k = Some x" for k x
  proof (cases "k = lst + 1")
    case False
    then have "k \<le> lst" using k by simp
    from segs_okD(3) [OF assms(1) this, of x] False k gb show ?thesis by (auto simp: f)
  qed (use k in \<open>auto simp: f gone_between_def\<close>)
  ultimately show ?thesis by (simp add: segs_ok_def f next_seg_def)
qed

lemma find_closed:
  assumes "segs_ok lst s" "cur \<le> lst" "lst < i" "next_ref s lst = Link_Closed"
  shows "find_segment_internal cur i s = Some (Inr None, s)"
  using assms(2)
proof (induction "lst - cur" arbitrary: cur rule: less_induct)
  case less
  show ?case
  proof (cases "cur = lst")
    case False
    then obtain h where "next_ref s cur = Link h" "cur < h" "h \<le> lst" using segs_okD(1) [OF assms(1), of cur] less.prems by auto
    then show ?thesis using less.hyps [of h] less.prems assms(3) find_segment_internal.simps [of cur i s] by auto
  qed (use assms find_segment_internal.simps [of cur i s] in simp)
qed

lemma find_extend:
  assumes "segs_ok lst s" "cur \<le> lst" "lst < i" "next_ref s lst = Link_Null"
  shows "\<exists>s'. find_segment_internal cur i s = Some (Inr (Some i), s') \<and> segs_ok i s' \<and> next_ref s' i = Link_Null \<and>
    slots s' = slots s \<and> cleaned_and_pointers s' = (\<lambda>k. if lst < k \<and> k \<le> i then 0 else cleaned_and_pointers s k)"
  using assms
proof (induction "i - cur" arbitrary: cur lst s rule: less_induct)
  case less
  note step = find_segment_internal.simps [of cur i s]
  show ?case
  proof (cases "cur = lst")
    case False
    then obtain h where "next_ref s cur = Link h" "cur < h" "h \<le> lst" using segs_okD(1) [OF less.prems(1), of cur] less.prems by auto
    then show ?thesis using less.hyps [of h lst s] less.prems step by auto
  next
    case True
    obtain s1 where t: "try_set_next lst (lst + 1) (new_segment (lst + 1) (Some lst) 0 s) = (True, s1)"
      using less.prems(4) by (simp add: try_set_next_def new_segment_def)
    then have n: "segs_ok (lst + 1) s1" "next_ref s1 (lst + 1) = Link_Null" "slots s1 = slots s"
      "cleaned_and_pointers s1 = (cleaned_and_pointers s)(lst + 1 := 0)" using new_segment_ok [OF less.prems(1,4), of s1] by simp_all
    obtain s2 where s2: "(if is_removed s1 lst then remove_seg lst else return_l ()) s1 = Some (Inr (), s2)"
      "segs_ok (lst + 1) s2" "next_ref s2 (lst + 1) = Link_Null" "slots s2 = slots s"
      "cleaned_and_pointers s2 = (cleaned_and_pointers s)(lst + 1 := 0)"
      using n remove_returns [OF n(1), of lst] by (cases "is_removed s1 lst") auto
    have e: "find_segment_internal cur i s = find_segment_internal (lst + 1) i s2"
      using less.prems(3,4) t s2(1) unfolding step using True by (auto simp: seq_l_def bind_l_def)
    show ?thesis
    proof (cases "i = lst + 1")
      case True
      then have "find_segment_internal (lst + 1) i s2 = Some (Inr (Some i), s2)"
        using segs_ok_removed [OF s2(2)] find_segment_internal.simps [of "lst + 1" i s2] by simp
      then show ?thesis using e s2 True by (auto simp: fun_eq_iff)
    next
      case False
      then have i': "lst + 1 < i" "i - (lst + 1) < i - cur" using less.prems(2,3) by auto
      from less.hyps [OF i'(2) s2(2) _ i'(1) s2(3)] s2(4,5) i' show ?thesis using e by (auto simp: fun_eq_iff)
    qed
  qed
qed

text \<open>The lookup always returns.\<close>

lemma find_segment_returns:
  assumes "segs_ok lst s" "cur \<le> lst"
  shows "\<exists>r s' lst'. find_segment_internal cur i s = Some (Inr r, s') \<and> segs_ok lst' s' \<and>
    slots s' = slots s \<and> (\<forall>k\<le>lst. cleaned_and_pointers s' k = cleaned_and_pointers s k) \<and> (i \<le> lst \<longrightarrow> s' = s) \<and> (case r of
      Some g \<Rightarrow> max cur i \<le> g \<and> g \<le> lst' \<and> \<not> is_removed s' g \<and> (\<forall>k. max cur i \<le> k \<and> k < g \<longrightarrow> is_removed s' k) \<and> lst' = max lst i
    | None \<Rightarrow> next_ref s lst = Link_Closed \<and> lst < i \<and> lst' = lst)"
proof (cases "i \<le> lst")
  case True
  from find_walk [OF assms True] assms(1) True show ?thesis by (auto simp: max_def)
next
  case False
  then have i: "lst < i" by simp
  show ?thesis
  proof (cases "next_ref s lst")
    case Link_Null
    from find_extend [OF assms i this] obtain s' where "find_segment_internal cur i s = Some (Inr (Some i), s')" "segs_ok i s'"
      "slots s' = slots s" "\<forall>k\<le>lst. cleaned_and_pointers s' k = cleaned_and_pointers s k" by auto
    then show ?thesis using i assms(2) segs_ok_removed [of i s' i]
      by (intro exI [of _ "Some i"] exI [of _ s'] exI [of _ i]) auto
  qed (use find_closed [OF assms i] assms(1) i segs_okD(2) [OF assms(1)] in \<open>auto simp: next_seg_def\<close>)
qed

definition empty_list :: seg_list where
  "empty_list = new_segment 0 None 3 \<lparr>slots = 32, next_ref = \<lambda>_. Link_Null, prev_ref = \<lambda>_. None, cleaned_and_pointers = \<lambda>_. 0\<rparr>"

lemma empty_list_ok: "segs_ok 0 empty_list"
  by (simp add: segs_ok_def empty_list_def new_segment_def next_seg_def)

subsection \<open>Moving a reference, cleaning a slot, closing\<close>

lemma segs_ok_cleaned:
  assumes "segs_ok lst s" "\<And>k. k < lst \<Longrightarrow> gone s k \<Longrightarrow> c k = slots s"
  shows "segs_ok lst (s\<lparr>cleaned_and_pointers := c\<rparr>)"
proof -
  have gb: "gone_between (s\<lparr>cleaned_and_pointers := c\<rparr>) a b" if "gone_between s a b" "b \<le> lst" for a b
    using assms(2) that by (simp add: gone_between_def gone_def)
  show ?thesis using assms(1) gb unfolding segs_ok_def by (simp add: next_seg_def) (metis order_less_imp_le)
qed

lemma slot_cleaned_returns:
  assumes "segs_ok lst s" "g \<le> lst" "\<not> gone s g"
  shows "\<exists>s'. on_slot_cleaned g s = Some (Inr (), s') \<and> segs_ok lst s' \<and> next_ref s' lst = next_ref s lst \<and> slots s' = slots s \<and>
    cleaned_and_pointers s' = (cleaned_and_pointers s)(g := cleaned_and_pointers s g + 1)"
proof -
  let ?s = "s\<lparr>cleaned_and_pointers := (cleaned_and_pointers s)(g := cleaned_and_pointers s g + 1)\<rparr>"
  have ok: "segs_ok lst ?s" using assms(3) by (intro segs_ok_cleaned [OF assms(1)]) (auto simp: gone_def)
  show ?thesis
  proof (cases "gone ?s g")
    case True
    then have "is_removed ?s g \<or> is_tail ?s g" by (simp add: is_removed_def gone_def)
    from remove_returns [OF ok assms(2) this] True show ?thesis by (auto simp: on_slot_cleaned_def Let_def gone_def)
  qed (use ok in \<open>simp add: on_slot_cleaned_def Let_def gone_def\<close>)
qed

lemma move_forward_returns:
  assumes "segs_ok lst s" "ref \<le> lst" "g \<le> lst" "\<not> gone s ref" "\<not> is_removed s g"
  shows "\<exists>s'. move_forward ref g s = Some (Inr (True, max ref g), s') \<and> segs_ok lst s' \<and> next_ref s' lst = next_ref s lst"
proof (cases "g \<le> ref")
  case False
  let ?s1 = "s\<lparr>cleaned_and_pointers := (cleaned_and_pointers s)(g := cleaned_and_pointers s g + pointer_unit)\<rparr>"
  let ?s2 = "s\<lparr>cleaned_and_pointers := (cleaned_and_pointers s)(g := cleaned_and_pointers s g + pointer_unit,
    ref := cleaned_and_pointers s ref - pointer_unit)\<rparr>"
  have i: "try_inc_pointers g s = (True, ?s1)" using assms(5) by (simp add: try_inc_pointers_def is_removed_def)
  have ok: "segs_ok lst ?s2"
    using assms(4,5) segs_ok_removed [OF assms(1,3)] by (intro segs_ok_cleaned [OF assms(1)]) (auto simp: gone_def)
  have d: "dec_pointers ref ?s1 = (is_removed ?s2 ref, ?s2)"
    using False by (simp add: dec_pointers_def Let_def is_removed_def is_tail_def next_seg_def)
  show ?thesis
  proof (cases "is_removed ?s2 ref")
    case True
    from remove_returns [OF ok assms(2) disjI1 [OF True]]
    obtain s' where "remove_seg ref ?s2 = Some (Inr (), s')" "segs_ok lst s'" "next_ref s' lst = next_ref s lst" by auto
    then show ?thesis using False i d True by (simp add: move_forward_def seq_l_return)
  qed (use False i d ok in \<open>simp add: move_forward_def\<close>)
qed (use assms in \<open>simp add: move_forward_def max_def\<close>)

lemma close_list_returns:
  assumes "segs_ok lst s" "cur \<le> lst"
  shows "close_list cur s = Some (lst, s\<lparr>next_ref := (next_ref s)(lst := Link_Closed)\<rparr>)"
  using assms(2)
proof (induction "lst - cur" arbitrary: cur rule: less_induct)
  case less
  show ?case
  proof (cases "cur = lst")
    case True
    then show ?thesis using segs_okD(2) [OF assms(1)] fun_upd_triv [of "next_ref s" lst]
      by (cases "next_ref s lst") (simp_all add: close_list.simps [of lst s] mark_as_closed_def next_seg_def)
  next
    case False
    then obtain h where "next_ref s cur = Link h" "cur < h" "h \<le> lst" using segs_okD(1) [OF assms(1), of cur] less.prems by auto
    then show ?thesis using less.hyps [of h] less.prems by (simp add: close_list.simps [of cur s])
  qed
qed

text \<open>C32: Looking up a segment and moving a reference forward always returns: with the first segment from the start on that has at least
  the id and is not removed, the missing ones being created when the list is open, and the reference then points to it or stays
  where it is when it is further; or with the closed marker exactly when the list is closed and ends before the id. The list
  stays well formed.\<close>

theorem segment_lookup_returns:
  assumes "segs_ok lst s" "start \<le> lst" "ref \<le> lst" "\<not> gone s ref"
  shows "\<exists>r ref' s' lst'. find_segment_and_move_forward ref i start s = Some (Inr (r, ref'), s') \<and> segs_ok lst' s' \<and> (case r of
      Some g \<Rightarrow> max start i \<le> g \<and> g \<le> lst' \<and> lst' = max lst i \<and> ref' = max ref g \<and>
        (i \<le> lst \<longrightarrow> \<not> is_removed s g \<and> (\<forall>k. max start i \<le> k \<and> k < g \<longrightarrow> is_removed s k))
    | None \<Rightarrow> next_ref s lst = Link_Closed \<and> lst < i \<and> ref' = ref \<and> lst' = lst)"
proof -
  obtain r s' lst' where f: "find_segment_internal start i s = Some (Inr r, s')" "segs_ok lst' s'" "slots s' = slots s"
    "\<forall>k\<le>lst. cleaned_and_pointers s' k = cleaned_and_pointers s k" "i \<le> lst \<longrightarrow> s' = s" and r: "(case r of
      Some g \<Rightarrow> max start i \<le> g \<and> g \<le> lst' \<and> \<not> is_removed s' g \<and> (\<forall>k. max start i \<le> k \<and> k < g \<longrightarrow> is_removed s' k) \<and> lst' = max lst i
    | None \<Rightarrow> next_ref s lst = Link_Closed \<and> lst < i \<and> lst' = lst)" using find_segment_returns [OF assms(1,2), of i] by blast
  note step = find_segment_and_move_forward.simps [of ref i start s]
  show ?thesis
  proof (cases r)
    case None
    then show ?thesis using f(1,2) r step by (simp add: bind_l_return)
  next
    case (Some g)
    have g: "g \<le> lst'" "\<not> is_removed s' g" "ref \<le> lst'" "\<not> gone s' ref" using r Some f(3,4) assms(3,4) by (auto simp: gone_def)
    from move_forward_returns [OF f(2) g(3) g(1) g(4) g(2)]
    obtain s2 where "move_forward ref g s' = Some (Inr (True, max ref g), s2)" "segs_ok lst' s2" by blast
    then show ?thesis using f(1,5) r Some step by (cases "i \<le> lst") (simp_all add: bind_l_return)
  qed
qed

theorem segment_lookup_returns_witness:
  "\<exists>g ref' s'. find_segment_and_move_forward 0 5 0 empty_list = Some (Inr (Some g, ref'), s') \<and> 5 \<le> g \<and> ref' = g"
proof -
  have "next_ref empty_list 0 = Link_Null" "\<not> gone empty_list 0" by (simp_all add: empty_list_def new_segment_def gone_def)
  with segment_lookup_returns [OF empty_list_ok order_refl order_refl, of 5] show ?thesis by (force split: option.splits)
qed

end
