(* ===== verification/Channel_State.thy ===== *)
theory Channel_State
  imports Loops
begin

unbundle bit_operations_syntax

text \<open>
  The parts of \<open>channels/BufferedChannel.hpp\<close> and \<open>channels/Channel.hpp\<close> that need no cells: the
  64-bit words that pack a counter with the close status and with the pause flag, and the result
  of a channel operation.
\<close>

subsection \<open>The senders counter and the close status\<close>

definition senders_counter :: "64 word \<Rightarrow> nat" where
  "senders_counter w = unat (w AND mask 60)"

text \<open>The shift of an \<open>int64_t\<close> keeps the sign.\<close>

definition senders_close_status :: "64 word \<Rightarrow> int" where
  "senders_close_status w = drop_bit 60 (sint w)"

definition construct_senders_and_close_status :: "nat \<Rightarrow> nat \<Rightarrow> 64 word" where
  "construct_senders_and_close_status counter status = push_bit 60 (of_nat status) + of_nat counter"

abbreviation (input) CLOSE_STATUS_ACTIVE :: nat where "CLOSE_STATUS_ACTIVE \<equiv> 0"
abbreviation (input) CLOSE_STATUS_CANCELLATION_STARTED :: nat where "CLOSE_STATUS_CANCELLATION_STARTED \<equiv> 1"
abbreviation (input) CLOSE_STATUS_CLOSED :: nat where "CLOSE_STATUS_CLOSED \<equiv> 2"
abbreviation (input) CLOSE_STATUS_CANCELLED :: nat where "CLOSE_STATUS_CANCELLED \<equiv> 3"

definition with_status :: "nat \<Rightarrow> 64 word \<Rightarrow> 64 word" where
  "with_status status w = construct_senders_and_close_status (senders_counter w) status"

definition mark_closed :: "64 word \<Rightarrow> 64 word" where
  "mark_closed w =
     (if senders_close_status w = int CLOSE_STATUS_ACTIVE then with_status CLOSE_STATUS_CLOSED w
      else if senders_close_status w = int CLOSE_STATUS_CANCELLATION_STARTED then with_status CLOSE_STATUS_CANCELLED w
      else w)"

definition mark_cancelled :: "64 word \<Rightarrow> 64 word" where
  "mark_cancelled w = with_status CLOSE_STATUS_CANCELLED w"

definition mark_cancellation_started :: "64 word \<Rightarrow> 64 word" where
  "mark_cancellation_started w =
     (if senders_close_status w = int CLOSE_STATUS_ACTIVE then with_status CLOSE_STATUS_CANCELLATION_STARTED w else w)"

subsection \<open>Completed buffer expansions and the pause flag\<close>

definition eb_completed_counter :: "64 word \<Rightarrow> nat" where
  "eb_completed_counter w = unat (w AND mask 62)"

definition eb_pause_expand_buffers :: "64 word \<Rightarrow> bool" where
  "eb_pause_expand_buffers w \<longleftrightarrow> w AND push_bit 62 1 \<noteq> 0"

definition construct_eb_completed_and_pause_flag :: "nat \<Rightarrow> bool \<Rightarrow> 64 word" where
  "construct_eb_completed_and_pause_flag counter pause = (if pause then push_bit 62 1 else 0) + of_nat counter"

subsection \<open>Results\<close>

datatype 'v channel_result = Channel_Value 'v | Channel_Failed | Channel_Closed "exception_ptr option"

fun result_is_success :: "'v channel_result \<Rightarrow> bool" where
  "result_is_success (Channel_Value v) = True"
| "result_is_success _ = False"

fun result_is_closed :: "'v channel_result \<Rightarrow> bool" where
  "result_is_closed (Channel_Closed e) = True"
| "result_is_closed _ = False"

fun result_get_or_null :: "'v channel_result \<Rightarrow> 'v option" where
  "result_get_or_null (Channel_Value v) = Some v"
| "result_get_or_null _ = None"

fun result_exception_or_null :: "'v channel_result \<Rightarrow> exception_ptr option" where
  "result_exception_or_null (Channel_Closed e) = e"
| "result_exception_or_null _ = None"

fun result_get_or_throw :: "'v channel_result \<Rightarrow> 'v res" where
  "result_get_or_throw (Channel_Value v) = Inr v"
| "result_get_or_throw (Channel_Closed (Some e)) = Inl (Rethrown e)"
| "result_get_or_throw (Channel_Closed None) = Inl (Logic_Error ''Trying to call 'getOrThrow' on a channel closed without a cause'')"
| "result_get_or_throw Channel_Failed = Inl (Logic_Error ''Trying to call 'getOrThrow' on a failed result of a non-closed channel'')"

text \<open>The deprecated \<open>offer\<close> on the result of \<open>try_send\<close>.\<close>

definition offer_result :: "unit channel_result \<Rightarrow> bool res" where
  "offer_result r = (if result_is_success r then Inr True
     else case result_exception_or_null r of Some e \<Rightarrow> Inl (Rethrown e) | None \<Rightarrow> Inr False)"

subsection \<open>Arithmetic of the packed words\<close>

definition packed :: "64 word \<Rightarrow> nat \<Rightarrow> nat \<Rightarrow> bool" where
  "packed w counter status \<longleftrightarrow> counter < 2 ^ 60 \<and> status < 8 \<and> unat w = status * 2 ^ 60 + counter"

lemma packed_counter:
  assumes "packed w n st"
  shows "senders_counter w = n"
proof -
  have "unat (w AND mask 60) = unat w mod 2 ^ 60"
    by (metis take_bit_eq_mask unsigned_take_bit_eq take_bit_eq_mod)
  then show ?thesis using assms by (simp add: senders_counter_def packed_def)
qed

lemma packed_status:
  assumes "packed w n st"
  shows "senders_close_status w = int st"
proof -
  have u: "unat w < 2 ^ 63" "unat w div 2 ^ 60 = st" using assms by (auto simp: packed_def)
  then have "int (unat w) < 2 ^ 63" by (simp only: of_nat_less_numeral_power_cancel_iff)
  then have "signed_take_bit 63 (int (unat w)) = int (unat w)"
    by (intro signed_take_bit_int_eq_self) (rule order_trans [of _ 0], simp, rule of_nat_0_le_iff)
  then have "sint w = int (unat w)" by (simp add: sint_uint)
  moreover have "int (unat w) div 2 ^ 60 = int (unat w div 2 ^ 60)" by (simp only: zdiv_int of_nat_power of_nat_numeral)
  ultimately show ?thesis by (simp only: senders_close_status_def drop_bit_eq_div u(2))
qed

lemma packed_construct:
  assumes "n < 2 ^ 60" "st < 8"
  shows "packed (construct_senders_and_close_status n st) n st"
proof -
  have "construct_senders_and_close_status n st = of_nat (st * 2 ^ 60 + n)"
    by (simp add: construct_senders_and_close_status_def push_bit_eq_mult)
  moreover have "unat (of_nat (st * 2 ^ 60 + n) :: 64 word) = st * 2 ^ 60 + n"
    unfolding unat_of_nat using assms by simp
  ultimately show ?thesis using assms by (simp only: packed_def simp_thms)
qed

lemma packed_add_1:
  assumes "packed w n st" "n + 1 < 2 ^ 60"
  shows "packed (w + 1) (n + 1) st"
proof -
  have "unat w + 1 < 2 ^ 64" using assms by (simp add: packed_def)
  then have "unat (w + 1) = unat w + 1" by (simp add: unat_word_ariths)
  then show ?thesis using assms by (simp add: packed_def)
qed

lemma packed_0: "packed 0 0 0"
  by (simp add: packed_def)

lemma packed_with_status: "packed w n st \<Longrightarrow> st' < 8 \<Longrightarrow> packed (with_status st' w) n st'"
  using packed_construct [of n st'] packed_counter [of w n st] by (simp add: with_status_def packed_def)

lemma packed_marks:
  assumes "packed w n st"
  shows "packed (mark_closed w) n (if st = 0 then 2 else if st = 1 then 3 else st)"
    "packed (mark_cancelled w) n 3"
    "packed (mark_cancellation_started w) n (if st = 0 then 1 else st)"
  using assms packed_with_status [OF assms] packed_status [OF assms]
  by (auto simp: mark_closed_def mark_cancelled_def mark_cancellation_started_def)

lemma eb_counter: "n < 2 ^ 62 \<Longrightarrow> eb_completed_counter (of_nat n) = n"
proof -
  assume n: "n < 2 ^ 62"
  have "unat (of_nat n AND mask 62 :: 64 word) = unat (of_nat n :: 64 word) mod 2 ^ 62"
    by (metis take_bit_eq_mask unsigned_take_bit_eq take_bit_eq_mod)
  then show ?thesis using n by (simp add: eb_completed_counter_def unat_of_nat)
qed

lemma eb_no_pause: "n < 2 ^ 62 \<Longrightarrow> \<not> eb_pause_expand_buffers (of_nat n)"
proof -
  assume n: "n < 2 ^ 62"
  have "\<not> bit (of_nat n :: 64 word) 62"
  proof -
    have "unat (of_nat n :: 64 word) = n" unfolding unat_of_nat using n by simp
    then have "bit (of_nat n :: 64 word) 62 \<longleftrightarrow> bit n 62" by (metis bit_unsigned_iff possible_bit_nat)
    then show ?thesis using n by (simp add: bit_iff_odd)
  qed
  moreover have "(w AND push_bit 62 1 = 0) \<longleftrightarrow> \<not> bit w 62" for w :: "64 word"
    by (simp add: bit_iff_and_push_bit_not_eq_0)
  ultimately show ?thesis by (simp add: eb_pause_expand_buffers_def)
qed

subsection \<open>The close status through any history\<close>

datatype status_step = Fetch_Add | Mark_Closed | Mark_Cancelled | Mark_Cancellation_Started

fun status_run :: "status_step \<Rightarrow> 64 word \<Rightarrow> 64 word" where
  "status_run Fetch_Add w = w + 1"
| "status_run Mark_Closed w = mark_closed w"
| "status_run Mark_Cancelled w = mark_cancelled w"
| "status_run Mark_Cancellation_Started w = mark_cancellation_started w"

datatype close_status = ACTIVE | CANCELLATION_STARTED | CLOSED | CANCELLED

fun status_code :: "close_status \<Rightarrow> nat" where
  "status_code ACTIVE = CLOSE_STATUS_ACTIVE"
| "status_code CANCELLATION_STARTED = CLOSE_STATUS_CANCELLATION_STARTED"
| "status_code CLOSED = CLOSE_STATUS_CLOSED"
| "status_code CANCELLED = CLOSE_STATUS_CANCELLED"

text \<open>The diagram of the status constants.\<close>

fun status_next :: "status_step \<Rightarrow> close_status \<Rightarrow> close_status" where
  "status_next Mark_Closed ACTIVE = CLOSED"
| "status_next Mark_Closed CANCELLATION_STARTED = CANCELLED"
| "status_next Mark_Cancellation_Started ACTIVE = CANCELLATION_STARTED"
| "status_next Mark_Cancelled st = CANCELLED"
| "status_next step st = st"

lemma status_run_packed:
  assumes "packed w n (status_code st)" "n + 1 < 2 ^ 60"
  shows "packed (status_run s w) (if s = Fetch_Add then n + 1 else n) (status_code (status_next s st))"
  using packed_add_1 [OF assms] packed_marks [OF assms(1)] by (cases s; cases st) simp_all

lemma status_fold_packed:
  assumes "packed w n (status_code st)" "n + length ss < 2 ^ 60"
  shows "packed (fold status_run ss w) (n + length (filter (\<lambda>s. s = Fetch_Add) ss)) (status_code (fold status_next ss st))"
  using assms
proof (induction ss arbitrary: w n st)
  case (Cons s ss)
  have "packed (status_run s w) (if s = Fetch_Add then n + 1 else n) (status_code (status_next s st))"
    by (rule status_run_packed [OF Cons.prems(1)]) (use Cons.prems(2) in simp)
  from Cons.IH [OF this] Cons.prems(2) show ?case by (cases "s = Fetch_Add") simp_all
qed simp

text \<open>C33: The 64-bit word of senders and close status, through any history of fewer than \<open>2 ^ 60\<close> sends, closings and cancellations: the
  counter is exactly the number of sends, never disturbed by a change of the status, and the status, read with a signed shift, is
  the one the documented diagram of statuses has reached, from which \<open>CANCELLED\<close> is never left.\<close>

theorem close_status_word:
  assumes "length ss < 2 ^ 60"
  shows "senders_counter (fold status_run ss 0) = length (filter (\<lambda>s. s = Fetch_Add) ss) \<and>
    senders_close_status (fold status_run ss 0) = int (status_code (fold status_next ss ACTIVE)) \<and>
    fold status_next ss CANCELLED = CANCELLED"
proof -
  have "fold status_next ss CANCELLED = CANCELLED"
  proof (induction ss)
    case (Cons s ss)
    then show ?case by (cases s) simp_all
  qed simp
  moreover have "packed 0 0 (status_code ACTIVE)" using packed_0 by simp
  from status_fold_packed [OF this, of ss] have
    "packed (fold status_run ss 0) (length (filter (\<lambda>s. s = Fetch_Add) ss)) (status_code (fold status_next ss ACTIVE))"
    using assms by simp
  ultimately show ?thesis using packed_counter packed_status by blast
qed

theorem close_status_word_witness:
  "senders_counter (fold status_run [Fetch_Add, Mark_Cancellation_Started, Fetch_Add, Mark_Closed, Fetch_Add] 0) = 3 \<and>
    senders_close_status (fold status_run [Fetch_Add, Mark_Cancellation_Started, Fetch_Add, Mark_Closed, Fetch_Add] 0) = 3"
  using close_status_word [of "[Fetch_Add, Mark_Cancellation_Started, Fetch_Add, Mark_Closed, Fetch_Add]"] by simp

end
