(* ===== verification/Buffered_Channel.thy ===== *)
theory Buffered_Channel
  imports Segment_List Channel_State
begin

text \<open>
  \<open>channels/BufferedChannel.hpp\<close>: the channel as an array of cells with counters of sends,
  receives and of the end of the buffer. Every operation runs without interleaving, so a
  compare-and-set on a value just read succeeds, and a loop that waits for another thread is
  \<open>Spins\<close>. The cell \<open>i\<close> of the segment \<open>g\<close> is the cell \<open>g * 32 + i\<close>; which segment an operation
  gets is the business of the linked list, as in the code. Elements, callbacks and continuations
  are parameters: an element has type \<open>'e\<close>, a suspended sender is known by a number.
\<close>

subsection \<open>State\<close>

abbreviation (input) SEGMENT_SIZE :: nat where "SEGMENT_SIZE \<equiv> 32"

abbreviation (input) CHANNEL_UNLIMITED :: nat where "CHANNEL_UNLIMITED \<equiv> 2147483647"
abbreviation (input) BUFFER_END_UNLIMITED :: nat where "BUFFER_END_UNLIMITED \<equiv> 2 ^ 63 - 1"

text \<open>
  The waiters a cell of this channel can hold: the continuation of \<open>send\<close> or a \<open>SendBroadcast\<close>.
  Receivers never suspend: \<open>receive\<close> and the iterator use \<open>try_receive\<close>.
\<close>

datatype chan_waiter = Send_Cont nat | Send_Broadcast nat

fun waiter_id :: "chan_waiter \<Rightarrow> nat" where
  "waiter_id (Send_Cont t) = t"
| "waiter_id (Send_Broadcast t) = t"

datatype chan_cell = Cell_Null | BUFFERED | IN_BUFFER | RESUMING_BY_RCV | RESUMING_BY_EB | POISONED | DONE_RCV
  | INTERRUPTED_SEND | INTERRUPTED_RCV | CHANNEL_CLOSED | Waiting chan_waiter | Waiter_EB chan_waiter

text \<open>A waiter that is not completed can be resumed or cancelled once.\<close>

datatype chan_waiter_state = No_Waiter | Suspended | Resumed | Cancelled

datatype handler_ref = No_Handler | Handler nat | CLOSE_HANDLER_CLOSED | CLOSE_HANDLER_INVOKED

datatype 'e chan_event =
    Undelivered 'e
  | Sender_Resumed nat
  | Sender_Failed nat exception_ptr
  | Broadcast_Refused nat
  | Handler_Called nat "exception_ptr option"

record 'e chan =
  capacity :: nat
  drop_oldest :: bool
  on_undelivered :: "('e \<Rightarrow> exception_ptr option) option"
  senders_and_close_status :: "64 word"
  receivers :: nat
  buffer_end :: nat
  completed_expand_buffers :: "64 word"
  segs :: seg_list
  send_segment :: nat
  receive_segment :: nat
  buffer_end_segment :: "nat option"
  cells :: "nat \<Rightarrow> chan_cell"
  elems :: "nat \<Rightarrow> 'e option"
  close_cause_ref :: "exception_ptr option option"
  close_handler :: handler_ref
  waiters :: "nat \<Rightarrow> chan_waiter_state"
  waiter_cell :: "nat \<Rightarrow> nat"
  chan_log :: "'e chan_event list"

definition initial_buffer_end :: "nat \<Rightarrow> nat" where
  "initial_buffer_end n = (if n = 0 then 0 else if n = CHANNEL_UNLIMITED then BUFFER_END_UNLIMITED else n)"

definition first_segment :: seg_list where
  "first_segment = new_segment 0 None 3 \<lparr>slots = 32, next_ref = \<lambda>_. Link_Null, prev_ref = \<lambda>_. None, cleaned_and_pointers = \<lambda>_. 0\<rparr>"

definition new_chan :: "nat \<Rightarrow> ('e \<Rightarrow> exception_ptr option) option \<Rightarrow> 'e chan" where
  "new_chan c undelivered = \<lparr>capacity = c, drop_oldest = False, on_undelivered = undelivered, senders_and_close_status = 0, receivers = 0,
     buffer_end = initial_buffer_end c, completed_expand_buffers = of_nat (initial_buffer_end c), segs = first_segment,
     send_segment = 0, receive_segment = 0,
     buffer_end_segment = (if initial_buffer_end c = 0 \<or> initial_buffer_end c = BUFFER_END_UNLIMITED then None else Some 0),
     cells = \<lambda>_. Cell_Null, elems = \<lambda>_. None, close_cause_ref = None, close_handler = No_Handler, waiters = \<lambda>_. No_Waiter,
     waiter_cell = \<lambda>_. 0, chan_log = []\<rparr>"

definition create_buffered_channel :: "int \<Rightarrow> ('e \<Rightarrow> exception_ptr option) option \<Rightarrow> 'e chan res" where
  "create_buffered_channel c undelivered =
     (if c < 0 then Inl (Invalid_Argument ''Invalid channel capacity'') else Inr (new_chan (nat c) undelivered))"

definition senders :: "'e chan \<Rightarrow> nat" where
  "senders c = senders_counter (senders_and_close_status c)"

definition is_rendezvous_or_unlimited :: "'e chan \<Rightarrow> bool" where
  "is_rendezvous_or_unlimited c \<longleftrightarrow> buffer_end c = 0 \<or> buffer_end c = BUFFER_END_UNLIMITED"

definition close_cause :: "'e chan \<Rightarrow> exception_ptr option" where
  "close_cause c = (case close_cause_ref c of None \<Rightarrow> None | Some e \<Rightarrow> e)"

text \<open>The exception built when there is no cause; nothing compares its identity.\<close>

definition closed_exception :: exception_ptr where
  "closed_exception = Exc 0 OrdinaryException ''Channel was closed''"

definition send_exception :: "'e chan \<Rightarrow> exception_ptr" where
  "send_exception c = (case close_cause c of Some e \<Rightarrow> e | None \<Rightarrow> closed_exception)"

subsection \<open>Cells\<close>

definition set_chan_cell :: "nat \<Rightarrow> chan_cell \<Rightarrow> 'e chan \<Rightarrow> 'e chan" where
  "set_chan_cell x v c = c\<lparr>cells := (cells c)(x := v)\<rparr>"

definition store_element :: "nat \<Rightarrow> 'e \<Rightarrow> 'e chan \<Rightarrow> 'e chan" where
  "store_element x e c = c\<lparr>elems := (elems c)(x := Some e)\<rparr>"

definition clean_element :: "nat \<Rightarrow> 'e chan \<Rightarrow> 'e chan" where
  "clean_element x c = c\<lparr>elems := (elems c)(x := None)\<rparr>"

definition set_waiter :: "nat \<Rightarrow> chan_waiter_state \<Rightarrow> 'e chan \<Rightarrow> 'e chan" where
  "set_waiter t w c = c\<lparr>waiters := (waiters c)(t := w)\<rparr>"

definition log_event :: "'e chan_event \<Rightarrow> 'e chan \<Rightarrow> 'e chan" where
  "log_event v c = c\<lparr>chan_log := chan_log c @ [v]\<rparr>"

text \<open>An element that is not there is default constructed.\<close>

definition get_element :: "'e \<Rightarrow> nat \<Rightarrow> 'e chan \<Rightarrow> 'e" where
  "get_element dflt x c = (case elems c x of None \<Rightarrow> dflt | Some e \<Rightarrow> e)"

text \<open>An operation of the linked list, run on the segments of the channel.\<close>

definition seg_op :: "(seg_list, 'a) lexec \<Rightarrow> ('e chan, 'a) lexec" where
  "seg_op m c = Option.bind (m (segs c)) (\<lambda>(r, s). Some (r, c\<lparr>segs := s\<rparr>))"

definition chan_clean_prev :: "nat \<Rightarrow> ('e chan, unit) lexec" where
  "chan_clean_prev g = modify_l (\<lambda>c. c\<lparr>segs := clean_prev g (segs c)\<rparr>)"

subsection \<open>Segments of the channel\<close>

text \<open>
  The lookups of this class only compare ids: unlike \<open>find_segment_internal\<close> they do not skip
  removed segments, and they move the references of the channel without counting pointers.
\<close>

partial_function (option) walk_to :: "nat option \<Rightarrow> nat \<Rightarrow> (seg_list, nat option) lexec" where
  "walk_to cur i s = (case cur of
       None \<Rightarrow> Some (Inr None, s)
     | Some g \<Rightarrow>
         if \<not> g < i then Some (Inr (Some g), s)
         else case next_seg s g of
             Some h \<Rightarrow> walk_to (Some h) i s
           | None \<Rightarrow> (case try_set_next g (g + 1) (new_segment (g + 1) (Some g) 0 s) of
                 (ok, s1) \<Rightarrow> if ok then walk_to (Some (g + 1)) i s1 else walk_to (next_seg s g) i s))"

definition find_segment_send :: "nat \<Rightarrow> nat \<Rightarrow> ('e chan, nat option) lexec" where
  "find_segment_send i start = bind_l (seg_op (walk_to (Some start) i)) (\<lambda>r. case r of
       None \<Rightarrow> return_l None
     | Some g \<Rightarrow> seq_l (modify_l (\<lambda>c. c\<lparr>send_segment := max (send_segment c) g\<rparr>)) (return_l (Some g)))"

definition find_segment_receive :: "nat \<Rightarrow> nat \<Rightarrow> ('e chan, nat option) lexec" where
  "find_segment_receive i start = bind_l (seg_op (walk_to (Some start) i)) (\<lambda>r. case r of
       None \<Rightarrow> return_l None
     | Some g \<Rightarrow> seq_l (modify_l (\<lambda>c. c\<lparr>receive_segment := max (receive_segment c) g\<rparr>)) (return_l (Some g)))"

definition max_ref :: "nat option \<Rightarrow> nat \<Rightarrow> nat option" where
  "max_ref r g = Some (case r of None \<Rightarrow> g | Some h \<Rightarrow> max h g)"

definition find_segment_buffer_end :: "nat \<Rightarrow> nat \<Rightarrow> ('e chan, nat option) lexec" where
  "find_segment_buffer_end i start = bind_l (seg_op (walk_to (Some start) i)) (\<lambda>r. case r of
       None \<Rightarrow> return_l None
     | Some g \<Rightarrow> seq_l (modify_l (\<lambda>c. c\<lparr>buffer_end_segment := max_ref (buffer_end_segment c) g\<rparr>)) (return_l (Some g)))"

partial_function (option) walk_existing :: "nat \<Rightarrow> nat \<Rightarrow> seg_list \<Rightarrow> nat option" where
  "walk_existing g i s = (if \<not> g < i then Some g
     else case next_seg s g of None \<Rightarrow> Some g | Some h \<Rightarrow> walk_existing h i s)"

partial_function (option) skip_removed :: "nat \<Rightarrow> seg_list \<Rightarrow> nat option" where
  "skip_removed g s = (if is_removed s g
     then case next_seg s g of None \<Rightarrow> Some g | Some h \<Rightarrow> skip_removed h s
     else Some g)"

definition move_segment_buffer_end_to_specified_or_last :: "nat \<Rightarrow> nat \<Rightarrow> ('e chan, unit) lexec" where
  "move_segment_buffer_end_to_specified_or_last i start c =
     Option.bind (walk_existing start i (segs c)) (\<lambda>g. Option.bind (skip_removed g (segs c)) (\<lambda>h.
       Some (Inr (), c\<lparr>buffer_end_segment := max_ref (buffer_end_segment c) h\<rparr>)))"

subsection \<open>Expanding the buffer\<close>

definition inc_completed_expand_buffer_attempts :: "('e chan, unit) lexec" where
  "inc_completed_expand_buffer_attempts c =
     (let c' = c\<lparr>completed_expand_buffers := completed_expand_buffers c + 1\<rparr>
      in if eb_pause_expand_buffers (completed_expand_buffers c') then Some (Inl Spins, c') else Some (Inr (), c'))"

text \<open>
  Without another thread the counters do not change: the bounded wait either sees them equal at once
  or ends with the pause flag set, after which the operation waits for ever.
\<close>

definition wait_expand_buffer_completion :: "nat \<Rightarrow> ('e chan, unit) lexec" where
  "wait_expand_buffer_completion x c =
     (if is_rendezvous_or_unlimited c then Some (Inr (), c)
      else if buffer_end c \<le> x then Some (Inl Spins, c)
      else if buffer_end c = eb_completed_counter (completed_expand_buffers c) then Some (Inr (), c)
      else Some (Inl Spins, c\<lparr>completed_expand_buffers :=
        construct_eb_completed_and_pause_flag (eb_completed_counter (completed_expand_buffers c)) True\<rparr>))"

definition on_cancelled_request :: "nat \<Rightarrow> nat \<Rightarrow> bool \<Rightarrow> ('e chan, unit) lexec" where
  "on_cancelled_request g i receiver =
     seq_l (if receiver then wait_expand_buffer_completion (g * SEGMENT_SIZE + i) else return_l ()) (seg_op (on_slot_cleaned g))"

definition try_resume_sender :: "chan_waiter \<Rightarrow> ('e chan, bool) lexec" where
  "try_resume_sender w c =
     (if waiters c (waiter_id w) = Suspended
      then Some (Inr True, log_event (Sender_Resumed (waiter_id w)) (set_waiter (waiter_id w) Resumed c))
      else Some (Inr False, c))"

text \<open>
  A sender in the cell is resumed; a cell whose pointer is a \<open>WaiterEB\<close> would be read as a waiter,
  which is undefined.
\<close>

definition resume_cell_for_buffer :: "nat \<Rightarrow> nat \<Rightarrow> chan_waiter \<Rightarrow> ('e chan, bool) lexec" where
  "resume_cell_for_buffer g i w =
     (let x = g * SEGMENT_SIZE + i
      in seq_l (modify_l (set_chan_cell x RESUMING_BY_EB))
        (bind_l (try_resume_sender w) (\<lambda>resumed.
          if resumed then seq_l (modify_l (set_chan_cell x BUFFERED)) (return_l True)
          else seq_l (modify_l (set_chan_cell x INTERRUPTED_SEND)) (seq_l (on_cancelled_request g i False) (return_l False)))))"

definition update_cell_expand_buffer_slow :: "nat \<Rightarrow> nat \<Rightarrow> nat \<Rightarrow> ('e chan, bool) lexec" where
  "update_cell_expand_buffer_slow g i b = read_l (\<lambda>c.
     let x = g * SEGMENT_SIZE + i
     in case cells c x of
         Waiting w \<Rightarrow> if b < receivers c then seq_l (modify_l (set_chan_cell x (Waiter_EB w))) (return_l True)
           else resume_cell_for_buffer g i w
       | Waiter_EB w \<Rightarrow> throw_l Undefined_Behaviour
       | INTERRUPTED_SEND \<Rightarrow> return_l False
       | Cell_Null \<Rightarrow> seq_l (modify_l (set_chan_cell x IN_BUFFER)) (return_l True)
       | BUFFERED \<Rightarrow> return_l True
       | POISONED \<Rightarrow> return_l True
       | DONE_RCV \<Rightarrow> return_l True
       | INTERRUPTED_RCV \<Rightarrow> return_l True
       | CHANNEL_CLOSED \<Rightarrow> return_l True
       | _ \<Rightarrow> throw_l Spins)"

definition update_cell_expand_buffer :: "nat \<Rightarrow> nat \<Rightarrow> nat \<Rightarrow> ('e chan, bool) lexec" where
  "update_cell_expand_buffer g i b = read_l (\<lambda>c.
     case cells c (g * SEGMENT_SIZE + i) of
         Waiting w \<Rightarrow> if receivers c \<le> b then resume_cell_for_buffer g i w else update_cell_expand_buffer_slow g i b
       | Waiter_EB w \<Rightarrow> if receivers c \<le> b then throw_l Undefined_Behaviour else update_cell_expand_buffer_slow g i b
       | _ \<Rightarrow> update_cell_expand_buffer_slow g i b)"

text \<open>The loop variable \<open>segment\<close> is a pointer; using it when it is null is undefined.\<close>

partial_function (option) expand_loop :: "nat option \<Rightarrow> ('e chan, unit) lexec" where
  "expand_loop seg c0 =
     (let b = buffer_end c0; c = c0\<lparr>buffer_end := b + 1\<rparr>; i = b div SEGMENT_SIZE
      in case seg of
          None \<Rightarrow> Some (Inl Undefined_Behaviour, c)
        | Some g \<Rightarrow>
            if senders c \<le> b then
              seq_l (if g < i \<and> next_seg (segs c) g \<noteq> None then move_segment_buffer_end_to_specified_or_last i g else return_l ())
                inc_completed_expand_buffer_attempts c
            else bind_l (if g \<noteq> i then find_segment_buffer_end i g else return_l (Some g)) (\<lambda>seg'. case seg' of
                None \<Rightarrow> expand_loop None
              | Some h \<Rightarrow> bind_l (update_cell_expand_buffer h (b mod SEGMENT_SIZE) b) (\<lambda>ok.
                  seq_l inc_completed_expand_buffer_attempts (if ok then return_l () else expand_loop (Some h)))) c)"

definition expand_buffer :: "('e chan, unit) lexec" where
  "expand_buffer c = (if is_rendezvous_or_unlimited c then Some (Inr (), c) else expand_loop (buffer_end_segment c) c)"

subsection \<open>Receiving from a cell\<close>

datatype 'e receive_outcome = R_Suspend | R_Suspend_No_Waiter | R_Failed | R_Element 'e

definition take_element :: "'e \<Rightarrow> nat \<Rightarrow> ('e chan, 'e receive_outcome) lexec" where
  "take_element dflt x = read_l (\<lambda>c. seq_l (modify_l (clean_element x)) (return_l (R_Element (get_element dflt x c))))"

definition receive_buffered :: "'e \<Rightarrow> nat \<Rightarrow> ('e chan, 'e receive_outcome) lexec" where
  "receive_buffered dflt x = seq_l (modify_l (set_chan_cell x DONE_RCV)) (seq_l expand_buffer (take_element dflt x))"

text \<open>
  The last branch takes the pointer in the cell for a \<open>WaiterEB\<close>: the \<open>dynamic_cast\<close> to the type
  the pointer already has never gives null. When it points to anything else its field is read from
  another object.
\<close>

definition update_cell_receive_slow :: "'e \<Rightarrow> nat \<Rightarrow> nat \<Rightarrow> nat \<Rightarrow> chan_cell option \<Rightarrow> ('e chan, 'e receive_outcome) lexec" where
  "update_cell_receive_slow dflt g i r waiter = read_l (\<lambda>c.
     let x = g * SEGMENT_SIZE + i;
         empty = (if r < senders c then seq_l (modify_l (set_chan_cell x POISONED)) (seq_l expand_buffer (return_l R_Failed))
           else case waiter of None \<Rightarrow> return_l R_Suspend_No_Waiter
             | Some w \<Rightarrow> seq_l (modify_l (set_chan_cell x w)) (seq_l expand_buffer (return_l R_Suspend)))
     in case cells c x of
         Cell_Null \<Rightarrow> empty
       | IN_BUFFER \<Rightarrow> empty
       | BUFFERED \<Rightarrow> receive_buffered dflt x
       | INTERRUPTED_SEND \<Rightarrow> return_l R_Failed
       | POISONED \<Rightarrow> return_l R_Failed
       | CHANNEL_CLOSED \<Rightarrow> seq_l expand_buffer (return_l R_Failed)
       | RESUMING_BY_EB \<Rightarrow> throw_l Spins
       | Waiter_EB w \<Rightarrow> seq_l (modify_l (set_chan_cell x RESUMING_BY_RCV)) (bind_l (try_resume_sender w) (\<lambda>resumed.
           if resumed then seq_l (modify_l (set_chan_cell x DONE_RCV)) (seq_l expand_buffer (take_element dflt x))
           else seq_l (modify_l (set_chan_cell x INTERRUPTED_SEND))
             (seq_l (on_cancelled_request g i False) (seq_l expand_buffer (return_l R_Failed)))))
       | _ \<Rightarrow> seq_l (modify_l (set_chan_cell x RESUMING_BY_RCV)) (throw_l Undefined_Behaviour))"

definition update_cell_receive :: "'e \<Rightarrow> nat \<Rightarrow> nat \<Rightarrow> nat \<Rightarrow> chan_cell option \<Rightarrow> ('e chan, 'e receive_outcome) lexec" where
  "update_cell_receive dflt g i r waiter = read_l (\<lambda>c.
     let x = g * SEGMENT_SIZE + i
     in if cells c x = Cell_Null \<and> senders c \<le> r then
          (case waiter of None \<Rightarrow> return_l R_Suspend_No_Waiter
           | Some w \<Rightarrow> seq_l (modify_l (set_chan_cell x w)) (seq_l expand_buffer (return_l R_Suspend)))
        else if cells c x = BUFFERED then receive_buffered dflt x
        else update_cell_receive_slow dflt g i r waiter)"

subsection \<open>Closing\<close>

text \<open>
  A callback for an undelivered element may throw; the first exception is kept. \<open>null_ex\<close> is the
  null exception pointer.
\<close>

definition call_undelivered_element_catching_exception :: "'e \<Rightarrow> exception_ptr option \<Rightarrow> ('e chan, exception_ptr option) lexec" where
  "call_undelivered_element_catching_exception e ex = read_l (\<lambda>c. case on_undelivered c of
       None \<Rightarrow> return_l ex
     | Some f \<Rightarrow> seq_l (modify_l (log_event (Undelivered e)))
         (return_l (case f e of None \<Rightarrow> ex | Some x \<Rightarrow> (case ex of None \<Rightarrow> Some x | Some y \<Rightarrow> Some y))))"

text \<open>The callback where nothing catches its exception.\<close>

definition call_undelivered_element :: "'e \<Rightarrow> ('e chan, unit) lexec" where
  "call_undelivered_element e = read_l (\<lambda>c. case on_undelivered c of
       None \<Rightarrow> return_l ()
     | Some f \<Rightarrow> seq_l (modify_l (log_event (Undelivered e)))
         (case f e of None \<Rightarrow> return_l () | Some x \<Rightarrow> throw_l (Rethrown x)))"

definition close_linked_list :: "('e chan, nat) lexec" where
  "close_linked_list c =
     (let g1 = (case buffer_end_segment c of None \<Rightarrow> send_segment c | Some g \<Rightarrow> if g < send_segment c then send_segment c else g);
          g2 = (if g1 < receive_segment c then receive_segment c else g1)
      in Option.bind (close_list g2 (segs c)) (\<lambda>(g, s). Some (Inr g, c\<lparr>segs := s\<rparr>)))"

text \<open>Loops over the cells of a segment from the last to the first: \<open>i\<close> cells are left.\<close>

primrec mark_cells_closed :: "nat \<Rightarrow> nat \<Rightarrow> ('e chan, int option) lexec" where
  "mark_cells_closed g 0 = return_l None"
| "mark_cells_closed g (Suc i) = read_l (\<lambda>c.
     let x = g * SEGMENT_SIZE + i
     in if x < receivers c then return_l (Some (- 1))
        else case cells c x of
            Cell_Null \<Rightarrow> seq_l (modify_l (set_chan_cell x CHANNEL_CLOSED)) (seq_l (seg_op (on_slot_cleaned g)) (mark_cells_closed g i))
          | IN_BUFFER \<Rightarrow> seq_l (modify_l (set_chan_cell x CHANNEL_CLOSED)) (seq_l (seg_op (on_slot_cleaned g)) (mark_cells_closed g i))
          | BUFFERED \<Rightarrow> return_l (Some (int x))
          | _ \<Rightarrow> mark_cells_closed g i)"

partial_function (option) mark_all_empty_cells_as_closed :: "nat \<Rightarrow> ('e chan, int) lexec" where
  "mark_all_empty_cells_as_closed g c = bind_l (mark_cells_closed g SEGMENT_SIZE) (\<lambda>r. case r of
       Some v \<Rightarrow> return_l v
     | None \<Rightarrow> read_l (\<lambda>c. case prev_ref (segs c) g of None \<Rightarrow> return_l (- 1) | Some p \<Rightarrow> mark_all_empty_cells_as_closed p)) c"

partial_function (option) drop_first_element_until :: "'e \<Rightarrow> int \<Rightarrow> nat \<Rightarrow> ('e chan, unit) lexec" where
  "drop_first_element_until dflt x g c0 =
     (if \<not> drop_oldest c0 then Some (Inl Assertion_Failed, c0)
      else if x < int (max (receivers c0 + capacity c0) (buffer_end c0)) then Some (Inr (), c0)
      else let r = receivers c0; c = c0\<lparr>receivers := r + 1\<rparr>; i = r div SEGMENT_SIZE
        in bind_l (if g \<noteq> i then find_segment_receive i g else return_l (Some g)) (\<lambda>found. case found of
            None \<Rightarrow> drop_first_element_until dflt x g
          | Some h \<Rightarrow> bind_l (update_cell_receive dflt h (r mod SEGMENT_SIZE) r None) (\<lambda>v. case v of
                R_Failed \<Rightarrow> seq_l (read_l (\<lambda>c. if r < senders c then chan_clean_prev h else return_l ())) (drop_first_element_until dflt x h)
              | R_Element e \<Rightarrow> seq_l (chan_clean_prev h) (bind_l (call_undelivered_element_catching_exception e None) (\<lambda>ex.
                  case ex of Some y \<Rightarrow> throw_l (Rethrown y) | None \<Rightarrow> drop_first_element_until dflt x h))
              | _ \<Rightarrow> seq_l (chan_clean_prev h) (read_l (\<lambda>c. if on_undelivered c = None then drop_first_element_until dflt x h
                  else throw_l Undefined_Behaviour)))) c)"

text \<open>
  A closed channel resumes its waiters. The continuation of \<open>send\<close> is a
  \<open>CancellableContinuationImpl<void>\<close>, which none of the casts of this function accepts.
\<close>

definition resume_waiter_on_closed_channel :: "chan_waiter \<Rightarrow> ('e chan, unit) lexec" where
  "resume_waiter_on_closed_channel w = (case w of
       Send_Broadcast t \<Rightarrow> modify_l (\<lambda>c. log_event (Broadcast_Refused t) (set_waiter t Resumed c))
     | Send_Cont t \<Rightarrow> throw_l (Runtime_Error ''Unexpected waiter type in resumeWaiterOnClosedChannel''))"

primrec resume_waiters :: "chan_waiter list \<Rightarrow> ('e chan, unit) lexec" where
  "resume_waiters [] = return_l ()"
| "resume_waiters (w # ws) = seq_l (resume_waiter_on_closed_channel w) (resume_waiters ws)"

text \<open>The result of a pass over a segment: whether to stop, and the waiters found, the last one first.\<close>

primrec cancel_receive_cells :: "nat \<Rightarrow> nat \<Rightarrow> nat \<Rightarrow> chan_waiter list \<Rightarrow> ('e chan, bool \<times> chan_waiter list) lexec" where
  "cancel_receive_cells g n 0 ws = return_l (False, ws)"
| "cancel_receive_cells g n (Suc i) ws = read_l (\<lambda>c.
     let x = g * SEGMENT_SIZE + i
     in if x < n then return_l (True, ws)
        else case cells c x of
            Cell_Null \<Rightarrow> seq_l (modify_l (set_chan_cell x CHANNEL_CLOSED)) (seq_l (seg_op (on_slot_cleaned g)) (cancel_receive_cells g n i ws))
          | IN_BUFFER \<Rightarrow> seq_l (modify_l (set_chan_cell x CHANNEL_CLOSED)) (seq_l (seg_op (on_slot_cleaned g)) (cancel_receive_cells g n i ws))
          | Waiting w \<Rightarrow> seq_l (modify_l (set_chan_cell x CHANNEL_CLOSED)) (seq_l (on_cancelled_request g i True) (cancel_receive_cells g n i (w # ws)))
          | Waiter_EB w \<Rightarrow> seq_l (modify_l (set_chan_cell x CHANNEL_CLOSED)) (seq_l (on_cancelled_request g i True) (cancel_receive_cells g n i (w # ws)))
          | POISONED \<Rightarrow> throw_l Undefined_Behaviour
          | _ \<Rightarrow> cancel_receive_cells g n i ws)"

partial_function (option) cancel_receive_segments :: "nat \<Rightarrow> nat \<Rightarrow> chan_waiter list \<Rightarrow> ('e chan, chan_waiter list) lexec" where
  "cancel_receive_segments g n ws c = bind_l (cancel_receive_cells g n SEGMENT_SIZE ws) (\<lambda>r.
     if fst r then return_l (snd r)
     else read_l (\<lambda>c. case prev_ref (segs c) g of None \<Rightarrow> return_l (snd r) | Some p \<Rightarrow> cancel_receive_segments p n (snd r))) c"

definition cancel_suspended_receive_requests :: "nat \<Rightarrow> nat \<Rightarrow> ('e chan, unit) lexec" where
  "cancel_suspended_receive_requests last_segment n = bind_l (cancel_receive_segments last_segment n []) resume_waiters"

primrec remove_cells :: "'e \<Rightarrow> nat \<Rightarrow> nat \<Rightarrow> exception_ptr option \<Rightarrow> chan_waiter list
    \<Rightarrow> ('e chan, bool \<times> exception_ptr option \<times> chan_waiter list) lexec" where
  "remove_cells dflt g 0 ex ws = return_l (False, ex, ws)"
| "remove_cells dflt g (Suc i) ex ws = read_l (\<lambda>c.
     let x = g * SEGMENT_SIZE + i;
         undeliver = (\<lambda>ws. seq_l (modify_l (set_chan_cell x CHANNEL_CLOSED))
           (bind_l (if on_undelivered c = None then return_l ex else call_undelivered_element_catching_exception (get_element dflt x c) ex) (\<lambda>ex'.
             seq_l (modify_l (clean_element x)) (seq_l (seg_op (on_slot_cleaned g)) (remove_cells dflt g i ex' ws)))))
     in case cells c x of
         DONE_RCV \<Rightarrow> return_l (True, ex, ws)
       | BUFFERED \<Rightarrow> if x < receivers c then return_l (True, ex, ws) else undeliver ws
       | IN_BUFFER \<Rightarrow> seq_l (modify_l (set_chan_cell x CHANNEL_CLOSED)) (seq_l (seg_op (on_slot_cleaned g)) (remove_cells dflt g i ex ws))
       | Cell_Null \<Rightarrow> seq_l (modify_l (set_chan_cell x CHANNEL_CLOSED)) (seq_l (seg_op (on_slot_cleaned g)) (remove_cells dflt g i ex ws))
       | Waiting w \<Rightarrow> if x < receivers c then return_l (True, ex, ws) else undeliver (w # ws)
       | Waiter_EB w \<Rightarrow> if x < receivers c then return_l (True, ex, ws) else undeliver (w # ws)
       | RESUMING_BY_EB \<Rightarrow> return_l (True, ex, ws)
       | RESUMING_BY_RCV \<Rightarrow> return_l (True, ex, ws)
       | POISONED \<Rightarrow> throw_l Undefined_Behaviour
       | _ \<Rightarrow> remove_cells dflt g i ex ws)"

text \<open>
  The flag \<open>process_segments_done\<close> ends the inner loop at once; the outer loop still steps to the
  previous segment and ends when it tests the flag there, so the step has no effect.
\<close>

partial_function (option) remove_segments :: "'e \<Rightarrow> nat \<Rightarrow> exception_ptr option \<Rightarrow> chan_waiter list
    \<Rightarrow> ('e chan, exception_ptr option \<times> chan_waiter list) lexec" where
  "remove_segments dflt g ex ws c = bind_l (remove_cells dflt g SEGMENT_SIZE ex ws) (\<lambda>r.
     if fst r then return_l (snd r)
     else read_l (\<lambda>c. case prev_ref (segs c) g of None \<Rightarrow> return_l (snd r)
       | Some p \<Rightarrow> remove_segments dflt p (fst (snd r)) (snd (snd r)))) c"

definition remove_unprocessed_elements :: "'e \<Rightarrow> nat \<Rightarrow> ('e chan, unit) lexec" where
  "remove_unprocessed_elements dflt last_segment = bind_l (remove_segments dflt last_segment None []) (\<lambda>r.
     seq_l (resume_waiters (snd r)) (case fst r of None \<Rightarrow> return_l () | Some e \<Rightarrow> throw_l (Rethrown e)))"

definition complete_close :: "'e \<Rightarrow> nat \<Rightarrow> ('e chan, nat) lexec" where
  "complete_close dflt n = bind_l close_linked_list (\<lambda>last_segment.
     seq_l (read_l (\<lambda>c. if drop_oldest c
         then bind_l (mark_all_empty_cells_as_closed last_segment) (\<lambda>x.
           if x \<noteq> - 1 then read_l (\<lambda>c. drop_first_element_until dflt x (receive_segment c)) else return_l ())
         else return_l ()))
       (seq_l (cancel_suspended_receive_requests last_segment n) (return_l last_segment)))"

definition complete_cancel :: "'e \<Rightarrow> nat \<Rightarrow> ('e chan, unit) lexec" where
  "complete_cancel dflt n = bind_l (complete_close dflt n) (remove_unprocessed_elements dflt)"

definition is_cell_non_empty :: "nat \<Rightarrow> nat \<Rightarrow> nat \<Rightarrow> ('e chan, bool) lexec" where
  "is_cell_non_empty g i r = read_l (\<lambda>c.
     let x = g * SEGMENT_SIZE + i
     in case cells c x of
         Cell_Null \<Rightarrow> seq_l (modify_l (set_chan_cell x POISONED)) (seq_l expand_buffer (return_l False))
       | IN_BUFFER \<Rightarrow> seq_l (modify_l (set_chan_cell x POISONED)) (seq_l expand_buffer (return_l False))
       | BUFFERED \<Rightarrow> return_l True
       | INTERRUPTED_SEND \<Rightarrow> return_l False
       | CHANNEL_CLOSED \<Rightarrow> return_l False
       | DONE_RCV \<Rightarrow> return_l False
       | POISONED \<Rightarrow> return_l False
       | RESUMING_BY_EB \<Rightarrow> return_l True
       | RESUMING_BY_RCV \<Rightarrow> return_l False
       | _ \<Rightarrow> return_l (r = receivers c))"

text \<open>Not finding a segment leaves everything as it was, so that loop never ends.\<close>

partial_function (option) has_elements :: "('e chan, bool) lexec" where
  "has_elements c =
     (let r = receivers c; i = r div SEGMENT_SIZE
      in if senders c \<le> r then Some (Inr False, c)
         else bind_l (if receive_segment c \<noteq> i then find_segment_receive i (receive_segment c) else return_l (Some (receive_segment c)))
           (\<lambda>seg. case seg of
               None \<Rightarrow> read_l (\<lambda>c. if receive_segment c < i then return_l False else has_elements)
             | Some g \<Rightarrow> seq_l (chan_clean_prev g) (bind_l (is_cell_non_empty g (r mod SEGMENT_SIZE) r) (\<lambda>b.
                 if b then return_l True
                 else seq_l (modify_l (\<lambda>c. if receivers c = r then c\<lparr>receivers := r + 1\<rparr> else c)) has_elements))) c)"

definition is_closed :: "'e \<Rightarrow> 64 word \<Rightarrow> bool \<Rightarrow> ('e chan, bool) lexec" where
  "is_closed dflt w for_receive =
     (if senders_close_status w = int CLOSE_STATUS_ACTIVE \<or> senders_close_status w = int CLOSE_STATUS_CANCELLATION_STARTED then return_l False
      else if senders_close_status w = int CLOSE_STATUS_CLOSED then
        bind_l (complete_close dflt (senders_counter w)) (\<lambda>_.
          if for_receive then bind_l has_elements (\<lambda>b. return_l (\<not> b)) else return_l True)
      else if senders_close_status w = int CLOSE_STATUS_CANCELLED then
        seq_l (complete_cancel dflt (senders_counter w)) (return_l True)
      else throw_l Assertion_Failed)"

definition is_closed_for_send :: "'e \<Rightarrow> ('e chan, bool) lexec" where
  "is_closed_for_send dflt = read_l (\<lambda>c. is_closed dflt (senders_and_close_status c) False)"

definition is_closed_for_receive :: "'e \<Rightarrow> ('e chan, bool) lexec" where
  "is_closed_for_receive dflt = read_l (\<lambda>c. is_closed dflt (senders_and_close_status c) True)"

definition complete_close_or_cancel :: "'e \<Rightarrow> ('e chan, unit) lexec" where
  "complete_close_or_cancel dflt = bind_l (is_closed_for_send dflt) (\<lambda>_. return_l ())"

definition channel_is_empty :: "'e \<Rightarrow> ('e chan, bool) lexec" where
  "channel_is_empty dflt = bind_l (is_closed_for_receive dflt) (\<lambda>b. if b then return_l False
     else bind_l has_elements (\<lambda>b. if b then return_l False
       else bind_l (is_closed_for_receive dflt) (\<lambda>b. return_l (\<not> b))))"

text \<open>The handler of \<open>close\<close> is called by whoever comes second.\<close>

definition invoke_close_handler_internal :: "('e chan, unit) lexec" where
  "invoke_close_handler_internal c = (case close_handler c of
       No_Handler \<Rightarrow> Some (Inr (), c\<lparr>close_handler := CLOSE_HANDLER_CLOSED\<rparr>)
     | Handler h \<Rightarrow> Some (Inr (), log_event (Handler_Called h (close_cause c)) (c\<lparr>close_handler := CLOSE_HANDLER_INVOKED\<rparr>))
     | _ \<Rightarrow> Some (Inr (), c\<lparr>close_handler := CLOSE_HANDLER_INVOKED\<rparr>))"

definition invoke_on_close :: "nat \<Rightarrow> ('e chan, unit) lexec" where
  "invoke_on_close h c = (case close_handler c of
       No_Handler \<Rightarrow> Some (Inr (), c\<lparr>close_handler := Handler h\<rparr>)
     | CLOSE_HANDLER_CLOSED \<Rightarrow> Some (Inr (), log_event (Handler_Called h (close_cause c)) (c\<lparr>close_handler := CLOSE_HANDLER_INVOKED\<rparr>))
     | CLOSE_HANDLER_INVOKED \<Rightarrow> Some (Inl (Logic_Error ''Another handler was already registered and successfully invoked''), c)
     | Handler _ \<Rightarrow> Some (Inl (Logic_Error ''Another handler is already registered''), c))"

definition mark_status :: "(64 word \<Rightarrow> 64 word) \<Rightarrow> ('e chan, unit) lexec" where
  "mark_status f = modify_l (\<lambda>c. c\<lparr>senders_and_close_status := f (senders_and_close_status c)\<rparr>)"

definition close_or_cancel_impl :: "'e \<Rightarrow> exception_ptr option \<Rightarrow> bool \<Rightarrow> ('e chan, bool) lexec" where
  "close_or_cancel_impl dflt cause cancel =
     seq_l (if cancel then mark_status mark_cancellation_started else return_l ()) (read_l (\<lambda>c.
       let closed_by_this_operation = (close_cause_ref c = None)
       in seq_l (modify_l (\<lambda>c. if closed_by_this_operation then c\<lparr>close_cause_ref := Some cause\<rparr> else c))
         (seq_l (mark_status (if cancel then mark_cancelled else mark_closed))
         (seq_l (complete_close_or_cancel dflt)
         (seq_l (if closed_by_this_operation then invoke_close_handler_internal else return_l ())
         (return_l closed_by_this_operation))))))"

definition chan_close :: "'e \<Rightarrow> exception_ptr option \<Rightarrow> ('e chan, bool) lexec" where
  "chan_close dflt cause = close_or_cancel_impl dflt cause False"

definition cancelled_exception :: exception_ptr where
  "cancelled_exception = Exc 0 OrdinaryException ''Channel was cancelled''"

definition cancel_impl :: "'e \<Rightarrow> exception_ptr option \<Rightarrow> ('e chan, bool) lexec" where
  "cancel_impl dflt cause = close_or_cancel_impl dflt (Some (case cause of Some e \<Rightarrow> e | None \<Rightarrow> cancelled_exception)) True"

subsection \<open>Sending to a cell\<close>

datatype send_outcome = RESULT_RENDEZVOUS | RESULT_BUFFERED | RESULT_SUSPEND | RESULT_SUSPEND_NO_WAITER | RESULT_CLOSED | RESULT_FAILED

definition buffer_or_rendezvous_send :: "nat \<Rightarrow> 'e chan \<Rightarrow> bool" where
  "buffer_or_rendezvous_send s c \<longleftrightarrow> s < buffer_end c \<or> s < receivers c + capacity c"

text \<open>No waiter of this channel is a receiver, so none of the casts of \<open>try_resume_receiver\<close> succeeds.\<close>

definition try_resume_receiver :: "chan_waiter \<Rightarrow> ('e chan, 'a) lexec" where
  "try_resume_receiver w = throw_l (Runtime_Error ''Unexpected receiver type in tryResumeReceiver'')"

definition update_cell_send_slow :: "'e \<Rightarrow> nat \<Rightarrow> nat \<Rightarrow> nat \<Rightarrow> chan_cell option \<Rightarrow> bool \<Rightarrow> ('e chan, send_outcome) lexec" where
  "update_cell_send_slow dflt g i s waiter closed = read_l (\<lambda>c.
     let x = g * SEGMENT_SIZE + i
     in case cells c x of
         Cell_Null \<Rightarrow>
           if buffer_or_rendezvous_send s c \<and> \<not> closed then seq_l (modify_l (set_chan_cell x BUFFERED)) (return_l RESULT_BUFFERED)
           else if closed then seq_l (modify_l (set_chan_cell x INTERRUPTED_SEND)) (seq_l (on_cancelled_request g i False) (return_l RESULT_CLOSED))
           else (case waiter of None \<Rightarrow> return_l RESULT_SUSPEND_NO_WAITER
             | Some w \<Rightarrow> seq_l (modify_l (set_chan_cell x w)) (return_l RESULT_SUSPEND))
       | IN_BUFFER \<Rightarrow> seq_l (modify_l (set_chan_cell x BUFFERED)) (return_l RESULT_BUFFERED)
       | INTERRUPTED_RCV \<Rightarrow> seq_l (modify_l (clean_element x)) (return_l RESULT_FAILED)
       | POISONED \<Rightarrow> seq_l (modify_l (clean_element x)) (return_l RESULT_FAILED)
       | CHANNEL_CLOSED \<Rightarrow> seq_l (modify_l (clean_element x)) (seq_l (complete_close_or_cancel dflt) (return_l RESULT_CLOSED))
       | Waiter_EB w \<Rightarrow> seq_l (modify_l (clean_element x)) (try_resume_receiver w)
       | _ \<Rightarrow> seq_l (modify_l (clean_element x)) (throw_l Undefined_Behaviour))"

definition update_cell_send :: "'e \<Rightarrow> nat \<Rightarrow> nat \<Rightarrow> 'e \<Rightarrow> nat \<Rightarrow> chan_cell option \<Rightarrow> bool \<Rightarrow> ('e chan, send_outcome) lexec" where
  "update_cell_send dflt g i e s waiter closed =
     (let x = g * SEGMENT_SIZE + i
      in seq_l (modify_l (store_element x e)) (read_l (\<lambda>c.
        if closed then update_cell_send_slow dflt g i s waiter closed
        else case cells c x of
            Cell_Null \<Rightarrow>
              if buffer_or_rendezvous_send s c then seq_l (modify_l (set_chan_cell x BUFFERED)) (return_l RESULT_BUFFERED)
              else (case waiter of None \<Rightarrow> return_l RESULT_SUSPEND_NO_WAITER
                | Some w \<Rightarrow> seq_l (modify_l (set_chan_cell x w)) (return_l RESULT_SUSPEND))
          | BUFFERED \<Rightarrow> update_cell_send_slow dflt g i s waiter closed
          | IN_BUFFER \<Rightarrow> update_cell_send_slow dflt g i s waiter closed
          | INTERRUPTED_RCV \<Rightarrow> update_cell_send_slow dflt g i s waiter closed
          | POISONED \<Rightarrow> update_cell_send_slow dflt g i s waiter closed
          | CHANNEL_CLOSED \<Rightarrow> update_cell_send_slow dflt g i s waiter closed
          | Waiting w \<Rightarrow> seq_l (modify_l (clean_element x)) (try_resume_receiver w)
          | _ \<Rightarrow> seq_l (modify_l (clean_element x)) (throw_l Undefined_Behaviour))))"

subsection \<open>The operations of a channel\<close>

datatype chan_suspend_result = Returned | COROUTINE_SUSPENDED

definition fetch_add_senders :: "('e chan, 64 word) lexec" where
  "fetch_add_senders c = Some (Inr (senders_and_close_status c), c\<lparr>senders_and_close_status := senders_and_close_status c + 1\<rparr>)"

definition fetch_add_receivers :: "('e chan, nat) lexec" where
  "fetch_add_receivers c = Some (Inr (receivers c), c\<lparr>receivers := receivers c + 1\<rparr>)"

text \<open>\<open>t\<close> names the completion of the call and the continuation it suspends.\<close>

definition on_closed_send :: "'e \<Rightarrow> nat \<Rightarrow> ('e chan, chan_suspend_result) lexec" where
  "on_closed_send e t = bind_l (call_undelivered_element_catching_exception e None) (\<lambda>ex.
     seq_l (modify_l (\<lambda>c. log_event (Sender_Failed t (case ex of Some x \<Rightarrow> x | None \<Rightarrow> send_exception c)) c)) (return_l COROUTINE_SUSPENDED))"

definition on_closed_send_on_no_waiter_suspend :: "'e \<Rightarrow> nat \<Rightarrow> ('e chan, unit) lexec" where
  "on_closed_send_on_no_waiter_suspend e t = seq_l (call_undelivered_element e)
     (modify_l (\<lambda>c. log_event (Sender_Failed t (send_exception c)) (set_waiter t Resumed c)))"

definition resume_cont :: "nat \<Rightarrow> ('e chan, unit) lexec" where
  "resume_cont t = modify_l (\<lambda>c. log_event (Sender_Resumed t) (set_waiter t Resumed c))"

definition clean_prev_if_received :: "nat \<Rightarrow> nat \<Rightarrow> ('e chan, unit) lexec" where
  "clean_prev_if_received s g = read_l (\<lambda>c. if s < receivers c then chan_clean_prev g else return_l ())"

text \<open>
  \<open>send_impl_on_no_waiter\<close> with \<open>send_impl_with_waiter\<close>, which it calls back, in the branch of
  \<open>RESULT_FAILED\<close>. A suspended continuation remembers its cell for its cancellation handler.
\<close>

definition prepare_sender_for_suspension :: "nat \<Rightarrow> nat \<Rightarrow> nat \<Rightarrow> ('e chan, unit) lexec" where
  "prepare_sender_for_suspension t g i = modify_l (\<lambda>c. c\<lparr>waiter_cell := (waiter_cell c)(t := g * SEGMENT_SIZE + i)\<rparr>)"

partial_function (option) send_impl_on_no_waiter :: "'e \<Rightarrow> nat \<Rightarrow> nat \<Rightarrow> 'e \<Rightarrow> nat \<Rightarrow> nat \<Rightarrow> ('e chan, unit) lexec" where
  "send_impl_on_no_waiter dflt g i e s t c =
     bind_l (update_cell_send dflt g i e s (Some (Waiting (Send_Cont t))) False) (\<lambda>result. case result of
         RESULT_RENDEZVOUS \<Rightarrow> seq_l (chan_clean_prev g) (resume_cont t)
       | RESULT_BUFFERED \<Rightarrow> resume_cont t
       | RESULT_SUSPEND \<Rightarrow> prepare_sender_for_suspension t g i
       | RESULT_CLOSED \<Rightarrow> seq_l (clean_prev_if_received s g) (on_closed_send_on_no_waiter_suspend e t)
       | RESULT_FAILED \<Rightarrow> seq_l (chan_clean_prev g) (bind_l fetch_add_senders (\<lambda>w. read_l (\<lambda>c.
           bind_l (find_segment_send (senders_counter w div SEGMENT_SIZE) (send_segment c)) (\<lambda>seg. case seg of
               None \<Rightarrow> on_closed_send_on_no_waiter_suspend e t
             | Some h \<Rightarrow> send_impl_on_no_waiter dflt h (senders_counter w mod SEGMENT_SIZE) e (senders_counter w) t))))
       | RESULT_SUSPEND_NO_WAITER \<Rightarrow> throw_l Assertion_Failed) c"

definition send_on_no_waiter_suspend :: "'e \<Rightarrow> nat \<Rightarrow> nat \<Rightarrow> 'e \<Rightarrow> nat \<Rightarrow> nat \<Rightarrow> ('e chan, chan_suspend_result) lexec" where
  "send_on_no_waiter_suspend dflt g i e s t = seq_l (modify_l (set_waiter t Suspended))
     (seq_l (send_impl_on_no_waiter dflt g i e s t) (return_l COROUTINE_SUSPENDED))"

text \<open>The loop of \<open>send\<close>; the segment it starts from may be null after a failed lookup.\<close>

partial_function (option) send_loop :: "'e \<Rightarrow> nat option \<Rightarrow> 'e \<Rightarrow> nat \<Rightarrow> ('e chan, chan_suspend_result) lexec" where
  "send_loop dflt seg e t c = bind_l fetch_add_senders (\<lambda>w.
     let s = senders_counter w; j = s div SEGMENT_SIZE; i = s mod SEGMENT_SIZE
     in bind_l (is_closed dflt w False) (\<lambda>closed. case seg of
         None \<Rightarrow> throw_l Undefined_Behaviour
       | Some g \<Rightarrow> bind_l (if g \<noteq> j then find_segment_send j g else return_l (Some g)) (\<lambda>seg'. case seg' of
           None \<Rightarrow> if closed then on_closed_send e t else send_loop dflt None e t
         | Some h \<Rightarrow> bind_l (update_cell_send dflt h i e s None closed) (\<lambda>result. case result of
             RESULT_RENDEZVOUS \<Rightarrow> seq_l (chan_clean_prev h) (return_l Returned)
           | RESULT_BUFFERED \<Rightarrow> return_l Returned
           | RESULT_SUSPEND \<Rightarrow> if closed then seq_l (seg_op (on_slot_cleaned h)) (on_closed_send e t) else throw_l Assertion_Failed
           | RESULT_CLOSED \<Rightarrow> seq_l (clean_prev_if_received s h) (on_closed_send e t)
           | RESULT_FAILED \<Rightarrow> seq_l (chan_clean_prev h) (send_loop dflt (Some h) e t)
           | RESULT_SUSPEND_NO_WAITER \<Rightarrow> send_on_no_waiter_suspend dflt h i e s t)))) c"

definition send :: "'e \<Rightarrow> 'e \<Rightarrow> nat \<Rightarrow> ('e chan, chan_suspend_result) lexec" where
  "send dflt e t = read_l (\<lambda>c. send_loop dflt (Some (send_segment c)) e t)"

partial_function (option) try_send_loop :: "'e \<Rightarrow> nat option \<Rightarrow> 'e \<Rightarrow> ('e chan, unit channel_result) lexec" where
  "try_send_loop dflt seg e c = bind_l fetch_add_senders (\<lambda>w.
     let s = senders_counter w; j = s div SEGMENT_SIZE; i = s mod SEGMENT_SIZE
     in bind_l (is_closed dflt w False) (\<lambda>closed. case seg of
         None \<Rightarrow> throw_l Undefined_Behaviour
       | Some g \<Rightarrow> bind_l (if g \<noteq> j then find_segment_send j g else return_l (Some g)) (\<lambda>seg'. case seg' of
           None \<Rightarrow> if closed then read_l (\<lambda>c. return_l (Channel_Closed (Some (send_exception c)))) else try_send_loop dflt None e
         | Some h \<Rightarrow> bind_l (update_cell_send dflt h i e s (Some INTERRUPTED_SEND) closed) (\<lambda>result. case result of
             RESULT_RENDEZVOUS \<Rightarrow> seq_l (chan_clean_prev h) (return_l (Channel_Value ()))
           | RESULT_BUFFERED \<Rightarrow> return_l (Channel_Value ())
           | RESULT_SUSPEND \<Rightarrow> seq_l (seg_op (on_slot_cleaned h))
               (if closed then read_l (\<lambda>c. return_l (Channel_Closed (Some (send_exception c)))) else return_l Channel_Failed)
           | RESULT_CLOSED \<Rightarrow> seq_l (clean_prev_if_received s h) (read_l (\<lambda>c. return_l (Channel_Closed (Some (send_exception c)))))
           | RESULT_FAILED \<Rightarrow> seq_l (chan_clean_prev h) (try_send_loop dflt (Some h) e)
           | RESULT_SUSPEND_NO_WAITER \<Rightarrow> try_send_loop dflt (Some h) e)))) c"

definition should_send_suspend :: "'e \<Rightarrow> 64 word \<Rightarrow> ('e chan, bool) lexec" where
  "should_send_suspend dflt w = bind_l (is_closed dflt w False) (\<lambda>closed. if closed then return_l False
     else read_l (\<lambda>c. return_l (\<not> buffer_or_rendezvous_send (senders_counter w) c)))"

definition try_send :: "'e \<Rightarrow> 'e \<Rightarrow> ('e chan, unit channel_result) lexec" where
  "try_send dflt e = read_l (\<lambda>c. bind_l (should_send_suspend dflt (senders_and_close_status c)) (\<lambda>b.
     if b then return_l Channel_Failed else read_l (\<lambda>c. try_send_loop dflt (Some (send_segment c)) e)))"

partial_function (option) receive_impl_try_receive :: "'e \<Rightarrow> nat option \<Rightarrow> ('e chan, 'e channel_result) lexec" where
  "receive_impl_try_receive dflt seg c = bind_l (is_closed_for_receive dflt) (\<lambda>closed.
     if closed then read_l (\<lambda>c. return_l (Channel_Closed (close_cause c)))
     else bind_l fetch_add_receivers (\<lambda>r.
       let j = r div SEGMENT_SIZE; i = r mod SEGMENT_SIZE
       in case seg of
           None \<Rightarrow> throw_l Undefined_Behaviour
         | Some g \<Rightarrow> bind_l (if g \<noteq> j then find_segment_receive j g else return_l (Some g)) (\<lambda>seg'. case seg' of
             None \<Rightarrow> receive_impl_try_receive dflt None
           | Some h \<Rightarrow> bind_l (update_cell_receive dflt h i r (Some INTERRUPTED_RCV)) (\<lambda>result. case result of
               R_Suspend \<Rightarrow> seq_l (wait_expand_buffer_completion r) (seq_l (seg_op (on_slot_cleaned h)) (return_l Channel_Failed))
             | R_Failed \<Rightarrow> seq_l (read_l (\<lambda>c. if r < senders c then chan_clean_prev h else return_l ()))
                 (receive_impl_try_receive dflt (Some h))
             | R_Element e \<Rightarrow> seq_l (chan_clean_prev h) (return_l (Channel_Value e))
             | R_Suspend_No_Waiter \<Rightarrow> seq_l (chan_clean_prev h) (throw_l Undefined_Behaviour))))) c"

definition try_receive :: "'e \<Rightarrow> ('e chan, 'e channel_result) lexec" where
  "try_receive dflt = read_l (\<lambda>c. bind_l (is_closed dflt (senders_and_close_status c) True) (\<lambda>closed.
     if closed then read_l (\<lambda>c. return_l (Channel_Closed (close_cause c)))
     else if senders_counter (senders_and_close_status c) \<le> receivers c then return_l Channel_Failed
     else read_l (\<lambda>c. receive_impl_try_receive dflt (Some (receive_segment c)))))"

text \<open>\<open>receive\<close> does not suspend: it throws when nothing can be received at once.\<close>

definition receive :: "'e \<Rightarrow> ('e chan, 'e) lexec" where
  "receive dflt = bind_l (try_receive dflt) (\<lambda>r. case r of
       Channel_Value e \<Rightarrow> return_l e
     | Channel_Closed (Some e) \<Rightarrow> throw_l (Rethrown e)
     | Channel_Closed None \<Rightarrow> throw_l (Runtime_Error ''Channel was closed'')
     | Channel_Failed \<Rightarrow> throw_l (Logic_Error ''BufferedChannel::receive suspend path requires full state machine implementation''))"

definition receive_catching :: "'e \<Rightarrow> ('e chan, 'e channel_result) lexec" where
  "receive_catching dflt = bind_l (try_receive dflt) (\<lambda>r. case r of
       Channel_Failed \<Rightarrow> throw_l (Logic_Error ''BufferedChannel::receive_catching suspend path requires full state machine implementation'')
     | _ \<Rightarrow> return_l r)"

text \<open>
  The cancellation of a suspended sender, with the handler of its segment; a sender adds the segment
  size to the index of its cell.
\<close>

definition segment_on_cancellation :: "'e \<Rightarrow> nat \<Rightarrow> nat \<Rightarrow> ('e chan, unit) lexec" where
  "segment_on_cancellation dflt g index = read_l (\<lambda>c.
     let is_sender = (SEGMENT_SIZE \<le> index);
         i = (if is_sender then index - SEGMENT_SIZE else index);
         x = g * SEGMENT_SIZE + i;
         e = get_element dflt x c;
         undeliver = (if is_sender then call_undelivered_element e else return_l ());
         interrupt = seq_l (modify_l (set_chan_cell x (if is_sender then INTERRUPTED_SEND else INTERRUPTED_RCV)))
           (seq_l (modify_l (clean_element x)) (seq_l (on_cancelled_request g i (\<not> is_sender)) undeliver))
     in case cells c x of
         Waiting w \<Rightarrow> interrupt
       | Waiter_EB w \<Rightarrow> interrupt
       | IN_BUFFER \<Rightarrow> interrupt
       | POISONED \<Rightarrow> interrupt
       | INTERRUPTED_SEND \<Rightarrow> seq_l (modify_l (clean_element x)) undeliver
       | INTERRUPTED_RCV \<Rightarrow> seq_l (modify_l (clean_element x)) undeliver
       | RESUMING_BY_EB \<Rightarrow> throw_l Spins
       | RESUMING_BY_RCV \<Rightarrow> throw_l Spins
       | DONE_RCV \<Rightarrow> return_l ()
       | BUFFERED \<Rightarrow> return_l ()
       | CHANNEL_CLOSED \<Rightarrow> return_l ()
       | Cell_Null \<Rightarrow> throw_l Assertion_Failed)"

definition cancel_sender :: "'e \<Rightarrow> nat \<Rightarrow> ('e chan, unit) lexec" where
  "cancel_sender dflt t c =
     (let x = waiter_cell c t
      in if waiters c t = Suspended
      then segment_on_cancellation dflt (x div SEGMENT_SIZE) (x mod SEGMENT_SIZE + SEGMENT_SIZE) (set_waiter t Cancelled c)
      else Some (Inr (), c))"

subsection \<open>The iterator\<close>

text \<open>What an iterator has received: nothing yet, an element, or the end.\<close>

datatype 'e iterator_result = NO_RECEIVE_RESULT | Received 'e | Iterator_Closed

definition has_next :: "'e \<Rightarrow> 'e iterator_result \<Rightarrow> ('e chan, bool \<times> 'e iterator_result) lexec" where
  "has_next dflt it = (case it of
       Received e \<Rightarrow> return_l (True, it)
     | _ \<Rightarrow> bind_l (try_receive dflt) (\<lambda>r. case r of
           Channel_Value e \<Rightarrow> return_l (True, Received e)
         | Channel_Closed _ \<Rightarrow> read_l (\<lambda>c. case close_cause c of
               Some e \<Rightarrow> throw_l (Rethrown e) | None \<Rightarrow> return_l (False, Iterator_Closed))
         | Channel_Failed \<Rightarrow> return_l (False, it)))"

definition iterator_next :: "'e iterator_result \<Rightarrow> ('e chan, 'e \<times> 'e iterator_result) lexec" where
  "iterator_next it = (case it of
       NO_RECEIVE_RESULT \<Rightarrow> throw_l (Logic_Error ''`hasNext()` has not been invoked'')
     | Iterator_Closed \<Rightarrow> read_l (\<lambda>c. case close_cause c of
           Some e \<Rightarrow> throw_l (Rethrown e) | None \<Rightarrow> throw_l (Runtime_Error ''Channel was closed''))
     | Received e \<Rightarrow> return_l (e, NO_RECEIVE_RESULT))"

subsection \<open>The conflated channel\<close>

text \<open>\<open>channels/ConflatedBufferedChannel.hpp\<close>: the result for both overflow strategies.\<close>

definition create_conflated_channel :: "int \<Rightarrow> bool \<Rightarrow> ('e \<Rightarrow> exception_ptr option) option \<Rightarrow> 'e chan res" where
  "create_conflated_channel c oldest undelivered =
     (if c < 0 then Inl (Invalid_Argument ''Invalid channel capacity'')
      else if c < 1 then Inl (Invalid_Argument ''Buffered channel capacity must be at least 1'')
      else Inr ((new_chan (nat c) undelivered)\<lparr>drop_oldest := oldest\<rparr>))"

definition conflated_try_send :: "'e \<Rightarrow> 'e \<Rightarrow> ('e chan, unit channel_result) lexec" where
  "conflated_try_send dflt e = read_l (\<lambda>c. if drop_oldest c then try_send dflt e
     else bind_l (try_send dflt e) (\<lambda>r. if result_is_success r \<or> result_is_closed r then return_l r else return_l (Channel_Value ())))"

definition conflated_send :: "'e \<Rightarrow> 'e \<Rightarrow> ('e chan, chan_suspend_result) lexec" where
  "conflated_send dflt e = bind_l (conflated_try_send dflt e) (\<lambda>r.
     if result_is_closed r then read_l (\<lambda>c. throw_l (Rethrown (send_exception c))) else return_l Returned)"

end
