(* ===== verification/Channel_Queue.thy ===== *)
theory Channel_Queue
  imports Buffered_Channel
begin

text \<open>
  A buffered channel is a bounded queue with waiting senders: the refinement of
  \<open>Buffered_Channel\<close> to lists, for channels that are open and whose segments all keep a cell that
  was not interrupted.
\<close>

subsection \<open>The abstract queue\<close>

record 'e queue_spec =
  buffer :: "'e list"
  waiting :: "(nat \<times> 'e) list"
  resumed :: "nat list"

definition spec_send :: "nat \<Rightarrow> 'e \<Rightarrow> nat \<Rightarrow> 'e queue_spec \<Rightarrow> chan_suspend_result \<times> 'e queue_spec" where
  "spec_send n e t q = (if length (buffer q) < n then (Returned, q\<lparr>buffer := buffer q @ [e]\<rparr>)
     else (COROUTINE_SUSPENDED, q\<lparr>waiting := waiting q @ [(t, e)]\<rparr>))"

definition spec_try_send :: "nat \<Rightarrow> 'e \<Rightarrow> 'e queue_spec \<Rightarrow> unit channel_result \<times> 'e queue_spec" where
  "spec_try_send n e q = (if length (buffer q) < n then (Channel_Value (), q\<lparr>buffer := buffer q @ [e]\<rparr>) else (Channel_Failed, q))"

text \<open>A receive lets the first waiting sender put its element into the buffer.\<close>

definition spec_admit :: "'e queue_spec \<Rightarrow> 'e queue_spec" where
  "spec_admit q = (case waiting q of [] \<Rightarrow> q | (t, e) # ws \<Rightarrow> \<lparr>buffer = buffer q @ [e], waiting = ws, resumed = resumed q @ [t]\<rparr>)"

definition spec_try_receive :: "'e queue_spec \<Rightarrow> 'e channel_result \<times> 'e queue_spec" where
  "spec_try_receive q = (case buffer q of [] \<Rightarrow> (Channel_Failed, q) | e # es \<Rightarrow> (Channel_Value e, spec_admit (q\<lparr>buffer := es\<rparr>)))"

definition spec_cancel :: "nat \<Rightarrow> 'e queue_spec \<Rightarrow> 'e queue_spec" where
  "spec_cancel t q = q\<lparr>waiting := filter (\<lambda>p. fst p \<noteq> t) (waiting q)\<rparr>"

subsection \<open>Picking values from an array\<close>

definition pick :: "(nat \<Rightarrow> 'a option) \<Rightarrow> nat \<Rightarrow> 'a list" where
  "pick f n = List.map_filter f [0..<n]"

lemma pick_0 [simp]: "pick f 0 = []"
  by (simp add: pick_def map_filter_simps)

lemma map_filter_parts [simp]: "List.map_filter f (xs @ ys) = List.map_filter f xs @ List.map_filter f ys"
  by (simp add: map_filter_def)

lemma pick_Suc [simp]: "pick f (Suc n) = pick f n @ (case f n of None \<Rightarrow> [] | Some v \<Rightarrow> [v])"
  by (simp add: pick_def map_filter_simps split: option.split)

lemma pick_cong: "(\<And>x. x < n \<Longrightarrow> f x = g x) \<Longrightarrow> pick f n = pick g n"
  by (induction n) auto

lemma pick_Nil: "(\<And>x. x < n \<Longrightarrow> f x = None) \<Longrightarrow> pick f n = []"
  by (induction n) auto

text \<open>Two arrays that differ in one place.\<close>

lemma pick_append:
  assumes "k < n" "\<And>x. k \<le> x \<Longrightarrow> x < n \<Longrightarrow> f x = None" "g k = Some v" "\<And>x. x < n \<Longrightarrow> x \<noteq> k \<Longrightarrow> g x = f x"
  shows "pick g n = pick f n @ [v]"
  using assms
proof (induction n)
  case (Suc n)
  show ?case
  proof (cases "k = n")
    case True
    then have "pick g n = pick f n" using Suc.prems(4) by (intro pick_cong) auto
    then show ?thesis using Suc.prems(2) [of n] Suc.prems(3) True by simp
  next
    case False
    then have "pick g n = pick f n @ [v]" using Suc by simp
    then show ?thesis using Suc.prems(2) [of n] Suc.prems(4) [of n] Suc.prems(1) False by simp
  qed
qed simp

lemma pick_first:
  assumes "k < n" "\<And>x. x < k \<Longrightarrow> f x = None" "f k = Some v" "g k = None" "\<And>x. x < n \<Longrightarrow> x \<noteq> k \<Longrightarrow> g x = f x"
  shows "pick f n = v # pick g n"
  using assms
proof (induction n)
  case (Suc n)
  show ?case
  proof (cases "k = n")
    case True
    then have "pick f n = []" "pick g n = []" using Suc.prems(2,5) by (auto intro!: pick_Nil)
    then show ?thesis using Suc.prems(3,4) True by simp
  next
    case False
    then have "pick f n = v # pick g n" using Suc by simp
    then show ?thesis using Suc.prems(5) [of n] Suc.prems(1) False by (simp split: option.split)
  qed
qed simp

lemma pick_remove:
  assumes "\<And>x v. x < n \<Longrightarrow> x \<noteq> k \<Longrightarrow> f x = Some v \<Longrightarrow> fst v \<noteq> t" "\<And>v. f k = Some v \<Longrightarrow> fst v = t"
    "g k = None" "\<And>x. x < n \<Longrightarrow> x \<noteq> k \<Longrightarrow> g x = f x"
  shows "pick g n = filter (\<lambda>v. fst v \<noteq> t) (pick f n)"
  using assms
proof (induction n)
  case (Suc n)
  have "pick g n = filter (\<lambda>v. fst v \<noteq> t) (pick f n)"
    by (rule Suc.IH) (use Suc.prems(1) less_SucI in blast, use Suc.prems in auto)
  then show ?case using Suc.prems(1) [of n] Suc.prems(2-4) by (cases "k = n") (auto split: option.splits)
qed simp

lemma pick_length: "length (pick f n) = card {x. x < n \<and> f x \<noteq> None}"
proof (induction n)
  case (Suc n)
  have "{x. x < Suc n \<and> f x \<noteq> None} = (if f n = None then {x. x < n \<and> f x \<noteq> None} else insert n {x. x < n \<and> f x \<noteq> None})"
    by (auto simp: less_Suc_eq)
  then show ?case using Suc by (auto split: option.splits)
qed simp

subsection \<open>The list of segments\<close>

text \<open>No segment was unlinked: each id up to \<open>lst\<close> is followed by the next one.\<close>

definition full :: "nat \<Rightarrow> seg_list \<Rightarrow> bool" where
  "full lst s \<longleftrightarrow> (\<forall>g<lst. next_ref s g = Link (Suc g)) \<and> next_ref s lst = Link_Null \<and> slots s = 32"

lemma full_next: "full lst s \<Longrightarrow> g \<le> lst \<Longrightarrow> next_seg s g = (if g = lst then None else Some (Suc g))"
  by (auto simp: full_def next_seg_def)

lemma full_new:
  assumes "full lst s"
  obtains s' where "try_set_next lst (lst + 1) (new_segment (lst + 1) (Some lst) 0 s) = (True, s')" "full (Suc lst) s'"
    "cleaned_and_pointers s' = (cleaned_and_pointers s)(Suc lst := 0)"
proof
  let ?s = "new_segment (lst + 1) (Some lst) 0 s"
  show "try_set_next lst (lst + 1) ?s = (True, ?s\<lparr>next_ref := (next_ref ?s)(lst := Link (lst + 1))\<rparr>)"
    "full (Suc lst) (?s\<lparr>next_ref := (next_ref ?s)(lst := Link (lst + 1))\<rparr>)"
    "cleaned_and_pointers (?s\<lparr>next_ref := (next_ref ?s)(lst := Link (lst + 1))\<rparr>) = (cleaned_and_pointers s)(Suc lst := 0)"
    using assms by (simp_all add: try_set_next_def new_segment_def full_def less_Suc_eq)
qed

lemma walk_full:
  assumes "full lst s" "g \<le> lst" "g \<le> i"
  shows "\<exists>s'. walk_to (Some g) i s = Some (Inr (Some i), s') \<and> full (max lst i) s' \<and>
    cleaned_and_pointers s' = (\<lambda>k. if lst < k \<and> k \<le> i then 0 else cleaned_and_pointers s k)"
  using assms
proof (induction "i - g" arbitrary: g lst s rule: less_induct)
  case less
  note step = walk_to.simps [of "Some g" i s]
  show ?case
  proof (cases "g < i")
    case False
    then show ?thesis using less.prems step by (auto simp: max_def fun_eq_iff)
  next
    case True
    then have lt: "i - Suc g < i - g" "Suc g \<le> i" by auto
    show ?thesis
    proof (cases "g = lst")
      case False
      then have "Suc g \<le> lst" using less.prems by simp
      from less.hyps [OF lt(1) less.prems(1) this lt(2)] show ?thesis
        using step True False full_next [OF less.prems(1,2)] by auto
    next
      case gl: True
      obtain s' where s': "try_set_next lst (lst + 1) (new_segment (lst + 1) (Some lst) 0 s) = (True, s')" "full (Suc lst) s'"
        "cleaned_and_pointers s' = (cleaned_and_pointers s)(Suc lst := 0)" by (rule full_new [OF less.prems(1)])
      have "walk_to (Some g) i s = walk_to (Some (Suc g)) i s'"
        using step True gl full_next [OF less.prems(1,2)] s'(1) by simp
      moreover have "Suc g \<le> Suc lst" "max (Suc lst) i = max lst i" using gl True by auto
      ultimately show ?thesis using less.hyps [OF lt(1) s'(2) _ lt(2)] s'(3) gl True by (auto simp: fun_eq_iff)
    qed
  qed
qed

lemma walk_existing_full:
  assumes "full lst s" "g \<le> lst" "g \<le> i"
  shows "walk_existing g i s = Some (min lst i)"
  using assms(2,3)
proof (induction "i - g" arbitrary: g rule: less_induct)
  case less
  show ?case
    using less.hyps [of "Suc g"] less.prems full_next [OF assms(1) less.prems(1)] walk_existing.simps [of g i s]
    by (cases "g < i") (auto simp: min_def)
qed

lemma skip_kept: "\<not> gone s g \<Longrightarrow> skip_removed g s = Some g"
  by (simp add: skip_removed.simps [of g s] is_removed_def gone_def)

subsection \<open>The invariant and the abstraction\<close>

definition interrupted :: "chan_cell \<Rightarrow> bool" where
  "interrupted v \<longleftrightarrow> v = INTERRUPTED_SEND \<or> v = INTERRUPTED_RCV"

definition chan_cell_ok :: "'e chan \<Rightarrow> nat \<Rightarrow> bool" where
  "chan_cell_ok c x \<longleftrightarrow>
     (if senders c \<le> x then cells c x = (if x < receivers c then INTERRUPTED_RCV else Cell_Null)
      else if x < receivers c then cells c x = DONE_RCV \<or> cells c x = INTERRUPTED_SEND \<or> cells c x = INTERRUPTED_RCV
      else cells c x = INTERRUPTED_SEND \<or> elems c x \<noteq> None \<and>
        (if x < buffer_end c then cells c x = BUFFERED
         else \<exists>t. cells c x = Waiting (Send_Cont t) \<and> waiters c t = Suspended \<and> waiter_cell c t = x))"

text \<open>Cells of the buffer whose sender was cancelled.\<close>

definition skipped :: "'e chan \<Rightarrow> nat set" where
  "skipped c = {x. receivers c \<le> x \<and> x < buffer_end c \<and> x < senders c \<and> cells c x = INTERRUPTED_SEND}"

definition segs_inv :: "nat \<Rightarrow> 'e chan \<Rightarrow> bool" where
  "segs_inv lst c \<longleftrightarrow> full lst (segs c) \<and> (\<forall>g\<le>lst. \<not> gone (segs c) g) \<and> (\<forall>x. cells c x \<noteq> Cell_Null \<longrightarrow> x < 32 * Suc lst) \<and>
     send_segment c \<le> lst \<and> send_segment c \<le> senders c div 32 \<and>
     receive_segment c \<le> lst \<and> receive_segment c \<le> receivers c div 32 \<and>
     (\<exists>g. buffer_end_segment c = Some g \<and> g \<le> lst \<and> g \<le> buffer_end c div 32)"

text \<open>\<open>k\<close> expansions of the buffer are due.\<close>

definition chan_inv :: "nat \<Rightarrow> nat \<Rightarrow> 'e chan \<Rightarrow> bool" where
  "chan_inv k lst c \<longleftrightarrow> segs_inv lst c \<and> packed (senders_and_close_status c) (senders c) 0 \<and>
     (\<forall>x. chan_cell_ok c x) \<and> (\<forall>t. waiters c t = Suspended \<longrightarrow> cells c (waiter_cell c t) = Waiting (Send_Cont t)) \<and>
     buffer_end c + k = capacity c + receivers c + card (skipped c) \<and> k \<le> 1 \<and> 0 < capacity c \<and> 0 < buffer_end c \<and>
     completed_expand_buffers c = of_nat (buffer_end c) \<and> capacity c + senders c + receivers c < 2 ^ 59"

definition buf_at :: "'e chan \<Rightarrow> nat \<Rightarrow> 'e option" where
  "buf_at c x = (if cells c x = BUFFERED then elems c x else None)"

definition wait_at :: "'e chan \<Rightarrow> nat \<Rightarrow> (nat \<times> 'e) option" where
  "wait_at c x = (case cells c x of Waiting (Send_Cont t) \<Rightarrow> map_option (Pair t) (elems c x) | _ \<Rightarrow> None)"

definition resumed_senders :: "'e chan_event list \<Rightarrow> nat list" where
  "resumed_senders = List.map_filter (\<lambda>v. case v of Sender_Resumed t \<Rightarrow> Some t | _ \<Rightarrow> None)"

definition abs_chan :: "'e chan \<Rightarrow> 'e queue_spec" where
  "abs_chan c = \<lparr>buffer = pick (buf_at c) (senders c), waiting = pick (wait_at c) (senders c),
     resumed = resumed_senders (chan_log c)\<rparr>"

lemma at_cong:
  assumes "cells c' x = cells c x" "elems c' x = elems c x"
  shows "buf_at c' x = buf_at c x" "wait_at c' x = wait_at c x"
  unfolding buf_at_def wait_at_def assms by (rule refl)+

lemma abs_same:
  assumes "senders c' = senders c" "cells c' = cells c" "elems c' = elems c" "chan_log c' = chan_log c"
  shows "abs_chan c' = abs_chan c"
proof -
  have "buf_at c' = buf_at c" "wait_at c' = wait_at c" using at_cong [of c' _ c] assms by auto
  then show ?thesis using assms by (simp add: abs_chan_def)
qed

lemma skipped_finite [simp]: "finite (skipped c)"
  by (rule finite_subset [of _ "{..<senders c}"]) (auto simp: skipped_def)

lemma chan_invD:
  assumes "chan_inv k lst c"
  shows "segs_inv lst c" "packed (senders_and_close_status c) (senders c) 0" "chan_cell_ok c x"
    "waiters c t = Suspended \<Longrightarrow> cells c (waiter_cell c t) = Waiting (Send_Cont t)"
    "buffer_end c + k = capacity c + receivers c + card (skipped c)" "k \<le> 1" "0 < capacity c" "0 < buffer_end c"
    "completed_expand_buffers c = of_nat (buffer_end c)" "capacity c + senders c + receivers c < 2 ^ 59" "receivers c \<le> buffer_end c"
  using assms by (auto simp: chan_inv_def)

lemma chan_inv_bound:
  assumes "chan_inv k lst c"
  shows "buffer_end c + k < 2 ^ 60" "\<not> is_rendezvous_or_unlimited c"
proof -
  have "card (skipped c) \<le> card {..<senders c}" by (rule card_mono) (auto simp: skipped_def)
  then show b: "buffer_end c + k < 2 ^ 60" using chan_invD(5,10) [OF assms] by simp
  then show "\<not> is_rendezvous_or_unlimited c" using chan_invD(8) [OF assms] by (simp add: is_rendezvous_or_unlimited_def)
qed

lemma segs_invD:
  assumes "segs_inv lst c"
  shows "full lst (segs c)" "g \<le> lst \<Longrightarrow> \<not> gone (segs c) g" "cells c x \<noteq> Cell_Null \<Longrightarrow> x < 32 * Suc lst"
    "send_segment c \<le> lst" "send_segment c \<le> senders c div 32" "receive_segment c \<le> lst" "receive_segment c \<le> receivers c div 32"
    "\<exists>g. buffer_end_segment c = Some g \<and> g \<le> lst \<and> g \<le> buffer_end c div 32"
  using assms by (auto simp: segs_inv_def)

subsection \<open>Expanding the buffer\<close>

text \<open>What an expansion leaves alone.\<close>

definition expand_frame :: "'e chan \<Rightarrow> 'e chan \<Rightarrow> bool" where
  "expand_frame c c' \<longleftrightarrow>
     senders_and_close_status c' = senders_and_close_status c \<and> receivers c' = receivers c \<and> capacity c' = capacity c \<and>
     elems c' = elems c \<and> drop_oldest c' = drop_oldest c \<and> on_undelivered c' = on_undelivered c \<and> waiter_cell c' = waiter_cell c \<and>
     cleaned_and_pointers (segs c') = cleaned_and_pointers (segs c) \<and>
     (\<forall>x. cells c' x = cells c x \<or> (\<exists>w. cells c x = Waiting w) \<and> cells c' x = BUFFERED) \<and>
     (\<forall>t. waiters c' t = waiters c t \<or> waiters c t = Suspended \<and> waiters c' t = Resumed)"

lemma expand_frame_trans: "expand_frame a b \<Longrightarrow> expand_frame b c \<Longrightarrow> expand_frame a c"
  unfolding expand_frame_def by (metis chan_cell.distinct)

lemma inc_completed_run:
  assumes "completed_expand_buffers c = of_nat n" "Suc n < 2 ^ 62"
  shows "inc_completed_expand_buffer_attempts c = Some (Inr (), c\<lparr>completed_expand_buffers := of_nat (Suc n)\<rparr>)"
proof -
  have w: "completed_expand_buffers c + 1 = of_nat (Suc n)" using assms(1) by simp
  show ?thesis using eb_no_pause [OF assms(2)]
    unfolding inc_completed_expand_buffer_attempts_def Let_def w by (simp del: of_nat_Suc)
qed

lemma senders_update [simp]:
  "senders (c\<lparr>buffer_end := b\<rparr>) = senders c" "senders (c\<lparr>completed_expand_buffers := w\<rparr>) = senders c"
  "senders (c\<lparr>segs := s\<rparr>) = senders c" "senders (c\<lparr>buffer_end_segment := g\<rparr>) = senders c" "senders (c\<lparr>cells := f\<rparr>) = senders c"
  "senders (c\<lparr>waiters := u\<rparr>) = senders c" "senders (c\<lparr>chan_log := l\<rparr>) = senders c" "senders (c\<lparr>receivers := r\<rparr>) = senders c"
  "senders (c\<lparr>elems := e\<rparr>) = senders c" "senders (c\<lparr>send_segment := n\<rparr>) = senders c" "senders (c\<lparr>receive_segment := n\<rparr>) = senders c"
  "senders (c\<lparr>waiter_cell := v\<rparr>) = senders c"
  by (simp_all add: senders_def)

text \<open>The last expansion: the end of the buffer moves past the last cell that was sent to.\<close>

lemma expand_past_end:
  assumes "chan_inv 1 lst c" "senders c \<le> buffer_end c"
  shows "\<exists>g. expand_loop (buffer_end_segment c) c = Some (Inr (), c\<lparr>buffer_end := Suc (buffer_end c),
      completed_expand_buffers := of_nat (Suc (buffer_end c)), buffer_end_segment := Some g\<rparr>) \<and> g \<le> lst \<and> g \<le> buffer_end c div 32"
proof -
  note I = chan_invD [OF assms(1)]
  note G = segs_invD [OF I(1)]
  obtain g where g: "buffer_end_segment c = Some g" "g \<le> lst" "g \<le> buffer_end c div 32" using G(8) by blast
  have b: "Suc (buffer_end c) < 2 ^ 62" using chan_inv_bound [OF assms(1)] by simp
  let ?c = "c\<lparr>buffer_end := buffer_end c + 1\<rparr>"
  have m: "\<exists>h. (if g < buffer_end c div 32 \<and> next_seg (segs ?c) g \<noteq> None
      then move_segment_buffer_end_to_specified_or_last (buffer_end c div 32) g else return_l ()) ?c =
    Some (Inr (), ?c\<lparr>buffer_end_segment := Some h\<rparr>) \<and> h \<le> lst \<and> h \<le> buffer_end c div 32"
  proof (cases "g < buffer_end c div 32 \<and> next_seg (segs ?c) g \<noteq> None")
    case True
    have "walk_existing g (buffer_end c div 32) (segs c) = Some (min lst (buffer_end c div 32))"
      by (rule walk_existing_full [OF G(1) g(2,3)])
    moreover have "skip_removed (min lst (buffer_end c div 32)) (segs c) = Some (min lst (buffer_end c div 32))"
      by (rule skip_kept) (use G(2) in simp)
    ultimately show ?thesis using True g
      by (intro exI [of _ "min lst (buffer_end c div 32)"]) (simp add: move_segment_buffer_end_to_specified_or_last_def max_ref_def)
  next
    case False
    have e: "?c\<lparr>buffer_end_segment := Some g\<rparr> = ?c" using g(1) by simp
    show ?thesis using False g(2,3) by (intro exI [of _ g]) (simp only: e if_False return_l_def simp_thms)
  qed
  then obtain h where h: "(if g < buffer_end c div 32 \<and> next_seg (segs ?c) g \<noteq> None
      then move_segment_buffer_end_to_specified_or_last (buffer_end c div 32) g else return_l ()) ?c =
    Some (Inr (), ?c\<lparr>buffer_end_segment := Some h\<rparr>)" "h \<le> lst" "h \<le> buffer_end c div 32" by blast
  have "expand_loop (buffer_end_segment c) c = inc_completed_expand_buffer_attempts (?c\<lparr>buffer_end_segment := Some h\<rparr>)"
    unfolding g(1) expand_loop.simps [of "Some g" c] Let_def using assms(2) h(1)
    by (simp add: seq_l_def bind_l_def)
  also have "\<dots> = Some (Inr (), ?c\<lparr>buffer_end_segment := Some h, completed_expand_buffers := of_nat (Suc (buffer_end c))\<rparr>)"
    by (rule inc_completed_run) (use I(9) b in simp_all)
  finally show ?thesis using h(2,3) by (intro exI [of _ h]) (simp del: of_nat_Suc)
qed

lemma cell_index [simp]: "x div 32 * 32 + x mod 32 = (x::nat)"
  by simp

text \<open>Segment lookups of the channel when no segment was unlinked.\<close>

lemma find_buffer_end_run:
  assumes "full lst (segs c)" "buffer_end_segment c = Some g" "g \<le> lst" "g \<le> i" "i \<le> lst"
  shows "\<exists>s. (if g \<noteq> i then find_segment_buffer_end i g else return_l (Some g)) c =
      Some (Inr (Some i), c\<lparr>segs := s, buffer_end_segment := Some i\<rparr>) \<and> full lst s \<and> cleaned_and_pointers s = cleaned_and_pointers (segs c)"
proof (cases "g = i")
  case True
  then have "c\<lparr>segs := segs c, buffer_end_segment := Some i\<rparr> = c" using assms(2) by simp
  then show ?thesis using True assms(1) by (intro exI [of _ "segs c"]) simp
next
  case False
  from walk_full [OF assms(1,3,4)] obtain s where s: "walk_to (Some g) i (segs c) = Some (Inr (Some i), s)" "full (max lst i) s"
    "cleaned_and_pointers s = (\<lambda>k. if lst < k \<and> k \<le> i then 0 else cleaned_and_pointers (segs c) k)" by blast
  have "cleaned_and_pointers s = cleaned_and_pointers (segs c)" "full lst s" using s(2,3) assms(5) by (auto simp: fun_eq_iff max_def)
  then show ?thesis using False s(1) assms(2,4)
    by (intro exI [of _ s]) (simp add: find_segment_buffer_end_def seg_op_def bind_l_def max_ref_def)
qed

lemma expand_cell_start:
  assumes "chan_inv 1 lst c" "buffer_end c < senders c"
  obtains s where "full lst s" "cleaned_and_pointers s = cleaned_and_pointers (segs c)" "buffer_end c div 32 \<le> lst"
    "expand_loop (buffer_end_segment c) c = bind_l (update_cell_expand_buffer (buffer_end c div 32) (buffer_end c mod 32) (buffer_end c))
      (\<lambda>ok. seq_l inc_completed_expand_buffer_attempts (if ok then return_l () else expand_loop (Some (buffer_end c div 32))))
      (c\<lparr>buffer_end := Suc (buffer_end c), segs := s, buffer_end_segment := Some (buffer_end c div 32)\<rparr>)"
proof -
  note I = chan_invD [OF assms(1)]
  note G = segs_invD [OF I(1)]
  obtain g where g: "buffer_end_segment c = Some g" "g \<le> lst" "g \<le> buffer_end c div 32" using G(8) by blast
  have "cells c (buffer_end c) \<noteq> Cell_Null" using I(3) [of "buffer_end c"] I(11) assms(2) by (auto simp: chan_cell_ok_def)
  then have i: "buffer_end c div 32 \<le> lst" using G(3) by fastforce
  let ?c = "c\<lparr>buffer_end := buffer_end c + 1\<rparr>"
  have "full lst (segs ?c)" "buffer_end_segment ?c = Some g" using G(1) g(1) by simp_all
  from find_buffer_end_run [OF this g(2,3) i] obtain s where s: "(if g \<noteq> buffer_end c div 32 then find_segment_buffer_end (buffer_end c div 32) g else return_l (Some g)) ?c =
      Some (Inr (Some (buffer_end c div 32)), ?c\<lparr>segs := s, buffer_end_segment := Some (buffer_end c div 32)\<rparr>)"
    "full lst s" "cleaned_and_pointers s = cleaned_and_pointers (segs c)" by auto
  show thesis
  proof (rule that [OF s(2,3) i])
    show "expand_loop (buffer_end_segment c) c = bind_l (update_cell_expand_buffer (buffer_end c div 32) (buffer_end c mod 32) (buffer_end c))
      (\<lambda>ok. seq_l inc_completed_expand_buffer_attempts (if ok then return_l () else expand_loop (Some (buffer_end c div 32))))
      (c\<lparr>buffer_end := Suc (buffer_end c), segs := s, buffer_end_segment := Some (buffer_end c div 32)\<rparr>)"
      unfolding g(1) expand_loop.simps [of "Some g" c] Let_def using assms(2) s(1) by (simp add: bind_l_def)
  qed
qed

lemma expand_interrupted:
  assumes "chan_inv 1 lst c" "buffer_end c < senders c" "cells c (buffer_end c) = INTERRUPTED_SEND"
  obtains s where "full lst s" "cleaned_and_pointers s = cleaned_and_pointers (segs c)" "buffer_end c div 32 \<le> lst"
    "expand_loop (buffer_end_segment c) c = expand_loop (Some (buffer_end c div 32)) (c\<lparr>buffer_end := Suc (buffer_end c), segs := s,
      buffer_end_segment := Some (buffer_end c div 32), completed_expand_buffers := of_nat (Suc (buffer_end c))\<rparr>)"
proof -
  obtain s where s: "full lst s" "cleaned_and_pointers s = cleaned_and_pointers (segs c)" "buffer_end c div 32 \<le> lst"
    "expand_loop (buffer_end_segment c) c = bind_l (update_cell_expand_buffer (buffer_end c div 32) (buffer_end c mod 32) (buffer_end c))
      (\<lambda>ok. seq_l inc_completed_expand_buffer_attempts (if ok then return_l () else expand_loop (Some (buffer_end c div 32))))
      (c\<lparr>buffer_end := Suc (buffer_end c), segs := s, buffer_end_segment := Some (buffer_end c div 32)\<rparr>)"
    by (rule expand_cell_start [OF assms(1,2)])
  let ?c = "c\<lparr>buffer_end := Suc (buffer_end c), segs := s, buffer_end_segment := Some (buffer_end c div 32)\<rparr>"
  have u: "update_cell_expand_buffer (buffer_end c div 32) (buffer_end c mod 32) (buffer_end c) ?c = Some (Inr False, ?c)"
    using assms(3) by (simp add: update_cell_expand_buffer_def update_cell_expand_buffer_slow_def)
  have "inc_completed_expand_buffer_attempts ?c = Some (Inr (), ?c\<lparr>completed_expand_buffers := of_nat (Suc (buffer_end c))\<rparr>)"
    by (rule inc_completed_run) (use chan_invD(9) [OF assms(1)] chan_inv_bound [OF assms(1)] in simp_all)
  then show thesis using that [OF s(1-3)] unfolding s(4) by (simp add: bind_l_def seq_l_def u del: of_nat_Suc)
qed

lemma expand_admits:
  assumes "chan_inv 1 lst c" "buffer_end c < senders c" "cells c (buffer_end c) = Waiting (Send_Cont t)" "waiters c t = Suspended"
  obtains s where "full lst s" "cleaned_and_pointers s = cleaned_and_pointers (segs c)" "buffer_end c div 32 \<le> lst"
    "expand_loop (buffer_end_segment c) c = Some (Inr (), c\<lparr>buffer_end := Suc (buffer_end c), segs := s,
      buffer_end_segment := Some (buffer_end c div 32), cells := (cells c)(buffer_end c := BUFFERED), waiters := (waiters c)(t := Resumed),
      chan_log := chan_log c @ [Sender_Resumed t], completed_expand_buffers := of_nat (Suc (buffer_end c))\<rparr>)"
proof -
  obtain s where s: "full lst s" "cleaned_and_pointers s = cleaned_and_pointers (segs c)" "buffer_end c div 32 \<le> lst"
    "expand_loop (buffer_end_segment c) c = bind_l (update_cell_expand_buffer (buffer_end c div 32) (buffer_end c mod 32) (buffer_end c))
      (\<lambda>ok. seq_l inc_completed_expand_buffer_attempts (if ok then return_l () else expand_loop (Some (buffer_end c div 32))))
      (c\<lparr>buffer_end := Suc (buffer_end c), segs := s, buffer_end_segment := Some (buffer_end c div 32)\<rparr>)"
    by (rule expand_cell_start [OF assms(1,2)])
  let ?c = "c\<lparr>buffer_end := Suc (buffer_end c), segs := s, buffer_end_segment := Some (buffer_end c div 32)\<rparr>"
  let ?d = "?c\<lparr>cells := (cells c)(buffer_end c := BUFFERED), waiters := (waiters c)(t := Resumed), chan_log := chan_log c @ [Sender_Resumed t]\<rparr>"
  have u: "update_cell_expand_buffer (buffer_end c div 32) (buffer_end c mod 32) (buffer_end c) ?c = Some (Inr True, ?d)"
    using assms(3,4) chan_invD(11) [OF assms(1)]
    by (simp add: update_cell_expand_buffer_def resume_cell_for_buffer_def Let_def set_chan_cell_def try_resume_sender_def set_waiter_def
      log_event_def bind_l_def)
  have "inc_completed_expand_buffer_attempts ?d = Some (Inr (), ?d\<lparr>completed_expand_buffers := of_nat (Suc (buffer_end c))\<rparr>)"
    by (rule inc_completed_run) (use chan_invD(9) [OF assms(1)] chan_inv_bound [OF assms(1)] in simp_all)
  then show thesis using that [OF s(1-3)] unfolding s(4) by (simp add: bind_l_def seq_l_def u del: of_nat_Suc)
qed

lemma resumed_senders_simps [simp]:
  "resumed_senders [] = []" "resumed_senders (l @ [Sender_Resumed t]) = resumed_senders l @ [t]"
  "resumed_senders (l @ [Undelivered e]) = resumed_senders l"
  by (simp_all add: resumed_senders_def map_filter_simps)

lemma gone_same: "full lst s \<Longrightarrow> full lst s' \<Longrightarrow> cleaned_and_pointers s' g = cleaned_and_pointers s g \<Longrightarrow> gone s' g = gone s g"
  by (simp add: gone_def full_def)

text \<open>The invariant after the end of the buffer moved by one.\<close>


lemma expand_moved:
  assumes "chan_inv 1 lst c" "full lst s" "cleaned_and_pointers s = cleaned_and_pointers (segs c)" "h \<le> lst" "h \<le> Suc (buffer_end c) div 32"
    and c': "c' = c\<lparr>buffer_end := Suc (buffer_end c), segs := s, buffer_end_segment := Some h, completed_expand_buffers := of_nat (Suc (buffer_end c))\<rparr>"
  shows "buffer_end c < senders c \<Longrightarrow> cells c (buffer_end c) = INTERRUPTED_SEND \<Longrightarrow> chan_inv 1 lst c'"
    "senders c \<le> buffer_end c \<Longrightarrow> chan_inv 0 lst c'" "abs_chan c' = abs_chan c" "expand_frame c c'"
proof -
  note I = chan_invD [OF assms(1)]
  note G = segs_invD [OF I(1)]
  have "segs_inv lst c'" using G assms(2-5) gone_same [OF G(1) assms(2)] by (simp add: segs_inv_def c')
  moreover have "chan_cell_ok c' x" if "senders c \<le> buffer_end c \<or> cells c (buffer_end c) = INTERRUPTED_SEND" for x
    using I(3) [of x] I(11) that by (cases "x = buffer_end c") (auto simp: chan_cell_ok_def c' less_Suc_eq)
  moreover have "skipped c' = (if buffer_end c < senders c \<and> cells c (buffer_end c) = INTERRUPTED_SEND then insert (buffer_end c) (skipped c) else skipped c)"
    using I(11) by (auto simp: skipped_def c' less_Suc_eq)
  moreover have "buffer_end c \<notin> skipped c" by (simp add: skipped_def)
  ultimately show "buffer_end c < senders c \<Longrightarrow> cells c (buffer_end c) = INTERRUPTED_SEND \<Longrightarrow> chan_inv 1 lst c'"
    "senders c \<le> buffer_end c \<Longrightarrow> chan_inv 0 lst c'"
    using I by (simp_all add: chan_inv_def c' del: of_nat_Suc)
  show "abs_chan c' = abs_chan c" by (rule abs_same) (simp_all add: c')
  show "expand_frame c c'" using assms(3) by (simp add: expand_frame_def c')
qed

lemma expand_admitted:
  assumes "chan_inv 1 lst c" "full lst s" "cleaned_and_pointers s = cleaned_and_pointers (segs c)" "h \<le> lst" "h \<le> Suc (buffer_end c) div 32"
    and "buffer_end c < senders c" "cells c (buffer_end c) = Waiting (Send_Cont t)" "waiters c t = Suspended"
    and c': "c' = c\<lparr>buffer_end := Suc (buffer_end c), segs := s, buffer_end_segment := Some h, cells := (cells c)(buffer_end c := BUFFERED),
      waiters := (waiters c)(t := Resumed), chan_log := chan_log c @ [Sender_Resumed t], completed_expand_buffers := of_nat (Suc (buffer_end c))\<rparr>"
  shows "chan_inv 0 lst c'" "expand_frame c c'" "abs_chan c' = spec_admit (abs_chan c)"
proof -
  note I = chan_invD [OF assms(1)]
  note G = segs_invD [OF I(1)]
  have bx: "elems c (buffer_end c) \<noteq> None" "waiter_cell c t = buffer_end c"
    using I(3) [of "buffer_end c"] I(11) assms(6,7) by (auto simp: chan_cell_ok_def)
  have "segs_inv lst c'" using G assms(2-5) gone_same [OF G(1) assms(2)] G(3) [of "buffer_end c"] assms(7) by (simp add: segs_inv_def c')
  moreover have "chan_cell_ok c' x" for x
    using I(3) [of x] I(11) assms(6) bx by (cases "x = buffer_end c") (auto simp: chan_cell_ok_def c' less_Suc_eq)
  moreover have "skipped c' = skipped c" using assms(7) by (auto simp: skipped_def c' less_Suc_eq)
  moreover have "cells c' (waiter_cell c' u) = Waiting (Send_Cont u)" if "waiters c' u = Suspended" for u
    using I(4) [of u] assms(7) that by (auto simp: c' split: if_splits)
  ultimately show "chan_inv 0 lst c'" using I by (simp add: chan_inv_def c' del: of_nat_Suc)
  show "expand_frame c c'" using assms(3,7,8) by (simp add: expand_frame_def c')
  obtain e where e: "elems c (buffer_end c) = Some e" using bx(1) by blast
  have "pick (buf_at c') (senders c) = pick (buf_at c) (senders c) @ [e]"
  proof (rule pick_append [OF assms(6)])
    show "buf_at c x = None" if "buffer_end c \<le> x" "x < senders c" for x
      using I(3) [of x] I(11) that by (auto simp: chan_cell_ok_def buf_at_def)
    show "buf_at c' x = buf_at c x" if "x \<noteq> buffer_end c" for x by (rule at_cong(1)) (use that in \<open>simp_all add: c'\<close>)
  qed (use e in \<open>simp_all add: buf_at_def c'\<close>)
  moreover have "pick (wait_at c) (senders c) = (t, e) # pick (wait_at c') (senders c)"
  proof (rule pick_first [OF assms(6)])
    show "wait_at c x = None" if "x < buffer_end c" for x
      using I(3) [of x] that assms(6) by (auto simp: chan_cell_ok_def wait_at_def split: if_splits)
    show "wait_at c' x = wait_at c x" if "x \<noteq> buffer_end c" for x by (rule at_cong(2)) (use that in \<open>simp_all add: c'\<close>)
  qed (use e assms(7) in \<open>simp_all add: wait_at_def c'\<close>)
  ultimately show "abs_chan c' = spec_admit (abs_chan c)" by (simp add: abs_chan_def spec_admit_def c')
qed

lemma expand_loop_ok:
  assumes "chan_inv 1 lst c"
  shows "\<exists>c'. expand_loop (buffer_end_segment c) c = Some (Inr (), c') \<and> chan_inv 0 lst c' \<and> expand_frame c c' \<and>
    abs_chan c' = spec_admit (abs_chan c)"
  using assms
proof (induction "senders c - buffer_end c" arbitrary: c rule: less_induct)
  case less
  note I = chan_invD [OF less.prems]
  have le: "buffer_end c div 32 \<le> Suc (buffer_end c) div 32" by (simp add: div_le_mono)
  consider "senders c \<le> buffer_end c" | "buffer_end c < senders c" "cells c (buffer_end c) = INTERRUPTED_SEND"
    | t where "buffer_end c < senders c" "cells c (buffer_end c) = Waiting (Send_Cont t)" "waiters c t = Suspended"
    using I(3) [of "buffer_end c"] I(11) by (fastforce simp: chan_cell_ok_def split: if_splits)
  then show ?case
  proof cases
    case 1
    obtain g where g: "expand_loop (buffer_end_segment c) c = Some (Inr (), c\<lparr>buffer_end := Suc (buffer_end c),
      completed_expand_buffers := of_nat (Suc (buffer_end c)), buffer_end_segment := Some g\<rparr>)" "g \<le> lst" "g \<le> buffer_end c div 32"
      using expand_past_end [OF less.prems 1] by blast
    let ?c' = "c\<lparr>buffer_end := Suc (buffer_end c), segs := segs c, buffer_end_segment := Some g, completed_expand_buffers := of_nat (Suc (buffer_end c))\<rparr>"
    note m = expand_moved [OF less.prems segs_invD(1) [OF I(1)] refl g(2) order_trans [OF g(3) le], of ?c', OF refl]
    have "wait_at c x = None" if "x < senders c" for x
      using I(3) [of x] that 1 by (auto simp: chan_cell_ok_def wait_at_def split: if_splits)
    then have "spec_admit (abs_chan c) = abs_chan c" by (simp add: spec_admit_def abs_chan_def pick_Nil)
    moreover have "expand_loop (buffer_end_segment c) c = Some (Inr (), ?c')" using g(1) by simp
    ultimately show ?thesis using m(2-4) 1 by auto
  next
    case 2
    obtain s where s: "full lst s" "cleaned_and_pointers s = cleaned_and_pointers (segs c)" "buffer_end c div 32 \<le> lst"
      "expand_loop (buffer_end_segment c) c = expand_loop (Some (buffer_end c div 32)) (c\<lparr>buffer_end := Suc (buffer_end c), segs := s,
      buffer_end_segment := Some (buffer_end c div 32), completed_expand_buffers := of_nat (Suc (buffer_end c))\<rparr>)"
      by (rule expand_interrupted [OF less.prems 2])
    let ?c' = "c\<lparr>buffer_end := Suc (buffer_end c), segs := s, buffer_end_segment := Some (buffer_end c div 32),
      completed_expand_buffers := of_nat (Suc (buffer_end c))\<rparr>"
    note m = expand_moved [OF less.prems s(1-3) le, of ?c', OF refl]
    have "senders ?c' - buffer_end ?c' < senders c - buffer_end c" using 2 by simp
    from less.hyps [OF this m(1) [OF 2]] show ?thesis using s(4) m(3,4) expand_frame_trans [of c ?c'] by (auto simp del: of_nat_Suc)
  next
    case (3 t)
    obtain s where s: "full lst s" "cleaned_and_pointers s = cleaned_and_pointers (segs c)" "buffer_end c div 32 \<le> lst"
      "expand_loop (buffer_end_segment c) c = Some (Inr (), c\<lparr>buffer_end := Suc (buffer_end c), segs := s,
      buffer_end_segment := Some (buffer_end c div 32), cells := (cells c)(buffer_end c := BUFFERED), waiters := (waiters c)(t := Resumed),
      chan_log := chan_log c @ [Sender_Resumed t], completed_expand_buffers := of_nat (Suc (buffer_end c))\<rparr>)"
      by (rule expand_admits [OF less.prems 3])
    from expand_admitted [OF less.prems s(1-3) le 3 refl] s(4) show ?thesis by blast
  qed
qed

lemma expand_ok:
  assumes "chan_inv 1 lst c"
  shows "\<exists>c'. expand_buffer c = Some (Inr (), c') \<and> chan_inv 0 lst c' \<and> expand_frame c c' \<and> abs_chan c' = spec_admit (abs_chan c)"
  using expand_loop_ok [OF assms] chan_inv_bound(2) [OF assms] by (simp add: expand_buffer_def)

subsection \<open>Interrupted cells and cleaned slots\<close>

definition lost :: "'e chan \<Rightarrow> nat \<Rightarrow> nat" where
  "lost c g = card {i. i < 32 \<and> interrupted (cells c (g * 32 + i))}"

definition pointers_of :: "nat \<Rightarrow> 32 word" where
  "pointers_of g = (if g = 0 then push_bit 16 3 else 0)"

definition chan_slots_ok :: "nat \<Rightarrow> 'e chan \<Rightarrow> bool" where
  "chan_slots_ok lst c \<longleftrightarrow> (\<forall>g\<le>lst. cleaned_and_pointers (segs c) g = pointers_of g + of_nat (lost c g))"

lemma lost_same: "(\<And>x. interrupted (cells c' x) = interrupted (cells c x)) \<Longrightarrow> lost c' g = lost c g"
  by (simp add: lost_def)

lemma lost_interrupt:
  assumes "\<not> interrupted (cells c x)" "interrupted (cells c' x)" "\<And>y. y \<noteq> x \<Longrightarrow> interrupted (cells c' y) = interrupted (cells c y)"
  shows "lost c' g = (if g = x div 32 then Suc (lost c g) else lost c g)"
proof (cases "g = x div 32")
  case True
  have e: "g * 32 + i = x \<longleftrightarrow> i = x mod 32" for i
  proof -
    have "g * 32 + x mod 32 = x" by (simp add: True)
    then show ?thesis by linarith
  qed
  have "{i. i < 32 \<and> interrupted (cells c' (g * 32 + i))} = insert (x mod 32) {i. i < 32 \<and> interrupted (cells c (g * 32 + i))}"
    using assms e by (auto; metis)
  moreover have "g * 32 + x mod 32 = x" by (simp add: True)
  then have "x mod 32 \<notin> {i. i < 32 \<and> interrupted (cells c (g * 32 + i))}" using assms(1) by (simp del: cell_index)
  ultimately show ?thesis using True by (simp add: lost_def)
next
  case False
  have "g * 32 + i \<noteq> x" if "i < 32" for i using False that by auto
  then show ?thesis using False assms(3) by (auto simp: lost_def intro!: arg_cong [where f = card])
qed

lemma pointers_of_not_full: "k < 32 \<Longrightarrow> pointers_of g + of_nat k \<noteq> 32"
proof -
  assume k: "k < 32"
  have "pointers_of g + of_nat k = of_nat ((if g = 0 then 196608 else 0) + k)" by (simp add: pointers_of_def)
  moreover have "unat (of_nat ((if g = 0 then 196608 else 0) + k) :: 32 word) = (if g = 0 then 196608 else 0) + k"
    unfolding unat_of_nat using k by simp
  moreover have "(if g = 0 then 196608 else 0) + k \<noteq> unat (32 :: 32 word)" using k by simp
  ultimately show ?thesis by metis
qed

lemma cleaned_not_gone:
  assumes "full lst (segs c)" "chan_slots_ok lst c" "g \<le> lst" "lost c g < 32"
  shows "\<not> gone (segs c) g"
  using assms pointers_of_not_full [OF assms(4), of g] by (simp add: gone_def full_def chan_slots_ok_def)

text \<open>Cleaning the slot of a cell that was just interrupted.\<close>

lemma slot_cleaned_run:
  assumes "full lst (segs c)" "g \<le> lst" "cleaned_and_pointers (segs c) g = pointers_of g + of_nat k" "Suc k < 32"
  shows "seg_op (on_slot_cleaned g) c = Some (Inr (), c\<lparr>segs := (segs c)\<lparr>cleaned_and_pointers :=
    (cleaned_and_pointers (segs c))(g := pointers_of g + of_nat (Suc k))\<rparr>\<rparr>)"
proof -
  have "cleaned_and_pointers (segs c) g + 1 = pointers_of g + of_nat (Suc k)" using assms(3) by simp
  then show ?thesis using assms(1) pointers_of_not_full [OF assms(4), of g]
    by (simp add: seg_op_def on_slot_cleaned_def Let_def full_def del: of_nat_Suc)
qed

text \<open>The invariant between operations: all expansions done, all cleaned slots counted.\<close>

definition open_chan :: "nat \<Rightarrow> 'e chan \<Rightarrow> bool" where
  "open_chan lst c \<longleftrightarrow> chan_inv 0 lst c \<and> chan_slots_ok lst c"

text \<open>Room for one more operation: its counters stay small and no segment loses its last cell.\<close>

definition roomy :: "'e chan \<Rightarrow> bool" where
  "roomy c \<longleftrightarrow> (\<forall>g. lost c g < 31) \<and> capacity c + 2 * max (senders c) (receivers c) + 4 < 2 ^ 59"

subsection \<open>Looking up the segment of a cell\<close>

lemma cleaned_beyond:
  assumes "segs_inv lst c" "chan_slots_ok lst c"
    "cleaned_and_pointers s = (\<lambda>k. if lst < k \<and> k \<le> i then 0 else cleaned_and_pointers (segs c) k)" "g \<le> max lst i"
  shows "cleaned_and_pointers s g = pointers_of g + of_nat (lost c g)"
proof (cases "g \<le> lst")
  case False
  have "cells c (g * 32 + j) = Cell_Null" for j using segs_invD(3) [OF assms(1), of "g * 32 + j"] False by fastforce
  then have "lost c g = 0" by (simp add: lost_def interrupted_def)
  moreover have "0 < g" "lst < g" "g \<le> i" using False assms(4) by auto
  ultimately show ?thesis using assms(3) by (simp add: pointers_of_def)
qed (use assms in \<open>simp add: chan_slots_ok_def\<close>)

lemma find_send_run:
  assumes "full lst (segs c)" "g \<le> lst" "g \<le> i"
  shows "\<exists>s n. (if g \<noteq> i then find_segment_send i g else return_l (Some g)) c =
      Some (Inr (Some i), c\<lparr>segs := s, send_segment := n\<rparr>) \<and> full (max lst i) s \<and>
      cleaned_and_pointers s = (\<lambda>k. if lst < k \<and> k \<le> i then 0 else cleaned_and_pointers (segs c) k) \<and> n \<le> max (send_segment c) i"
proof (cases "g = i")
  case True
  then show ?thesis using assms by (intro exI [of _ "segs c"] exI [of _ "send_segment c"]) (auto simp: max_def fun_eq_iff)
next
  case False
  from walk_full [OF assms] obtain s where s: "walk_to (Some g) i (segs c) = Some (Inr (Some i), s)" "full (max lst i) s"
    "cleaned_and_pointers s = (\<lambda>k. if lst < k \<and> k \<le> i then 0 else cleaned_and_pointers (segs c) k)" by blast
  then show ?thesis using False
    by (intro exI [of _ s] exI [of _ "max (send_segment c) i"]) (simp add: find_segment_send_def seg_op_def bind_l_def)
qed

lemma find_receive_run:
  assumes "full lst (segs c)" "g \<le> lst" "g \<le> i"
  shows "\<exists>s n. (if g \<noteq> i then find_segment_receive i g else return_l (Some g)) c =
      Some (Inr (Some i), c\<lparr>segs := s, receive_segment := n\<rparr>) \<and> full (max lst i) s \<and>
      cleaned_and_pointers s = (\<lambda>k. if lst < k \<and> k \<le> i then 0 else cleaned_and_pointers (segs c) k) \<and> n \<le> max (receive_segment c) i"
proof (cases "g = i")
  case True
  then show ?thesis using assms by (intro exI [of _ "segs c"] exI [of _ "receive_segment c"]) (auto simp: max_def fun_eq_iff)
next
  case False
  from walk_full [OF assms] obtain s where s: "walk_to (Some g) i (segs c) = Some (Inr (Some i), s)" "full (max lst i) s"
    "cleaned_and_pointers s = (\<lambda>k. if lst < k \<and> k \<le> i then 0 else cleaned_and_pointers (segs c) k)" by blast
  then show ?thesis using False
    by (intro exI [of _ s] exI [of _ "max (receive_segment c) i"]) (simp add: find_segment_receive_def seg_op_def bind_l_def)
qed

lemma open_not_closed: "packed w n 0 \<Longrightarrow> is_closed dflt w b = return_l False"
  by (simp add: is_closed_def packed_status)

lemma lookup_kept:
  assumes "segs_inv lst c" "full (max lst i) s" "g \<le> max lst i"
    "cleaned_and_pointers s = (\<lambda>k. if lst < k \<and> k \<le> i then 0 else cleaned_and_pointers (segs c) k)"
  shows "\<not> gone s g"
proof (cases "g \<le> lst")
  case True
  then show ?thesis using segs_invD(1,2) [OF assms(1)] assms(2,4) by (auto simp: gone_def full_def)
next
  case False
  then have "lst < g" "g \<le> i" using assms(3) by auto
  then show ?thesis using assms(2,4) by (simp add: gone_def full_def)
qed

subsection \<open>Receiving\<close>


lemma receive_step:
  assumes inv: "chan_inv 0 lst c" and "capacity c + senders c + Suc (receivers c) < 2 ^ 59"
    and s: "full (max lst (receivers c div 32)) s"
      "cleaned_and_pointers s = (\<lambda>k. if lst < k \<and> k \<le> receivers c div 32 then 0 else cleaned_and_pointers (segs c) k)"
    and n: "n \<le> max (receive_segment c) (receivers c div 32)"
  shows receive_skipped: "receivers c < senders c \<Longrightarrow> cells c (receivers c) = INTERRUPTED_SEND \<Longrightarrow>
      chan_inv 0 lst (c\<lparr>receivers := Suc (receivers c), segs := s, receive_segment := n\<rparr>)"
    and receive_taken: "receivers c < senders c \<Longrightarrow> cells c (receivers c) = BUFFERED \<Longrightarrow>
      chan_inv 1 lst (c\<lparr>receivers := Suc (receivers c), segs := s, receive_segment := n, cells := (cells c)(receivers c := DONE_RCV)\<rparr>)"
    and receive_interrupted: "senders c \<le> receivers c \<Longrightarrow> chan_inv 1 (max lst (receivers c div 32))
      (c\<lparr>receivers := Suc (receivers c), segs := s, receive_segment := n, cells := (cells c)(receivers c := INTERRUPTED_RCV)\<rparr>)"
proof -
  note I = chan_invD [OF inv]
  note G = segs_invD [OF I(1)]
  let ?r = "receivers c" and ?l = "max lst (receivers c div 32)"
  have le: "?r div 32 \<le> Suc ?r div 32" by (simp add: div_le_mono)
  have n': "n \<le> ?l" "n \<le> Suc ?r div 32" using n G(6,7) le by auto
  have l: "?l = lst" if "?r < senders c"
  proof -
    have "cells c ?r \<noteq> Cell_Null" using I(3) [of ?r] that I(11) by (auto simp: chan_cell_ok_def split: if_splits)
    then have "?r div 32 < Suc lst" using G(3) [of ?r] by (intro less_mult_imp_div_less) (simp add: mult.commute)
    then show ?thesis by simp
  qed
  have b: "?r < buffer_end c" using I(5,7) by simp
  have kept: "\<forall>g\<le>?l. \<not> gone s g" using lookup_kept [OF I(1) s(1) _ s(2)] by blast
  have cl: "x < 32 * Suc ?l" if "cells c x \<noteq> Cell_Null \<or> x = ?r" for x
    using G(3) [of x] that by (auto simp: less_max_iff_disj)
  have segs: "segs_inv ?l (c\<lparr>receivers := Suc ?r, segs := s, receive_segment := n\<rparr>)"
    "segs_inv ?l (c\<lparr>receivers := Suc ?r, segs := s, receive_segment := n, cells := (cells c)(?r := v)\<rparr>)" for v
    using G(4,5,8) s(1) kept n' cl by (auto simp: segs_inv_def)
  {
    assume lt: "?r < senders c" and v: "cells c ?r = INTERRUPTED_SEND"
    let ?c = "c\<lparr>receivers := Suc ?r, segs := s, receive_segment := n\<rparr>"
    have "skipped c = insert ?r (skipped ?c)" "?r \<notin> skipped ?c" using lt v b by (auto simp: skipped_def)
    then have "card (skipped c) = Suc (card (skipped ?c))" by simp
    moreover have "chan_cell_ok ?c x" for x using I(3) [of x] lt v by (auto simp: chan_cell_ok_def less_Suc_eq split: if_splits)
    ultimately show "chan_inv 0 lst ?c" using I assms(2) segs(1) l [OF lt] by (simp add: chan_inv_def)
  }
  {
    assume lt: "?r < senders c" and v: "cells c ?r = BUFFERED"
    let ?c = "c\<lparr>receivers := Suc ?r, segs := s, receive_segment := n, cells := (cells c)(?r := DONE_RCV)\<rparr>"
    have "skipped ?c = skipped c" using v by (auto simp: skipped_def less_Suc_eq_le)
    moreover have "chan_cell_ok ?c x" for x using I(3) [of x] lt by (auto simp: chan_cell_ok_def less_Suc_eq split: if_splits)
    moreover have "cells ?c (waiter_cell ?c t) = Waiting (Send_Cont t)" if "waiters ?c t = Suspended" for t
      using I(4) [of t] that v by auto
    ultimately show "chan_inv 1 lst ?c" using I assms(2) segs(2) l [OF lt] by (simp add: chan_inv_def)
  }
  {
    assume ge: "senders c \<le> ?r"
    let ?c = "c\<lparr>receivers := Suc ?r, segs := s, receive_segment := n, cells := (cells c)(?r := INTERRUPTED_RCV)\<rparr>"
    have "cells c ?r = Cell_Null" using I(3) [of ?r] ge by (simp add: chan_cell_ok_def)
    moreover have "skipped ?c = {}" "skipped c = {}" using ge by (auto simp: skipped_def)
    moreover have "chan_cell_ok ?c x" for x using I(3) [of x] ge by (auto simp: chan_cell_ok_def less_Suc_eq split: if_splits)
    moreover have "cells ?c (waiter_cell ?c t) = Waiting (Send_Cont t)" if "waiters ?c t = Suspended" for t
      using I(4) [of t] that \<open>cells c ?r = Cell_Null\<close> by auto
    ultimately show "chan_inv 1 ?l ?c" using I assms(2) segs(2) by (simp add: chan_inv_def)
  }
qed

text \<open>Fields that neither the invariant nor the abstraction depends on.\<close>

lemma clean_prev_run [simp]: "chan_clean_prev h c = Some (Inr (), c\<lparr>segs := clean_prev h (segs c)\<rparr>)"
  by (simp add: chan_clean_prev_def)

lemma chan_cell_ok_cong:
  assumes "senders c' = senders c" "receivers c' = receivers c" "buffer_end c' = buffer_end c" "waiters c' = waiters c"
    "waiter_cell c' = waiter_cell c" "cells c' x = cells c x" "elems c' x = elems c x"
  shows "chan_cell_ok c' x = chan_cell_ok c x"
  unfolding chan_cell_ok_def assms ..

lemma clean_prev_open:
  assumes "chan_inv k lst c"
  shows "chan_inv k lst (c\<lparr>segs := clean_prev h (segs c)\<rparr>)"
    "chan_slots_ok lst (c\<lparr>segs := clean_prev h (segs c)\<rparr>) = chan_slots_ok lst c"
    "abs_chan (c\<lparr>segs := clean_prev h (segs c)\<rparr>) = abs_chan c"
proof -
  have "skipped (c\<lparr>segs := clean_prev h (segs c)\<rparr>) = skipped c" by (simp add: skipped_def)
  moreover have "chan_cell_ok (c\<lparr>segs := clean_prev h (segs c)\<rparr>) x = chan_cell_ok c x" for x by (rule chan_cell_ok_cong) simp_all
  moreover have "full lst (clean_prev h s) = full lst s" "gone (clean_prev h s) g = gone s g" for s g
    by (simp_all add: full_def gone_def clean_prev_def)
  ultimately show "chan_inv k lst (c\<lparr>segs := clean_prev h (segs c)\<rparr>)"
    using assms by (simp add: chan_inv_def segs_inv_def)
  show "chan_slots_ok lst (c\<lparr>segs := clean_prev h (segs c)\<rparr>) = chan_slots_ok lst c"
    by (simp add: chan_slots_ok_def lost_def clean_prev_def)
  show "abs_chan (c\<lparr>segs := clean_prev h (segs c)\<rparr>) = abs_chan c" by (rule abs_same) simp_all
qed

lemma abs_clean_element:
  assumes "cells c x \<noteq> BUFFERED" "\<And>w. cells c x \<noteq> Waiting w"
  shows "abs_chan (clean_element x c) = abs_chan c"
proof -
  have "buf_at (clean_element x c) y = buf_at c y" "wait_at (clean_element x c) y = wait_at c y" for y
  proof -
    show "buf_at (clean_element x c) y = buf_at c y"
      using assms by (cases "y = x") (auto intro: at_cong simp: clean_element_def buf_at_def)
    show "wait_at (clean_element x c) y = wait_at c y"
    proof (cases "y = x")
      case True
      have "wait_at c' x = None" if "cells c' x = cells c x" for c' :: "'a chan"
      proof (cases "cells c x")
        case (Waiting w)
        then show ?thesis using assms(2) [of w] by simp
      qed (use that in \<open>simp_all add: wait_at_def\<close>)
      then show ?thesis using True by (simp add: clean_element_def)
    qed (auto intro: at_cong simp: clean_element_def)
  qed
  then have "buf_at (clean_element x c) = buf_at c" "wait_at (clean_element x c) = wait_at c" by auto
  then show ?thesis by (simp add: abs_chan_def clean_element_def)
qed

lemma clean_element_open:
  assumes "chan_inv k lst c" "cells c x \<noteq> BUFFERED" "\<And>w. cells c x \<noteq> Waiting w"
  shows "chan_inv k lst (clean_element x c)" "chan_slots_ok lst (clean_element x c) = chan_slots_ok lst c"
proof -
  have "chan_cell_ok (clean_element x c) y" for y
    using chan_invD(3) [OF assms(1), of y] assms(2,3) by (cases "y = x") (auto simp: chan_cell_ok_def clean_element_def split: if_splits)
  moreover have "skipped (clean_element x c) = skipped c" by (simp add: skipped_def clean_element_def)
  ultimately show "chan_inv k lst (clean_element x c)"
    using assms(1) by (simp add: chan_inv_def segs_inv_def clean_element_def)
  show "chan_slots_ok lst (clean_element x c) = chan_slots_ok lst c" by (simp add: chan_slots_ok_def lost_def clean_element_def)
qed

lemma receive_start:
  assumes "chan_inv 0 lst c" "g \<le> lst" "g \<le> receivers c div 32"
  obtains s n where "full (max lst (receivers c div 32)) s"
    "cleaned_and_pointers s = (\<lambda>k. if lst < k \<and> k \<le> receivers c div 32 then 0 else cleaned_and_pointers (segs c) k)"
    "n \<le> max (receive_segment c) (receivers c div 32)"
    "receive_impl_try_receive dflt (Some g) c =
      bind_l (update_cell_receive dflt (receivers c div 32) (receivers c mod 32) (receivers c) (Some INTERRUPTED_RCV)) (\<lambda>result. case result of
               R_Suspend \<Rightarrow> seq_l (wait_expand_buffer_completion (receivers c)) (seq_l (seg_op (on_slot_cleaned (receivers c div 32))) (return_l Channel_Failed))
             | R_Failed \<Rightarrow> seq_l (read_l (\<lambda>c'. if receivers c < senders c' then chan_clean_prev (receivers c div 32) else return_l ()))
                 (receive_impl_try_receive dflt (Some (receivers c div 32)))
             | R_Element e \<Rightarrow> seq_l (chan_clean_prev (receivers c div 32)) (return_l (Channel_Value e))
             | R_Suspend_No_Waiter \<Rightarrow> seq_l (chan_clean_prev (receivers c div 32)) (throw_l Undefined_Behaviour))
        (c\<lparr>receivers := Suc (receivers c), segs := s, receive_segment := n\<rparr>)"
proof -
  note I = chan_invD [OF assms(1)]
  let ?c = "c\<lparr>receivers := Suc (receivers c)\<rparr>"
  have "full lst (segs ?c)" using segs_invD(1) [OF I(1)] by simp
  from find_receive_run [OF this assms(2,3)] obtain s n where s:
    "(if g \<noteq> receivers c div 32 then find_segment_receive (receivers c div 32) g else return_l (Some g)) ?c =
      Some (Inr (Some (receivers c div 32)), ?c\<lparr>segs := s, receive_segment := n\<rparr>)" "full (max lst (receivers c div 32)) s"
    "cleaned_and_pointers s = (\<lambda>k. if lst < k \<and> k \<le> receivers c div 32 then 0 else cleaned_and_pointers (segs ?c) k)"
    "n \<le> max (receive_segment ?c) (receivers c div 32)" by blast
  have s': "cleaned_and_pointers s = (\<lambda>k. if lst < k \<and> k \<le> receivers c div 32 then 0 else cleaned_and_pointers (segs c) k)"
    "n \<le> max (receive_segment c) (receivers c div 32)" using s(3,4) by (auto simp: fun_eq_iff)
  show thesis
    by (rule that [OF s(2) s'], subst receive_impl_try_receive.simps)
      (simp add: bind_l_def [of "is_closed_for_receive dflt"] is_closed_for_receive_def open_not_closed [OF I(2)]
        bind_l_def [of fetch_add_receivers] fetch_add_receivers_def Let_def
        bind_l_def [of "if g \<noteq> receivers c div 32 then find_segment_receive (receivers c div 32) g else return_l (Some g)"] s(1))
qed

end
