(* ===== verification/Channel_Refinement.thy ===== *)
theory Channel_Refinement
  imports Channel_Queue
begin

text \<open>
  The operations of an open buffered channel refine those of the bounded queue of
  \<open>Channel_Queue\<close>.
\<close>

subsection \<open>Receiving\<close>

text \<open>What an operation leaves alone: the capacity, and the numbers no sender has used yet.\<close>

definition op_frame :: "'e chan \<Rightarrow> 'e chan \<Rightarrow> bool" where
  "op_frame c c' \<longleftrightarrow> capacity c' = capacity c \<and> on_undelivered c' = on_undelivered c \<and> (\<forall>t. waiters c t = No_Waiter \<longrightarrow> waiters c' t = No_Waiter)"

lemma expand_op_frame: "expand_frame c c' \<Longrightarrow> op_frame c c'"
  unfolding expand_frame_def op_frame_def by (metis chan_waiter_state.distinct(1))

lemma expand_interrupted_same: "expand_frame c c' \<Longrightarrow> interrupted (cells c' x) = interrupted (cells c x)"
  unfolding expand_frame_def interrupted_def by (metis chan_cell.distinct)

lemma expand_cell_same: "expand_frame c c' \<Longrightarrow> (\<And>w. cells c x \<noteq> Waiting w) \<Longrightarrow> cells c' x = cells c x"
  by (auto simp: expand_frame_def)

lemma abs_receive_taken:
  assumes "receivers c < senders c" "cells c (receivers c) = BUFFERED" "elems c (receivers c) = Some e"
    "\<And>x. x < receivers c \<Longrightarrow> cells c x \<noteq> BUFFERED"
    and c': "c' = c\<lparr>receivers := r, segs := s, receive_segment := n, cells := (cells c)(receivers c := DONE_RCV)\<rparr>"
  shows "buffer (abs_chan c) = e # buffer (abs_chan c')" "waiting (abs_chan c') = waiting (abs_chan c)"
    "resumed (abs_chan c') = resumed (abs_chan c)"
proof -
  have "pick (buf_at c) (senders c) = e # pick (buf_at c') (senders c)"
  proof (rule pick_first [OF assms(1)])
    show "buf_at c' x = buf_at c x" if "x \<noteq> receivers c" for x by (rule at_cong(1)) (use that in \<open>simp_all add: c'\<close>)
  qed (use assms(2-4) in \<open>simp_all add: buf_at_def c'\<close>)
  then show "buffer (abs_chan c) = e # buffer (abs_chan c')" by (simp add: abs_chan_def c')
  have "wait_at c' x = wait_at c x" for x
  proof (cases "x = receivers c")
    case True
    then show ?thesis using assms(2) by (simp add: wait_at_def c')
  qed (auto intro!: at_cong(2) simp: c')
  then have "wait_at c' = wait_at c" by auto
  then show "waiting (abs_chan c') = waiting (abs_chan c)" by (simp add: abs_chan_def c')
qed (simp add: abs_chan_def c')

lemma spec_admit_buffer:
  "buffer q = e # buffer q' \<Longrightarrow> waiting q' = waiting q \<Longrightarrow> resumed q' = resumed q \<Longrightarrow>
    spec_try_receive q = (Channel_Value e, spec_admit q')"
  by (cases q; cases q') (simp add: spec_try_receive_def)

lemma roomy_small:
  assumes "roomy c"
  shows "capacity c + senders c + Suc (receivers c) < 2 ^ 59" "capacity c + Suc (senders c) + receivers c < 2 ^ 59"
    "senders c + 1 < 2 ^ 60"
proof -
  have "senders c + receivers c \<le> 2 * max (senders c) (receivers c)" by (simp add: max_def)
  then show "capacity c + senders c + Suc (receivers c) < 2 ^ 59" "capacity c + Suc (senders c) + receivers c < 2 ^ 59"
    "senders c + 1 < 2 ^ 60" using assms by (simp_all add: roomy_def)
qed

lemma segs_swap:
  assumes "chan_inv k lst c" "full lst s" "\<And>g. g \<le> lst \<Longrightarrow> \<not> gone s g"
  shows "chan_inv k lst (c\<lparr>segs := s\<rparr>)" "abs_chan (c\<lparr>segs := s\<rparr>) = abs_chan c"
proof -
  have "skipped (c\<lparr>segs := s\<rparr>) = skipped c" by (simp add: skipped_def)
  moreover have "chan_cell_ok (c\<lparr>segs := s\<rparr>) x = chan_cell_ok c x" for x by (rule chan_cell_ok_cong) simp_all
  ultimately show "chan_inv k lst (c\<lparr>segs := s\<rparr>)" using assms by (simp add: chan_inv_def segs_inv_def)
  show "abs_chan (c\<lparr>segs := s\<rparr>) = abs_chan c" by (rule abs_same) simp_all
qed

lemma receive_taken_ok:
  assumes inv: "open_chan lst c" and room: "roomy c" and g: "g \<le> lst" "g \<le> receivers c div 32"
    and lt: "receivers c < senders c" and cell: "cells c (receivers c) = BUFFERED"
  shows "\<exists>c' r. receive_impl_try_receive dflt (Some g) c = Some (Inr r, c') \<and> open_chan lst c' \<and>
    (r, abs_chan c') = spec_try_receive (abs_chan c) \<and> op_frame c c'"
proof -
  have I0: "chan_inv 0 lst c" and C0: "chan_slots_ok lst c" using inv by (simp_all add: open_chan_def)
  note I = chan_invD [OF I0]
  let ?r = "receivers c"
  obtain e where e: "elems c ?r = Some e" using I(3) [of ?r] lt cell by (auto simp: chan_cell_ok_def)
  have small: "capacity c + senders c + Suc ?r < 2 ^ 59" using roomy_small [OF room] by simp
  obtain s n where s: "full (max lst (?r div 32)) s"
    "cleaned_and_pointers s = (\<lambda>k. if lst < k \<and> k \<le> ?r div 32 then 0 else cleaned_and_pointers (segs c) k)"
    "n \<le> max (receive_segment c) (?r div 32)"
    and run: "receive_impl_try_receive dflt (Some g) c =
      bind_l (update_cell_receive dflt (?r div 32) (?r mod 32) ?r (Some INTERRUPTED_RCV)) (\<lambda>result. case result of
               R_Suspend \<Rightarrow> seq_l (wait_expand_buffer_completion ?r) (seq_l (seg_op (on_slot_cleaned (?r div 32))) (return_l Channel_Failed))
             | R_Failed \<Rightarrow> seq_l (read_l (\<lambda>c'. if ?r < senders c' then chan_clean_prev (?r div 32) else return_l ()))
                 (receive_impl_try_receive dflt (Some (?r div 32)))
             | R_Element e \<Rightarrow> seq_l (chan_clean_prev (?r div 32)) (return_l (Channel_Value e))
             | R_Suspend_No_Waiter \<Rightarrow> seq_l (chan_clean_prev (?r div 32)) (throw_l Undefined_Behaviour))
        (c\<lparr>receivers := Suc ?r, segs := s, receive_segment := n\<rparr>)"
    by (rule receive_start [OF I0 g])
  let ?c2 = "c\<lparr>receivers := Suc ?r, segs := s, receive_segment := n\<rparr>"
  let ?c3 = "?c2\<lparr>cells := (cells c)(?r := DONE_RCV)\<rparr>"
  have i3: "chan_inv 1 lst ?c3" by (rule receive_taken [OF I0 small s lt cell])
  obtain c4 where c4: "expand_buffer ?c3 = Some (Inr (), c4)" "chan_inv 0 lst c4" "expand_frame ?c3 c4"
    "abs_chan c4 = spec_admit (abs_chan ?c3)" using expand_ok [OF i3] by blast
  have cell4: "cells c4 ?r = DONE_RCV" "elems c4 ?r = Some e"
    using c4(3) e expand_cell_same [OF c4(3), of ?r] by (simp_all add: expand_frame_def)
  have u: "update_cell_receive dflt (?r div 32) (?r mod 32) ?r (Some INTERRUPTED_RCV) ?c2 = Some (Inr (R_Element e), clean_element ?r c4)"
    using cell c4(1) cell4(2)
    by (simp add: update_cell_receive_def Let_def receive_buffered_def set_chan_cell_def seq_l_def bind_l_def take_element_def get_element_def)
  let ?c5 = "clean_element ?r c4"
  let ?c6 = "?c5\<lparr>segs := clean_prev (?r div 32) (segs ?c5)\<rparr>"
  have x5: "cells c4 ?r \<noteq> BUFFERED" "cells c4 ?r \<noteq> Waiting w" for w using cell4 by simp_all
  have "chan_slots_ok lst c4" unfolding chan_slots_ok_def
  proof (intro allI impI)
    fix k assume k: "k \<le> lst"
    have "cleaned_and_pointers (segs c4) k = cleaned_and_pointers s k" using c4(3) by (simp add: expand_frame_def)
    moreover have "lost c4 k = lost c k"
      by (rule lost_same) (use expand_interrupted_same [OF c4(3)] cell in \<open>simp add: interrupted_def\<close>)
    ultimately show "cleaned_and_pointers (segs c4) k = pointers_of k + of_nat (lost c4 k)"
      using cleaned_beyond [OF I(1) C0 s(2), of k] k by simp
  qed
  then have o6: "open_chan lst ?c6"
    using clean_element_open [OF c4(2) x5] clean_prev_open(1,2) [of 0 lst ?c5] by (simp add: open_chan_def)
  have "abs_chan ?c6 = spec_admit (abs_chan ?c3)"
    using clean_prev_open(3) [OF clean_element_open(1) [OF c4(2) x5]] abs_clean_element [OF x5] c4(4) by simp
  moreover have "cells c x \<noteq> BUFFERED" if "x < ?r" for x using I(3) [of x] that lt by (auto simp: chan_cell_ok_def)
  ultimately have "(Channel_Value e, abs_chan ?c6) = spec_try_receive (abs_chan c)"
    using spec_admit_buffer abs_receive_taken [OF lt cell e _ refl] by metis
  moreover have "op_frame c ?c6" using expand_op_frame [OF c4(3)] by (simp add: op_frame_def clean_element_def)
  moreover have "receive_impl_try_receive dflt (Some g) c = Some (Inr (Channel_Value e), ?c6)"
    unfolding run by (simp add: bind_l_def u seq_l_def)
  ultimately show ?thesis using o6 by blast
qed

text \<open>A channel whose cells before the receiver are all used up has no waiting sender either.\<close>

lemma abs_exhausted:
  assumes "chan_inv k lst c" "senders c \<le> receivers c"
  shows "buffer (abs_chan c) = []" "waiting (abs_chan c) = []"
proof -
  note I = chan_invD [OF assms(1)]
  have "buf_at c x = None" "wait_at c x = None" if "x < senders c" for x
    using I(3) [of x] that assms(2) by (auto simp: chan_cell_ok_def buf_at_def wait_at_def)
  then show "buffer (abs_chan c) = []" "waiting (abs_chan c) = []" by (simp_all add: abs_chan_def pick_Nil)
qed

lemma abs_interrupt_end:
  assumes "cells c x = Cell_Null" "v = INTERRUPTED_RCV \<or> v = INTERRUPTED_SEND" "senders c' = senders c" "elems c' = elems c"
    "cells c' = (cells c)(x := v)" "chan_log c' = chan_log c"
  shows "abs_chan c' = abs_chan c"
proof -
  have "buf_at c' y = buf_at c y \<and> wait_at c' y = wait_at c y" for y
  proof (cases "y = x")
    case True
    then show ?thesis using assms by (auto simp: buf_at_def wait_at_def)
  qed (use assms in \<open>auto intro!: at_cong\<close>)
  then have "buf_at c' = buf_at c" "wait_at c' = wait_at c" by auto
  then show ?thesis using assms by (simp add: abs_chan_def)
qed

lemma receive_interrupted_ok:
  assumes inv: "open_chan lst c" and room: "roomy c" and g: "g \<le> lst" "g \<le> receivers c div 32"
    and ge: "senders c \<le> receivers c"
  shows "\<exists>c' lst'. receive_impl_try_receive dflt (Some g) c = Some (Inr Channel_Failed, c') \<and> open_chan lst' c' \<and>
    abs_chan c' = abs_chan c \<and> op_frame c c'"
proof -
  have I0: "chan_inv 0 lst c" and C0: "chan_slots_ok lst c" using inv by (simp_all add: open_chan_def)
  note I = chan_invD [OF I0]
  let ?r = "receivers c" and ?l = "max lst (receivers c div 32)"
  have cell: "cells c ?r = Cell_Null" using I(3) [of ?r] ge by (simp add: chan_cell_ok_def)
  obtain s n where s: "full ?l s"
    "cleaned_and_pointers s = (\<lambda>k. if lst < k \<and> k \<le> ?r div 32 then 0 else cleaned_and_pointers (segs c) k)"
    "n \<le> max (receive_segment c) (?r div 32)"
    and run: "receive_impl_try_receive dflt (Some g) c =
      bind_l (update_cell_receive dflt (?r div 32) (?r mod 32) ?r (Some INTERRUPTED_RCV)) (\<lambda>result. case result of
               R_Suspend \<Rightarrow> seq_l (wait_expand_buffer_completion ?r) (seq_l (seg_op (on_slot_cleaned (?r div 32))) (return_l Channel_Failed))
             | R_Failed \<Rightarrow> seq_l (read_l (\<lambda>c'. if ?r < senders c' then chan_clean_prev (?r div 32) else return_l ()))
                 (receive_impl_try_receive dflt (Some (?r div 32)))
             | R_Element e \<Rightarrow> seq_l (chan_clean_prev (?r div 32)) (return_l (Channel_Value e))
             | R_Suspend_No_Waiter \<Rightarrow> seq_l (chan_clean_prev (?r div 32)) (throw_l Undefined_Behaviour))
        (c\<lparr>receivers := Suc ?r, segs := s, receive_segment := n\<rparr>)"
    by (rule receive_start [OF I0 g])
  let ?c2 = "c\<lparr>receivers := Suc ?r, segs := s, receive_segment := n\<rparr>"
  let ?c3 = "?c2\<lparr>cells := (cells c)(?r := INTERRUPTED_RCV)\<rparr>"
  have i3: "chan_inv 1 ?l ?c3" by (rule receive_interrupted [OF I0 roomy_small(1) [OF room] s ge])
  obtain c4 where c4: "expand_buffer ?c3 = Some (Inr (), c4)" "chan_inv 0 ?l c4" "expand_frame ?c3 c4"
    "abs_chan c4 = spec_admit (abs_chan ?c3)" using expand_ok [OF i3] by blast
  note I4 = chan_invD [OF c4(2)]
  have u: "update_cell_receive dflt (?r div 32) (?r mod 32) ?r (Some INTERRUPTED_RCV) ?c2 = Some (Inr R_Suspend, c4)"
    using cell c4(1) ge by (simp add: update_cell_receive_def Let_def set_chan_cell_def seq_l_def bind_l_def)
  have "receivers c4 = Suc ?r" "capacity c4 = capacity c" using c4(3) by (simp_all add: expand_frame_def)
  then have "?r < buffer_end c4" using I4(5) I(7) by simp
  then have w: "wait_expand_buffer_completion ?r c4 = Some (Inr (), c4)"
    using chan_inv_bound [OF c4(2)] I4(9) by (simp add: wait_expand_buffer_completion_def eb_counter)
  have cl4: "cleaned_and_pointers (segs c4) k = pointers_of k + of_nat (lost c k)" if "k \<le> ?l" for k
    using c4(3) cleaned_beyond [OF I(1) C0 s(2) that] by (simp add: expand_frame_def)
  let ?k = "?r div 32"
  have lk: "Suc (lost c ?k) < 32" using room by (auto simp: roomy_def)
  have kl: "?k \<le> ?l" by simp
  have f4: "full ?l (segs c4)" by (rule segs_invD(1) [OF I4(1)])
  let ?s5 = "(segs c4)\<lparr>cleaned_and_pointers := (cleaned_and_pointers (segs c4))(?k := pointers_of ?k + of_nat (Suc (lost c ?k)))\<rparr>"
  have sl: "seg_op (on_slot_cleaned ?k) c4 = Some (Inr (), c4\<lparr>segs := ?s5\<rparr>)"
    by (rule slot_cleaned_run [OF f4 kl cl4 [OF kl] lk])
  have l5: "lost c4 j = (if j = ?k then Suc (lost c j) else lost c j)" for j
  proof -
    have "lost c4 j = lost ?c3 j" by (rule lost_same) (rule expand_interrupted_same [OF c4(3)])
    also have "\<dots> = (if j = ?k then Suc (lost c j) else lost c j)"
      by (rule lost_interrupt) (use cell in \<open>auto simp: interrupted_def\<close>)
    finally show ?thesis .
  qed
  have cok: "chan_slots_ok ?l (c4\<lparr>segs := ?s5\<rparr>)" unfolding chan_slots_ok_def
  proof (intro allI impI)
    fix j assume "j \<le> ?l"
    moreover have "lost (c4\<lparr>segs := ?s5\<rparr>) j = lost c4 j" by (simp add: lost_def)
    ultimately show "cleaned_and_pointers (segs (c4\<lparr>segs := ?s5\<rparr>)) j = pointers_of j + of_nat (lost (c4\<lparr>segs := ?s5\<rparr>) j)"
      using cl4 [of j] l5 [of j] by (simp del: of_nat_Suc)
  qed
  have f5: "full ?l ?s5" using f4 by (simp add: full_def)
  have "\<not> gone ?s5 j" if "j \<le> ?l" for j
  proof -
    have "lost c4 j < 32" using l5 [of j] lk room by (auto simp: roomy_def intro: less_trans [of _ 31])
    then have "lost (c4\<lparr>segs := ?s5\<rparr>) j < 32" by (simp add: lost_def)
    from cleaned_not_gone [OF _ cok that this] f5 show ?thesis by simp
  qed
  note sw = segs_swap [OF c4(2) f5 this]
  have "abs_chan ?c3 = abs_chan c" by (rule abs_interrupt_end [OF cell, of INTERRUPTED_RCV]) simp_all
  then have "abs_chan (c4\<lparr>segs := ?s5\<rparr>) = abs_chan c" using sw(2) c4(4) abs_exhausted(2) [OF I0 ge] by (simp add: spec_admit_def)
  moreover have "receive_impl_try_receive dflt (Some g) c = Some (Inr Channel_Failed, c4\<lparr>segs := ?s5\<rparr>)"
    unfolding run by (simp add: bind_l_def u seq_l_def w sl)
  moreover have "op_frame c (c4\<lparr>segs := ?s5\<rparr>)" using expand_op_frame [OF c4(3)] by (simp add: op_frame_def)
  ultimately show ?thesis using sw(1) cok by (auto simp: open_chan_def)
qed

lemma receive_loop_ok:
  assumes "open_chan lst c" "roomy c" "g \<le> lst" "g \<le> receivers c div 32"
  shows "\<exists>c' lst' r. receive_impl_try_receive dflt (Some g) c = Some (Inr r, c') \<and> open_chan lst' c' \<and>
    (r, abs_chan c') = spec_try_receive (abs_chan c) \<and> op_frame c c'"
  using assms
proof (induction "senders c - receivers c" arbitrary: c g rule: less_induct)
  case less
  have I0: "chan_inv 0 lst c" and C0: "chan_slots_ok lst c" using less.prems(1) by (simp_all add: open_chan_def)
  note I = chan_invD [OF I0]
  let ?r = "receivers c"
  consider "senders c \<le> ?r" | "?r < senders c" "cells c ?r = BUFFERED" | "?r < senders c" "cells c ?r = INTERRUPTED_SEND"
    using I(3) [of ?r] I(5,7) by (fastforce simp: chan_cell_ok_def split: if_splits)
  then show ?case
  proof cases
    case 1
    have "spec_try_receive (abs_chan c) = (Channel_Failed, abs_chan c)" using abs_exhausted(1) [OF I0 1] by (simp add: spec_try_receive_def)
    then show ?thesis using receive_interrupted_ok [OF less.prems 1, of dflt] by auto
  next
    case 2
    from receive_taken_ok [OF less.prems 2, of dflt] show ?thesis by blast
  next
    case 3
    obtain s n where s: "full (max lst (?r div 32)) s"
      "cleaned_and_pointers s = (\<lambda>k. if lst < k \<and> k \<le> ?r div 32 then 0 else cleaned_and_pointers (segs c) k)"
      "n \<le> max (receive_segment c) (?r div 32)"
      and run: "receive_impl_try_receive dflt (Some g) c =
      bind_l (update_cell_receive dflt (?r div 32) (?r mod 32) ?r (Some INTERRUPTED_RCV)) (\<lambda>result. case result of
               R_Suspend \<Rightarrow> seq_l (wait_expand_buffer_completion ?r) (seq_l (seg_op (on_slot_cleaned (?r div 32))) (return_l Channel_Failed))
             | R_Failed \<Rightarrow> seq_l (read_l (\<lambda>c'. if ?r < senders c' then chan_clean_prev (?r div 32) else return_l ()))
                 (receive_impl_try_receive dflt (Some (?r div 32)))
             | R_Element e \<Rightarrow> seq_l (chan_clean_prev (?r div 32)) (return_l (Channel_Value e))
             | R_Suspend_No_Waiter \<Rightarrow> seq_l (chan_clean_prev (?r div 32)) (throw_l Undefined_Behaviour))
        (c\<lparr>receivers := Suc ?r, segs := s, receive_segment := n\<rparr>)"
      by (rule receive_start [OF I0 less.prems(3,4)])
    let ?c2 = "c\<lparr>receivers := Suc ?r, segs := s, receive_segment := n\<rparr>"
    let ?c3 = "?c2\<lparr>segs := clean_prev (?r div 32) s\<rparr>"
    have i2: "chan_inv 0 lst ?c2" by (rule receive_skipped [OF I0 roomy_small(1) [OF less.prems(2)] s 3])
    note cp = clean_prev_open [OF i2, of "?r div 32"]
    have u: "update_cell_receive dflt (?r div 32) (?r mod 32) ?r (Some INTERRUPTED_RCV) ?c2 = Some (Inr R_Failed, ?c2)"
      using 3(2) by (simp add: update_cell_receive_def update_cell_receive_slow_def Let_def)
    have step: "receive_impl_try_receive dflt (Some g) c = receive_impl_try_receive dflt (Some (?r div 32)) ?c3"
      unfolding run using 3(1) by (simp add: bind_l_def u seq_l_def)
    have "chan_slots_ok lst ?c2" using cleaned_beyond [OF I(1) C0 s(2)] by (simp add: chan_slots_ok_def lost_def)
    then have o3: "open_chan lst ?c3" using cp(1,2) by (simp add: open_chan_def)
    have r3: "roomy ?c3" using less.prems(2) 3(1) by (auto simp: roomy_def lost_def max_def)
    have "cells c ?r \<noteq> Cell_Null" using 3(2) by simp
    then have g3: "?r div 32 \<le> lst" using segs_invD(3) [OF I(1), of ?r] by fastforce
    have "senders ?c3 - receivers ?c3 < senders c - receivers c" "?r div 32 \<le> receivers ?c3 div 32"
      using 3(1) by (simp_all add: div_le_mono)
    from less.hyps [OF this(1) o3 r3 g3 this(2)] obtain c' lst' r where
      "receive_impl_try_receive dflt (Some (?r div 32)) ?c3 = Some (Inr r, c')" "open_chan lst' c'"
      "(r, abs_chan c') = spec_try_receive (abs_chan ?c3)" "op_frame ?c3 c'" by blast
    moreover have "abs_chan ?c3 = abs_chan c" by (rule abs_same) simp_all
    ultimately show ?thesis unfolding step by (auto simp: op_frame_def)
  qed
qed

lemma try_receive_ok:
  assumes "open_chan lst c" "roomy c"
  shows "\<exists>c' lst' r. try_receive dflt c = Some (Inr r, c') \<and> open_chan lst' c' \<and>
    (r, abs_chan c') = spec_try_receive (abs_chan c) \<and> op_frame c c'"
proof -
  have I0: "chan_inv 0 lst c" using assms(1) by (simp add: open_chan_def)
  note I = chan_invD [OF I0]
  have n: "is_closed dflt (senders_and_close_status c) True = return_l False" by (rule open_not_closed [OF I(2)])
  show ?thesis
  proof (cases "senders c \<le> receivers c")
    case True
    then have "spec_try_receive (abs_chan c) = (Channel_Failed, abs_chan c)" using abs_exhausted(1) [OF I0 True] by (simp add: spec_try_receive_def)
    then show ?thesis using True assms(1) by (auto simp: try_receive_def n senders_def op_frame_def)
  next
    case False
    then show ?thesis using receive_loop_ok [OF assms segs_invD(6,7) [OF I(1)], of dflt]
      by (simp add: try_receive_def n senders_def)
  qed
qed

end
