(* ===== verification/Channel_Send.thy ===== *)
theory Channel_Send
  imports Channel_Refinement
begin

text \<open>
  Sending to an open buffered channel, cancelling a waiting sender, and the refinement of every
  sequence of operations.
\<close>

subsection \<open>Sending\<close>

lemma length_buffer:
  assumes "chan_inv 0 lst c"
  shows "length (buffer (abs_chan c)) < capacity c \<longleftrightarrow> senders c < buffer_end c"
proof -
  note I = chan_invD [OF assms]
  have b: "{x. x < senders c \<and> buf_at c x \<noteq> None} = {receivers c..<min (senders c) (buffer_end c)} - skipped c"
  proof (intro set_eqI)
    fix x show "x \<in> {x. x < senders c \<and> buf_at c x \<noteq> None} \<longleftrightarrow> x \<in> {receivers c..<min (senders c) (buffer_end c)} - skipped c"
      using I(3) [of x] by (auto simp: chan_cell_ok_def buf_at_def skipped_def split: if_splits)
  qed
  have "skipped c \<subseteq> {receivers c..<min (senders c) (buffer_end c)}" by (auto simp: skipped_def)
  then have "card ({receivers c..<min (senders c) (buffer_end c)} - skipped c) =
      (min (senders c) (buffer_end c) - receivers c) - card (skipped c)"
    by (simp add: card_Diff_subset)
  moreover have "length (buffer (abs_chan c)) = card {x. x < senders c \<and> buf_at c x \<noteq> None}"
    by (simp only: abs_chan_def queue_spec.simps pick_length)
  ultimately have "length (buffer (abs_chan c)) = (min (senders c) (buffer_end c) - receivers c) - card (skipped c)"
    by (simp only: b)
  moreover have "skipped c = {}" if "senders c < receivers c" using that by (auto simp: skipped_def)
  ultimately show ?thesis using I(5,7,11) by (cases "senders c < receivers c") auto
qed

lemma buffer_or_rendezvous_iff: "chan_inv 0 lst c \<Longrightarrow> receivers c \<le> s \<Longrightarrow> buffer_or_rendezvous_send s c \<longleftrightarrow> s < buffer_end c"
  using chan_invD(5) [of 0 lst c] by (auto simp: buffer_or_rendezvous_send_def)

lemma senders_packed: "packed w n 0 \<Longrightarrow> senders_counter w = n"
  by (rule packed_counter)

lemma send_step:
  assumes inv: "chan_inv 0 lst c" and small: "capacity c + Suc (senders c) + receivers c < 2 ^ 59"
    and s: "full (max lst (senders c div 32)) s"
      "cleaned_and_pointers s = (\<lambda>k. if lst < k \<and> k \<le> senders c div 32 then 0 else cleaned_and_pointers (segs c) k)"
    and n: "n \<le> max (send_segment c) (senders c div 32)"
    and c2: "c2 = c\<lparr>senders_and_close_status := senders_and_close_status c + 1, segs := s, send_segment := n\<rparr>"
  shows send_c2: "senders c2 = Suc (senders c)" "packed (senders_and_close_status c2) (Suc (senders c)) 0"
    and send_skipped: "senders c < receivers c \<Longrightarrow> chan_inv 0 lst (c2\<lparr>elems := (elems c)(senders c := None)\<rparr>)"
    and send_buffered: "receivers c \<le> senders c \<Longrightarrow> senders c < buffer_end c \<Longrightarrow> chan_inv 0 (max lst (senders c div 32))
      (c2\<lparr>elems := (elems c)(senders c := Some e), cells := (cells c)(senders c := BUFFERED)\<rparr>)"
    and send_waiting: "receivers c \<le> senders c \<Longrightarrow> buffer_end c \<le> senders c \<Longrightarrow> waiters c t = No_Waiter \<Longrightarrow>
      chan_inv 0 (max lst (senders c div 32)) (c2\<lparr>waiters := (waiters c)(t := Suspended), elems := (elems c)(senders c := Some e),
        cells := (cells c)(senders c := Waiting (Send_Cont t)), waiter_cell := (waiter_cell c)(t := senders c)\<rparr>)"
proof -
  note I = chan_invD [OF inv]
  note G = segs_invD [OF I(1)]
  let ?s = "senders c" and ?l = "max lst (senders c div 32)"
  have "?s + 1 < 2 ^ 60" using small by simp
  from packed_add_1 [OF I(2) this] show p: "packed (senders_and_close_status c2) (Suc ?s) 0" by (simp add: c2)
  then show S: "senders c2 = Suc ?s" by (simp add: senders_def packed_counter)
  have le: "?s div 32 \<le> Suc ?s div 32" by (simp add: div_le_mono)
  have n': "n \<le> ?l" "n \<le> Suc ?s div 32" using n G(4,5) le by auto
  have kept: "\<forall>g\<le>?l. \<not> gone s g" using lookup_kept [OF I(1) s(1) _ s(2)] by blast
  have cl: "x < 32 * Suc ?l" if "cells c x \<noteq> Cell_Null \<or> x = ?s" for x
    using G(3) [of x] that by (auto simp: less_max_iff_disj)
  have f: "segs c2 = s" "send_segment c2 = n" "receive_segment c2 = receive_segment c" "buffer_end_segment c2 = buffer_end_segment c"
    "receivers c2 = receivers c" "buffer_end c2 = buffer_end c" "cells c2 = cells c" "elems c2 = elems c" "waiters c2 = waiters c"
    "waiter_cell c2 = waiter_cell c" "capacity c2 = capacity c" "completed_expand_buffers c2 = completed_expand_buffers c"
    by (simp_all add: c2)
  have segs: "segs_inv ?l (c2\<lparr>elems := u\<rparr>)" "segs_inv ?l (c2\<lparr>elems := u, cells := (cells c)(?s := v)\<rparr>)"
    "segs_inv ?l (c2\<lparr>waiters := z, elems := u, cells := (cells c)(?s := v), waiter_cell := y\<rparr>)" for u v y z
    using G(6-8) s(1) kept n' cl by (auto simp: segs_inv_def f S)
  {
    assume lt: "?s < receivers c"
    let ?c = "c2\<lparr>elems := (elems c)(?s := None)\<rparr>"
    have v: "cells c ?s = INTERRUPTED_RCV" using I(3) [of ?s] lt by (simp add: chan_cell_ok_def)
    have "chan_cell_ok ?c x" for x using I(3) [of x] lt v by (cases "x = ?s") (auto simp: chan_cell_ok_def S f less_Suc_eq not_le split: if_splits)
    moreover have "skipped ?c = {}" "skipped c = {}" using lt by (auto simp: skipped_def f S)
    moreover have "?l = lst"
    proof -
      have "?s div 32 < Suc lst" using G(3) [of ?s] v by (intro less_mult_imp_div_less) (simp add: mult.commute)
      then show ?thesis by simp
    qed
    ultimately show "chan_inv 0 lst ?c" using I small segs(1) p by (simp add: chan_inv_def f S)
  }
  {
    assume ge: "receivers c \<le> ?s" and lt: "?s < buffer_end c"
    let ?c = "c2\<lparr>elems := (elems c)(?s := Some e), cells := (cells c)(?s := BUFFERED)\<rparr>"
    have v: "cells c ?s = Cell_Null" using I(3) [of ?s] ge by (simp add: chan_cell_ok_def)
    have "chan_cell_ok ?c x" for x using I(3) [of x] ge lt by (cases "x = ?s") (auto simp: chan_cell_ok_def S f less_Suc_eq not_le split: if_splits)
    moreover have "skipped ?c = skipped c" by (auto simp: skipped_def f S less_Suc_eq)
    moreover have "cells ?c (waiter_cell ?c t) = Waiting (Send_Cont t)" if "waiters ?c t = Suspended" for t
      using I(4) [of t] that v by (auto simp: f)
    ultimately show "chan_inv 0 ?l ?c" using I small segs(2) p by (simp add: chan_inv_def f S)
  }
  {
    assume ge: "receivers c \<le> ?s" "buffer_end c \<le> ?s" and t: "waiters c t = No_Waiter"
    let ?c = "c2\<lparr>waiters := (waiters c)(t := Suspended), elems := (elems c)(senders c := Some e),
        cells := (cells c)(senders c := Waiting (Send_Cont t)), waiter_cell := (waiter_cell c)(t := senders c)\<rparr>"
    have v: "cells c ?s = Cell_Null" using I(3) [of ?s] ge by (simp add: chan_cell_ok_def)
    have "chan_cell_ok ?c x" for x
    proof (cases "x = ?s")
      case False
      have "waiters c u = Suspended \<Longrightarrow> u \<noteq> t" for u using t by auto
      then show ?thesis using I(3) [of x] False by (fastforce simp: chan_cell_ok_def S f less_Suc_eq not_le split: if_splits)
    qed (use ge in \<open>simp add: chan_cell_ok_def S f\<close>)
    moreover have "skipped ?c = skipped c" by (auto simp: skipped_def f S less_Suc_eq)
    moreover have "cells ?c (waiter_cell ?c u) = Waiting (Send_Cont u)" if "waiters ?c u = Suspended" for u
    proof (cases "u = t")
      case False
      then have "cells c (waiter_cell c u) = Waiting (Send_Cont u)" using I(4) [of u] that by (simp add: f)
      then show ?thesis using v False by (auto simp: f)
    qed (simp add: f)
    ultimately show "chan_inv 0 ?l ?c" using I small segs(3) p by (simp add: chan_inv_def f S)
  }
qed

lemma abs_send:
  assumes "senders c' = Suc (senders c)" "\<And>x. x < senders c \<Longrightarrow> cells c' x = cells c x" "\<And>x. x < senders c \<Longrightarrow> elems c' x = elems c x"
    "chan_log c' = chan_log c"
  shows "abs_chan c' = \<lparr>buffer = buffer (abs_chan c) @ (case buf_at c' (senders c) of None \<Rightarrow> [] | Some v \<Rightarrow> [v]),
    waiting = waiting (abs_chan c) @ (case wait_at c' (senders c) of None \<Rightarrow> [] | Some v \<Rightarrow> [v]), resumed = resumed (abs_chan c)\<rparr>"
proof -
  have "pick (buf_at c') (senders c) = pick (buf_at c) (senders c)" "pick (wait_at c') (senders c) = pick (wait_at c) (senders c)"
    using assms(2,3) by (auto intro!: pick_cong at_cong)
  then show ?thesis using assms(1,4) by (simp add: abs_chan_def)
qed

lemma fetch_add_run: "fetch_add_senders c = Some (Inr (senders_and_close_status c),
    c\<lparr>senders_and_close_status := senders_and_close_status c + 1\<rparr>)"
  by (simp add: fetch_add_senders_def)

lemma send_lookup:
  assumes "chan_inv 0 lst c" "g \<le> lst" "g \<le> senders c div 32"
  obtains s n where "full (max lst (senders c div 32)) s"
    "cleaned_and_pointers s = (\<lambda>k. if lst < k \<and> k \<le> senders c div 32 then 0 else cleaned_and_pointers (segs c) k)"
    "n \<le> max (send_segment c) (senders c div 32)"
    "(if g \<noteq> senders c div 32 then find_segment_send (senders c div 32) g else return_l (Some g))
        (c\<lparr>senders_and_close_status := senders_and_close_status c + 1\<rparr>) =
      Some (Inr (Some (senders c div 32)), c\<lparr>senders_and_close_status := senders_and_close_status c + 1, segs := s, send_segment := n\<rparr>)"
proof -
  note I = chan_invD [OF assms(1)]
  let ?c = "c\<lparr>senders_and_close_status := senders_and_close_status c + 1\<rparr>"
  have "full lst (segs ?c)" using segs_invD(1) [OF I(1)] by simp
  from find_send_run [OF this assms(2,3)] obtain s n where s:
    "(if g \<noteq> senders c div 32 then find_segment_send (senders c div 32) g else return_l (Some g)) ?c =
      Some (Inr (Some (senders c div 32)), ?c\<lparr>segs := s, send_segment := n\<rparr>)" "full (max lst (senders c div 32)) s"
    "cleaned_and_pointers s = (\<lambda>k. if lst < k \<and> k \<le> senders c div 32 then 0 else cleaned_and_pointers (segs ?c) k)"
    "n \<le> max (send_segment ?c) (senders c div 32)" by blast
  have s': "cleaned_and_pointers s = (\<lambda>k. if lst < k \<and> k \<le> senders c div 32 then 0 else cleaned_and_pointers (segs c) k)"
    "n \<le> max (send_segment c) (senders c div 32)" using s(3,4) by (auto simp: fun_eq_iff)
  show thesis by (rule that [OF s(2) s' s(1)])
qed

lemma send_loop_unfold:
  assumes "chan_inv 0 lst c" "(if g \<noteq> senders c div 32 then find_segment_send (senders c div 32) g else return_l (Some g))
        (c\<lparr>senders_and_close_status := senders_and_close_status c + 1\<rparr>) =
      Some (Inr (Some (senders c div 32)), c2)"
  shows "send_loop dflt (Some g) e t c =
      bind_l (update_cell_send dflt (senders c div 32) (senders c mod 32) e (senders c) None False) (\<lambda>result. case result of
             RESULT_RENDEZVOUS \<Rightarrow> seq_l (chan_clean_prev (senders c div 32)) (return_l Returned)
           | RESULT_BUFFERED \<Rightarrow> return_l Returned
           | RESULT_SUSPEND \<Rightarrow> throw_l Assertion_Failed
           | RESULT_CLOSED \<Rightarrow> seq_l (clean_prev_if_received (senders c) (senders c div 32)) (on_closed_send e t)
           | RESULT_FAILED \<Rightarrow> seq_l (chan_clean_prev (senders c div 32)) (send_loop dflt (Some (senders c div 32)) e t)
           | RESULT_SUSPEND_NO_WAITER \<Rightarrow> send_on_no_waiter_suspend dflt (senders c div 32) (senders c mod 32) e (senders c) t) c2"
    "try_send_loop dflt (Some g) e c =
      bind_l (update_cell_send dflt (senders c div 32) (senders c mod 32) e (senders c) (Some INTERRUPTED_SEND) False) (\<lambda>result. case result of
             RESULT_RENDEZVOUS \<Rightarrow> seq_l (chan_clean_prev (senders c div 32)) (return_l (Channel_Value ()))
           | RESULT_BUFFERED \<Rightarrow> return_l (Channel_Value ())
           | RESULT_SUSPEND \<Rightarrow> seq_l (seg_op (on_slot_cleaned (senders c div 32))) (return_l Channel_Failed)
           | RESULT_CLOSED \<Rightarrow> seq_l (clean_prev_if_received (senders c) (senders c div 32)) (read_l (\<lambda>c. return_l (Channel_Closed (Some (send_exception c)))))
           | RESULT_FAILED \<Rightarrow> seq_l (chan_clean_prev (senders c div 32)) (try_send_loop dflt (Some (senders c div 32)) e)
           | RESULT_SUSPEND_NO_WAITER \<Rightarrow> try_send_loop dflt (Some (senders c div 32)) e) c2"
proof -
  note P = chan_invD(2) [OF assms(1)]
  have n: "senders_counter (senders_and_close_status c) = senders c" by (simp add: senders_def)
  have b: "bind_l (find_segment_send (senders c div 32) g) f (c\<lparr>senders_and_close_status := senders_and_close_status c + 1\<rparr>) =
      f (Some (senders c div 32)) c2" if "g \<noteq> senders c div 32" for f :: "nat option \<Rightarrow> ('a chan, 'b) lexec"
    using assms(2) that unfolding bind_l_def by simp
  have b': "c\<lparr>senders_and_close_status := senders_and_close_status c + 1\<rparr> = c2" if "g = senders c div 32"
    using assms(2) that by simp
  have a: "bind_l fetch_add_senders f c = f (senders_and_close_status c) (c\<lparr>senders_and_close_status := senders_and_close_status c + 1\<rparr>)" for f :: "64 word \<Rightarrow> ('a chan, 'b) lexec"
    by (simp add: bind_l_def fetch_add_senders_def)
  show "send_loop dflt (Some g) e t c =
      bind_l (update_cell_send dflt (senders c div 32) (senders c mod 32) e (senders c) None False) (\<lambda>result. case result of
             RESULT_RENDEZVOUS \<Rightarrow> seq_l (chan_clean_prev (senders c div 32)) (return_l Returned)
           | RESULT_BUFFERED \<Rightarrow> return_l Returned
           | RESULT_SUSPEND \<Rightarrow> throw_l Assertion_Failed
           | RESULT_CLOSED \<Rightarrow> seq_l (clean_prev_if_received (senders c) (senders c div 32)) (on_closed_send e t)
           | RESULT_FAILED \<Rightarrow> seq_l (chan_clean_prev (senders c div 32)) (send_loop dflt (Some (senders c div 32)) e t)
           | RESULT_SUSPEND_NO_WAITER \<Rightarrow> send_on_no_waiter_suspend dflt (senders c div 32) (senders c mod 32) e (senders c) t) c2"
    by (subst send_loop.simps) (cases "g = senders c div 32"; simp add: a open_not_closed [OF P] n Let_def b b')
  show "try_send_loop dflt (Some g) e c =
      bind_l (update_cell_send dflt (senders c div 32) (senders c mod 32) e (senders c) (Some INTERRUPTED_SEND) False) (\<lambda>result. case result of
             RESULT_RENDEZVOUS \<Rightarrow> seq_l (chan_clean_prev (senders c div 32)) (return_l (Channel_Value ()))
           | RESULT_BUFFERED \<Rightarrow> return_l (Channel_Value ())
           | RESULT_SUSPEND \<Rightarrow> seq_l (seg_op (on_slot_cleaned (senders c div 32))) (return_l Channel_Failed)
           | RESULT_CLOSED \<Rightarrow> seq_l (clean_prev_if_received (senders c) (senders c div 32)) (read_l (\<lambda>c. return_l (Channel_Closed (Some (send_exception c)))))
           | RESULT_FAILED \<Rightarrow> seq_l (chan_clean_prev (senders c div 32)) (try_send_loop dflt (Some (senders c div 32)) e)
           | RESULT_SUSPEND_NO_WAITER \<Rightarrow> try_send_loop dflt (Some (senders c div 32)) e) c2"
    by (subst try_send_loop.simps) (cases "g = senders c div 32"; simp add: a open_not_closed [OF P] n Let_def b b')
qed

definition send_frame :: "nat \<Rightarrow> 'e chan \<Rightarrow> 'e chan \<Rightarrow> bool" where
  "send_frame t c c' \<longleftrightarrow> capacity c' = capacity c \<and> on_undelivered c' = on_undelivered c \<and>
     (\<forall>u. u \<noteq> t \<longrightarrow> waiters c u = No_Waiter \<longrightarrow> waiters c' u = No_Waiter)"

lemma send_cleaned:
  assumes "segs_inv lst c" "chan_slots_ok lst c" "segs c' = s"
    "cleaned_and_pointers s = (\<lambda>k. if lst < k \<and> k \<le> i then 0 else cleaned_and_pointers (segs c) k)"
    "\<And>x. interrupted (cells c' x) = interrupted (cells c x)" "l \<le> max lst i"
  shows "chan_slots_ok l c'"
  using cleaned_beyond [OF assms(1,2,4)] assms(3,6) lost_same [of c' c, OF assms(5)] by (simp add: chan_slots_ok_def)

text \<open>A try_send interrupts no cell and passes at most the cells of failed receives.\<close>

definition send_quiet :: "'e chan \<Rightarrow> 'e chan \<Rightarrow> bool" where
  "send_quiet c c' \<longleftrightarrow> receivers c' = receivers c \<and> senders c' \<le> Suc (max (senders c) (receivers c)) \<and> lost c' = lost c \<and>
     drop_oldest c' = drop_oldest c"

text \<open>The three cases of a send, for both loops: the state after the cell was chosen.\<close>

lemma send_cell:
  fixes c :: "'e chan"
  assumes op: "open_chan lst c" and room: "roomy c"
    and s: "full (max lst (senders c div 32)) s"
      "cleaned_and_pointers s = (\<lambda>k. if lst < k \<and> k \<le> senders c div 32 then 0 else cleaned_and_pointers (segs c) k)"
      "n \<le> max (send_segment c) (senders c div 32)"
    and c2: "c2 = c\<lparr>senders_and_close_status := senders_and_close_status c + 1, segs := s, send_segment := n\<rparr>"
  obtains (skip) c4 where "senders c < receivers c" "open_chan lst c4" "roomy c4" "abs_chan c4 = abs_chan c" "senders c4 = Suc (senders c)"
      "receivers c4 = receivers c" "capacity c4 = capacity c" "on_undelivered c4 = on_undelivered c" "waiters c4 = waiters c" "senders c div 32 \<le> lst"
      "send_quiet c c4"
      "\<And>w. bind_l (update_cell_send dflt (senders c div 32) (senders c mod 32) e (senders c) w False)
        (\<lambda>r. seq_l (chan_clean_prev (senders c div 32)) (return_l r)) c2 = Some (Inr RESULT_FAILED, c4)"
  | (buffer) c3 where "length (buffer (abs_chan c)) < capacity c" "open_chan (max lst (senders c div 32)) c3"
      "abs_chan c3 = (abs_chan c)\<lparr>buffer := buffer (abs_chan c) @ [e]\<rparr>"
      "op_frame c c3" "send_quiet c c3" "\<And>w. update_cell_send dflt (senders c div 32) (senders c mod 32) e (senders c) w False c2 = Some (Inr RESULT_BUFFERED, c3)"
  | (wait) "receivers c \<le> senders c" "\<not> length (buffer (abs_chan c)) < capacity c" "cells c (senders c) = Cell_Null"
      "\<not> buffer_or_rendezvous_send (senders c) c2" "\<And>t. waiters c t = No_Waiter \<Longrightarrow>
        open_chan (max lst (senders c div 32)) (c2\<lparr>waiters := (waiters c)(t := Suspended), elems := (elems c)(senders c := Some e),
        cells := (cells c)(senders c := Waiting (Send_Cont t)), waiter_cell := (waiter_cell c)(t := senders c)\<rparr>) \<and>
        abs_chan (c2\<lparr>waiters := (waiters c)(t := Suspended), elems := (elems c)(senders c := Some e),
        cells := (cells c)(senders c := Waiting (Send_Cont t)), waiter_cell := (waiter_cell c)(t := senders c)\<rparr>) =
        (abs_chan c)\<lparr>waiting := waiting (abs_chan c) @ [(t, e)]\<rparr>"
proof -
  have I0: "chan_inv 0 lst c" and C0: "chan_slots_ok lst c" using op by (simp_all add: open_chan_def)
  note I = chan_invD [OF I0]
  let ?s = "senders c" and ?l = "max lst (senders c div 32)"
  note st = send_step [OF I0 roomy_small(2) [OF room] s c2]
  have f: "segs c2 = s" "receivers c2 = receivers c" "buffer_end c2 = buffer_end c" "cells c2 = cells c" "elems c2 = elems c"
    "waiters c2 = waiters c" "capacity c2 = capacity c" "chan_log c2 = chan_log c" "on_undelivered c2 = on_undelivered c" by (simp_all add: c2)
  note cl = send_cleaned [OF I(1) C0 _ s(2)]
  consider "?s < receivers c" | "receivers c \<le> ?s" "?s < buffer_end c" | "receivers c \<le> ?s" "buffer_end c \<le> ?s" by linarith
  then show thesis
  proof cases
    case 1
    have v: "cells c ?s = INTERRUPTED_RCV" using I(3) [of ?s] 1 by (simp add: chan_cell_ok_def)
    let ?c3 = "c2\<lparr>elems := (elems c)(?s := None)\<rparr>"
    let ?c4 = "?c3\<lparr>segs := clean_prev (?s div 32) s\<rparr>"
    have i3: "chan_inv 0 lst ?c3" by (rule st(3) [OF 1])
    have cp: "chan_inv 0 lst ?c4" "chan_slots_ok lst ?c4 = chan_slots_ok lst ?c3" "abs_chan ?c4 = abs_chan ?c3"
      using clean_prev_open [OF i3, of "?s div 32"] by (simp_all add: f)
    have "chan_slots_ok lst ?c3" by (rule cl) (simp_all add: f)
    then have o4: "open_chan lst ?c4" using cp(1,2) by (simp add: open_chan_def)
    have "abs_chan ?c3 = \<lparr>buffer = buffer (abs_chan c) @ (case buf_at ?c3 ?s of None \<Rightarrow> [] | Some v \<Rightarrow> [v]),
      waiting = waiting (abs_chan c) @ (case wait_at ?c3 ?s of None \<Rightarrow> [] | Some v \<Rightarrow> [v]), resumed = resumed (abs_chan c)\<rparr>"
      by (rule abs_send) (simp_all add: st(1) f)
    then have a4: "abs_chan ?c4 = abs_chan c" using v cp(3) by (simp add: buf_at_def wait_at_def f)
    have r4: "roomy ?c4" using room 1 by (simp add: roomy_def lost_def f st(1) max_def)
    have "?s < 32 * Suc lst" using segs_invD(3) [OF I(1), of ?s] v by simp
    then have g4: "?s div 32 \<le> lst" using less_mult_imp_div_less [of ?s "Suc lst" 32] by (simp add: mult.commute)
    have u: "update_cell_send dflt (?s div 32) (?s mod 32) e ?s w False c2 = Some (Inr RESULT_FAILED, ?c3)" for w
      using v by (simp add: update_cell_send_def update_cell_send_slow_def Let_def store_element_def clean_element_def f)
    have q4: "send_quiet c ?c4" using 1 by (simp add: send_quiet_def lost_def f st(1) fun_eq_iff) (simp add: c2)
    show thesis by (rule skip [OF 1 o4 r4 a4 _ _ _ _ _ g4 q4]) (simp_all add: st(1) f bind_l_def u seq_l_def)
  next
    case 2
    have v: "cells c ?s = Cell_Null" using I(3) [of ?s] 2(1) by (simp add: chan_cell_ok_def)
    let ?c3 = "c2\<lparr>elems := (elems c)(?s := Some e), cells := (cells c)(?s := BUFFERED)\<rparr>"
    have "chan_slots_ok ?l ?c3" by (rule cl) (use v in \<open>simp_all add: f interrupted_def\<close>)
    then have o3: "open_chan ?l ?c3" using st(4) [OF 2] by (simp add: open_chan_def)
    have "abs_chan ?c3 = \<lparr>buffer = buffer (abs_chan c) @ (case buf_at ?c3 ?s of None \<Rightarrow> [] | Some v \<Rightarrow> [v]),
      waiting = waiting (abs_chan c) @ (case wait_at ?c3 ?s of None \<Rightarrow> [] | Some v \<Rightarrow> [v]), resumed = resumed (abs_chan c)\<rparr>"
      by (rule abs_send) (simp_all add: st(1) f)
    then have a3: "abs_chan ?c3 = (abs_chan c)\<lparr>buffer := buffer (abs_chan c) @ [e]\<rparr>" by (simp add: buf_at_def wait_at_def f)
    have "buffer_or_rendezvous_send ?s (c2\<lparr>elems := u\<rparr>)" for u using 2(2) by (simp add: buffer_or_rendezvous_send_def f)
    then have u: "update_cell_send dflt (?s div 32) (?s mod 32) e ?s w False c2 = Some (Inr RESULT_BUFFERED, ?c3)" for w
      using v by (simp add: update_cell_send_def Let_def store_element_def set_chan_cell_def f)
    have "lost ?c3 = lost c" by (intro ext lost_same) (use v in \<open>simp add: f interrupted_def\<close>)
    then have q3: "send_quiet c ?c3" by (simp add: send_quiet_def f st(1)) (simp add: c2)
    show thesis by (rule buffer [OF _ o3 a3 _ q3 u]) (use 2(2) length_buffer [OF I0] in \<open>simp_all add: op_frame_def f\<close>)
  next
    case 3
    have v: "cells c ?s = Cell_Null" using I(3) [of ?s] 3(1) by (simp add: chan_cell_ok_def)
    have nb: "\<not> buffer_or_rendezvous_send ?s c2" using 3 buffer_or_rendezvous_iff [OF I0 3(1)] by (simp add: buffer_or_rendezvous_send_def f)
    show thesis
    proof (rule wait [OF 3(1) _ v nb])
      show "\<not> length (buffer (abs_chan c)) < capacity c" using 3(2) length_buffer [OF I0] by simp
      fix t assume t: "waiters c t = No_Waiter"
      let ?c3 = "c2\<lparr>waiters := (waiters c)(t := Suspended), elems := (elems c)(senders c := Some e),
        cells := (cells c)(senders c := Waiting (Send_Cont t)), waiter_cell := (waiter_cell c)(t := senders c)\<rparr>"
      have "chan_slots_ok ?l ?c3" by (rule cl) (use v in \<open>simp_all add: f interrupted_def\<close>)
      moreover have "abs_chan ?c3 = \<lparr>buffer = buffer (abs_chan c) @ (case buf_at ?c3 ?s of None \<Rightarrow> [] | Some v \<Rightarrow> [v]),
        waiting = waiting (abs_chan c) @ (case wait_at ?c3 ?s of None \<Rightarrow> [] | Some v \<Rightarrow> [v]), resumed = resumed (abs_chan c)\<rparr>"
        by (rule abs_send) (simp_all add: st(1) f)
      ultimately show "open_chan ?l ?c3 \<and> abs_chan ?c3 = (abs_chan c)\<lparr>waiting := waiting (abs_chan c) @ [(t, e)]\<rparr>"
        using st(5) [OF 3 t] by (simp add: open_chan_def buf_at_def wait_at_def f)
    qed
  qed
qed

lemma bind_seq_cases:
  assumes "bind_l m (\<lambda>r. seq_l (p :: ('s, unit) lexec) (return_l r)) s = Some (Inr v, s')"
  shows "bind_l m (\<lambda>r. seq_l p (f r)) s = f v s'"
  using assms by (auto simp: bind_l_def seq_l_def return_l_def split: sum.splits bind_splits)

lemma send_loop_ok:
  assumes "open_chan lst c" "roomy c" "g \<le> lst" "g \<le> senders c div 32" "waiters c t = No_Waiter"
  shows "\<exists>c' lst' r. send_loop dflt (Some g) e t c = Some (Inr r, c') \<and> open_chan lst' c' \<and>
    (r, abs_chan c') = spec_send (capacity c) e t (abs_chan c) \<and> send_frame t c c'"
  using assms
proof (induction "receivers c - senders c" arbitrary: c g rule: less_induct)
  case less
  have I0: "chan_inv 0 lst c" using less.prems(1) by (simp add: open_chan_def)
  obtain s n where s: "full (max lst (senders c div 32)) s"
    "cleaned_and_pointers s = (\<lambda>k. if lst < k \<and> k \<le> senders c div 32 then 0 else cleaned_and_pointers (segs c) k)"
    "n \<le> max (send_segment c) (senders c div 32)"
    and l: "(if g \<noteq> senders c div 32 then find_segment_send (senders c div 32) g else return_l (Some g))
        (c\<lparr>senders_and_close_status := senders_and_close_status c + 1\<rparr>) =
      Some (Inr (Some (senders c div 32)), c\<lparr>senders_and_close_status := senders_and_close_status c + 1, segs := s, send_segment := n\<rparr>)"
    by (rule send_lookup [OF I0 less.prems(3,4)])
  define c2 where "c2 = c\<lparr>senders_and_close_status := senders_and_close_status c + 1, segs := s, send_segment := n\<rparr>"
  note un = send_loop_unfold(1) [OF I0 l, of dflt e t, folded c2_def]
  from less.prems(1,2) s c2_def show ?case
  proof (cases rule: send_cell [where dflt = dflt and e = e])
    case (skip c4)
    have m: "bind_l (update_cell_send dflt (senders c div 32) (senders c mod 32) e (senders c) None False)
        (\<lambda>r. seq_l (chan_clean_prev (senders c div 32)) (return_l r)) c2 = Some (Inr RESULT_FAILED, c4)" by (rule skip(12))
    have step: "send_loop dflt (Some g) e t c = send_loop dflt (Some (senders c div 32)) e t c4"
      using m unfolding un by (auto simp: bind_l_def seq_l_def split: sum.splits bind_splits)
    have "receivers c4 - senders c4 < receivers c - senders c" "senders c div 32 \<le> senders c4 div 32" "waiters c4 t = No_Waiter"
      using skip less.prems(5) by (simp_all add: div_le_mono)
    from less.hyps [OF this(1) skip(2,3,10) this(2,3)] show ?thesis
      using skip unfolding step by (simp add: send_frame_def)
  next
    case (buffer c3)
    then show ?thesis unfolding un by (auto simp: bind_l_def spec_send_def op_frame_def send_frame_def)
  next
    case wait
    let ?c3 = "c2\<lparr>waiters := (waiters c)(t := Suspended), elems := (elems c)(senders c := Some e),
        cells := (cells c)(senders c := Waiting (Send_Cont t)), waiter_cell := (waiter_cell c)(t := senders c)\<rparr>"
    have f: "cells c2 = cells c" "elems c2 = elems c" "waiters c2 = waiters c" "waiter_cell c2 = waiter_cell c" by (simp_all add: c2_def)
    have nb: "\<not> buffer_or_rendezvous_send (senders c) (c2\<lparr>elems := u\<rparr>)"
      "\<not> buffer_or_rendezvous_send (senders c) (c2\<lparr>waiters := z, elems := u\<rparr>)" for u z
      using wait(4) by (simp_all add: buffer_or_rendezvous_send_def)
    have "send_loop dflt (Some g) e t c = Some (Inr COROUTINE_SUSPENDED, ?c3)"
      unfolding un using wait(3) nb f
      by (simp add: bind_l_def seq_l_def update_cell_send_def Let_def store_element_def send_on_no_waiter_suspend_def set_waiter_def
        send_impl_on_no_waiter.simps [of dflt "senders c div 32"] set_chan_cell_def prepare_sender_for_suspension_def)
    moreover have "send_frame t c ?c3" by (simp add: send_frame_def c2_def)
    ultimately show ?thesis using wait(2) wait(5) [OF less.prems(5)] by (auto simp: spec_send_def)
  qed
qed

lemma send_ok:
  assumes "open_chan lst c" "roomy c" "waiters c t = No_Waiter"
  shows "\<exists>c' lst' r. send dflt e t c = Some (Inr r, c') \<and> open_chan lst' c' \<and>
    (r, abs_chan c') = spec_send (capacity c) e t (abs_chan c) \<and> send_frame t c c'"
proof -
  have "segs_inv lst c" using assms(1) by (simp add: open_chan_def chan_inv_def)
  from send_loop_ok [OF assms(1,2) segs_invD(4,5) [OF this] assms(3), of dflt e] show ?thesis by (simp add: send_def)
qed

lemma try_send_loop_ok:
  assumes "open_chan lst c" "roomy c" "g \<le> lst" "g \<le> senders c div 32" "length (buffer (abs_chan c)) < capacity c"
  shows "\<exists>c' lst'. try_send_loop dflt (Some g) e c = Some (Inr (Channel_Value ()), c') \<and> open_chan lst' c' \<and>
    abs_chan c' = (abs_chan c)\<lparr>buffer := buffer (abs_chan c) @ [e]\<rparr> \<and> op_frame c c' \<and> send_quiet c c'"
  using assms
proof (induction "receivers c - senders c" arbitrary: c g rule: less_induct)
  case less
  have I0: "chan_inv 0 lst c" using less.prems(1) by (simp add: open_chan_def)
  obtain s n where s: "full (max lst (senders c div 32)) s"
    "cleaned_and_pointers s = (\<lambda>k. if lst < k \<and> k \<le> senders c div 32 then 0 else cleaned_and_pointers (segs c) k)"
    "n \<le> max (send_segment c) (senders c div 32)"
    and l: "(if g \<noteq> senders c div 32 then find_segment_send (senders c div 32) g else return_l (Some g))
        (c\<lparr>senders_and_close_status := senders_and_close_status c + 1\<rparr>) =
      Some (Inr (Some (senders c div 32)), c\<lparr>senders_and_close_status := senders_and_close_status c + 1, segs := s, send_segment := n\<rparr>)"
    by (rule send_lookup [OF I0 less.prems(3,4)])
  define c2 where "c2 = c\<lparr>senders_and_close_status := senders_and_close_status c + 1, segs := s, send_segment := n\<rparr>"
  note un = send_loop_unfold(2) [OF I0 l, of dflt e, folded c2_def]
  from less.prems(1,2) s c2_def show ?case
  proof (cases rule: send_cell [where dflt = dflt and e = e])
    case (skip c4)
    have m: "bind_l (update_cell_send dflt (senders c div 32) (senders c mod 32) e (senders c) (Some INTERRUPTED_SEND) False)
        (\<lambda>r. seq_l (chan_clean_prev (senders c div 32)) (return_l r)) c2 = Some (Inr RESULT_FAILED, c4)" by (rule skip(12))
    have step: "try_send_loop dflt (Some g) e c = try_send_loop dflt (Some (senders c div 32)) e c4"
      using m unfolding un by (auto simp: bind_l_def seq_l_def split: sum.splits bind_splits)
    have "receivers c4 - senders c4 < receivers c - senders c" "senders c div 32 \<le> senders c4 div 32" "length (buffer (abs_chan c4)) < capacity c4"
      using skip less.prems(5) by (simp_all add: div_le_mono)
    from less.hyps [OF this(1) skip(2,3,10) this(2,3)] obtain c' lst' where h: "try_send_loop dflt (Some (senders c div 32)) e c4 = Some (Inr (Channel_Value ()), c')"
      "open_chan lst' c'" "abs_chan c' = (abs_chan c4)\<lparr>buffer := buffer (abs_chan c4) @ [e]\<rparr>" "op_frame c4 c'" "send_quiet c4 c'" by blast
    have "op_frame c c'" using h(4) skip by (simp add: op_frame_def)
    moreover have "send_quiet c c'" using h(5) skip(1,5,6,11) by (auto simp: send_quiet_def)
    ultimately show ?thesis using h(1-3) skip(4) unfolding step by auto
  next
    case (buffer c3)
    then show ?thesis unfolding un by (auto simp: bind_l_def)
  next
    case wait
    then show ?thesis using less.prems(5) by simp
  qed
qed

lemma try_send_ok:
  assumes "open_chan lst c" "roomy c"
  shows "\<exists>c' lst' r. try_send dflt e c = Some (Inr r, c') \<and> open_chan lst' c' \<and>
    (r, abs_chan c') = spec_try_send (capacity c) e (abs_chan c) \<and> op_frame c c' \<and> send_quiet c c'"
proof -
  have I0: "chan_inv 0 lst c" using assms(1) by (simp add: open_chan_def)
  note I = chan_invD [OF I0]
  have n: "is_closed dflt (senders_and_close_status c) b = return_l False" for b by (rule open_not_closed [OF I(2)])
  have b: "buffer_or_rendezvous_send (senders c) c \<longleftrightarrow> length (buffer (abs_chan c)) < capacity c"
  proof (cases "receivers c \<le> senders c")
    case False
    then show ?thesis using length_buffer [OF I0] I(11) by (simp add: buffer_or_rendezvous_send_def)
  qed (use buffer_or_rendezvous_iff [OF I0] length_buffer [OF I0] in simp)
  have sd: "senders_counter (senders_and_close_status c) = senders c" by (simp add: senders_def)
  show ?thesis
  proof (cases "length (buffer (abs_chan c)) < capacity c")
    case True
    from try_send_loop_ok [OF assms segs_invD(4,5) [OF I(1)] True, of dflt e] show ?thesis
      using b True by (auto simp: try_send_def should_send_suspend_def n bind_l_def sd spec_try_send_def)
  next
    case False
    then show ?thesis using b assms(1)
      by (auto simp: try_send_def should_send_suspend_def n bind_l_def sd spec_try_send_def op_frame_def send_quiet_def)
  qed
qed

subsection \<open>Cancelling a waiting sender\<close>

lemma set_pick: "v \<in> set (pick f n) \<longleftrightarrow> (\<exists>x<n. f x = Some v)"
  by (induction n) (auto simp: less_Suc_eq split: option.splits)

lemma waiting_ids:
  assumes "chan_inv 0 lst c" "x < senders c" "wait_at c x = Some v"
  shows "waiters c (fst v) = Suspended \<and> waiter_cell c (fst v) = x"
  using chan_invD(3) [OF assms(1), of x] assms(2,3) by (auto simp: chan_cell_ok_def wait_at_def split: if_splits)

lemma abs_cancel:
  assumes inv: "chan_inv 0 lst c" and t: "waiters c t = Suspended"
    and c': "cells c' = (cells c)(waiter_cell c t := INTERRUPTED_SEND)" "elems c' = (elems c)(waiter_cell c t := None)" "senders c' = senders c"
      "resumed_senders (chan_log c') = resumed_senders (chan_log c)"
  shows "abs_chan c' = spec_cancel t (abs_chan c)"
proof -
  note I = chan_invD [OF inv]
  let ?x = "waiter_cell c t"
  have cx: "cells c ?x = Waiting (Send_Cont t)" by (rule I(4) [OF t])
  have "buf_at c' y = buf_at c y" for y
  proof (cases "y = ?x")
    case True
    then show ?thesis using cx c' by (simp add: buf_at_def)
  qed (use c' in \<open>auto intro!: at_cong(1)\<close>)
  then have "buf_at c' = buf_at c" by auto
  moreover have "pick (wait_at c') (senders c) = filter (\<lambda>v. fst v \<noteq> t) (pick (wait_at c) (senders c))"
  proof (rule pick_remove [where k = ?x])
    show "fst v \<noteq> t" if "x < senders c" "x \<noteq> ?x" "wait_at c x = Some v" for x v
      using waiting_ids [OF inv that(1,3)] that(2) by auto
    show "fst v = t" if "wait_at c ?x = Some v" for v using that cx by (auto simp: wait_at_def)
    show "wait_at c' ?x = None" using c' by (simp add: wait_at_def)
    show "wait_at c' x = wait_at c x" if "x < senders c" "x \<noteq> ?x" for x by (rule at_cong(2)) (use that c' in simp_all)
  qed
  ultimately show ?thesis using c' by (simp add: abs_chan_def spec_cancel_def)
qed

lemma call_undelivered_run:
  "\<exists>r l. call_undelivered_element e c = Some (r, c\<lparr>chan_log := l\<rparr>) \<and> resumed_senders l = resumed_senders (chan_log c)"
proof (cases "on_undelivered c")
  case None
  then show ?thesis by (intro exI [of _ "Inr ()"] exI [of _ "chan_log c"]) (simp add: call_undelivered_element_def)
next
  case (Some f)
  then show ?thesis
    by (cases "f e") (auto simp: call_undelivered_element_def log_event_def intro!: exI [of _ "chan_log c @ [Undelivered e]"])
qed

lemma cancel_sender_ok:
  assumes op: "open_chan lst c" and room: "roomy c"
  shows "\<exists>r c'. cancel_sender dflt t c = Some (r, c') \<and> open_chan lst c' \<and> abs_chan c' = spec_cancel t (abs_chan c) \<and> op_frame c c'"
proof (cases "waiters c t = Suspended")
  case False
  have I0: "chan_inv 0 lst c" using op by (simp add: open_chan_def)
  have "fst v \<noteq> t" if m: "v \<in> set (waiting (abs_chan c))" for v
  proof -
    obtain x where "x < senders c" "wait_at c x = Some v" using m by (auto simp: abs_chan_def set_pick)
    then show ?thesis using waiting_ids [OF I0] False by blast
  qed
  then have "spec_cancel t (abs_chan c) = abs_chan c" by (simp add: spec_cancel_def)
  then show ?thesis using False op by (auto simp: cancel_sender_def op_frame_def)
next
  case True
  have I0: "chan_inv 0 lst c" and C0: "chan_slots_ok lst c" using op by (simp_all add: open_chan_def)
  note I = chan_invD [OF I0]
  note G = segs_invD [OF I(1)]
  let ?x = "waiter_cell c t"
  have cx: "cells c ?x = Waiting (Send_Cont t)" by (rule I(4) [OF True])
  then have x: "buffer_end c \<le> ?x" "?x < senders c" "receivers c \<le> ?x"
    using I(3) [of ?x] I(11) by (auto simp: chan_cell_ok_def split: if_splits)
  have xl: "?x div 32 \<le> lst" using G(3) [of ?x] cx less_mult_imp_div_less [of ?x "Suc lst" 32] by (simp add: mult.commute)
  let ?c1 = "c\<lparr>waiters := (waiters c)(t := Cancelled), cells := (cells c)(?x := INTERRUPTED_SEND), elems := (elems c)(?x := None)\<rparr>"
  have lk: "Suc (lost c (?x div 32)) < 32" using room by (auto simp: roomy_def)
  let ?s = "(segs c)\<lparr>cleaned_and_pointers := (cleaned_and_pointers (segs c))(?x div 32 := pointers_of (?x div 32) + of_nat (Suc (lost c (?x div 32))))\<rparr>"
  have sl: "seg_op (on_slot_cleaned (?x div 32)) ?c1 = Some (Inr (), ?c1\<lparr>segs := ?s\<rparr>)"
    using slot_cleaned_run [of lst ?c1 "?x div 32" "lost c (?x div 32)"] G(1) xl C0 lk by (simp add: chan_slots_ok_def)
  obtain r l where ul: "call_undelivered_element (get_element dflt ?x c) (?c1\<lparr>segs := ?s\<rparr>) = Some (r, ?c1\<lparr>segs := ?s, chan_log := l\<rparr>)"
    "resumed_senders l = resumed_senders (chan_log c)"
    using call_undelivered_run [of "get_element dflt ?x c" "?c1\<lparr>segs := ?s\<rparr>"] by auto
  let ?c' = "?c1\<lparr>segs := ?s, chan_log := l\<rparr>"
  have ge: "get_element dflt ?x (c\<lparr>waiters := u\<rparr>) = get_element dflt ?x c" for u by (simp add: get_element_def)
  have run: "cancel_sender dflt t c = Some (r, ?c')"
    using True cx sl ul(1)
    by (simp add: cancel_sender_def Let_def segment_on_cancellation_def set_waiter_def set_chan_cell_def clean_element_def on_cancelled_request_def
      seq_l_def bind_l_def ge)
  have l5: "lost ?c' j = (if j = ?x div 32 then Suc (lost c j) else lost c j)" for j
    by (rule lost_interrupt) (use cx in \<open>auto simp: interrupted_def\<close>)
  have f5: "full lst ?s" using G(1) by (simp add: full_def)
  have cok: "chan_slots_ok lst ?c'" using C0 l5 by (simp add: chan_slots_ok_def del: of_nat_Suc)
  have kept: "\<not> gone ?s j" if "j \<le> lst" for j
  proof -
    have "lost ?c' j < 32" using l5 [of j] lk room by (auto simp: roomy_def intro: less_trans [of _ 31])
    from cleaned_not_gone [OF _ cok that this] f5 show ?thesis by simp
  qed
  have "chan_cell_ok ?c' y" for y
  proof (cases "y = ?x")
    case False
    have "waiter_cell c u = y \<Longrightarrow> u \<noteq> t" for u using False by auto
    then show ?thesis using I(3) [of y] False by (fastforce simp: chan_cell_ok_def split: if_splits)
  qed (use x in \<open>simp add: chan_cell_ok_def\<close>)
  moreover have "skipped ?c' = skipped c" using x by (auto simp: skipped_def)
  moreover have "cells ?c' (waiter_cell ?c' u) = Waiting (Send_Cont u)" if "waiters ?c' u = Suspended" for u
    using I(4) [of u] that cx by (auto split: if_splits)
  moreover have "segs_inv lst ?c'" using G(3) [of ?x] G(3-8) f5 kept cx by (simp add: segs_inv_def)
  ultimately have "chan_inv 0 lst ?c'" using I by (simp add: chan_inv_def)
  moreover have "abs_chan ?c' = spec_cancel t (abs_chan c)" by (rule abs_cancel [OF I0 True]) (simp_all add: ul(2))
  moreover have "op_frame c ?c'" using True by (simp add: op_frame_def)
  ultimately show ?thesis using run cok by (auto simp: open_chan_def)
qed

subsection \<open>Sequences of operations\<close>

datatype 'e chan_op = Send_Op 'e nat | Try_Send_Op 'e | Try_Receive_Op | Cancel_Op nat

datatype 'e op_result = Suspending chan_suspend_result | Sent "unit channel_result" | Receiving "'e channel_result" | Cancelling

definition run_chan_op :: "'e \<Rightarrow> 'e chan_op \<Rightarrow> 'e chan \<Rightarrow> ('e op_result \<times> 'e chan) option" where
  "run_chan_op dflt op c = (case op of
       Send_Op e t \<Rightarrow> (case send dflt e t c of Some (Inr r, c') \<Rightarrow> Some (Suspending r, c') | _ \<Rightarrow> None)
     | Try_Send_Op e \<Rightarrow> (case try_send dflt e c of Some (Inr r, c') \<Rightarrow> Some (Sent r, c') | _ \<Rightarrow> None)
     | Try_Receive_Op \<Rightarrow> (case try_receive dflt c of Some (Inr r, c') \<Rightarrow> Some (Receiving r, c') | _ \<Rightarrow> None)
     | Cancel_Op t \<Rightarrow> (case cancel_sender dflt t c of Some (r, c') \<Rightarrow> Some (Cancelling, c') | None \<Rightarrow> None))"

definition spec_op :: "nat \<Rightarrow> 'e chan_op \<Rightarrow> 'e queue_spec \<Rightarrow> 'e op_result \<times> 'e queue_spec" where
  "spec_op n op q = (case op of
       Send_Op e t \<Rightarrow> map_prod Suspending id (spec_send n e t q)
     | Try_Send_Op e \<Rightarrow> map_prod Sent id (spec_try_send n e q)
     | Try_Receive_Op \<Rightarrow> map_prod Receiving id (spec_try_receive q)
     | Cancel_Op t \<Rightarrow> (Cancelling, spec_cancel t q))"

text \<open>A send names its continuation by a number that was not used before.\<close>

definition op_allowed :: "'e chan_op \<Rightarrow> 'e chan \<Rightarrow> bool" where
  "op_allowed op c = (case op of Send_Op e t \<Rightarrow> waiters c t = No_Waiter | _ \<Rightarrow> True)"

inductive reachable_chan :: "'e \<Rightarrow> nat \<Rightarrow> ('e \<Rightarrow> exception_ptr option) option \<Rightarrow> 'e chan \<Rightarrow> bool" for dflt n u where
  reach_new: "reachable_chan dflt n u (new_chan n u)"
| reach_op: "reachable_chan dflt n u c \<Longrightarrow> roomy c \<Longrightarrow> op_allowed op c \<Longrightarrow> run_chan_op dflt op c = Some (r, c') \<Longrightarrow> reachable_chan dflt n u c'"

lemma new_chan_fields:
  "senders (new_chan n u) = 0" "receivers (new_chan n u) = 0" "capacity (new_chan n u) = n" "cells (new_chan n u) = (\<lambda>_. Cell_Null)"
  "waiters (new_chan n u) = (\<lambda>_. No_Waiter)"
  by (simp_all add: senders_def new_chan_def senders_counter_def)

lemma new_chan_open:
  assumes "0 < n" "n < CHANNEL_UNLIMITED"
  shows "open_chan 0 (new_chan n u)" "abs_chan (new_chan n u) = \<lparr>buffer = [], waiting = [], resumed = []\<rparr>"
proof -
  have s: "senders (new_chan n u) = 0" by (simp add: senders_def new_chan_def senders_counter_def)
  have b: "initial_buffer_end n = n" using assms by (simp add: initial_buffer_end_def)
  have sk: "skipped (new_chan n u) = {}" by (simp add: skipped_def s)
  have l: "lost (new_chan n u) g = 0" for g by (simp add: lost_def new_chan_def interrupted_def)
  have "segs_inv 0 (new_chan n u)" using assms
    by (simp add: segs_inv_def new_chan_def first_segment_def full_def gone_def new_segment_def b)
  moreover have "chan_cell_ok (new_chan n u) x" for x by (simp add: chan_cell_ok_def s) (simp add: new_chan_def)
  ultimately have "chan_inv 0 0 (new_chan n u)"
    using assms by (simp add: chan_inv_def s sk) (simp add: new_chan_def b packed_0)
  moreover have "chan_slots_ok 0 (new_chan n u)"
    by (simp add: chan_slots_ok_def l pointers_of_def) (simp add: new_chan_def first_segment_def new_segment_def)
  ultimately show "open_chan 0 (new_chan n u)" by (simp add: open_chan_def)
  show "abs_chan (new_chan n u) = \<lparr>buffer = [], waiting = [], resumed = []\<rparr>" by (simp add: abs_chan_def s) (simp add: new_chan_def)
qed

lemma run_chan_op_ok:
  assumes "open_chan lst c" "roomy c" "op_allowed op c"
  shows "\<exists>r c' lst'. run_chan_op dflt op c = Some (r, c') \<and> open_chan lst' c' \<and> capacity c' = capacity c \<and>
    (r, abs_chan c') = spec_op (capacity c) op (abs_chan c)"
proof (cases op)
  case (Send_Op e t)
  then have "waiters c t = No_Waiter" using assms(3) by (simp add: op_allowed_def)
  from send_ok [OF assms(1,2) this, of dflt e] obtain c' lst' r where h: "send dflt e t c = Some (Inr r, c')" "open_chan lst' c'"
    "(r, abs_chan c') = spec_send (capacity c) e t (abs_chan c)" "send_frame t c c'" by blast
  then show ?thesis using h(3) [symmetric] by (auto simp: Send_Op run_chan_op_def spec_op_def send_frame_def)
next
  case (Try_Send_Op e)
  from try_send_ok [OF assms(1,2), of dflt e] obtain c' lst' r where h: "try_send dflt e c = Some (Inr r, c')" "open_chan lst' c'"
    "(r, abs_chan c') = spec_try_send (capacity c) e (abs_chan c)" "op_frame c c'" by blast
  then show ?thesis using h(3) [symmetric] by (auto simp: Try_Send_Op run_chan_op_def spec_op_def op_frame_def)
next
  case Try_Receive_Op
  from try_receive_ok [OF assms(1,2), of dflt] obtain c' lst' r where h: "try_receive dflt c = Some (Inr r, c')" "open_chan lst' c'"
    "(r, abs_chan c') = spec_try_receive (abs_chan c)" "op_frame c c'" by blast
  then show ?thesis using h(3) [symmetric] by (auto simp: Try_Receive_Op run_chan_op_def spec_op_def op_frame_def)
next
  case (Cancel_Op t)
  from cancel_sender_ok [OF assms(1,2), of dflt t] obtain c' r where h: "cancel_sender dflt t c = Some (r, c')" "open_chan lst c'"
    "abs_chan c' = spec_cancel t (abs_chan c)" "op_frame c c'" by blast
  then show ?thesis by (auto simp: Cancel_Op run_chan_op_def spec_op_def op_frame_def)
qed

lemma reachable_open:
  assumes "0 < n" "n < CHANNEL_UNLIMITED" "reachable_chan dflt n u c"
  shows "\<exists>lst. open_chan lst c \<and> capacity c = n"
  using assms(3)
proof induction
  case reach_new
  then show ?case using new_chan_open(1) [OF assms(1,2), of u] by (auto simp: new_chan_def)
next
  case (reach_op c op r c')
  then obtain lst where "open_chan lst c" "capacity c = n" by blast
  from run_chan_op_ok [OF this(1) reach_op.hyps(2,3), of dflt] this(2) reach_op.hyps(4) show ?case by auto
qed



end
