(* ===== verification/Channel_Failures.thy ===== *)
theory Channel_Failures
  imports Channel_Send
begin

text \<open>
  Where the channel does not do what it promises: conflated channels keep the oldest elements,
  and receiving from a waiting sender is undefined, so rendezvous channels never deliver.
\<close>

subsection \<open>Conflated channels\<close>

primrec conflated_sends :: "'e \<Rightarrow> 'e list \<Rightarrow> ('e chan, unit) lexec" where
  "conflated_sends dflt [] = return_l ()"
| "conflated_sends dflt (e # es) = bind_l (conflated_send dflt e) (\<lambda>_. conflated_sends dflt es)"

lemma drop_oldest_open:
  "open_chan lst (c\<lparr>drop_oldest := b\<rparr>) = open_chan lst c" "abs_chan (c\<lparr>drop_oldest := b\<rparr>) = abs_chan c"
proof -
  have "senders (c\<lparr>drop_oldest := b\<rparr>) = senders c" by (simp add: senders_def)
  moreover from this have "chan_cell_ok (c\<lparr>drop_oldest := b\<rparr>) x = chan_cell_ok c x" for x by (rule chan_cell_ok_cong) simp_all
  moreover from calculation(1) have "skipped (c\<lparr>drop_oldest := b\<rparr>) = skipped c" by (simp add: skipped_def)
  ultimately show "open_chan lst (c\<lparr>drop_oldest := b\<rparr>) = open_chan lst c"
    by (simp add: open_chan_def chan_inv_def segs_inv_def chan_slots_ok_def lost_def)
  show "abs_chan (c\<lparr>drop_oldest := b\<rparr>) = abs_chan c" by (rule abs_same) (simp_all add: senders_def)
qed

lemma conflated_send_ok:
  assumes "open_chan lst c" "roomy c"
  shows "\<exists>c' lst'. conflated_send dflt e c = Some (Inr Returned, c') \<and> open_chan lst' c' \<and> capacity c' = capacity c \<and> send_quiet c c' \<and>
    abs_chan c' = (if length (buffer (abs_chan c)) < capacity c then (abs_chan c)\<lparr>buffer := buffer (abs_chan c) @ [e]\<rparr> else abs_chan c)"
proof -
  obtain c' lst' r where h: "try_send dflt e c = Some (Inr r, c')" "open_chan lst' c'"
    "(r, abs_chan c') = spec_try_send (capacity c) e (abs_chan c)" "op_frame c c'" "send_quiet c c'" using try_send_ok [OF assms, of dflt e] by blast
  have r: "\<not> result_is_closed r" using h(3) by (auto simp: spec_try_send_def split: if_splits)
  have "conflated_try_send dflt e c = Some (Inr (if drop_oldest c then r else Channel_Value ()), c')"
    using h(1,3) by (auto simp: conflated_try_send_def bind_l_def spec_try_send_def split: if_splits)
  then have "conflated_send dflt e c = Some (Inr Returned, c')" using r by (simp add: conflated_send_def bind_l_def)
  then show ?thesis using h(2-5) by (auto simp: op_frame_def spec_try_send_def split: if_splits)
qed

lemma less_step: "m1 \<le> Suc m \<Longrightarrow> a + 2 * (m + Suc l) + 4 < b \<Longrightarrow> a + 2 * (m1 + l) + 4 < (b::nat)"
  by simp

lemma conflated_sends_ok:
  assumes "open_chan lst c" "\<forall>g. lost c g = 0" "capacity c + 2 * (max (senders c) (receivers c) + length es) + 4 < 2 ^ 59"
  shows "\<exists>c'. conflated_sends dflt es c = Some (Inr (), c') \<and>
    buffer (abs_chan c') = buffer (abs_chan c) @ take (capacity c - length (buffer (abs_chan c))) es"
  using assms
proof (induction es arbitrary: lst c)
  case (Cons e es)
  have "roomy c" using Cons.prems(2,3) by (simp add: roomy_def)
  from conflated_send_ok [OF Cons.prems(1) this, of dflt e] obtain c1 lst1 where h: "conflated_send dflt e c = Some (Inr Returned, c1)"
    "open_chan lst1 c1" "capacity c1 = capacity c" "send_quiet c c1"
    "abs_chan c1 = (if length (buffer (abs_chan c)) < capacity c then (abs_chan c)\<lparr>buffer := buffer (abs_chan c) @ [e]\<rparr> else abs_chan c)" by blast
  have "max (senders c1) (receivers c1) \<le> Suc (max (senders c) (receivers c))" using h(4) by (auto simp: send_quiet_def)
  then have "capacity c1 + 2 * (max (senders c1) (receivers c1) + length es) + 4 < 2 ^ 59" unfolding h(3) by (rule less_step) (use Cons.prems(3) in simp)
  moreover have "\<forall>g. lost c1 g = 0" using h(4) Cons.prems(2) by (simp add: send_quiet_def)
  ultimately obtain c' where c': "conflated_sends dflt es c1 = Some (Inr (), c')"
    "buffer (abs_chan c') = buffer (abs_chan c1) @ take (capacity c1 - length (buffer (abs_chan c1))) es" using Cons.IH [OF h(2)] by blast
  have "take (capacity c - length (buffer (abs_chan c))) (e # es) = e # take (capacity c - Suc (length (buffer (abs_chan c)))) es"
    if "length (buffer (abs_chan c)) < capacity c" using that by (simp add: take_Cons')
  then show ?case using h(1,3,5) c' by (simp add: bind_l_def)
qed simp

text \<open>C34: A conflated channel, whichever of its two strategies it was created with, keeps the first elements that fit and drops every
  later one: after any number of sends, each of which returns without suspending, its buffer is the first \<open>n\<close> elements sent. With
  \<open>DROP_OLDEST\<close> it should be the last \<open>n\<close>.\<close>

theorem conflated_keeps_oldest:
  assumes "create_conflated_channel (int n) oldest u = Inr c" "n < CHANNEL_UNLIMITED" "length es < 2 ^ 57"
  shows "\<exists>c'. conflated_sends dflt es c = Some (Inr (), c') \<and> buffer (abs_chan c') = take n es"
proof -
  have n: "0 < n" and c: "c = (new_chan n u)\<lparr>drop_oldest := oldest\<rparr>"
    using assms(1) by (auto simp: create_conflated_channel_def split: if_splits)
  have o: "open_chan 0 c" "abs_chan c = \<lparr>buffer = [], waiting = [], resumed = []\<rparr>"
    using new_chan_open [OF n assms(2), of u] by (simp_all add: c drop_oldest_open)
  have "senders c = 0" by (simp add: c senders_def new_chan_def senders_counter_def)
  moreover have "receivers c = 0" "capacity c = n" "\<forall>g. lost c g = 0"
    by (simp_all add: c new_chan_fields lost_def interrupted_def)
  ultimately show ?thesis using conflated_sends_ok [OF o(1), of es dflt] o(2) assms(2,3) by simp
qed

theorem conflated_keeps_oldest_witness:
  "\<exists>c c'. create_conflated_channel 1 True (None :: (nat \<Rightarrow> exception_ptr option) option) = Inr c \<and>
    conflated_sends 0 [5, 6, 7] c = Some (Inr (), c') \<and> buffer (abs_chan c') = [5]"
proof -
  obtain c where c: "create_conflated_channel (int 1) True (None :: (nat \<Rightarrow> exception_ptr option) option) = Inr c"
    by (simp add: create_conflated_channel_def)
  from conflated_keeps_oldest [OF c, of "[5, 6, 7]" 0] c show ?thesis by auto
qed

subsection \<open>Rendezvous channels\<close>


subsection \<open>Buffer expansion in a closed channel\<close>

lemma walk_closed:
  assumes "\<And>k. k < lst \<Longrightarrow> next_ref s k = Link (Suc k)" "next_ref s lst = Link_Closed" "g \<le> lst" "lst < i"
  shows "walk_to (Some g) i s = Some (Inr None, s)"
  using assms(3)
proof (induction "lst - g" arbitrary: g rule: less_induct)
  case less
  note step = walk_to.simps [of "Some g" i s]
  show ?case
  proof (cases "g = lst")
    case True
    then show ?thesis using step assms(2,4)
      by (simp add: next_seg_def try_set_next_def new_segment_def walk_to.simps [of None])
  next
    case False
    then have "g < lst" using less.prems by simp
    then show ?thesis using step assms(1) [of g] assms(4) less.hyps [of "Suc g"] by (simp add: next_seg_def)
  qed
qed

text \<open>
  A receive that expands the buffer beyond the last segment of a closed channel, while sends have
  failed there, continues its loop with the null segment the lookup gave it, and follows it.
\<close>

lemma expand_after_close_undefined:
  assumes "\<And>k. k < lst \<Longrightarrow> next_ref (segs c) k = Link (Suc k)" "next_ref (segs c) lst = Link_Closed"
    "g \<le> lst" "lst < buffer_end c div 32" "buffer_end c < senders c"
  shows "\<exists>c'. expand_loop (Some g) c = Some (Inl Undefined_Behaviour, c')"
proof -
  let ?c = "c\<lparr>buffer_end := Suc (buffer_end c)\<rparr>"
  have "walk_to (Some g) (buffer_end c div 32) (segs c) = Some (Inr None, segs c)" by (rule walk_closed [OF assms(1-4)])
  then have "find_segment_buffer_end (buffer_end c div 32) g ?c = Some (Inr None, ?c)"
    by (simp add: find_segment_buffer_end_def seg_op_def bind_l_def)
  then have "expand_loop (Some g) c = expand_loop None ?c"
    using assms(3-5) expand_loop.simps [of "Some g" c] by (auto simp: bind_l_def)
  then show ?thesis by (simp add: expand_loop.simps [of None])
qed

text \<open>An iterator takes an empty open channel for a finished one.\<close>

lemma iterator_stops_at_empty:
  assumes "open_chan lst c" "roomy c" "buffer (abs_chan c) = []"
  shows "\<exists>c'. has_next dflt NO_RECEIVE_RESULT c = Some (Inr (False, NO_RECEIVE_RESULT), c')"
proof -
  obtain c' lst' r where "try_receive dflt c = Some (Inr r, c')" "(r, abs_chan c') = spec_try_receive (abs_chan c)"
    using try_receive_ok [OF assms(1,2), of dflt] by blast
  then show ?thesis using assms(3) by (simp add: has_next_def spec_try_receive_def bind_l_def)
qed

text \<open>The continuation of a suspended \<open>send\<close> is never resumed by closing: the attempt throws.\<close>

lemma closing_throws_at_sender:
  "resume_waiters (Send_Cont t # ws) c = Some (Inl (Runtime_Error ''Unexpected waiter type in resumeWaiterOnClosedChannel''), c)"
  by (simp add: resume_waiter_on_closed_channel_def)

end
