(* ===== verification/Task_Queue.thy ===== *)
theory Task_Queue
  imports Loops
begin

unbundle bit_operations_syntax

text \<open>
  \<open>common/internal/LockFreeTaskQueue.cpp\<close>: the growing ring buffer of the limited dispatcher. The
  cores that were allocated are a list, the address of a core its position; an \<open>int\<close> of the code is
  an \<open>int\<close> here (all stay below \<open>2 ^ 31\<close>, the doubling of the capacity is checked), the packed state
  word a 64-bit word. Every operation runs without interleaving, so a compare-and-set on a word just
  loaded succeeds; a retry that waits for another thread is \<open>Spins\<close>. An element is a pointer that is
  not null.
\<close>

subsection \<open>Constants and the state word\<close>

definition INITIAL_CAPACITY :: int where "INITIAL_CAPACITY = 8"
definition CAPACITY_BITS :: nat where "CAPACITY_BITS = 30"
definition MAX_CAPACITY_MASK :: int where "MAX_CAPACITY_MASK = push_bit CAPACITY_BITS 1 - 1"
definition HEAD_SHIFT :: nat where "HEAD_SHIFT = 0"
definition HEAD_MASK :: "64 word" where "HEAD_MASK = push_bit HEAD_SHIFT (word_of_int MAX_CAPACITY_MASK)"
definition TAIL_SHIFT :: nat where "TAIL_SHIFT = HEAD_SHIFT + CAPACITY_BITS"
definition TAIL_MASK :: "64 word" where "TAIL_MASK = push_bit TAIL_SHIFT (word_of_int MAX_CAPACITY_MASK)"
definition FROZEN_SHIFT :: nat where "FROZEN_SHIFT = TAIL_SHIFT + CAPACITY_BITS"
definition FROZEN_MASK :: "64 word" where "FROZEN_MASK = push_bit FROZEN_SHIFT 1"
definition CLOSED_SHIFT :: nat where "CLOSED_SHIFT = FROZEN_SHIFT + 1"
definition CLOSED_MASK :: "64 word" where "CLOSED_MASK = push_bit CLOSED_SHIFT 1"
definition MIN_ADD_SPIN_CAPACITY :: int where "MIN_ADD_SPIN_CAPACITY = 1024"

definition head_of :: "64 word \<Rightarrow> int" where
  "head_of w = uint (drop_bit HEAD_SHIFT (w AND HEAD_MASK))"

definition tail_of :: "64 word \<Rightarrow> int" where
  "tail_of w = uint (drop_bit TAIL_SHIFT (w AND TAIL_MASK))"

definition update_head :: "64 word \<Rightarrow> int \<Rightarrow> 64 word" where
  "update_head w new_head = (w AND NOT HEAD_MASK) OR push_bit HEAD_SHIFT (word_of_int new_head)"

definition update_tail :: "64 word \<Rightarrow> int \<Rightarrow> 64 word" where
  "update_tail w new_tail = (w AND NOT TAIL_MASK) OR push_bit TAIL_SHIFT (word_of_int new_tail)"

datatype add_result = ADD_SUCCESS | ADD_FROZEN | ADD_CLOSED

definition add_fail_reason :: "64 word \<Rightarrow> add_result" where
  "add_fail_reason w = (if w AND CLOSED_MASK \<noteq> 0 then ADD_CLOSED else ADD_FROZEN)"

subsection \<open>Cores\<close>

text \<open>A slot is null, an element, or the placeholder that a copy leaves for an element that is reserved
  and not stored yet.\<close>

datatype 'e task_slot = Slot_Null | Element 'e | Placeholder int

record 'e task_core =
  core_capacity :: int
  single_consumer :: bool
  core_mask :: int
  core_next :: "nat option"
  core_state :: "64 word"
  core_array :: "'e task_slot list"

record 'e task_queue =
  cores :: "'e task_core list"
  cur_core :: nat

definition new_core :: "int \<Rightarrow> bool \<Rightarrow> 'e task_core" where
  "new_core capacity single = \<lparr>core_capacity = capacity, single_consumer = single, core_mask = capacity - 1, core_next = None,
     core_state = 0, core_array = replicate (nat capacity) Slot_Null\<rparr>"

definition new_task_queue :: "bool \<Rightarrow> 'e task_queue" where
  "new_task_queue single = \<lparr>cores = [new_core INITIAL_CAPACITY single], cur_core = 0\<rparr>"

definition core_at :: "nat \<Rightarrow> 'e task_queue \<Rightarrow> 'e task_core" where
  "core_at a q = cores q ! a"

definition update_core :: "nat \<Rightarrow> ('e task_core \<Rightarrow> 'e task_core) \<Rightarrow> 'e task_queue \<Rightarrow> 'e task_queue" where
  "update_core a f q = q\<lparr>cores := (cores q)[a := f (cores q ! a)]\<rparr>"

definition slot :: "'e task_core \<Rightarrow> int \<Rightarrow> 'e task_slot" where
  "slot c index = core_array c ! nat (index AND core_mask c)"

definition store_slot :: "int \<Rightarrow> 'e task_slot \<Rightarrow> 'e task_core \<Rightarrow> 'e task_core" where
  "store_slot index x c = c\<lparr>core_array := (core_array c)[nat (index AND core_mask c) := x]\<rparr>"

definition core_is_empty :: "'e task_core \<Rightarrow> bool" where
  "core_is_empty c \<longleftrightarrow> head_of (core_state c) = tail_of (core_state c)"

definition core_size :: "'e task_core \<Rightarrow> int" where
  "core_size c = (tail_of (core_state c) - head_of (core_state c)) AND MAX_CAPACITY_MASK"

definition core_is_closed :: "'e task_core \<Rightarrow> bool" where
  "core_is_closed c \<longleftrightarrow> core_state c AND CLOSED_MASK \<noteq> 0"

definition core_close :: "nat \<Rightarrow> ('e task_queue, bool) lexec" where
  "core_close a = read_l (\<lambda>q.
     let w = core_state (core_at a q)
     in if w AND CLOSED_MASK \<noteq> 0 then return_l True
        else if w AND FROZEN_MASK \<noteq> 0 then return_l False
        else seq_l (modify_l (update_core a (core_state_update (\<lambda>_. w OR CLOSED_MASK)))) (return_l True))"

subsection \<open>Freezing and copying\<close>

definition mark_frozen :: "nat \<Rightarrow> ('e task_queue, 64 word) lexec" where
  "mark_frozen a = read_l (\<lambda>q.
     let w = core_state (core_at a q)
     in if w AND FROZEN_MASK \<noteq> 0 then return_l w
        else seq_l (modify_l (update_core a (core_state_update (\<lambda>_. w OR FROZEN_MASK)))) (return_l (w OR FROZEN_MASK)))"

partial_function (option) copy_slots :: "'e task_core \<Rightarrow> int \<Rightarrow> int \<Rightarrow> 'e task_core \<Rightarrow> 'e task_core option" where
  "copy_slots c tail index nxt =
     (if index AND core_mask c = tail AND core_mask c then Some nxt
      else copy_slots c tail (index + 1)
        (store_slot index (if slot c index = Slot_Null then Placeholder index else slot c index) nxt))"

definition allocate_next_copy :: "nat \<Rightarrow> 64 word \<Rightarrow> ('e task_queue, nat) lexec" where
  "allocate_next_copy a w q =
     (let c = core_at a q
      in if core_capacity c * 2 \<ge> 2 ^ 31 then throw_l Undefined_Behaviour q
         else Option.bind (copy_slots c (tail_of w) (head_of w) (new_core (core_capacity c * 2) (single_consumer c)))
           (\<lambda>nxt. Some (Inr (length (cores q)), q\<lparr>cores := cores q @ [nxt\<lparr>core_state := w AND NOT FROZEN_MASK\<rparr>]\<rparr>)))"

definition allocate_or_get_next_copy :: "nat \<Rightarrow> 64 word \<Rightarrow> ('e task_queue, nat) lexec" where
  "allocate_or_get_next_copy a w = read_l (\<lambda>q. case core_next (core_at a q) of
       Some n \<Rightarrow> return_l n
     | None \<Rightarrow> bind_l (allocate_next_copy a w) (\<lambda>n.
         seq_l (modify_l (update_core a (core_next_update (\<lambda>_. Some n)))) (return_l n)))"

definition next_core :: "nat \<Rightarrow> ('e task_queue, nat) lexec" where
  "next_core a = bind_l (mark_frozen a) (allocate_or_get_next_copy a)"

subsection \<open>Adding\<close>

text \<open>The result of \<open>fill_placeholder\<close> is this core or null.\<close>

definition fill_placeholder :: "nat \<Rightarrow> int \<Rightarrow> 'e \<Rightarrow> ('e task_queue, nat option) lexec" where
  "fill_placeholder a index element = read_l (\<lambda>q. case slot (core_at a q) index of
       Placeholder i \<Rightarrow> if i = index
         then seq_l (modify_l (update_core a (store_slot index (Element element)))) (return_l (Some a))
         else return_l None
     | _ \<Rightarrow> return_l None)"

partial_function (option) correct_copies :: "nat \<Rightarrow> int \<Rightarrow> 'e \<Rightarrow> ('e task_queue, unit) lexec" where
  "correct_copies a tail element q =
     (if core_state (core_at a q) AND FROZEN_MASK = 0 then return_l () q
      else bind_l (next_core a) (\<lambda>n. bind_l (fill_placeholder n tail element) (\<lambda>r. case r of
          None \<Rightarrow> return_l ()
        | Some b \<Rightarrow> correct_copies b tail element)) q)"

definition core_add_last :: "nat \<Rightarrow> 'e \<Rightarrow> ('e task_queue, add_result) lexec" where
  "core_add_last a element = read_l (\<lambda>q.
     let c = core_at a q; w = core_state c; head = head_of w; tail = tail_of w; mask = core_mask c
     in if w AND (FROZEN_MASK OR CLOSED_MASK) \<noteq> 0 then return_l (add_fail_reason w)
        else if (tail + 2) AND mask = head AND mask then return_l ADD_FROZEN
        else if \<not> single_consumer c \<and> slot c tail \<noteq> Slot_Null
          then if core_capacity c < MIN_ADD_SPIN_CAPACITY \<or> (tail - head) AND MAX_CAPACITY_MASK > drop_bit 1 (core_capacity c)
            then return_l ADD_FROZEN else throw_l Spins
        else seq_l (modify_l (update_core a (core_state_update (\<lambda>_. update_tail w ((tail + 1) AND MAX_CAPACITY_MASK)))))
          (seq_l (modify_l (update_core a (store_slot tail (Element element))))
          (seq_l (correct_copies a tail element) (return_l ADD_SUCCESS))))"

subsection \<open>Removing\<close>

datatype 'e remove_result = REMOVE_FROZEN | Removed "'e option"

text \<open>The compare-and-set on the word just loaded succeeds, so the slow path of a single consumer is not
  entered here.\<close>

definition core_remove_first_or_null :: "nat \<Rightarrow> ('e task_queue, 'e remove_result) lexec" where
  "core_remove_first_or_null a = read_l (\<lambda>q.
     let c = core_at a q; w = core_state c; head = head_of w; tail = tail_of w; mask = core_mask c
     in if w AND FROZEN_MASK \<noteq> 0 then return_l REMOVE_FROZEN
        else if tail AND mask = head AND mask then return_l (Removed None)
        else case slot c head of
            Slot_Null \<Rightarrow> if single_consumer c then return_l (Removed None) else throw_l Spins
          | Placeholder i \<Rightarrow> return_l (Removed None)
          | Element element \<Rightarrow>
              seq_l (modify_l (update_core a (core_state_update (\<lambda>_. update_head w ((head + 1) AND MAX_CAPACITY_MASK)))))
              (seq_l (modify_l (update_core a (store_slot head Slot_Null))) (return_l (Removed (Some element)))))"

text \<open>The slow path follows the copies until the removal is done in the last of them.\<close>

definition remove_slow_path :: "nat \<Rightarrow> int \<Rightarrow> ('e task_queue, nat option) lexec" where
  "remove_slow_path a new_head = read_l (\<lambda>q.
     let w = core_state (core_at a q)
     in if w AND FROZEN_MASK \<noteq> 0 then bind_l (next_core a) (\<lambda>n. return_l (Some n))
        else seq_l (modify_l (update_core a (core_state_update (\<lambda>_. update_head w new_head))))
          (seq_l (modify_l (update_core a (store_slot (head_of w) Slot_Null))) (return_l None)))"

partial_function (option) correct_head :: "nat \<Rightarrow> int \<Rightarrow> ('e task_queue, unit) lexec" where
  "correct_head a new_head q = bind_l (remove_slow_path a new_head) (\<lambda>r. case r of
       None \<Rightarrow> return_l ()
     | Some n \<Rightarrow> correct_head n new_head) q"

subsection \<open>The queue\<close>

definition move_to_next :: "nat \<Rightarrow> ('e task_queue, unit) lexec" where
  "move_to_next cur = bind_l (next_core cur) (\<lambda>n. modify_l (cur_core_update (\<lambda>_. n)))"

definition task_queue_is_empty :: "'e task_queue \<Rightarrow> bool" where
  "task_queue_is_empty q = core_is_empty (core_at (cur_core q) q)"

definition task_queue_size :: "'e task_queue \<Rightarrow> int" where
  "task_queue_size q = core_size (core_at (cur_core q) q)"

definition task_queue_is_closed :: "'e task_queue \<Rightarrow> bool" where
  "task_queue_is_closed q = core_is_closed (core_at (cur_core q) q)"

partial_function (option) close_task_queue :: "('e task_queue, unit) lexec" where
  "close_task_queue q = bind_l (core_close (cur_core q)) (\<lambda>closed.
     if closed then return_l () else seq_l (move_to_next (cur_core q)) close_task_queue) q"

partial_function (option) add_task :: "'e \<Rightarrow> ('e task_queue, bool) lexec" where
  "add_task element q = bind_l (core_add_last (cur_core q) element) (\<lambda>r. case r of
       ADD_SUCCESS \<Rightarrow> return_l True
     | ADD_CLOSED \<Rightarrow> return_l False
     | ADD_FROZEN \<Rightarrow> seq_l (move_to_next (cur_core q)) (add_task element)) q"

partial_function (option) remove_first_task :: "('e task_queue, 'e option) lexec" where
  "remove_first_task q = bind_l (core_remove_first_or_null (cur_core q)) (\<lambda>r. case r of
       Removed x \<Rightarrow> return_l x
     | REMOVE_FROZEN \<Rightarrow> seq_l (move_to_next (cur_core q)) remove_first_task) q"

partial_function (option) core_map :: "('e \<Rightarrow> 'r) \<Rightarrow> 'e task_core \<Rightarrow> int \<Rightarrow> int \<Rightarrow> 'r list option" where
  "core_map f c tail index =
     (if index AND core_mask c = tail AND core_mask c then Some []
      else Option.bind (core_map f c tail (index + 1))
        (\<lambda>r. Some (case slot c index of Element e \<Rightarrow> f e # r | _ \<Rightarrow> r)))"

definition map_tasks :: "('e \<Rightarrow> 'r) \<Rightarrow> 'e task_queue \<Rightarrow> 'r list option" where
  "map_tasks f q = (let c = core_at (cur_core q) q in core_map f c (tail_of (core_state c)) (head_of (core_state c)))"

subsection \<open>The state word\<close>

lemmas mask_consts = MAX_CAPACITY_MASK_def CAPACITY_BITS_def HEAD_SHIFT_def HEAD_MASK_def TAIL_SHIFT_def TAIL_MASK_def
  FROZEN_SHIFT_def FROZEN_MASK_def CLOSED_SHIFT_def CLOSED_MASK_def

lemma max_capacity_mask: "MAX_CAPACITY_MASK = mask 30"
  by (simp add: mask_consts mask_eq_exp_minus_1 push_bit_eq_mult)

lemma word_masks:
  "HEAD_MASK = mask 30" "TAIL_MASK = push_bit 30 (mask 30)" "FROZEN_MASK = push_bit 60 1" "CLOSED_MASK = push_bit 61 1"
  by (simp_all add: mask_consts mask_eq_exp_minus_1 push_bit_eq_mult)

lemma head_of_bits: "head_of w = uint (take_bit 30 w)"
  unfolding head_of_def word_masks HEAD_SHIFT_def by (simp add: take_bit_eq_mask)

lemma tail_of_bits: "tail_of w = uint (take_bit 30 (drop_bit 30 w))"
  unfolding tail_of_def word_masks TAIL_SHIFT_def HEAD_SHIFT_def CAPACITY_BITS_def
  by (intro arg_cong [where f = uint] bit_word_eqI) (auto simp: bit_simps)

lemma frozen_bit: "w AND FROZEN_MASK = 0 \<longleftrightarrow> \<not> bit w 60"
  unfolding word_masks push_bit_of_1 by (rule and_exp_eq_0_iff_not_bit)

lemma closed_bit: "w AND CLOSED_MASK = 0 \<longleftrightarrow> \<not> bit w 61"
  unfolding word_masks push_bit_of_1 by (rule and_exp_eq_0_iff_not_bit)

lemma frozen_or_closed: "w AND (FROZEN_MASK OR CLOSED_MASK) = 0 \<longleftrightarrow> \<not> bit w 60 \<and> \<not> bit w 61"
proof -
  have "w AND (FROZEN_MASK OR CLOSED_MASK) = (w AND FROZEN_MASK) OR (w AND CLOSED_MASK)" by (simp add: bit.conj_disj_distrib)
  then show ?thesis using frozen_bit closed_bit by (metis or_eq_0_iff)
qed

lemma uint_take_word: "0 \<le> h \<Longrightarrow> h < 2 ^ 30 \<Longrightarrow> uint (take_bit 30 (word_of_int h :: 64 word)) = h"
  by (simp add: unsigned_take_bit_eq uint_word_of_int_eq take_bit_int_eq_self)

lemma small_bit: "bit h n \<Longrightarrow> n < 30" if "0 \<le> h" "h < 2 ^ 30" for h :: int
  using that by (metis bit_take_bit_iff take_bit_int_eq_self)

lemma bit_update_head: "bit (update_head w h) n \<longleftrightarrow> (if n < 30 then bit h n else bit w n) \<and> n < 64" if "0 \<le> h" "h < 2 ^ 30"
  unfolding update_head_def word_masks HEAD_SHIFT_def using small_bit [OF that, of n]
  by (auto simp: bit_simps dest: bit_imp_le_length)

lemma bit_update_tail: "bit (update_tail w t) n \<longleftrightarrow> (if 30 \<le> n \<and> n < 60 then bit t (n - 30) else bit w n) \<and> n < 64"
  if "0 \<le> t" "t < 2 ^ 30"
  unfolding update_tail_def word_masks TAIL_SHIFT_def HEAD_SHIFT_def CAPACITY_BITS_def using small_bit [OF that, of "n - 30"]
  by (auto simp: bit_simps dest: bit_imp_le_length)

lemma head_of_cong: "(\<And>n. n < 30 \<Longrightarrow> bit v n = bit w n) \<Longrightarrow> head_of v = head_of w"
  unfolding head_of_bits by (intro arg_cong [where f = uint] bit_word_eqI) (auto simp: bit_simps)

lemma tail_of_cong: "(\<And>n. 30 \<le> n \<Longrightarrow> n < 60 \<Longrightarrow> bit v n = bit w n) \<Longrightarrow> tail_of v = tail_of w"
  unfolding tail_of_bits by (intro arg_cong [where f = uint] bit_word_eqI) (auto simp: bit_simps)

lemma head_of_update_head [simp]: "0 \<le> h \<Longrightarrow> h < 2 ^ 30 \<Longrightarrow> head_of (update_head w h) = h"
  unfolding head_of_bits by (subst uint_take_word [symmetric, of h], assumption, assumption)
    (intro arg_cong [where f = uint] bit_word_eqI, auto simp: bit_simps bit_update_head)

lemma tail_of_update_tail [simp]: "0 \<le> t \<Longrightarrow> t < 2 ^ 30 \<Longrightarrow> tail_of (update_tail w t) = t"
  unfolding tail_of_bits by (subst uint_take_word [symmetric, of t], assumption, assumption)
    (intro arg_cong [where f = uint] bit_word_eqI, auto simp: bit_simps bit_update_tail)

lemma flag_bits: "bit FROZEN_MASK n \<longleftrightarrow> n = 60" "bit CLOSED_MASK n \<longleftrightarrow> n = 61"
  unfolding word_masks push_bit_of_1 by (simp_all only: bit_exp_iff possible_bit_word) auto

lemma word_updates [simp]:
  "0 \<le> t \<Longrightarrow> t < 2 ^ 30 \<Longrightarrow> head_of (update_tail w t) = head_of w"
  "0 \<le> h \<Longrightarrow> h < 2 ^ 30 \<Longrightarrow> tail_of (update_head w h) = tail_of w"
  "head_of (w OR FROZEN_MASK) = head_of w" "tail_of (w OR FROZEN_MASK) = tail_of w"
  "head_of (w OR CLOSED_MASK) = head_of w" "tail_of (w OR CLOSED_MASK) = tail_of w"
  "head_of (w AND NOT FROZEN_MASK) = head_of w" "tail_of (w AND NOT FROZEN_MASK) = tail_of w"
  by (auto intro!: head_of_cong tail_of_cong simp: bit_update_head bit_update_tail bit_simps flag_bits)

lemma flag_updates [simp]:
  "0 \<le> t \<Longrightarrow> t < 2 ^ 30 \<Longrightarrow> bit (update_tail w t) 60 \<longleftrightarrow> bit w 60"
  "0 \<le> t \<Longrightarrow> t < 2 ^ 30 \<Longrightarrow> bit (update_tail w t) 61 \<longleftrightarrow> bit w 61"
  "0 \<le> h \<Longrightarrow> h < 2 ^ 30 \<Longrightarrow> bit (update_head w h) 60 \<longleftrightarrow> bit w 60"
  "0 \<le> h \<Longrightarrow> h < 2 ^ 30 \<Longrightarrow> bit (update_head w h) 61 \<longleftrightarrow> bit w 61"
  "bit (w OR FROZEN_MASK) 60" "bit (w OR FROZEN_MASK) 61 \<longleftrightarrow> bit w 61"
  "bit (w OR CLOSED_MASK) 61" "bit (w OR CLOSED_MASK) 60 \<longleftrightarrow> bit w 60"
  "\<not> bit (w AND NOT FROZEN_MASK) 60" "bit (w AND NOT FROZEN_MASK) 61 \<longleftrightarrow> bit w 61"
  unfolding word_masks push_bit_of_1 by (simp_all add: bit_update_head bit_update_tail bit_simps)

lemma head_range [simp]: "0 \<le> head_of w" "head_of w < 2 ^ 30"
  unfolding head_of_bits unsigned_take_bit_eq using take_bit_int_less_exp [of 30 "uint w"] by simp_all

lemma tail_range [simp]: "0 \<le> tail_of w" "tail_of w < 2 ^ 30"
  unfolding tail_of_bits unsigned_take_bit_eq using take_bit_int_less_exp [of 30 "uint (drop_bit 30 w)"] by simp_all

subsection \<open>The contents of a core\<close>

text \<open>\<open>core_holds k h xs c\<close>: the core has \<open>2 ^ k\<close> slots, its head is \<open>h\<close>, and its slots from there on hold
  the elements \<open>xs\<close> and nothing else. Two slots stay free.\<close>

definition core_holds :: "nat \<Rightarrow> nat \<Rightarrow> 'e list \<Rightarrow> 'e task_core \<Rightarrow> bool" where
  "core_holds k h xs c \<longleftrightarrow> core_capacity c = 2 ^ k \<and> core_mask c = 2 ^ k - 1 \<and> length (core_array c) = 2 ^ k \<and>
     3 \<le> k \<and> k \<le> 30 \<and> length xs + 2 \<le> 2 ^ k \<and> h < 2 ^ 30 \<and>
     head_of (core_state c) = int h \<and> tail_of (core_state c) = int ((h + length xs) mod 2 ^ 30) \<and>
     (\<forall>i<2 ^ k. core_array c ! ((h + i) mod 2 ^ k) = (if i < length xs then Element (xs ! i) else Slot_Null))"

lemma int_and_mask: "int j AND (2 ^ k - 1) = int (j mod 2 ^ k)"
  using take_bit_eq_mask [of k "int j"] by (simp add: mask_eq_exp_minus_1 take_bit_eq_mod zmod_int)

lemma int_and_max: "int j AND MAX_CAPACITY_MASK = int (j mod 2 ^ 30)"
  unfolding max_capacity_mask mask_eq_exp_minus_1 by (rule int_and_mask)

lemma slot_index:
  assumes "core_mask c = 2 ^ k - 1"
  shows "slot c (int j) = core_array c ! (j mod 2 ^ k)"
    "store_slot (int j) x c = c\<lparr>core_array := (core_array c)[j mod 2 ^ k := x]\<rparr>"
  using int_and_mask [of j k] assms by (simp_all add: slot_def store_slot_def)

lemma mod_wrap: "k \<le> 30 \<Longrightarrow> (j mod 2 ^ 30) mod 2 ^ k = j mod 2 ^ k" for j k :: nat
  by (rule mod_mod_cancel, rule le_imp_power_dvd)

lemma mod_same:
  fixes i j h m :: nat
  assumes "i < m" "j < m" "(h + i) mod m = (h + j) mod m"
  shows "i = j"
proof -
  have "\<not> a < b" if "a < m" "b < m" "(h + a) mod m = (h + b) mod m" for a b
  proof
    assume "a < b"
    then have "m dvd b - a" using that(3) mod_eq_dvd_iff_nat [of "h + a" "h + b" m] by simp
    then show False using \<open>a < b\<close> that(2) by (auto dest: dvd_imp_le)
  qed
  then show ?thesis using assms by (metis nat_neq_iff)
qed

lemma core_size_holds:
  assumes "core_holds k h xs c"
  shows "core_size c = int (length xs)" "core_is_empty c \<longleftrightarrow> xs = []"
proof -
  have n: "length xs + 2 \<le> 2 ^ k" "k \<le> 30" and h: "h < 2 ^ 30" and ht: "head_of (core_state c) = int h"
    "tail_of (core_state c) = int ((h + length xs) mod 2 ^ 30)" using assms by (simp_all add: core_holds_def)
  have "2 ^ k \<le> (2 :: nat) ^ 30" using n(2) by (intro power_increasing) auto
  then have n30: "length xs < 2 ^ 30" using n by linarith
  have "(tail_of (core_state c) - head_of (core_state c)) mod 2 ^ 30 = int (length xs)"
    unfolding ht using n30 by (simp add: zmod_int mod_diff_left_eq)
  moreover have "core_size c = (tail_of (core_state c) - head_of (core_state c)) mod 2 ^ 30"
    unfolding core_size_def max_capacity_mask by (simp add: take_bit_eq_mask [symmetric] take_bit_eq_mod)
  ultimately show size: "core_size c = int (length xs)" by simp
  show "core_is_empty c \<longleftrightarrow> xs = []" unfolding core_is_empty_def ht
    using mod_same [of "length xs" "2 ^ 30" 0 h] n30 h by auto
qed

lemma core_holdsD:
  assumes "core_holds k h xs c"
  shows "core_capacity c = 2 ^ k" "core_mask c = 2 ^ k - 1" "length (core_array c) = 2 ^ k" "3 \<le> k" "k \<le> 30"
    "length xs + 2 \<le> 2 ^ k" "h < 2 ^ 30" "head_of (core_state c) = int h"
    "tail_of (core_state c) = int ((h + length xs) mod 2 ^ 30)"
    "\<And>i. i < 2 ^ k \<Longrightarrow> core_array c ! ((h + i) mod 2 ^ k) = (if i < length xs then Element (xs ! i) else Slot_Null)"
  using assms by (simp_all add: core_holds_def)

lemma slot_holds:
  assumes "core_holds k h xs c" "i < 2 ^ k"
  shows "slot c (int (h + i)) = (if i < length xs then Element (xs ! i) else Slot_Null)"
  using core_holdsD [OF assms(1)] assms(2) slot_index(1) [of c k "h + i"] by simp

lemma end_reached:
  assumes c: "core_holds k h xs c" and j: "j \<le> length xs"
  shows "int (h + j) AND core_mask c = int ((h + length xs) mod 2 ^ 30) AND core_mask c \<longleftrightarrow> j = length xs"
proof -
  have "int (h + j) AND core_mask c = int ((h + length xs) mod 2 ^ 30) AND core_mask c \<longleftrightarrow> (h + j) mod 2 ^ k = (h + length xs) mod 2 ^ k"
    unfolding core_holdsD(2) [OF c] int_and_mask using mod_wrap [OF core_holdsD(5) [OF c]] by simp
  also have "\<dots> \<longleftrightarrow> j = length xs" using mod_same [of j "2 ^ k" "length xs" h] core_holdsD(6) [OF c] j by auto
  finally show ?thesis .
qed

lemma copy_slots_holds:
  assumes c: "core_holds k h xs c" and m: "core_mask d = 2 ^ Suc k - 1" and "j \<le> length xs"
  shows "copy_slots c (int ((h + length xs) mod 2 ^ 30)) (int (h + j)) d =
    Some (d\<lparr>core_array := fold (\<lambda>i a. a[(h + i) mod 2 ^ Suc k := Element (xs ! i)]) [j..<length xs] (core_array d)\<rparr>)"
  using assms(2,3)
proof (induction "length xs - j" arbitrary: j d)
  case 0
  then show ?case using end_reached [OF c, of j] by (subst copy_slots.simps) simp
next
  case (Suc m)
  then have j: "j < length xs" by simp
  then have s: "slot c (int (h + j)) = Element (xs ! j)" using slot_holds [OF c, of j] core_holdsD(6) [OF c] by simp
  let ?d = "d\<lparr>core_array := (core_array d)[(h + j) mod 2 ^ Suc k := Element (xs ! j)]\<rparr>"
  let ?t = "int ((h + length xs) mod 2 ^ 30)"
  have st: "store_slot (int (h + j)) (Element (xs ! j)) d = ?d" by (rule slot_index(2) [OF Suc.prems(1)])
  have nx: "int (h + j) + 1 = int (h + Suc j)" by simp
  have "copy_slots c ?t (int (h + j)) d = copy_slots c ?t (int (h + Suc j)) ?d"
    using end_reached [OF c, of j] j by (subst copy_slots.simps) (simp add: s st nx del: of_nat_add)
  also have "\<dots> = Some (?d\<lparr>core_array := fold (\<lambda>i a. a[(h + i) mod 2 ^ Suc k := Element (xs ! i)]) [Suc j..<length xs] (core_array ?d)\<rparr>)"
    using Suc.hyps(2) Suc.prems(1) j by (intro Suc.hyps(1)) auto
  also have "\<dots> = Some (d\<lparr>core_array := fold (\<lambda>i a. a[(h + i) mod 2 ^ Suc k := Element (xs ! i)]) [j..<length xs] (core_array d)\<rparr>)"
    using j by (simp add: upt_rec [of j])
  finally show ?case .
qed

lemma nth_fold_slots:
  assumes "i < m" "n \<le> m" "length a = m"
  shows "fold (\<lambda>i a. a[(h + i) mod m := f i]) [0..<n] a ! ((h + i) mod m) = (if i < n then f i else a ! ((h + i) mod m))"
    "length (fold (\<lambda>i a. a[(h + i) mod m := f i]) [0..<n] a) = m"
proof -
  have len: "length (fold (\<lambda>i a. a[(h + i) mod m := f i]) [0..<n] a) = m" for n using assms(3) by (induction n) simp_all
  show "length (fold (\<lambda>i a. a[(h + i) mod m := f i]) [0..<n] a) = m" by (rule len)
  show "fold (\<lambda>i a. a[(h + i) mod m := f i]) [0..<n] a ! ((h + i) mod m) = (if i < n then f i else a ! ((h + i) mod m))"
    using assms(2)
  proof (induction n)
    case (Suc n)
    have "n = i" if "(h + n) mod m = (h + i) mod m" using mod_same [OF _ assms(1) that] Suc.prems by simp
    then show ?case using Suc len [of n] assms(1) by (cases "n = i") (auto simp: nth_list_update less_Suc_eq)
  qed simp
qed

lemma store_holds:
  assumes c: "core_holds k h xs c" and n: "length xs + 3 \<le> 2 ^ k"
  shows "core_holds k h (xs @ [e])
    (store_slot (tail_of (core_state c)) (Element e) (c\<lparr>core_state := update_tail (core_state c) ((tail_of (core_state c) + 1) AND MAX_CAPACITY_MASK)\<rparr>))"
proof -
  note d = core_holdsD [OF c]
  let ?t = "(h + length xs) mod 2 ^ 30"
  have tl: "(int ?t + 1) AND MAX_CAPACITY_MASK = int ((h + length (xs @ [e])) mod 2 ^ 30)"
    using int_and_max [of "?t + 1"] by (simp add: mod_Suc_eq add.commute)
  let ?w = "update_tail (core_state c) ((tail_of (core_state c) + 1) AND MAX_CAPACITY_MASK)"
  have st: "store_slot (tail_of (core_state c)) (Element e) (c\<lparr>core_state := ?w\<rparr>) =
      c\<lparr>core_state := ?w, core_array := (core_array c)[(h + length xs) mod 2 ^ k := Element e]\<rparr>"
    using slot_index(2) [of "c\<lparr>core_state := ?w\<rparr>" k ?t] mod_wrap [OF d(5), of "h + length xs"] d(2,9) by simp
  have w: "head_of ?w = int h" "tail_of ?w = int ((h + length (xs @ [e])) mod 2 ^ 30)" unfolding d(9) tl using d(8) by simp_all
  have "(core_array c)[(h + length xs) mod 2 ^ k := Element e] ! ((h + i) mod 2 ^ k) =
      (if i < length (xs @ [e]) then Element ((xs @ [e]) ! i) else Slot_Null)" if "i < 2 ^ k" for i
  proof (cases "i = length xs")
    case False
    then have "(h + length xs) mod 2 ^ k \<noteq> (h + i) mod 2 ^ k" using mod_same [OF _ that, of "length xs" h] d(6) by auto
    then show ?thesis using False d(10) [OF that] by (simp add: nth_append)
  qed (simp add: d(3))
  then show ?thesis unfolding st core_holds_def using d(1-7) n w by auto
qed

lemma take_holds:
  assumes c: "core_holds k h (x # xs) c"
  shows "core_holds k ((h + 1) mod 2 ^ 30) xs
    (store_slot (head_of (core_state c)) Slot_Null (c\<lparr>core_state := update_head (core_state c) ((head_of (core_state c) + 1) AND MAX_CAPACITY_MASK)\<rparr>))"
proof -
  note d = core_holdsD [OF c]
  have hd: "(int h + 1) AND MAX_CAPACITY_MASK = int ((h + 1) mod 2 ^ 30)" using int_and_max [of "h + 1"] by (simp add: add.commute)
  let ?w = "update_head (core_state c) ((head_of (core_state c) + 1) AND MAX_CAPACITY_MASK)"
  have st: "store_slot (head_of (core_state c)) Slot_Null (c\<lparr>core_state := ?w\<rparr>) =
      c\<lparr>core_state := ?w, core_array := (core_array c)[h mod 2 ^ k := Slot_Null]\<rparr>"
    using slot_index(2) [of "c\<lparr>core_state := ?w\<rparr>" k h] d(2,8) by simp
  have tl: "(((h + 1) mod 2 ^ 30) + length xs) mod 2 ^ 30 = (h + length (x # xs)) mod 2 ^ 30" by (simp add: mod_add_left_eq)
  have "(core_array c)[h mod 2 ^ k := Slot_Null] ! (((h + 1) mod 2 ^ 30 + i) mod 2 ^ k) =
      (if i < length xs then Element (xs ! i) else Slot_Null)" if i: "i < 2 ^ k" for i
  proof -
    have ix: "((h + 1) mod 2 ^ 30 + i) mod 2 ^ k = (h + Suc i) mod 2 ^ k"
      using mod_wrap [OF d(5), of "h + 1"] mod_add_left_eq [of "(h + 1) mod 2 ^ 30" "2 ^ k" i] mod_add_left_eq [of "h + 1" "2 ^ k" i]
      by (simp add: ac_simps)
    show ?thesis
    proof (cases "Suc i < 2 ^ k")
      case True
      then have "h mod 2 ^ k \<noteq> (h + Suc i) mod 2 ^ k" using mod_same [of 0 "2 ^ k" "Suc i" h] by auto
      then show ?thesis using True d(10) [OF True] unfolding ix by simp
    next
      case False
      then have "Suc i = 2 ^ k" using i by simp
      then have "(h + Suc i) mod 2 ^ k = h mod 2 ^ k" by (metis mod_add_self2)
      then show ?thesis using False d(6) d(3) unfolding ix by auto
    qed
  qed
  moreover have "head_of ?w = int ((h + 1) mod 2 ^ 30)" "tail_of ?w = int (((h + 1) mod 2 ^ 30 + length xs) mod 2 ^ 30)"
    unfolding d(8) hd tl using d(9) by simp_all
  moreover have "(h + 1) mod 2 ^ 30 < 2 ^ 30" by (rule mod_less_divisor) simp
  ultimately show ?thesis unfolding st core_holds_def using d(1-6) by auto
qed

lemma holds_state:
  assumes "core_holds k h xs c" "head_of w = head_of (core_state c)" "tail_of w = tail_of (core_state c)"
  shows "core_holds k h xs (c\<lparr>core_state := w, core_next := n\<rparr>)" "core_holds k h xs (c\<lparr>core_state := w\<rparr>)"
  using assms by (simp_all add: core_holds_def)

lemma copy_holds:
  assumes c: "core_holds k h xs c" and k: "k < 30" and w: "head_of w = head_of (core_state c)" "tail_of w = tail_of (core_state c)"
  shows "\<exists>d. copy_slots c (tail_of w) (head_of w) (new_core (core_capacity c * 2) s) = Some d \<and>
    core_holds (Suc k) h xs (d\<lparr>core_state := w AND NOT FROZEN_MASK\<rparr>) \<and> core_next d = None"
proof -
  note d = core_holdsD [OF c]
  let ?n = "new_core (core_capacity c * 2) s :: 'a task_core"
  let ?a = "fold (\<lambda>i a. a[(h + i) mod 2 ^ Suc k := Element (xs ! i)]) [0..<length xs] (core_array ?n)"
  have cap: "core_capacity c * 2 = 2 ^ Suc k" using d(1) by simp
  have le: "length xs + 2 \<le> 2 ^ Suc k" using d(6) by simp
  have n: "length (core_array ?n) = 2 ^ Suc k" "core_mask ?n = 2 ^ Suc k - 1" "core_next ?n = None" unfolding cap
    by (simp_all add: new_core_def nat_power_eq nat_mult_distrib)
  have a: "length ?a = 2 ^ Suc k" using nth_fold_slots(2) [of 0 "2 ^ Suc k" "length xs" "core_array ?n" h] n d(6) by simp
  have e: "?a ! ((h + i) mod 2 ^ Suc k) = (if i < length xs then Element (xs ! i) else Slot_Null)" if "i < 2 ^ Suc k" for i
    using nth_fold_slots(1) [OF that, of "length xs" "core_array ?n" h "\<lambda>i. Element (xs ! i)"] n(1) d(6)
    by (simp add: new_core_def cap nat_power_eq nat_mult_distrib)
  have "copy_slots c (tail_of w) (head_of w) ?n = Some (?n\<lparr>core_array := ?a\<rparr>)"
    using copy_slots_holds [OF c n(2), of 0] w d(8,9) by simp
  moreover have "core_holds (Suc k) h xs (?n\<lparr>core_array := ?a, core_state := w AND NOT FROZEN_MASK\<rparr>)"
    unfolding core_holds_def using a e d w k cap le by (auto simp: new_core_def simp del: power_Suc)
  ultimately show ?thesis using n(3) by (intro exI [of _ "?n\<lparr>core_array := ?a\<rparr>"]) simp
qed

subsection \<open>The queue is a list\<close>

definition queue_holds :: "nat \<Rightarrow> nat \<Rightarrow> 'e list \<Rightarrow> bool \<Rightarrow> 'e task_queue \<Rightarrow> bool" where
  "queue_holds k h xs closed q \<longleftrightarrow> cur_core q < length (cores q) \<and> core_holds k h xs (core_at (cur_core q) q) \<and>
     core_next (core_at (cur_core q) q) = None \<and> \<not> bit (core_state (core_at (cur_core q) q)) 60 \<and>
     (bit (core_state (core_at (cur_core q) q)) 61 \<longleftrightarrow> closed)"

lemma core_at_update [simp]:
  "a < length (cores q) \<Longrightarrow> core_at a (update_core a f q) = f (core_at a q)"
  "cur_core (update_core a f q) = cur_core q" "length (cores (update_core a f q)) = length (cores q)"
  by (simp_all add: core_at_def update_core_def)

lemma core_frames [simp]:
  "core_next (store_slot i x c) = core_next c" "core_state (store_slot i x c) = core_state c"
  by (simp_all add: store_slot_def)

lemma and_max_range [simp]: "0 \<le> t \<Longrightarrow> 0 \<le> t AND MAX_CAPACITY_MASK" "t AND MAX_CAPACITY_MASK < 1073741824"
  using take_bit_int_less_exp [of 30 t] by (simp_all add: max_capacity_mask take_bit_eq_mask)

lemma new_task_queue_holds: "queue_holds 3 0 [] False (new_task_queue single)"
proof -
  have "replicate 8 Slot_Null ! (i mod 8) = Slot_Null" for i :: nat by (simp add: nth_replicate)
  then show ?thesis unfolding queue_holds_def
    by (simp add: new_task_queue_def core_at_def new_core_def core_holds_def INITIAL_CAPACITY_def head_of_bits tail_of_bits)
qed

lemma move_to_next_holds:
  assumes q: "queue_holds k h xs closed q" and k: "k < 30"
  shows "\<exists>q'. move_to_next (cur_core q) q = Some (Inr (), q') \<and> queue_holds (Suc k) h xs closed q' \<and>
    core_state (core_at (cur_core q) q') AND FROZEN_MASK \<noteq> 0 \<and> core_next (core_at (cur_core q) q') = Some (cur_core q')"
proof -
  let ?a = "cur_core q" and ?c = "core_at (cur_core q) q"
  let ?w = "core_state ?c OR FROZEN_MASK"
  let ?q = "update_core ?a (core_state_update (\<lambda>_. ?w)) q"
  have a: "?a < length (cores q)" and c: "core_holds k h xs ?c" and n: "core_next ?c = None"
    and f: "\<not> bit (core_state ?c) 60" "bit (core_state ?c) 61 \<longleftrightarrow> closed" using q by (simp_all add: queue_holds_def)
  have mf: "mark_frozen ?a q = Some (Inr ?w, ?q)" using f(1) by (simp add: mark_frozen_def Let_def frozen_bit)
  have at: "core_at ?a ?q = ?c\<lparr>core_state := ?w\<rparr>" using a by simp
  have c': "core_holds k h xs (?c\<lparr>core_state := ?w\<rparr>)" by (rule holds_state(2) [OF c]) simp_all
  obtain d where d: "copy_slots (?c\<lparr>core_state := ?w\<rparr>) (tail_of ?w) (head_of ?w) (new_core (core_capacity ?c * 2) (single_consumer ?c)) = Some d"
      "core_holds (Suc k) h xs (d\<lparr>core_state := ?w AND NOT FROZEN_MASK\<rparr>)" "core_next d = None"
    using copy_holds [OF c' k, of ?w "single_consumer ?c"] by auto
  have "core_capacity ?c * 2 = 2 ^ Suc k" using core_holdsD(1) [OF c] by simp
  moreover have "(2 :: int) ^ Suc k < 2 ^ 31" using k by (intro power_strict_increasing) auto
  ultimately have cap: "\<not> 2 ^ 31 \<le> core_capacity ?c * 2" by linarith
  let ?n = "length (cores q)"
  let ?r = "?q\<lparr>cores := cores ?q @ [d\<lparr>core_state := ?w AND NOT FROZEN_MASK\<rparr>]\<rparr>"
  have al: "allocate_next_copy ?a ?w ?q = Some (Inr ?n, ?r)"
    using d(1) cap by (simp add: allocate_next_copy_def at)
  have nx: "core_next (core_at ?a ?q) = None" using n by (simp add: at)
  let ?s = "update_core ?a (core_next_update (\<lambda>_. Some ?n)) ?r"
  have "next_core ?a q = Some (Inr ?n, ?s)"
    by (simp add: next_core_def bind_l_return [where m = "mark_frozen ?a", OF mf] allocate_or_get_next_copy_def nx bind_l_return [where m = "allocate_next_copy ?a ?w", OF al])
  then have m: "move_to_next ?a q = Some (Inr (), ?s\<lparr>cur_core := ?n\<rparr>)"
    by (simp add: move_to_next_def bind_l_return)
  have "core_at ?n (?s\<lparr>cur_core := ?n\<rparr>) = d\<lparr>core_state := ?w AND NOT FROZEN_MASK\<rparr>" using a
    by (simp add: core_at_def update_core_def nth_append)
  then have "queue_holds (Suc k) h xs closed (?s\<lparr>cur_core := ?n\<rparr>)"
    using d f(2) by (simp add: queue_holds_def)
  moreover have "core_at ?a (?s\<lparr>cur_core := ?n\<rparr>) = ?c\<lparr>core_state := ?w, core_next := Some ?n\<rparr>" using a
    by (simp add: core_at_def update_core_def nth_append)
  ultimately show ?thesis using m by (simp add: frozen_bit)
qed

lemma queue_holdsD:
  assumes "queue_holds k h xs closed q"
  shows "cur_core q < length (cores q)" "core_holds k h xs (core_at (cur_core q) q)"
    "core_next (core_at (cur_core q) q) = None" "core_state (core_at (cur_core q) q) AND FROZEN_MASK = 0"
    "core_state (core_at (cur_core q) q) AND CLOSED_MASK = 0 \<longleftrightarrow> \<not> closed"
  using assms by (simp_all add: queue_holds_def frozen_bit closed_bit)

lemma queue_observers:
  assumes "queue_holds k h xs closed q"
  shows "task_queue_size q = int (length xs)" "task_queue_is_empty q \<longleftrightarrow> xs = []" "task_queue_is_closed q = closed"
  using core_size_holds [OF queue_holdsD(2) [OF assms]] queue_holdsD(5) [OF assms]
  by (simp_all add: task_queue_size_def task_queue_is_empty_def task_queue_is_closed_def core_is_closed_def)

lemma full_test:
  assumes c: "core_holds k h xs c"
  shows "(tail_of (core_state c) + 2) AND core_mask c = head_of (core_state c) AND core_mask c \<longleftrightarrow> length xs + 2 = 2 ^ k"
proof -
  note d = core_holdsD [OF c]
  have "((h + length xs) mod 2 ^ 30 + 2) mod 2 ^ k = (h + (length xs + 2)) mod 2 ^ k"
    using mod_wrap [OF d(5), of "h + length xs"] mod_add_left_eq [of "(h + length xs) mod 2 ^ 30" "2 ^ k" 2]
      mod_add_left_eq [of "h + length xs" "2 ^ k" 2] by (simp add: ac_simps)
  then have "(tail_of (core_state c) + 2) AND core_mask c = int ((h + (length xs + 2)) mod 2 ^ k)"
    using int_and_mask [of "(h + length xs) mod 2 ^ 30 + 2" k] d(2,9) by (simp add: add.commute)
  moreover have "head_of (core_state c) AND core_mask c = int ((h + 0) mod 2 ^ k)" using int_and_mask [of h k] d(2,8) by simp
  moreover have "(h + (length xs + 2)) mod 2 ^ k = (h + 0) mod 2 ^ k \<longleftrightarrow> length xs + 2 = 2 ^ k"
  proof (cases "length xs + 2 = 2 ^ k")
    case False
    then have "length xs + 2 < 2 ^ k" using d(6) by simp
    then show ?thesis using False mod_same [of "length xs + 2" "2 ^ k" 0 h] by auto
  qed simp
  ultimately show ?thesis by simp
qed

lemma empty_test:
  assumes c: "core_holds k h xs c"
  shows "tail_of (core_state c) AND core_mask c = head_of (core_state c) AND core_mask c \<longleftrightarrow> xs = []"
  by (subst eq_commute) (use end_reached [OF c, of 0] core_holdsD(8,9) [OF c] in simp)

lemma add_task_room:
  assumes q: "queue_holds k h xs False q" and n: "length xs + 3 \<le> 2 ^ k"
  shows "\<exists>q'. add_task e q = Some (Inr True, q') \<and> queue_holds k h (xs @ [e]) False q'"
proof -
  let ?a = "cur_core q" and ?c = "core_at (cur_core q) q"
  let ?t = "tail_of (core_state ?c)" let ?w = "update_tail (core_state ?c) ((?t + 1) AND MAX_CAPACITY_MASK)"
  note d = queue_holdsD [OF q]
  have free: "slot ?c ?t = Slot_Null"
    using slot_index(1) [OF core_holdsD(2) [OF d(2)], of "(h + length xs) mod 2 ^ 30"] core_holdsD(9,10) [OF d(2)]
      mod_wrap [OF core_holdsD(5) [OF d(2)], of "h + length xs"] n by simp
  let ?q = "update_core ?a (store_slot ?t (Element e)) (update_core ?a (core_state_update (\<lambda>_. ?w)) q)"
  have at: "core_at ?a ?q = store_slot ?t (Element e) (?c\<lparr>core_state := ?w\<rparr>)" using d(1) by simp
  have bits: "\<not> bit ?w 60" "\<not> bit ?w 61" using d(4,5) by (simp_all add: frozen_bit closed_bit)
  have cc: "correct_copies ?a ?t e ?q = Some (Inr (), ?q)"
    by (subst correct_copies.simps) (simp add: at frozen_bit bits del: core_at_update(1))
  have "core_add_last ?a e q = Some (Inr ADD_SUCCESS, ?q)"
    unfolding core_add_last_def using d(4,5) full_test [OF d(2)] n free
    by (simp add: Let_def frozen_or_closed frozen_bit closed_bit seq_l_return [where m = "correct_copies ?a ?t e", OF cc])
  then have "add_task e q = Some (Inr True, ?q)" by (subst add_task.simps) (simp add: bind_l_return)
  moreover have "queue_holds k h (xs @ [e]) False ?q"
    unfolding queue_holds_def using store_holds [OF d(2) n, of e] d(1,3) bits by (simp add: at del: core_at_update(1))
  ultimately show ?thesis by blast
qed

lemma add_task_holds:
  assumes q: "queue_holds k h xs False q" and n: "length xs + 2 < 2 ^ 30"
  shows "\<exists>k' q'. add_task e q = Some (Inr True, q') \<and> queue_holds k' h (xs @ [e]) False q'"
proof (cases "length xs + 2 = 2 ^ k")
  case False
  then have "length xs + 3 \<le> 2 ^ k" using core_holdsD(6) [OF queue_holdsD(2) [OF q]] by simp
  then show ?thesis using add_task_room [OF q] by blast
next
  case True
  note d = queue_holdsD [OF q]
  have "(2 :: nat) ^ k < 2 ^ 30" using n True by linarith
  then have "k < 30" by (rule power_less_imp_less_exp [rotated]) simp
  then obtain q1 where q1: "move_to_next (cur_core q) q = Some (Inr (), q1)" "queue_holds (Suc k) h xs False q1"
    using move_to_next_holds [OF q] by blast
  have "length xs + 3 \<le> 2 ^ Suc k" using True core_holdsD(4) [OF d(2)] power_increasing [of 3 k "2 :: nat"] by simp
  from add_task_room [OF q1(2) this, of e] obtain q2
    where q2: "add_task e q1 = Some (Inr True, q2)" "queue_holds (Suc k) h (xs @ [e]) False q2" by blast
  have "core_add_last (cur_core q) e q = Some (Inr ADD_FROZEN, q)"
    unfolding core_add_last_def using d(4,5) full_test [OF d(2)] True
    by (simp add: Let_def frozen_or_closed frozen_bit closed_bit)
  then have "add_task e q = add_task e q1"
    by (subst add_task.simps) (simp add: bind_l_return seq_l_return [where m = "move_to_next (cur_core q)", OF q1(1)])
  then show ?thesis using q2 by auto
qed

lemma add_task_closed:
  assumes "queue_holds k h xs True q"
  shows "add_task e q = Some (Inr False, q)"
proof -
  note d = queue_holdsD [OF assms]
  have "core_add_last (cur_core q) e q = Some (Inr ADD_CLOSED, q)"
    unfolding core_add_last_def using d(4,5) by (simp add: Let_def frozen_or_closed frozen_bit closed_bit add_fail_reason_def)
  then show ?thesis by (subst add_task.simps) (simp add: bind_l_return)
qed

lemma remove_first_holds:
  assumes q: "queue_holds k h xs closed q"
  shows "\<exists>h' q'. remove_first_task q = Some (Inr (case xs of [] \<Rightarrow> None | x # _ \<Rightarrow> Some x), q') \<and> queue_holds k h' (tl xs) closed q'"
proof -
  let ?a = "cur_core q" and ?c = "core_at (cur_core q) q"
  note d = queue_holdsD [OF q]
  show ?thesis
  proof (cases xs)
    case Nil
    then have "core_remove_first_or_null ?a q = Some (Inr (Removed None), q)"
      unfolding core_remove_first_or_null_def using d(4) empty_test [OF d(2)] by (simp add: Let_def)
    then have "remove_first_task q = Some (Inr None, q)" by (subst remove_first_task.simps) (simp add: bind_l_return)
    then show ?thesis using Nil q by auto
  next
    case (Cons x ys)
    let ?t = "head_of (core_state ?c)" let ?w = "update_head (core_state ?c) ((?t + 1) AND MAX_CAPACITY_MASK)"
    let ?q = "update_core ?a (store_slot ?t Slot_Null) (update_core ?a (core_state_update (\<lambda>_. ?w)) q)"
    have "slot ?c ?t = Element x" using slot_holds [OF d(2), of 0] core_holdsD(6,8) [OF d(2)] Cons by simp
    then have "core_remove_first_or_null ?a q = Some (Inr (Removed (Some x)), ?q)"
      unfolding core_remove_first_or_null_def using d(4) empty_test [OF d(2)] Cons by (simp add: Let_def)
    then have "remove_first_task q = Some (Inr (Some x), ?q)" by (subst remove_first_task.simps) (simp add: bind_l_return)
    moreover have "queue_holds k ((h + 1) mod 2 ^ 30) ys closed ?q"
      unfolding queue_holds_def using take_holds [of k h x ys ?c] d Cons by (simp add: frozen_bit closed_bit)
    ultimately show ?thesis using Cons by auto
  qed
qed

lemma close_holds:
  assumes q: "queue_holds k h xs closed q"
  shows "\<exists>q'. close_task_queue q = Some (Inr (), q') \<and> queue_holds k h xs True q'"
proof -
  let ?a = "cur_core q" and ?c = "core_at (cur_core q) q"
  note d = queue_holdsD [OF q]
  show ?thesis
  proof (cases closed)
    case True
    then have "core_close ?a q = Some (Inr True, q)" using d(5) by (simp add: core_close_def Let_def)
    then show ?thesis using q True by (subst close_task_queue.simps) (simp add: bind_l_return)
  next
    case False
    let ?q = "update_core ?a (core_state_update (\<lambda>_. core_state ?c OR CLOSED_MASK)) q"
    have "core_close ?a q = Some (Inr True, ?q)" using d(4,5) False by (simp add: core_close_def Let_def)
    moreover have "queue_holds k h xs True ?q"
      unfolding queue_holds_def using d holds_state(2) [OF d(2), of "core_state ?c OR CLOSED_MASK"] by (simp add: frozen_bit)
    ultimately show ?thesis by (subst close_task_queue.simps) (simp add: bind_l_return)
  qed
qed

lemma core_map_holds:
  assumes c: "core_holds k h xs c" and "j \<le> length xs"
  shows "core_map f c (int ((h + length xs) mod 2 ^ 30)) (int (h + j)) = Some (map f (drop j xs))"
  using assms(2)
proof (induction "length xs - j" arbitrary: j)
  case 0
  then show ?case using end_reached [OF c, of j] by (subst core_map.simps) simp
next
  case (Suc m)
  then have j: "j < length xs" by simp
  then have s: "slot c (int (h + j)) = Element (xs ! j)" using slot_holds [OF c, of j] core_holdsD(6) [OF c] by simp
  have nx: "int (h + j) + 1 = int (h + Suc j)" by simp
  have "core_map f c (int ((h + length xs) mod 2 ^ 30)) (int (h + Suc j)) = Some (map f (drop (Suc j) xs))"
    using Suc.hyps(2) j by (intro Suc.hyps(1)) auto
  then show ?case using end_reached [OF c, of j] j
    by (subst core_map.simps) (simp add: s nx Cons_nth_drop_Suc [symmetric] del: of_nat_add)
qed

lemma map_tasks_holds:
  assumes "queue_holds k h xs closed q"
  shows "map_tasks f q = Some (map f xs)"
  using core_map_holds [OF queue_holdsD(2) [OF assms], of 0 f] core_holdsD(8,9) [OF queue_holdsD(2) [OF assms]]
  by (simp add: map_tasks_def Let_def)

text \<open>A single consumer that loses its compare-and-set to a producer that froze and copied the core finishes the
  removal in the copy.\<close>

lemma slow_path_finishes_removal:
  assumes q: "queue_holds k h (x # xs) closed q" and k: "k < 30"
  shows "\<exists>q1 q2. move_to_next (cur_core q) q = Some (Inr (), q1) \<and>
    correct_head (cur_core q) (int ((h + 1) mod 2 ^ 30)) q1 = Some (Inr (), q2) \<and> queue_holds (Suc k) ((h + 1) mod 2 ^ 30) xs closed q2"
proof -
  obtain q1 where q1: "move_to_next (cur_core q) q = Some (Inr (), q1)" "queue_holds (Suc k) h (x # xs) closed q1"
      "core_state (core_at (cur_core q) q1) AND FROZEN_MASK \<noteq> 0" "core_next (core_at (cur_core q) q1) = Some (cur_core q1)"
    using move_to_next_holds [OF q k] by blast
  note d = queue_holdsD [OF q1(2)]
  let ?b = "cur_core q1" and ?h = "int ((h + 1) mod 2 ^ 30)" let ?c = "core_at ?b q1"
  let ?w = "update_head (core_state ?c) ?h"
  let ?q = "update_core ?b (store_slot (head_of (core_state ?c)) Slot_Null) (update_core ?b (core_state_update (\<lambda>_. ?w)) q1)"
  have hd: "?h = (head_of (core_state ?c) + 1) AND MAX_CAPACITY_MASK"
    using int_and_max [of "h + 1"] core_holdsD(8) [OF d(2)] by (simp add: add.commute)
  have "next_core (cur_core q) q1 = Some (Inr ?b, q1)"
    using q1(3,4) by (simp add: next_core_def mark_frozen_def Let_def allocate_or_get_next_copy_def bind_l_def)
  then have s1: "remove_slow_path (cur_core q) ?h q1 = Some (Inr (Some ?b), q1)"
    using q1(3) by (simp add: remove_slow_path_def Let_def bind_l_return)
  have s2: "remove_slow_path ?b ?h q1 = Some (Inr None, ?q)" using d(4) by (simp add: remove_slow_path_def Let_def)
  have "correct_head ?b ?h q1 = Some (Inr (), ?q)"
    by (subst correct_head.simps, subst bind_l_return [where m = "remove_slow_path ?b ?h", OF s2]) simp
  then have "correct_head (cur_core q) ?h q1 = Some (Inr (), ?q)"
    by (subst correct_head.simps, subst bind_l_return [where m = "remove_slow_path (cur_core q) ?h", OF s1]) simp
  moreover have "queue_holds (Suc k) ((h + 1) mod 2 ^ 30) xs closed ?q"
    unfolding queue_holds_def hd using take_holds [OF d(2)] d by (simp add: frozen_bit closed_bit)
  ultimately show ?thesis using q1(1) by blast
qed

text \<open>The operations of the class in any order, what they return, and the list with a flag that they
  stand for.\<close>

datatype 'e task_op = Q_Add 'e | Q_Remove | Q_Size | Q_Is_Empty | Q_Close | Q_Is_Closed

datatype 'e task_op_result = Q_Bool bool | Q_Task "'e option" | Q_Int int | Q_Unit

fun task_queue_op :: "'e task_op \<Rightarrow> ('e task_queue, 'e task_op_result) lexec" where
  "task_queue_op (Q_Add e) = bind_l (add_task e) (\<lambda>r. return_l (Q_Bool r))"
| "task_queue_op Q_Remove = bind_l remove_first_task (\<lambda>r. return_l (Q_Task r))"
| "task_queue_op Q_Size = read_l (\<lambda>q. return_l (Q_Int (task_queue_size q)))"
| "task_queue_op Q_Is_Empty = read_l (\<lambda>q. return_l (Q_Bool (task_queue_is_empty q)))"
| "task_queue_op Q_Close = bind_l close_task_queue (\<lambda>_. return_l Q_Unit)"
| "task_queue_op Q_Is_Closed = read_l (\<lambda>q. return_l (Q_Bool (task_queue_is_closed q)))"

fun run_task_ops :: "'e task_op list \<Rightarrow> ('e task_queue, 'e task_op_result list) lexec" where
  "run_task_ops [] = return_l []"
| "run_task_ops (op # ops) = bind_l (task_queue_op op) (\<lambda>r. bind_l (run_task_ops ops) (\<lambda>rs. return_l (r # rs)))"

fun list_op :: "'e task_op \<Rightarrow> 'e list \<times> bool \<Rightarrow> 'e task_op_result \<times> 'e list \<times> bool" where
  "list_op (Q_Add e) (xs, closed) = (if closed then (Q_Bool False, xs, closed) else (Q_Bool True, xs @ [e], closed))"
| "list_op Q_Remove (xs, closed) = (Q_Task (case xs of [] \<Rightarrow> None | x # _ \<Rightarrow> Some x), tl xs, closed)"
| "list_op Q_Size (xs, closed) = (Q_Int (int (length xs)), xs, closed)"
| "list_op Q_Is_Empty (xs, closed) = (Q_Bool (xs = []), xs, closed)"
| "list_op Q_Close (xs, closed) = (Q_Unit, xs, True)"
| "list_op Q_Is_Closed (xs, closed) = (Q_Bool closed, xs, closed)"

fun run_list_ops :: "'e task_op list \<Rightarrow> 'e list \<times> bool \<Rightarrow> 'e task_op_result list \<times> 'e list \<times> bool" where
  "run_list_ops [] s = ([], s)"
| "run_list_ops (op # ops) s = (case list_op op s of (r, s1) \<Rightarrow> case run_list_ops ops s1 of (rs, s2) \<Rightarrow> (r # rs, s2))"

text \<open>The list never grows to the largest capacity less two.\<close>

fun ops_fit :: "'e task_op list \<Rightarrow> 'e list \<times> bool \<Rightarrow> bool" where
  "ops_fit [] s \<longleftrightarrow> True"
| "ops_fit (op # ops) s \<longleftrightarrow> length (fst (snd (list_op op s))) + 2 \<le> 2 ^ 30 \<and> ops_fit ops (snd (list_op op s))"

lemma task_queue_op_holds:
  assumes q: "queue_holds k h xs closed q" and n: "length (fst (snd (list_op op (xs, closed)))) + 2 \<le> 2 ^ 30"
  shows "\<exists>k' h' q'. task_queue_op op q = Some (Inr (fst (list_op op (xs, closed))), q') \<and>
    queue_holds k' h' (fst (snd (list_op op (xs, closed)))) (snd (snd (list_op op (xs, closed)))) q'"
proof (cases op)
  case (Q_Add e)
  show ?thesis
  proof (cases closed)
    case True
    then have "bind_l (add_task e) (\<lambda>r. return_l (Q_Bool r)) q = Some (Inr (Q_Bool False), q)"
      using q True by (simp add: bind_l_return [where m = "add_task e", OF add_task_closed [of k h xs q e]])
    then show ?thesis using Q_Add True q by auto
  next
    case False
    then have "length xs + 2 < 2 ^ 30" using n Q_Add by simp
    from add_task_holds [OF _ this, of k h q e] obtain k' q' where "add_task e q = Some (Inr True, q')" "queue_holds k' h (xs @ [e]) False q'"
      using q False by auto
    then show ?thesis using Q_Add False by (auto simp: bind_l_return)
  qed
next
  case Q_Remove
  obtain h' q' where "remove_first_task q = Some (Inr (case xs of [] \<Rightarrow> None | x # _ \<Rightarrow> Some x), q')" "queue_holds k h' (tl xs) closed q'"
    using remove_first_holds [OF q] by blast
  then show ?thesis using Q_Remove by (auto simp: bind_l_return)
next
  case Q_Close
  obtain q' where "close_task_queue q = Some (Inr (), q')" "queue_holds k h xs True q'" using close_holds [OF q] by blast
  then show ?thesis using Q_Close by (auto simp: bind_l_return)
qed (use q queue_observers [OF q] in auto)

lemma run_task_ops_holds:
  assumes "queue_holds k h xs closed q" "ops_fit ops (xs, closed)"
  shows "\<exists>k' h' q'. run_task_ops ops q = Some (Inr (fst (run_list_ops ops (xs, closed))), q') \<and>
    queue_holds k' h' (fst (snd (run_list_ops ops (xs, closed)))) (snd (snd (run_list_ops ops (xs, closed)))) q'"
  using assms
proof (induction ops arbitrary: k h xs closed q)
  case (Cons op ops)
  obtain r ys cl where s: "list_op op (xs, closed) = (r, ys, cl)" by (metis prod_cases3)
  obtain k1 h1 q1 where q1: "task_queue_op op q = Some (Inr r, q1)" "queue_holds k1 h1 ys cl q1"
    using task_queue_op_holds [OF Cons.prems(1), of op] Cons.prems(2) s by auto
  obtain k2 h2 q2 where q2: "run_task_ops ops q1 = Some (Inr (fst (run_list_ops ops (ys, cl))), q2)"
      "queue_holds k2 h2 (fst (snd (run_list_ops ops (ys, cl)))) (snd (snd (run_list_ops ops (ys, cl)))) q2"
    using Cons.IH [OF q1(2)] Cons.prems(2) s by auto
  show ?case using q1(1) q2 s by (auto simp: bind_l_return split_beta)
qed (auto simp: return_l_def)

subsection \<open>The queue as its clients see it\<close>

text \<open>A queue of fewer than \<open>2 ^ 30 - 2\<close> elements accepts another one; an addition that returns appends; a removal
  takes the first element.\<close>

locale fifo_queue =
  fixes enqueue :: "'e \<Rightarrow> ('q, bool) lexec"
    and dequeue :: "('q, 'e option) lexec"
    and queue_size :: "'q \<Rightarrow> int"
    and elems :: "'q \<Rightarrow> 'e list"
    and queue_ok :: "'q \<Rightarrow> bool"
  assumes enqueue_returns: "queue_ok q \<Longrightarrow> length (elems q) + 2 < 2 ^ 30 \<Longrightarrow> \<exists>q'. enqueue e q = Some (Inr True, q')"
    and enqueue_appends: "queue_ok q \<Longrightarrow> enqueue e q = Some (Inr b, q') \<Longrightarrow> queue_ok q' \<and> elems q' = elems q @ [e]"
    and dequeue_takes: "queue_ok q \<Longrightarrow> \<exists>q'. dequeue q = Some (Inr (case elems q of [] \<Rightarrow> None | x # _ \<Rightarrow> Some x), q') \<and>
      queue_ok q' \<and> elems q' = tl (elems q)"
    and queue_size_counts: "queue_ok q \<Longrightarrow> queue_size q = int (length (elems q))"

definition queue_elems :: "'e task_queue \<Rightarrow> 'e list" where
  "queue_elems q = (case map_tasks (\<lambda>e. e) q of Some xs \<Rightarrow> xs | None \<Rightarrow> [])"

definition open_queue :: "'e task_queue \<Rightarrow> bool" where
  "open_queue q \<longleftrightarrow> (\<exists>k h xs. queue_holds k h xs False q)"

lemma queue_elems_holds: "queue_holds k h xs closed q \<Longrightarrow> queue_elems q = xs"
  by (simp add: queue_elems_def map_tasks_holds)

lemma new_task_queue_open: "open_queue (new_task_queue single)" "queue_elems (new_task_queue single) = []"
  using new_task_queue_holds queue_elems_holds [OF new_task_queue_holds] by (auto simp: open_queue_def)

text \<open>The largest ring is full: doubling its capacity overflows.\<close>

lemma add_task_overflow:
  assumes q: "queue_holds k h xs False q" and n: "length xs + 2 = 2 ^ 30"
  shows "\<exists>q'. add_task e q = Some (Inl Undefined_Behaviour, q')"
proof -
  note d = queue_holdsD [OF q]
  have "(2 :: nat) ^ 30 \<le> 2 ^ k" using core_holdsD(6) [OF d(2)] n by simp
  then have k: "k = 30" using core_holdsD(5) [OF d(2)] power_le_imp_le_exp [of "2 :: nat" 30 k] by simp
  let ?a = "cur_core q" let ?w = "core_state (core_at ?a q) OR FROZEN_MASK"
  let ?q = "update_core ?a (core_state_update (\<lambda>_. ?w)) q"
  have "core_add_last ?a e q = Some (Inr ADD_FROZEN, q)"
    unfolding core_add_last_def using d(4,5) full_test [OF d(2)] n k by (simp add: Let_def frozen_or_closed frozen_bit closed_bit)
  moreover have mf: "mark_frozen ?a q = Some (Inr ?w, ?q)" using d(4) by (simp add: mark_frozen_def Let_def)
  have "allocate_next_copy ?a ?w ?q = Some (Inl Undefined_Behaviour, ?q)"
    using core_holdsD(1) [OF d(2)] k d(1) by (simp add: allocate_next_copy_def Let_def)
  then have "move_to_next ?a q = Some (Inl Undefined_Behaviour, ?q)"
    using d(1,3) by (simp add: move_to_next_def next_core_def bind_l_def mf allocate_or_get_next_copy_def)
  ultimately show ?thesis
    by (subst add_task.simps) (simp add: bind_l_return seq_l_def bind_l_throw [where m = "move_to_next ?a"])
qed

lemma add_task_appends:
  assumes "open_queue q" "add_task e q = Some (Inr b, q')"
  shows "open_queue q' \<and> queue_elems q' = queue_elems q @ [e]"
proof -
  obtain k h xs where q: "queue_holds k h xs False q" using assms(1) by (auto simp: open_queue_def)
  have "length xs + 2 \<le> 2 ^ k" "k \<le> 30" using core_holdsD(5,6) [OF queue_holdsD(2) [OF q]] by simp_all
  then have "length xs + 2 \<le> 2 ^ 30" using power_increasing [of k 30 "2 :: nat"] by linarith
  moreover have "length xs + 2 \<noteq> 2 ^ 30" using add_task_overflow [OF q, of e] assms(2) by auto
  ultimately obtain k' q'' where "add_task e q = Some (Inr True, q'')" "queue_holds k' h (xs @ [e]) False q''"
    using add_task_holds [OF q, of e] by force
  then show ?thesis using assms(2) queue_elems_holds [OF q] queue_elems_holds by (auto simp: open_queue_def)
qed

interpretation tq: fifo_queue add_task remove_first_task task_queue_size queue_elems open_queue
proof
  fix q :: "'a task_queue" and e :: 'a
  assume "open_queue q"
  then obtain k h xs where q: "queue_holds k h xs False q" by (auto simp: open_queue_def)
  have xs: "queue_elems q = xs" by (rule queue_elems_holds [OF q])
  show "\<exists>q'. add_task e q = Some (Inr True, q')" if "length (queue_elems q) + 2 < 2 ^ 30"
    using add_task_holds [OF q, of e] that xs by blast
  show "\<exists>q'. remove_first_task q = Some (Inr (case queue_elems q of [] \<Rightarrow> None | x # _ \<Rightarrow> Some x), q') \<and>
      open_queue q' \<and> queue_elems q' = tl (queue_elems q)"
    using remove_first_holds [OF q] queue_elems_holds xs by (fastforce simp: open_queue_def)
  show "task_queue_size q = int (length (queue_elems q))" using queue_observers(1) [OF q] xs by simp
qed (rule add_task_appends)

text \<open>C30: The task queue is a first-in-first-out list: any sequence of additions, removals, closings and
  questions returns, with exactly the answers of a list with a closed flag, whichever way the queue
  serves its consumers and however often the ring is full, frozen and copied into one of twice the size. It holds as long
  as fewer than \<open>2 ^ 30 - 1\<close> tasks are queued at once, so that the largest ring of \<open>2 ^ 30\<close> slots suffices.\<close>

theorem task_queue_is_a_list:
  assumes "ops_fit ops ([], False)"
  shows "\<exists>q. run_task_ops ops (new_task_queue single) = Some (Inr (fst (run_list_ops ops ([], False))), q) \<and>
    map_tasks f q = Some (map f (fst (snd (run_list_ops ops ([], False)))))"
  using run_task_ops_holds [OF new_task_queue_holds assms, of single] map_tasks_holds by blast

theorem task_queue_is_a_list_witness:
  "\<exists>q. run_task_ops [Q_Is_Empty, Q_Add 1, Q_Add 2, Q_Add 3, Q_Add 4, Q_Add 5, Q_Add 6, Q_Add 7, Q_Remove, Q_Size, Q_Close, Q_Add 9]
        (new_task_queue False) = Some (Inr [Q_Bool True, Q_Bool True, Q_Bool True, Q_Bool True, Q_Bool True, Q_Bool True, Q_Bool True,
        Q_Bool True, Q_Task (Some 1), Q_Int 6, Q_Unit, Q_Bool False], q) \<and>
    map_tasks (\<lambda>n. n) q = Some [2, 3, 4, 5, 6, 7 :: nat]"
  using task_queue_is_a_list [of "[Q_Is_Empty, Q_Add 1, Q_Add 2, Q_Add 3, Q_Add 4, Q_Add 5, Q_Add 6, Q_Add 7, Q_Remove, Q_Size, Q_Close, Q_Add 9]"
      False "\<lambda>n. n :: nat"] by simp

end
