(* ===== verification/Limited_Dispatcher.thy ===== *)
theory Limited_Dispatcher
  imports Task_Queue "HOL-Library.Multiset"
begin

text \<open>
  \<open>internal/LimitedDispatcher.hpp\<close>: a view of a dispatcher that runs at most \<open>parallelism\<close> tasks at a
  time. A step is one access of the code to the queue, to the counter of workers or to the lock; the
  program counter of a thread says which access comes next, so every interleaving is a sequence of
  steps. A thread of the model is an activation: a call of \<open>dispatch\<close> or a run of a worker; a task that
  dispatches from inside is another activation.

  The queue is used through three operations, arguments of the definitions; what the dispatcher needs
  of them is the locale \<open>fifo_queue\<close>, which the task queue provides. Because that queue
  is not linearizable when several threads use it (its comment), a removal may also find nothing
  though the queue is not empty. The dispatcher below, what it answers and whether it throws, is part of the step.
\<close>

subsection \<open>State\<close>

text \<open>Who obtains a task: a call of \<open>dispatch\<close>, or a worker with its fairness counter.\<close>

datatype obtaining = For_Dispatch | For_Worker nat

datatype 'e ld_pc =
    LD_Idle
  | LD_Add 'e | LD_Check | LD_Lock | LD_Try | LD_Inc
  | LD_Obtain obtaining | LD_Null obtaining | LD_Dec obtaining | LD_Size obtaining | LD_Inc_Again obtaining
  | LD_Start 'e | LD_Undo
  | LD_Run 'e nat | LD_Fair 'e nat | LD_Fail_Lock | LD_Fail_Dec

text \<open>The last four fields record what the code does not keep: the tasks added and taken, in order, the tasks
  that ran, and those that were given up because the dispatcher below threw.\<close>

record ('q, 'e) limited =
  ld_queue :: 'q
  running_workers :: int
  allocation_lock :: "nat option"
  ld_threads :: "'e ld_pc list"
  handed_workers :: "'e list"
  added :: "'e list"
  taken :: "'e list"
  finished :: "'e list"
  given_up :: "'e list"

definition check_parallelism :: "int \<Rightarrow> unit res" where
  "check_parallelism p = (if p < 1 then Inl (Invalid_Argument ''Expected positive parallelism level'') else Inr ())"

definition new_limited_dispatcher :: "int \<Rightarrow> nat \<Rightarrow> 'q \<Rightarrow> ('q, 'e) limited res" where
  "new_limited_dispatcher parallelism n q = (case check_parallelism parallelism of
       Inl e \<Rightarrow> Inl e
     | Inr _ \<Rightarrow> Inr \<lparr>ld_queue = q, running_workers = 0, allocation_lock = None, ld_threads = replicate n LD_Idle,
         handed_workers = [], added = [], taken = [], finished = [], given_up = []\<rparr>)"

definition set_ld_pc :: "nat \<Rightarrow> 'e ld_pc \<Rightarrow> ('q, 'e) limited \<Rightarrow> ('q, 'e) limited" where
  "set_ld_pc t pc s = s\<lparr>ld_threads := (ld_threads s)[t := pc]\<rparr>"

subsection \<open>The accesses\<close>

text \<open>\<open>dispatch_internal\<close> up to the allocation of a worker.\<close>

definition dispatch_add :: "('e \<Rightarrow> ('q, bool) lexec) \<Rightarrow> nat \<Rightarrow> 'e \<Rightarrow> ('q, 'e) limited \<Rightarrow> ('q, 'e) limited" where
  "dispatch_add enqueue t e s = (case enqueue e (ld_queue s) of
       Some (Inr _, q) \<Rightarrow> set_ld_pc t LD_Check (s\<lparr>ld_queue := q, added := added s @ [e]\<rparr>)
     | _ \<Rightarrow> s)"

definition dispatch_check :: "int \<Rightarrow> nat \<Rightarrow> ('q, 'e) limited \<Rightarrow> ('q, 'e) limited" where
  "dispatch_check parallelism t s = set_ld_pc t (if running_workers s \<ge> parallelism then LD_Idle else LD_Lock) s"

definition lock_then :: "'e ld_pc \<Rightarrow> nat \<Rightarrow> ('q, 'e) limited \<Rightarrow> ('q, 'e) limited" where
  "lock_then pc t s = (if allocation_lock s = None then set_ld_pc t pc (s\<lparr>allocation_lock := Some t\<rparr>) else s)"

definition unlock :: "('q, 'e) limited \<Rightarrow> ('q, 'e) limited" where
  "unlock s = s\<lparr>allocation_lock := None\<rparr>"

definition add_workers :: "int \<Rightarrow> ('q, 'e) limited \<Rightarrow> ('q, 'e) limited" where
  "add_workers n s = s\<lparr>running_workers := running_workers s + n\<rparr>"

text \<open>\<open>try_allocate_worker\<close> under the lock.\<close>

definition try_allocate_worker :: "int \<Rightarrow> nat \<Rightarrow> ('q, 'e) limited \<Rightarrow> ('q, 'e) limited" where
  "try_allocate_worker parallelism t s =
     (if running_workers s \<ge> parallelism then set_ld_pc t LD_Idle (unlock s) else set_ld_pc t LD_Inc s)"

definition allocate_worker :: "nat \<Rightarrow> ('q, 'e) limited \<Rightarrow> ('q, 'e) limited" where
  "allocate_worker t s = set_ld_pc t (LD_Obtain For_Dispatch) (unlock (add_workers 1 s))"

text \<open>\<open>obtain_task_or_deallocate_worker\<close>: where its caller goes on with a task, the removal, and the question for
  the size that follows the decrement.\<close>

fun task_obtained :: "obtaining \<Rightarrow> 'e \<Rightarrow> 'e ld_pc" where
  "task_obtained For_Dispatch e = LD_Start e"
| "task_obtained (For_Worker n) e = LD_Fair e (n + 1)"

definition obtain_task :: "('q, 'e option) lexec \<Rightarrow> bool \<Rightarrow> nat \<Rightarrow> obtaining \<Rightarrow> ('q, 'e) limited \<Rightarrow> ('q, 'e) limited" where
  "obtain_task dequeue spurious t c s =
     (if spurious then set_ld_pc t (LD_Null c) s
      else case dequeue (ld_queue s) of
          Some (Inr None, q) \<Rightarrow> set_ld_pc t (LD_Null c) (s\<lparr>ld_queue := q\<rparr>)
        | Some (Inr (Some e), q) \<Rightarrow> set_ld_pc t (task_obtained c e) (s\<lparr>ld_queue := q, taken := taken s @ [e]\<rparr>)
        | _ \<Rightarrow> s)"

definition deallocate_or_retry :: "('q \<Rightarrow> int) \<Rightarrow> nat \<Rightarrow> obtaining \<Rightarrow> ('q, 'e) limited \<Rightarrow> ('q, 'e) limited" where
  "deallocate_or_retry queue_size t c s =
     (if queue_size (ld_queue s) = 0 then set_ld_pc t LD_Idle (unlock s) else set_ld_pc t (LD_Inc_Again c) s)"

text \<open>Handing a worker to the dispatcher below, from \<open>dispatch_internal\<close> or from a worker that makes room for others.\<close>

definition hand_over :: "bool \<Rightarrow> 'e ld_pc \<Rightarrow> nat \<Rightarrow> 'e \<Rightarrow> ('q, 'e) limited \<Rightarrow> ('q, 'e) limited" where
  "hand_over throws failed t e s =
     (if throws then set_ld_pc t failed (s\<lparr>given_up := given_up s @ [e]\<rparr>)
      else set_ld_pc t LD_Idle (s\<lparr>handed_workers := handed_workers s @ [e]\<rparr>))"

text \<open>The loop of \<open>Worker::run\<close>: the task ends, whether it returns or throws; with the next task the worker goes on or yields.\<close>

definition run_task_to_end :: "nat \<Rightarrow> 'e \<Rightarrow> nat \<Rightarrow> ('q, 'e) limited \<Rightarrow> ('q, 'e) limited" where
  "run_task_to_end t e n s = set_ld_pc t (LD_Obtain (For_Worker n)) (s\<lparr>finished := finished s @ [e]\<rparr>)"

definition fairness_check :: "bool \<Rightarrow> bool \<Rightarrow> nat \<Rightarrow> 'e \<Rightarrow> nat \<Rightarrow> ('q, 'e) limited \<Rightarrow> ('q, 'e) limited" where
  "fairness_check needed throws t e n s =
     (if n \<ge> 16 \<and> needed then hand_over throws LD_Fail_Lock t e s else set_ld_pc t (LD_Run e n) s)"

subsection \<open>Steps\<close>

text \<open>A thread calls \<open>dispatch\<close>; the dispatcher below runs one of the workers handed to it; a thread makes its next
  access, with the answers it gets from the queue (a spurious miss) and from the dispatcher below (whether a dispatch is
  needed, whether handing over throws).\<close>

datatype 'e ld_op = L_Dispatch nat 'e | L_Start_Worker nat nat | L_Advance nat bool bool bool

fun advance :: "('e \<Rightarrow> ('q, bool) lexec) \<Rightarrow> ('q, 'e option) lexec \<Rightarrow> ('q \<Rightarrow> int) \<Rightarrow> int \<Rightarrow>
    bool \<Rightarrow> bool \<Rightarrow> bool \<Rightarrow> nat \<Rightarrow> 'e ld_pc \<Rightarrow> ('q, 'e) limited \<Rightarrow> ('q, 'e) limited" where
  "advance enqueue dequeue queue_size p spurious needed throws t LD_Idle s = s"
| "advance enqueue dequeue queue_size p spurious needed throws t (LD_Add e) s = dispatch_add enqueue t e s"
| "advance enqueue dequeue queue_size p spurious needed throws t LD_Check s = dispatch_check p t s"
| "advance enqueue dequeue queue_size p spurious needed throws t LD_Lock s = lock_then LD_Try t s"
| "advance enqueue dequeue queue_size p spurious needed throws t LD_Try s = try_allocate_worker p t s"
| "advance enqueue dequeue queue_size p spurious needed throws t LD_Inc s = allocate_worker t s"
| "advance enqueue dequeue queue_size p spurious needed throws t (LD_Obtain c) s = obtain_task dequeue spurious t c s"
| "advance enqueue dequeue queue_size p spurious needed throws t (LD_Null c) s = lock_then (LD_Dec c) t s"
| "advance enqueue dequeue queue_size p spurious needed throws t (LD_Dec c) s = set_ld_pc t (LD_Size c) (add_workers (-1) s)"
| "advance enqueue dequeue queue_size p spurious needed throws t (LD_Size c) s = deallocate_or_retry queue_size t c s"
| "advance enqueue dequeue queue_size p spurious needed throws t (LD_Inc_Again c) s = set_ld_pc t (LD_Obtain c) (unlock (add_workers 1 s))"
| "advance enqueue dequeue queue_size p spurious needed throws t (LD_Start e) s = hand_over throws LD_Undo t e s"
| "advance enqueue dequeue queue_size p spurious needed throws t LD_Undo s = set_ld_pc t LD_Idle (add_workers (-1) s)"
| "advance enqueue dequeue queue_size p spurious needed throws t (LD_Run e n) s = run_task_to_end t e n s"
| "advance enqueue dequeue queue_size p spurious needed throws t (LD_Fair e n) s = fairness_check needed throws t e n s"
| "advance enqueue dequeue queue_size p spurious needed throws t LD_Fail_Lock s = lock_then LD_Fail_Dec t s"
| "advance enqueue dequeue queue_size p spurious needed throws t LD_Fail_Dec s = set_ld_pc t LD_Idle (unlock (add_workers (-1) s))"

definition start_worker :: "nat \<Rightarrow> nat \<Rightarrow> ('q, 'e) limited \<Rightarrow> ('q, 'e) limited" where
  "start_worker t i s = set_ld_pc t (LD_Run (handed_workers s ! i) 0)
     (s\<lparr>handed_workers := take i (handed_workers s) @ drop (Suc i) (handed_workers s)\<rparr>)"

fun ld_step :: "('e \<Rightarrow> ('q, bool) lexec) \<Rightarrow> ('q, 'e option) lexec \<Rightarrow> ('q \<Rightarrow> int) \<Rightarrow> int \<Rightarrow>
    'e ld_op \<Rightarrow> ('q, 'e) limited \<Rightarrow> ('q, 'e) limited" where
  "ld_step enqueue dequeue queue_size p (L_Dispatch t e) s =
     (if t < length (ld_threads s) \<and> ld_threads s ! t = LD_Idle then set_ld_pc t (LD_Add e) s else s)"
| "ld_step enqueue dequeue queue_size p (L_Start_Worker t i) s =
     (if t < length (ld_threads s) \<and> ld_threads s ! t = LD_Idle \<and> i < length (handed_workers s) then start_worker t i s else s)"
| "ld_step enqueue dequeue queue_size p (L_Advance t spurious needed throws) s =
     (if t < length (ld_threads s) then advance enqueue dequeue queue_size p spurious needed throws t (ld_threads s ! t) s else s)"

definition ld_run :: "('e \<Rightarrow> ('q, bool) lexec) \<Rightarrow> ('q, 'e option) lexec \<Rightarrow> ('q \<Rightarrow> int) \<Rightarrow> int \<Rightarrow>
    'e ld_op list \<Rightarrow> ('q, 'e) limited \<Rightarrow> ('q, 'e) limited" where
  "ld_run enqueue dequeue queue_size p ops s = fold (ld_step enqueue dequeue queue_size p) ops s"

subsection \<open>The invariant\<close>

text \<open>Which threads have a worker's place, are under the lock, are about to take a place, have failed, will look at the queue again,
  and which task a thread carries.\<close>

fun has_place :: "'e ld_pc \<Rightarrow> bool" where
  "has_place (LD_Obtain c) = True" | "has_place (LD_Null c) = True" | "has_place (LD_Dec c) = True"
| "has_place (LD_Start e) = True" | "has_place LD_Undo = True" | "has_place (LD_Run e n) = True"
| "has_place (LD_Fair e n) = True" | "has_place LD_Fail_Lock = True" | "has_place LD_Fail_Dec = True"
| "has_place _ = False"

fun under_lock :: "'e ld_pc \<Rightarrow> bool" where
  "under_lock LD_Try = True" | "under_lock LD_Inc = True" | "under_lock (LD_Dec c) = True" | "under_lock (LD_Size c) = True"
| "under_lock (LD_Inc_Again c) = True" | "under_lock LD_Fail_Dec = True" | "under_lock _ = False"

fun takes_place :: "'e ld_pc \<Rightarrow> bool" where
  "takes_place LD_Inc = True" | "takes_place (LD_Size c) = True" | "takes_place (LD_Inc_Again c) = True" | "takes_place _ = False"

fun has_failed :: "'e ld_pc \<Rightarrow> bool" where
  "has_failed LD_Undo = True" | "has_failed LD_Fail_Lock = True" | "has_failed LD_Fail_Dec = True" | "has_failed _ = False"

definition will_look :: "'e ld_pc \<Rightarrow> bool" where
  "will_look pc \<longleftrightarrow> has_place pc \<and> \<not> has_failed pc \<or> takes_place pc \<or> pc \<in> {LD_Check, LD_Lock, LD_Try}"

fun task_of :: "'e ld_pc \<Rightarrow> 'e list" where
  "task_of (LD_Start e) = [e]" | "task_of (LD_Run e n) = [e]" | "task_of (LD_Fair e n) = [e]" | "task_of _ = []"

definition in_flight :: "('q, 'e) limited \<Rightarrow> 'e multiset" where
  "in_flight s = mset (concat (map task_of (ld_threads s))) + mset (handed_workers s)"

definition places :: "('q, 'e) limited \<Rightarrow> nat" where
  "places s = length (filter has_place (ld_threads s)) + length (handed_workers s)"

definition tasks_conserved :: "('q \<Rightarrow> 'e list) \<Rightarrow> ('q, 'e) limited \<Rightarrow> bool" where
  "tasks_conserved elems s \<longleftrightarrow> added s = taken s @ elems (ld_queue s) \<and>
     mset (taken s) = in_flight s + mset (finished s) + mset (given_up s)"

definition places_ok :: "int \<Rightarrow> ('q, 'e) limited \<Rightarrow> bool" where
  "places_ok p s \<longleftrightarrow> running_workers s = int (places s) \<and> running_workers s \<le> p \<and>
     (\<forall>t. allocation_lock s = Some t \<longleftrightarrow> t < length (ld_threads s) \<and> under_lock (ld_threads s ! t)) \<and>
     (\<forall>t<length (ld_threads s). takes_place (ld_threads s ! t) \<longrightarrow> running_workers s < p)"

definition none_stranded :: "('q \<Rightarrow> 'e list) \<Rightarrow> ('q, 'e) limited \<Rightarrow> bool" where
  "none_stranded elems s \<longleftrightarrow> (given_up s = [] \<longrightarrow> (\<forall>pc\<in>set (ld_threads s). \<not> has_failed pc) \<and>
     (elems (ld_queue s) = [] \<or> handed_workers s \<noteq> [] \<or> (\<exists>pc\<in>set (ld_threads s). will_look pc)))"

definition in_order :: "int \<Rightarrow> ('q, 'e) limited \<Rightarrow> bool" where
  "in_order p s \<longleftrightarrow> (p = 1 \<and> given_up s = [] \<longrightarrow> (\<exists>xs. taken s = finished s @ xs \<and> mset xs = in_flight s))"

definition limited_ok :: "('q \<Rightarrow> 'e list) \<Rightarrow> ('q \<Rightarrow> bool) \<Rightarrow> int \<Rightarrow> ('q, 'e) limited \<Rightarrow> bool" where
  "limited_ok elems queue_ok p s \<longleftrightarrow> queue_ok (ld_queue s) \<and> tasks_conserved elems s \<and> places_ok p s \<and>
     none_stranded elems s \<and> in_order p s"

lemma task_of_place: "\<not> has_place pc \<Longrightarrow> task_of pc = []" "length (task_of pc) \<le> of_bool (has_place pc)"
  by (cases pc; simp)+

lemma takes_place_under_lock: "takes_place pc \<Longrightarrow> under_lock pc"
  by (cases pc) simp_all

lemma in_flight_size: "size (in_flight s) \<le> places s"
proof -
  have "length (concat (map task_of xs)) \<le> length (filter has_place xs)" for xs :: "'e ld_pc list"
  proof (induction xs)
    case (Cons pc xs)
    then show ?case using task_of_place(2) [of pc] by (auto simp: of_bool_def split: if_splits)
  qed simp
  then show ?thesis by (simp add: in_flight_def places_def)
qed

text \<open>A step of one thread keeps each part of the invariant under conditions on what it changes.\<close>

lemma places_step:
  assumes ok: "places_ok p s" and t: "t < length (ld_threads s)" "ld_threads s' = (ld_threads s)[t := pc']"
    and r: "running_workers s' + of_bool (has_place (ld_threads s ! t)) + int (length (handed_workers s)) =
      running_workers s + of_bool (has_place pc') + int (length (handed_workers s'))"
    and le: "running_workers s' \<le> p" and inc: "running_workers s' \<le> running_workers s \<or> under_lock (ld_threads s ! t)"
    and l: "allocation_lock s' = (if under_lock pc' then Some t else if under_lock (ld_threads s ! t) then None else allocation_lock s)"
    and free: "under_lock pc' \<Longrightarrow> under_lock (ld_threads s ! t) \<or> allocation_lock s = None"
    and g: "takes_place pc' \<Longrightarrow> running_workers s' < p"
  shows "places_ok p s'"
proof -
  note o = ok [unfolded places_ok_def]
  have lk: "allocation_lock s = Some v \<longleftrightarrow> v < length (ld_threads s) \<and> under_lock (ld_threads s ! v)" for v using o by blast
  have "running_workers s' = int (places s')"
    using o r length_filter_update [OF t(1), of has_place pc'] unfolding places_def t(2)
    by (simp add: of_bool_def split: if_splits)
  moreover have lock: "allocation_lock s' = Some u \<longleftrightarrow> u < length (ld_threads s') \<and> under_lock (ld_threads s' ! u)" for u
    using lk [of u] lk [of t] l free t by (cases "u = t") (auto split: if_splits)
  moreover have "running_workers s' < p" if u: "u < length (ld_threads s')" "takes_place (ld_threads s' ! u)" for u
  proof (cases "u = t")
    case False
    then have v: "u < length (ld_threads s)" "takes_place (ld_threads s ! u)" using u t(2) by auto
    then have "running_workers s < p" and "allocation_lock s = Some u" using o lk [of u] takes_place_under_lock by blast+
    then have "\<not> under_lock (ld_threads s ! t)" using lk [of t] t(1) False by auto
    then show ?thesis using inc \<open>running_workers s < p\<close> by simp
  qed (use g u t in simp)
  ultimately show ?thesis using le by (simp add: places_ok_def)
qed

lemma tasks_step:
  assumes ok: "tasks_conserved elems s" and t: "t < length (ld_threads s)" "ld_threads s' = (ld_threads s)[t := pc']"
    and q: "\<exists>a b. elems (ld_queue s) = b @ drop 0 (elems (ld_queue s')) \<and> a = [] \<and> added s' = added s \<and> taken s' = taken s @ b \<or>
      elems (ld_queue s') = elems (ld_queue s) @ a \<and> added s' = added s @ a \<and> taken s' = taken s"
    and m: "mset (taken s') + mset (task_of (ld_threads s ! t)) + mset (handed_workers s) + mset (finished s) + mset (given_up s) =
      mset (taken s) + mset (task_of pc') + mset (handed_workers s') + mset (finished s') + mset (given_up s')"
  shows "tasks_conserved elems s'"
proof -
  note o = ok [unfolded tasks_conserved_def]
  have f: "in_flight s' + mset (task_of (ld_threads s ! t)) + mset (handed_workers s) =
      in_flight s + mset (task_of pc') + mset (handed_workers s')"
    using mset_concat_update [OF t(1), of task_of pc'] unfolding in_flight_def t(2) by (simp add: ac_simps)
  have "mset (taken s') + (mset (task_of (ld_threads s ! t)) + mset (handed_workers s)) =
      (in_flight s' + mset (finished s') + mset (given_up s')) + (mset (task_of (ld_threads s ! t)) + mset (handed_workers s))"
  proof -
    have "mset (taken s') + (mset (task_of (ld_threads s ! t)) + mset (handed_workers s)) + (mset (finished s) + mset (given_up s)) =
        mset (taken s) + (mset (task_of pc') + mset (handed_workers s') + mset (finished s') + mset (given_up s'))"
      using m by (simp add: ac_simps)
    also have "\<dots> = (in_flight s + mset (task_of pc') + mset (handed_workers s')) + (mset (finished s') + mset (given_up s')) +
        (mset (finished s) + mset (given_up s))" using o by (simp add: ac_simps)
    finally show ?thesis using f by (simp add: ac_simps)
  qed
  moreover have "added s' = taken s' @ elems (ld_queue s')" using o q by auto
  ultimately show ?thesis by (simp add: tasks_conserved_def)
qed

lemma stranded_step:
  assumes ok: "none_stranded elems s" "places_ok p s'" and p: "1 \<le> p"
    and t: "t < length (ld_threads s)" "ld_threads s' = (ld_threads s)[t := pc']"
    and mono: "given_up s' = [] \<Longrightarrow> given_up s = []" and nf: "given_up s' = [] \<Longrightarrow> \<not> has_failed pc'"
    and w: "elems (ld_queue s') = [] \<or> will_look pc' \<or> handed_workers s' \<noteq> [] \<or> running_workers s' \<ge> 1 \<or>
      \<not> will_look (ld_threads s ! t) \<and> handed_workers s' = handed_workers s \<and> elems (ld_queue s) = elems (ld_queue s')"
  shows "none_stranded elems s'"
proof (cases "given_up s' = []")
  case True
  then have f: "\<forall>pc\<in>set (ld_threads s). \<not> has_failed pc" using ok(1) mono by (simp add: none_stranded_def)
  then have f': "\<forall>pc\<in>set (ld_threads s'). \<not> has_failed pc"
    using nf [OF True] t(2) set_update_subset_insert [of "ld_threads s" t pc'] by auto
  have pc': "pc' \<in> set (ld_threads s')" using t by (simp add: set_update_memI)
  have A: "\<exists>pc\<in>set (ld_threads s'). will_look pc" if "1 \<le> running_workers s'" "handed_workers s' = []"
  proof -
    have "filter has_place (ld_threads s') \<noteq> []" using that ok(2) by (auto simp: places_ok_def places_def)
    then obtain pc where "pc \<in> set (ld_threads s')" "has_place pc" by (auto simp: filter_empty_conv)
    then show ?thesis using f' by (auto simp: will_look_def)
  qed
  have B: "\<exists>pc\<in>set (ld_threads s'). will_look pc"
    if "\<not> will_look (ld_threads s ! t)" "handed_workers s = []" "elems (ld_queue s) \<noteq> []"
  proof -
    note h = that
    obtain pc where pc: "pc \<in> set (ld_threads s)" "will_look pc" using ok(1) True mono h by (auto simp: none_stranded_def)
    then obtain u where u: "u < length (ld_threads s)" "ld_threads s ! u = pc" by (auto simp: in_set_conv_nth)
    then have "u \<noteq> t" using h(1) pc(2) by auto
    then have "ld_threads s' ! u = pc" "u < length (ld_threads s')" using u t(2) by simp_all
    then show ?thesis using pc(2) by (metis nth_mem)
  qed
  show ?thesis unfolding none_stranded_def using w f' pc' A B by metis
qed (simp add: none_stranded_def)

lemma order_step:
  assumes ok: "in_order p s" "places_ok p s" and t: "t < length (ld_threads s)" "ld_threads s' = (ld_threads s)[t := pc']"
    and mono: "given_up s' = [] \<Longrightarrow> given_up s = []"
    and step: "given_up s' = [] \<Longrightarrow>
      taken s' = taken s \<and> finished s' = finished s \<and>
        mset (task_of pc') + mset (handed_workers s') = mset (task_of (ld_threads s ! t)) + mset (handed_workers s) \<or>
      has_place (ld_threads s ! t) \<and> task_of (ld_threads s ! t) = [] \<and> (\<exists>e. task_of pc' = [e] \<and> taken s' = taken s @ [e]) \<and>
        finished s' = finished s \<and> handed_workers s' = handed_workers s \<or>
      (\<exists>e. task_of (ld_threads s ! t) = [e] \<and> finished s' = finished s @ [e]) \<and> task_of pc' = [] \<and> taken s' = taken s \<and>
        handed_workers s' = handed_workers s"
  shows "in_order p s'"
  unfolding in_order_def
proof (intro impI)
  assume p: "p = 1 \<and> given_up s' = []"
  obtain xs where xs: "taken s = finished s @ xs" "mset xs = in_flight s" using ok(1) p mono by (auto simp: in_order_def)
  have f: "in_flight s' + mset (task_of (ld_threads s ! t)) + mset (handed_workers s) =
      in_flight s + mset (task_of pc') + mset (handed_workers s')"
    using mset_concat_update [OF t(1), of task_of pc'] unfolding in_flight_def t(2) by (simp add: ac_simps)
  have one: "places s \<le> 1" using ok(2) p by (simp add: places_ok_def)
  have alone: "in_flight s = mset (task_of (ld_threads s ! t))" if "has_place (ld_threads s ! t)"
  proof -
    let ?s = "s\<lparr>ld_threads := (ld_threads s)[t := LD_Idle]\<rparr>"
    have "places ?s + 1 = places s" using that length_filter_update [OF t(1), of has_place LD_Idle] by (simp add: places_def)
    then have "places ?s = 0" using one by linarith
    then have "in_flight ?s = {#}" using in_flight_size [of ?s] by simp
    then have e: "mset (concat (map task_of ((ld_threads s)[t := LD_Idle]))) = {#}" "handed_workers s = []"
      by (simp_all add: in_flight_def)
    show ?thesis using mset_concat_update [OF t(1), of task_of LD_Idle] unfolding e in_flight_def by simp
  qed
  from step p consider
      (same) "taken s' = taken s" "finished s' = finished s"
        "mset (task_of pc') + mset (handed_workers s') = mset (task_of (ld_threads s ! t)) + mset (handed_workers s)"
    | (take) e where "has_place (ld_threads s ! t)" "task_of (ld_threads s ! t) = []" "task_of pc' = [e]" "taken s' = taken s @ [e]"
        "finished s' = finished s" "handed_workers s' = handed_workers s"
    | (finish) e where "task_of (ld_threads s ! t) = [e]" "finished s' = finished s @ [e]" "task_of pc' = []" "taken s' = taken s"
        "handed_workers s' = handed_workers s" by blast
  then show "\<exists>xs. taken s' = finished s' @ xs \<and> mset xs = in_flight s'"
  proof cases
    case same
    then have "in_flight s' = in_flight s" using f by (metis add.assoc add_right_cancel)
    then show ?thesis using same xs by auto
  next
    case take
    then have "xs = []" "in_flight s' = {#e#}" using alone xs f by auto
    then show ?thesis using take xs by auto
  next
    case finish
    then have "has_place (ld_threads s ! t)" using task_of_place(1) by fastforce
    then have "xs = [e]" "in_flight s' = {#}" using alone xs finish f by auto
    then show ?thesis using finish xs by auto
  qed
qed

lemma limited_step:
  assumes ok: "limited_ok elems queue_ok p s" and p: "1 \<le> p"
    and t: "t < length (ld_threads s)" "ld_threads s' = (ld_threads s)[t := pc']" and pc: "ld_threads s ! t = pc"
    and qok: "queue_ok (ld_queue s')"
    and q: "\<exists>b. elems (ld_queue s) = b @ elems (ld_queue s') \<and> added s' = added s \<and> taken s' = taken s @ b \<or>
      elems (ld_queue s') = elems (ld_queue s) @ b \<and> added s' = added s @ b \<and> taken s' = taken s"
    and m: "mset (taken s') + mset (task_of pc) + mset (handed_workers s) + mset (finished s) + mset (given_up s) =
      mset (taken s) + mset (task_of pc') + mset (handed_workers s') + mset (finished s') + mset (given_up s')"
    and r: "running_workers s' + of_bool (has_place pc) + int (length (handed_workers s)) =
      running_workers s + of_bool (has_place pc') + int (length (handed_workers s'))"
    and le: "running_workers s' \<le> p" and inc: "running_workers s' \<le> running_workers s \<or> under_lock pc"
    and l: "allocation_lock s' = (if under_lock pc' then Some t else if under_lock pc then None else allocation_lock s)"
    and free: "under_lock pc' \<Longrightarrow> under_lock pc \<or> allocation_lock s = None"
    and g: "takes_place pc' \<Longrightarrow> running_workers s' < p"
    and f: "given_up s' = [] \<Longrightarrow> given_up s = [] \<and> \<not> has_failed pc'"
    and w: "elems (ld_queue s') = [] \<or> will_look pc' \<or> handed_workers s' \<noteq> [] \<or> running_workers s' \<ge> 1 \<or>
      \<not> will_look pc \<and> handed_workers s' = handed_workers s \<and> elems (ld_queue s) = elems (ld_queue s')"
    and o: "given_up s' = [] \<Longrightarrow>
      taken s' = taken s \<and> finished s' = finished s \<and>
        mset (task_of pc') + mset (handed_workers s') = mset (task_of pc) + mset (handed_workers s) \<or>
      has_place pc \<and> task_of pc = [] \<and> (\<exists>e. task_of pc' = [e] \<and> taken s' = taken s @ [e]) \<and>
        finished s' = finished s \<and> handed_workers s' = handed_workers s \<or>
      (\<exists>e. task_of pc = [e] \<and> finished s' = finished s @ [e]) \<and> task_of pc' = [] \<and> taken s' = taken s \<and>
        handed_workers s' = handed_workers s"
  shows "limited_ok elems queue_ok p s'"
proof -
  have o1: "tasks_conserved elems s" "places_ok p s" "none_stranded elems s" "in_order p s" using ok by (simp_all add: limited_ok_def)
  have "places_ok p s'" using places_step [OF o1(2) t] r le inc l free g pc by simp
  moreover have "tasks_conserved elems s'"
    by (rule tasks_step [OF o1(1) t]) (use q m pc in \<open>auto simp: ac_simps\<close>)
  moreover have "none_stranded elems s'" if "places_ok p s'"
    by (rule stranded_step [OF o1(3) that p t]) (use f w pc in auto)
  moreover have "in_order p s'"
    by (rule order_step [OF o1(4,2) t]) (use f o pc in auto)
  ultimately show ?thesis using qok by (simp add: limited_ok_def)
qed

subsection \<open>Every step keeps the invariant\<close>

lemma ld_fields [simp]:
  "ld_queue (set_ld_pc t pc s) = ld_queue s" "running_workers (set_ld_pc t pc s) = running_workers s"
  "allocation_lock (set_ld_pc t pc s) = allocation_lock s" "ld_threads (set_ld_pc t pc s) = (ld_threads s)[t := pc]"
  "handed_workers (set_ld_pc t pc s) = handed_workers s" "added (set_ld_pc t pc s) = added s"
  "taken (set_ld_pc t pc s) = taken s" "finished (set_ld_pc t pc s) = finished s" "given_up (set_ld_pc t pc s) = given_up s"
  "ld_queue (unlock s) = ld_queue s" "running_workers (unlock s) = running_workers s"
  "allocation_lock (unlock s) = None" "ld_threads (unlock s) = ld_threads s"
  "handed_workers (unlock s) = handed_workers s" "added (unlock s) = added s"
  "taken (unlock s) = taken s" "finished (unlock s) = finished s" "given_up (unlock s) = given_up s"
  "ld_queue (add_workers n s) = ld_queue s" "running_workers (add_workers n s) = running_workers s + n"
  "allocation_lock (add_workers n s) = allocation_lock s" "ld_threads (add_workers n s) = ld_threads s"
  "handed_workers (add_workers n s) = handed_workers s" "added (add_workers n s) = added s"
  "taken (add_workers n s) = taken s" "finished (add_workers n s) = finished s" "given_up (add_workers n s) = given_up s"
  by (simp_all add: set_ld_pc_def unlock_def add_workers_def)

lemma will_look_simps [simp]:
  "will_look LD_Check" "will_look LD_Lock" "will_look LD_Try" "will_look LD_Inc" "will_look (LD_Obtain c)"
  "will_look (LD_Null c)" "will_look (LD_Dec c)" "will_look (LD_Size c)" "will_look (LD_Inc_Again c)" "will_look (LD_Start e)"
  "will_look (LD_Run e n)" "will_look (LD_Fair e n)"
  "\<not> will_look LD_Idle" "\<not> will_look (LD_Add e)" "\<not> will_look LD_Undo" "\<not> will_look LD_Fail_Lock" "\<not> will_look LD_Fail_Dec"
  by (simp_all add: will_look_def)

lemma limited_okD:
  assumes "limited_ok elems queue_ok p s"
  shows "queue_ok (ld_queue s)" "running_workers s \<le> p" "running_workers s = int (places s)"
    "t < length (ld_threads s) \<Longrightarrow> takes_place (ld_threads s ! t) \<Longrightarrow> running_workers s < p"
    "t < length (ld_threads s) \<Longrightarrow> under_lock (ld_threads s ! t) \<Longrightarrow> allocation_lock s = Some t"
    "t < length (ld_threads s) \<Longrightarrow> has_failed (ld_threads s ! t) \<Longrightarrow> given_up s \<noteq> []"
  using assms by (auto simp: limited_ok_def places_ok_def none_stranded_def)

lemma place_counts: "t < length (ld_threads s) \<Longrightarrow> has_place (ld_threads s ! t) \<Longrightarrow> 1 \<le> places s"
  using length_filter_update [of t "ld_threads s" has_place LD_Idle] by (simp add: places_def)

text \<open>How far a state is from rest, for the steps in which no call of \<open>dispatch\<close> begins, the queue hides nothing and
  the dispatcher below accepts every worker.\<close>

definition quiet_op :: "'e ld_op \<Rightarrow> bool" where
  "quiet_op op \<longleftrightarrow> (case op of L_Dispatch t e \<Rightarrow> False | L_Start_Worker t i \<Rightarrow> True
     | L_Advance t spurious needed throws \<Rightarrow> \<not> spurious \<and> \<not> throws)"

definition at_rest :: "('q, 'e) limited \<Rightarrow> bool" where
  "at_rest s \<longleftrightarrow> (\<forall>pc\<in>set (ld_threads s). pc = LD_Idle) \<and> handed_workers s = []"

fun pc_weight :: "nat \<Rightarrow> bool \<Rightarrow> 'e ld_pc \<Rightarrow> nat" where
  "pc_weight n b LD_Idle = 0" | "pc_weight n b (LD_Add e) = 5 * n + 13" | "pc_weight n b LD_Check = 8" | "pc_weight n b LD_Lock = 7"
| "pc_weight n b LD_Try = 6" | "pc_weight n b LD_Inc = 5" | "pc_weight n b (LD_Obtain c) = 4"
| "pc_weight n b (LD_Null c) = (if b then 8 else 3)" | "pc_weight n b (LD_Dec c) = (if b then 7 else 2)"
| "pc_weight n b (LD_Size c) = (if b then 6 else 1)" | "pc_weight n b (LD_Inc_Again c) = 5"
| "pc_weight n b (LD_Start e) = 7" | "pc_weight n b LD_Undo = 1" | "pc_weight n b (LD_Run e i) = 5" | "pc_weight n b (LD_Fair e i) = 7"
| "pc_weight n b LD_Fail_Lock = 2" | "pc_weight n b LD_Fail_Dec = 1"

definition work_left :: "('q \<Rightarrow> 'e list) \<Rightarrow> ('q, 'e) limited \<Rightarrow> nat" where
  "work_left elems s = sum_list (map (pc_weight (length (ld_threads s)) (elems (ld_queue s) \<noteq> [])) (ld_threads s)) +
     4 * length (elems (ld_queue s)) + 6 * length (handed_workers s)"

lemma weight_mono:
  fixes xs :: "'e ld_pc list"
  shows "(b \<longrightarrow> b') \<Longrightarrow> sum_list (map (pc_weight n b) xs) \<le> sum_list (map (pc_weight n b') xs)"
    "sum_list (map (pc_weight n b) xs) \<le> sum_list (map (pc_weight n b') xs) + 5 * length xs"
proof -
  have "pc_weight n b pc \<le> pc_weight n b' pc" if "b \<longrightarrow> b'" for pc :: "'e ld_pc"
    using that by (cases pc) auto
  then show "sum_list (map (pc_weight n b) xs) \<le> sum_list (map (pc_weight n b') xs)" if "b \<longrightarrow> b'"
    using that by (intro sum_list_mono) blast
  have w: "pc_weight n b pc \<le> pc_weight n b' pc + 5" for pc :: "'e ld_pc" by (cases pc) auto
  show "sum_list (map (pc_weight n b) xs) \<le> sum_list (map (pc_weight n b') xs) + 5 * length xs"
  proof (induction xs)
    case (Cons pc xs)
    then show ?case using w [of pc] by simp
  qed simp
qed

fun is_adding :: "'e ld_pc \<Rightarrow> bool" where
  "is_adding (LD_Add e) = True" | "is_adding _ = False"

fun wants_lock :: "'e ld_pc \<Rightarrow> bool" where
  "wants_lock LD_Lock = True" | "wants_lock (LD_Null c) = True" | "wants_lock LD_Fail_Lock = True" | "wants_lock _ = False"

definition room_left :: "('q \<Rightarrow> 'e list) \<Rightarrow> ('q, 'e) limited \<Rightarrow> bool" where
  "room_left elems s \<longleftrightarrow> length (elems (ld_queue s)) + length (filter is_adding (ld_threads s)) + 2 \<le> 2 ^ 30"

lemma room_step:
  assumes "room_left elems s" "t < length (ld_threads s)" "ld_threads s' = (ld_threads s)[t := pc']"
    "length (elems (ld_queue s')) + of_bool (is_adding pc') \<le> length (elems (ld_queue s)) + of_bool (is_adding (ld_threads s ! t))"
  shows "room_left elems s'"
  using assms length_filter_update [OF assms(2), of is_adding pc'] unfolding room_left_def by simp

text \<open>A step that does not fill an empty queue, and one that adds to the queue.\<close>

lemma work_step:
  assumes t: "t < length (ld_threads s)" "ld_threads s' = (ld_threads s)[t := pc']" and q: "elems (ld_queue s) = [] \<longrightarrow> elems (ld_queue s') = []"
    and w: "pc_weight (length (ld_threads s)) (elems (ld_queue s) \<noteq> []) pc' + 4 * length (elems (ld_queue s')) + 6 * length (handed_workers s') <
      pc_weight (length (ld_threads s)) (elems (ld_queue s) \<noteq> []) (ld_threads s ! t) + 4 * length (elems (ld_queue s)) + 6 * length (handed_workers s)"
  shows "work_left elems s' < work_left elems s"
proof -
  let ?n = "length (ld_threads s)" let ?b = "elems (ld_queue s) \<noteq> []"
  have "sum_list (map (pc_weight ?n (elems (ld_queue s') \<noteq> [])) (ld_threads s')) \<le> sum_list (map (pc_weight ?n ?b) (ld_threads s'))"
    by (rule weight_mono(1)) (use q in blast)
  moreover have "sum_list (map (pc_weight ?n ?b) (ld_threads s')) + pc_weight ?n ?b (ld_threads s ! t) =
      sum_list (map (pc_weight ?n ?b) (ld_threads s)) + pc_weight ?n ?b pc'"
    using sum_list_map_update [OF t(1), of "pc_weight ?n ?b" pc'] by (simp only: t(2))
  ultimately show ?thesis using w t(2) unfolding work_left_def by simp
qed

lemma work_add:
  assumes t: "t < length (ld_threads s)" "ld_threads s' = (ld_threads s)[t := LD_Check]" "ld_threads s ! t = LD_Add e"
    and q: "elems (ld_queue s') = elems (ld_queue s) @ [e]" "handed_workers s' = handed_workers s"
  shows "work_left elems s' < work_left elems s"
proof -
  let ?n = "length (ld_threads s)" let ?b = "elems (ld_queue s) \<noteq> []"
  have "sum_list (map (pc_weight ?n ?b) (ld_threads s')) + pc_weight ?n ?b (ld_threads s ! t) =
      sum_list (map (pc_weight ?n ?b) (ld_threads s)) + 8"
    using sum_list_map_update [OF t(1), of "pc_weight ?n ?b" LD_Check] by (simp only: t(2) pc_weight.simps)
  moreover have "sum_list (map (pc_weight ?n (elems (ld_queue s') \<noteq> [])) (ld_threads s')) \<le>
      sum_list (map (pc_weight ?n ?b) (ld_threads s')) + 5 * length (ld_threads s')" by (rule weight_mono(2))
  ultimately show ?thesis using t q unfolding work_left_def by simp
qed

context fifo_queue
begin

lemma lock_then_ok:
  assumes ok: "limited_ok elems queue_ok p s" and p: "1 \<le> p" and t: "t < length (ld_threads s)"
    and pc: "\<not> under_lock (ld_threads s ! t)" "under_lock pc'" "has_place pc' = has_place (ld_threads s ! t)"
      "task_of pc' = []" "task_of (ld_threads s ! t) = []" "\<not> takes_place pc'" "has_failed pc' = has_failed (ld_threads s ! t)"
      "will_look pc' = will_look (ld_threads s ! t)"
  shows "limited_ok elems queue_ok p (lock_then pc' t s)"
proof (cases "allocation_lock s = None")
  case True
  show ?thesis unfolding lock_then_def
    by (rule limited_step [where t = t and pc' = pc' and pc = "ld_threads s ! t", OF ok p t])
      (use pc True limited_okD [OF ok] t in auto)
qed (use ok in \<open>auto simp: lock_then_def\<close>)

lemma hand_over_ok:
  assumes ok: "limited_ok elems queue_ok p s" and p: "1 \<le> p" and t: "t < length (ld_threads s)"
    and pc: "ld_threads s ! t = pc" "has_place pc" "task_of pc = [e]" "\<not> under_lock pc"
    and fl: "has_failed failed" "has_place failed" "task_of failed = []" "\<not> under_lock failed" "\<not> takes_place failed"
  shows "limited_ok elems queue_ok p (hand_over throws failed t e s)"
proof -
  have r: "1 \<le> running_workers s" using limited_okD(3) [OF ok] place_counts [OF t] pc by simp
  show ?thesis
  proof (cases throws)
    case True
    have "limited_ok elems queue_ok p (set_ld_pc t failed (s\<lparr>given_up := given_up s @ [e]\<rparr>))"
      by (rule limited_step [where t = t and pc = pc and pc' = failed, OF ok p t])
        (use pc fl r limited_okD [OF ok] in \<open>auto simp: ac_simps\<close>)
    then show ?thesis using True by (simp add: hand_over_def)
  next
    case False
    have "limited_ok elems queue_ok p (set_ld_pc t LD_Idle (s\<lparr>handed_workers := handed_workers s @ [e]\<rparr>))"
      by (rule limited_step [where t = t and pc = pc and pc' = LD_Idle, OF ok p t])
        (use pc r limited_okD [OF ok] in \<open>auto simp: ac_simps\<close>)
    then show ?thesis using False by (simp add: hand_over_def)
  qed
qed

lemma add_ok:
  assumes ok: "limited_ok elems queue_ok p s" and p: "1 \<le> p" and t: "t < length (ld_threads s)" "ld_threads s ! t = LD_Add e"
  shows "limited_ok elems queue_ok p (dispatch_add enqueue t e s)"
proof (cases "\<exists>b q. enqueue e (ld_queue s) = Some (Inr b, q)")
  case True
  then obtain b q where q: "enqueue e (ld_queue s) = Some (Inr b, q)" by blast
  have l: "queue_ok q" "elems q = elems (ld_queue s) @ [e]" using enqueue_appends [OF limited_okD(1) [OF ok] q] by simp_all
  show ?thesis unfolding dispatch_add_def q
    by (simp, rule limited_step [where t = t and pc = "LD_Add e" and pc' = LD_Check, OF ok p t(1)])
      (use t l limited_okD [OF ok] in auto)
next
  case False
  then show ?thesis using ok by (auto simp: dispatch_add_def split: option.splits sum.splits)
qed

lemma obtain_ok:
  assumes ok: "limited_ok elems queue_ok p s" and p: "1 \<le> p" and t: "t < length (ld_threads s)" "ld_threads s ! t = LD_Obtain c"
  shows "limited_ok elems queue_ok p (obtain_task dequeue spurious t c s)"
proof -
  have r: "1 \<le> running_workers s" using limited_okD(3) [OF ok] place_counts [OF t(1)] t(2) by simp
  obtain q where q: "dequeue (ld_queue s) = Some (Inr (case elems (ld_queue s) of [] \<Rightarrow> None | x # _ \<Rightarrow> Some x), q)"
      "queue_ok q" "elems q = tl (elems (ld_queue s))" using dequeue_takes [OF limited_okD(1) [OF ok]] by blast
  have miss: "limited_ok elems queue_ok p (set_ld_pc t (LD_Null c) (s\<lparr>ld_queue := q'\<rparr>))"
    if "queue_ok q'" "elems q' = elems (ld_queue s)" for q'
    by (rule limited_step [where t = t and pc = "LD_Obtain c" and pc' = "LD_Null c", OF ok p t(1)])
      (use t that limited_okD [OF ok] in auto)
  show ?thesis
  proof (cases spurious)
    case True
    then show ?thesis using miss [of "ld_queue s"] limited_okD(1) [OF ok] by (simp add: obtain_task_def)
  next
    case False
    show ?thesis
    proof (cases "elems (ld_queue s)")
      case Nil
      then show ?thesis using False q miss [of q] by (simp add: obtain_task_def)
    next
      case (Cons e xs)
      have f: "task_of (task_obtained c e) = [e]" "has_place (task_obtained c e)" "\<not> under_lock (task_obtained c e)"
        "\<not> takes_place (task_obtained c e)" "\<not> has_failed (task_obtained c e)" by (cases c; simp)+
      have "limited_ok elems queue_ok p (set_ld_pc t (task_obtained c e) (s\<lparr>ld_queue := q, taken := taken s @ [e]\<rparr>))"
        by (rule limited_step [where t = t and pc = "LD_Obtain c" and pc' = "task_obtained c e", OF ok p t(1)])
          (use t r q Cons f limited_okD [OF ok] in \<open>auto simp: ac_simps\<close>)
      then show ?thesis using False q Cons by (simp add: obtain_task_def)
    qed
  qed
qed

text \<open>The remaining accesses change the program counter, the counter of workers and the lock only.\<close>

lemma counter_ok:
  assumes ok: "limited_ok elems queue_ok p s" and p: "1 \<le> p" and t: "t < length (ld_threads s)" and pc: "ld_threads s ! t = pc"
    and s': "ld_threads s' = (ld_threads s)[t := pc']" "ld_queue s' = ld_queue s" "handed_workers s' = handed_workers s"
      "added s' = added s" "taken s' = taken s" "finished s' = finished s" "given_up s' = given_up s"
    and task: "task_of pc' = task_of pc" and failed: "has_failed pc' \<Longrightarrow> has_failed pc"
    and r: "running_workers s' + of_bool (has_place pc) = running_workers s + of_bool (has_place pc')" "running_workers s' \<le> p"
      "running_workers s' \<le> running_workers s \<or> under_lock pc" "takes_place pc' \<Longrightarrow> running_workers s' < p"
    and l: "under_lock pc' \<Longrightarrow> under_lock pc" "allocation_lock s' = (if under_lock pc \<and> \<not> under_lock pc' then None else allocation_lock s)"
    and w: "elems (ld_queue s) = [] \<or> will_look pc' \<or> running_workers s' \<ge> 1 \<or> \<not> will_look pc"
  shows "limited_ok elems queue_ok p s'"
proof (rule limited_step [where t = t and pc = pc and pc' = pc', OF ok p t])
  show "allocation_lock s' = (if under_lock pc' then Some t else if under_lock pc then None else allocation_lock s)"
    using l limited_okD(5) [OF ok t] pc by auto
qed (use s' task failed r l w pc limited_okD [OF ok] t in auto)

lemma advance_ok:
  assumes ok: "limited_ok elems queue_ok p s" and p: "1 \<le> p" and t: "t < length (ld_threads s)"
  shows "limited_ok elems queue_ok p (advance enqueue dequeue queue_size p spurious needed throws t (ld_threads s ! t) s)"
proof -
  note d = limited_okD [OF ok]
  note counter = counter_ok [OF ok p t]
  have r: "has_place (ld_threads s ! t) \<Longrightarrow> 1 \<le> running_workers s" using d(3) place_counts [OF t] by simp
  show ?thesis
  proof (cases "ld_threads s ! t")
    case LD_Check
    show ?thesis unfolding LD_Check advance.simps dispatch_check_def
      by (rule counter [OF LD_Check, where pc' = "if running_workers s \<ge> p then LD_Idle else LD_Lock"]) (use d p in \<open>auto split: if_splits\<close>)
  next
    case LD_Lock
    then show ?thesis using lock_then_ok [OF ok p t, of LD_Try] by simp
  next
    case LD_Try
    show ?thesis unfolding LD_Try advance.simps try_allocate_worker_def
      by (rule counter [OF LD_Try, where pc' = "if running_workers s \<ge> p then LD_Idle else LD_Inc"]) (use d p in \<open>auto split: if_splits\<close>)
  next
    case LD_Inc
    show ?thesis unfolding LD_Inc advance.simps allocate_worker_def
      by (rule counter [OF LD_Inc, where pc' = "LD_Obtain For_Dispatch"]) (use d(2) d(4) [OF t] LD_Inc in auto)
  next
    case (LD_Null c)
    then show ?thesis using lock_then_ok [OF ok p t, of "LD_Dec c"] by simp
  next
    case (LD_Dec c)
    show ?thesis unfolding LD_Dec advance.simps
      by (rule counter [OF LD_Dec, where pc' = "LD_Size c"]) (use d(2) in auto)
  next
    case (LD_Size c)
    show ?thesis unfolding LD_Size advance.simps deallocate_or_retry_def
      by (rule counter [OF LD_Size, where pc' = "if queue_size (ld_queue s) = 0 then LD_Idle else LD_Inc_Again c"])
        (use d(2) d(4) [OF t] LD_Size queue_size_counts [OF d(1)] in \<open>auto split: if_splits\<close>)
  next
    case (LD_Inc_Again c)
    show ?thesis unfolding LD_Inc_Again advance.simps
      by (rule counter [OF LD_Inc_Again, where pc' = "LD_Obtain c"]) (use d(2) d(4) [OF t] LD_Inc_Again in auto)
  next
    case LD_Undo
    show ?thesis unfolding LD_Undo advance.simps
      by (rule counter [OF LD_Undo, where pc' = LD_Idle]) (use d(2) in auto)
  next
    case (LD_Run e n)
    show ?thesis unfolding LD_Run advance.simps run_task_to_end_def
      by (rule limited_step [where t = t and pc = "LD_Run e n" and pc' = "LD_Obtain (For_Worker n)", OF ok p t])
        (use d LD_Run in \<open>auto simp: ac_simps\<close>)
  next
    case (LD_Fair e n)
    have "limited_ok elems queue_ok p (hand_over throws LD_Fail_Lock t e s)"
      by (rule hand_over_ok [OF ok p t LD_Fair]) simp_all
    moreover have "limited_ok elems queue_ok p (set_ld_pc t (LD_Run e n) s)"
      by (rule limited_step [where t = t and pc = "LD_Fair e n" and pc' = "LD_Run e n", OF ok p t]) (use d LD_Fair in auto)
    ultimately show ?thesis by (simp add: LD_Fair fairness_check_def)
  next
    case LD_Fail_Lock
    then show ?thesis using lock_then_ok [OF ok p t, of LD_Fail_Dec] by simp
  next
    case LD_Fail_Dec
    show ?thesis unfolding LD_Fail_Dec advance.simps
      by (rule counter [OF LD_Fail_Dec, where pc' = LD_Idle]) (use d(2) in auto)
  next
    case (LD_Start e)
    show ?thesis unfolding LD_Start advance.simps by (rule hand_over_ok [OF ok p t LD_Start]) simp_all
  next
    case (LD_Add e)
    show ?thesis unfolding LD_Add advance.simps by (rule add_ok [OF ok p t LD_Add])
  next
    case (LD_Obtain c)
    show ?thesis unfolding LD_Obtain advance.simps by (rule obtain_ok [OF ok p t LD_Obtain])
  qed (use ok in simp)
qed

lemma mset_remove_nth: "i < length xs \<Longrightarrow> mset (take i xs @ drop (Suc i) xs) + {#xs ! i#} = mset xs"
  by (metis add_mset_add_single append_take_drop_id Cons_nth_drop_Suc mset.simps(2) mset_append union_mset_add_mset_right)

lemma ld_step_ok:
  assumes ok: "limited_ok elems queue_ok p s" and p: "1 \<le> p"
  shows "limited_ok elems queue_ok p (ld_step enqueue dequeue queue_size p op s)"
proof (cases op)
  case (L_Dispatch t e)
  show ?thesis
  proof (cases "t < length (ld_threads s) \<and> ld_threads s ! t = LD_Idle")
    case True
    then have "limited_ok elems queue_ok p (set_ld_pc t (LD_Add e) s)"
      by (intro counter_ok [OF ok p, where t = t and pc = LD_Idle and pc' = "LD_Add e"]) (use limited_okD [OF ok] in auto)
    then show ?thesis using L_Dispatch True by simp
  qed (use ok L_Dispatch in auto)
next
  case (L_Start_Worker t i)
  show ?thesis
  proof (cases "t < length (ld_threads s) \<and> ld_threads s ! t = LD_Idle \<and> i < length (handed_workers s)")
    case True
    then have m: "mset (take i (handed_workers s) @ drop (Suc i) (handed_workers s)) + {#handed_workers s ! i#} = mset (handed_workers s)"
      using mset_remove_nth by blast
    have "limited_ok elems queue_ok p (start_worker t i s)" unfolding start_worker_def
      by (rule limited_step [where t = t and pc = LD_Idle and pc' = "LD_Run (handed_workers s ! i) 0", OF ok p])
        (use True m limited_okD [OF ok] in \<open>auto simp: ac_simps\<close>)
    then show ?thesis using L_Start_Worker True by simp
  qed (use ok L_Start_Worker in auto)
next
  case (L_Advance t spurious needed throws)
  then show ?thesis using advance_ok [OF ok p] ok by simp
qed

lemma ld_run_ok:
  assumes "limited_ok elems queue_ok p s" "1 \<le> p"
  shows "limited_ok elems queue_ok p (ld_run enqueue dequeue queue_size p ops s)"
  unfolding ld_run_def using assms by (induction ops arbitrary: s) (simp_all add: ld_step_ok)

lemma new_limited_ok:
  assumes "new_limited_dispatcher p n q = Inr s" "queue_ok q" "elems q = []"
  shows "limited_ok elems queue_ok p s" "1 \<le> p"
proof -
  show p: "1 \<le> p" using assms(1) by (simp add: new_limited_dispatcher_def check_parallelism_def split: if_splits)
  have s: "s = \<lparr>ld_queue = q, running_workers = 0, allocation_lock = None, ld_threads = replicate n LD_Idle,
      handed_workers = [], added = [], taken = [], finished = [], given_up = []\<rparr>"
    using assms(1) p by (simp add: new_limited_dispatcher_def check_parallelism_def)
  have "concat (map task_of (replicate n LD_Idle)) = []" "filter has_place (replicate n LD_Idle) = []" by (simp_all add: filter_empty_conv)
  then have "in_flight s = {#}" "places s = 0" by (simp_all add: s in_flight_def places_def)
  then show "limited_ok elems queue_ok p s" using assms(2,3) p
    by (auto simp: limited_ok_def tasks_conserved_def places_ok_def none_stranded_def in_order_def s)
qed

text \<open>A state in which nothing happens any more.\<close>

lemma quiescent_finished:
  assumes ok: "limited_ok elems queue_ok p s"
    and q: "\<forall>pc\<in>set (ld_threads s). pc = LD_Idle" "handed_workers s = []" "given_up s = []"
  shows "mset (finished s) = mset (added s)" "elems (ld_queue s) = []" "running_workers s = 0"
proof -
  have n: "concat (map task_of (ld_threads s)) = []" "filter has_place (ld_threads s) = []" using q(1) by (auto simp: filter_empty_conv)
  then have "in_flight s = {#}" "places s = 0" using q(2) by (simp_all add: in_flight_def places_def)
  then show "running_workers s = 0" using limited_okD(3) [OF ok] by simp
  show e: "elems (ld_queue s) = []" using ok q by (auto simp: limited_ok_def none_stranded_def)
  then show "mset (finished s) = mset (added s)" using ok q(3) \<open>in_flight s = {#}\<close> by (simp add: limited_ok_def tasks_conserved_def)
qed

lemma tasks_at_once:
  assumes "limited_ok elems queue_ok p s"
  shows "int (length (filter (\<lambda>pc. \<exists>e n. pc = LD_Run e n) (ld_threads s))) \<le> p"
proof -
  have "length (filter (\<lambda>pc. \<exists>e n. pc = LD_Run e n) xs) \<le> length (filter has_place xs)" for xs :: "'e ld_pc list"
    by (induction xs) auto
  from this [of "ld_threads s"] show ?thesis using limited_okD(2,3) [OF assms] by (simp add: places_def)
qed

lemma one_at_a_time:
  assumes ok: "limited_ok elems queue_ok p s" and "p = 1" "given_up s = []"
  shows "\<exists>xs. added s = finished s @ xs"
  using assms by (auto simp: limited_ok_def tasks_conserved_def in_order_def)

lemma quiet_step_less:
  assumes ok: "limited_ok elems queue_ok p s" and op: "quiet_op op" and ne: "ld_step enqueue dequeue queue_size p op s \<noteq> s"
  shows "work_left elems (ld_step enqueue dequeue queue_size p op s) < work_left elems s \<and>
    given_up (ld_step enqueue dequeue queue_size p op s) = given_up s"
proof (cases op)
  case (L_Start_Worker t i)
  then have t: "t < length (ld_threads s)" "ld_threads s ! t = LD_Idle" "i < length (handed_workers s)" using ne by (auto split: if_splits)
  have "work_left elems (start_worker t i s) < work_left elems s"
    unfolding start_worker_def by (rule work_step [where pc' = "LD_Run (handed_workers s ! i) 0"]) (use t in auto)
  then show ?thesis using L_Start_Worker t by (simp add: start_worker_def)
next
  case (L_Advance t spurious needed throws)
  then have t: "t < length (ld_threads s)" and f: "\<not> spurious" "\<not> throws" using ne op by (auto simp: quiet_op_def split: if_splits)
  note step = work_step [where t = t and s = s, OF t]
  have ne: "advance enqueue dequeue queue_size p False needed False t (ld_threads s ! t) s \<noteq> s" using ne L_Advance t f by simp
  have lock: "work_left elems (lock_then pc' t s) < work_left elems s \<and> given_up (lock_then pc' t s) = given_up s"
    if "pc_weight (length (ld_threads s)) (elems (ld_queue s) \<noteq> []) pc' < pc_weight (length (ld_threads s)) (elems (ld_queue s) \<noteq> []) (ld_threads s ! t)"
      "lock_then pc' t s \<noteq> s" for pc'
    using that step [where pc' = pc'] by (auto simp: lock_then_def split: if_splits)
  have "work_left elems (advance enqueue dequeue queue_size p False needed False t (ld_threads s ! t) s) < work_left elems s \<and>
      given_up (advance enqueue dequeue queue_size p False needed False t (ld_threads s ! t) s) = given_up s"
  proof (cases "ld_threads s ! t")
    case (LD_Add e)
    then obtain b q where q: "enqueue e (ld_queue s) = Some (Inr b, q)"
      using ne by (auto simp: dispatch_add_def split: option.splits sum.splits)
    show ?thesis using work_add [OF t, where s' = "dispatch_add enqueue t e s" and e = e] LD_Add q enqueue_appends [OF limited_okD(1) [OF ok] q]
      by (simp add: dispatch_add_def)
  next
    case (LD_Obtain c)
    obtain q where q: "dequeue (ld_queue s) = Some (Inr (case elems (ld_queue s) of [] \<Rightarrow> None | x # _ \<Rightarrow> Some x), q)"
        "queue_ok q" "elems q = tl (elems (ld_queue s))" using dequeue_takes [OF limited_okD(1) [OF ok]] by blast
    show ?thesis
    proof (cases "elems (ld_queue s)")
      case Nil
      then show ?thesis using LD_Obtain q step [where pc' = "LD_Null c" and s' = "set_ld_pc t (LD_Null c) (s\<lparr>ld_queue := q\<rparr>)"]
        by (simp add: obtain_task_def)
    next
      case (Cons e xs)
      then show ?thesis using LD_Obtain q step [where pc' = "task_obtained c e"
          and s' = "set_ld_pc t (task_obtained c e) (s\<lparr>ld_queue := q, taken := taken s @ [e]\<rparr>)"]
        by (cases c) (simp_all add: obtain_task_def)
    qed
  next
    case (LD_Size c)
    then show ?thesis using queue_size_counts [OF limited_okD(1) [OF ok]] step [where pc' = LD_Idle] step [where pc' = "LD_Inc_Again c"]
      by (auto simp: deallocate_or_retry_def)
  next
    case (LD_Fair e n)
    then show ?thesis using step [where pc' = LD_Idle] step [where pc' = "LD_Run e n"]
      by (auto simp: fairness_check_def hand_over_def)
  qed (use ne lock step [where pc' = LD_Idle] step [where pc' = LD_Lock] step [where pc' = LD_Inc] step [where pc' = "LD_Obtain c" for c]
      step [where pc' = "LD_Size c" for c] in
      \<open>auto simp: dispatch_check_def try_allocate_worker_def allocate_worker_def run_task_to_end_def hand_over_def split: if_splits\<close>)
  then show ?thesis using L_Advance t f by simp
qed (use op in \<open>simp add: quiet_op_def\<close>)

lemma advance_changes:
  assumes ok: "limited_ok elems queue_ok p s" and t: "t < length (ld_threads s)" "ld_threads s ! t \<noteq> LD_Idle"
    and l: "wants_lock (ld_threads s ! t) \<Longrightarrow> allocation_lock s = None" and room: "room_left elems s"
  shows "ld_step enqueue dequeue queue_size p (L_Advance t False False False) s \<noteq> s"
proof -
  let ?s = "ld_step enqueue dequeue queue_size p (L_Advance t False False False) s"
  have "\<exists>pc'. pc' \<noteq> ld_threads s ! t \<and> ld_threads ?s = (ld_threads s)[t := pc']"
  proof (cases "ld_threads s ! t")
    case (LD_Add e)
    then have "1 \<le> length (filter is_adding (ld_threads s))"
      using t(1) length_filter_update [OF t(1), of is_adding LD_Idle] by simp
    then have "length (elems (ld_queue s)) + 2 < 2 ^ 30" using room by (simp add: room_left_def)
    then obtain q where "enqueue e (ld_queue s) = Some (Inr True, q)" using enqueue_returns [OF limited_okD(1) [OF ok]] by blast
    then show ?thesis using LD_Add t by (auto simp: dispatch_add_def)
  next
    case (LD_Obtain c)
    obtain q where "dequeue (ld_queue s) = Some (Inr (case elems (ld_queue s) of [] \<Rightarrow> None | x # _ \<Rightarrow> Some x), q)"
      using dequeue_takes [OF limited_okD(1) [OF ok]] by blast
    moreover have "task_obtained c e \<noteq> LD_Obtain c" for e :: 'e by (cases c) simp_all
    ultimately show ?thesis using LD_Obtain t
      by (intro exI [of _ "case elems (ld_queue s) of [] \<Rightarrow> LD_Null c | x # _ \<Rightarrow> task_obtained c x"])
        (auto simp: obtain_task_def split: list.splits)
  qed (use t l in \<open>auto simp: dispatch_check_def lock_then_def try_allocate_worker_def allocate_worker_def deallocate_or_retry_def
      hand_over_def run_task_to_end_def fairness_check_def\<close>)
  then show ?thesis using t(1) by (metis nth_list_update_eq)
qed

lemma quiet_step_exists:
  assumes ok: "limited_ok elems queue_ok p s" and rest: "\<not> at_rest s" and n: "ld_threads s \<noteq> []" and room: "room_left elems s"
  shows "\<exists>op. quiet_op op \<and> ld_step enqueue dequeue queue_size p op s \<noteq> s"
proof (cases "\<exists>t<length (ld_threads s). ld_threads s ! t \<noteq> LD_Idle")
  case False
  then have t: "ld_threads s ! 0 = LD_Idle" "0 < length (ld_threads s)" using n by auto
  have "handed_workers s \<noteq> []" using rest False by (auto simp: at_rest_def in_set_conv_nth)
  then have "ld_threads (ld_step enqueue dequeue queue_size p (L_Start_Worker 0 0) s) ! 0 = LD_Run (handed_workers s ! 0) 0"
    using t by (simp add: start_worker_def)
  then have "ld_step enqueue dequeue queue_size p (L_Start_Worker 0 0) s \<noteq> s" using t by force
  then show ?thesis by (intro exI [of _ "L_Start_Worker 0 0"]) (simp add: quiet_op_def)
next
  case True
  then obtain t where t: "t < length (ld_threads s)" "ld_threads s ! t \<noteq> LD_Idle" by blast
  have "\<exists>u<length (ld_threads s). ld_threads s ! u \<noteq> LD_Idle \<and> (wants_lock (ld_threads s ! u) \<longrightarrow> allocation_lock s = None)"
  proof (cases "allocation_lock s")
    case (Some u)
    then have "u < length (ld_threads s)" "under_lock (ld_threads s ! u)" using ok by (auto simp: limited_ok_def places_ok_def)
    then show ?thesis by (intro exI [of _ u]) (cases "ld_threads s ! u"; simp)
  qed (use t in blast)
  then obtain u where "u < length (ld_threads s)" "ld_threads s ! u \<noteq> LD_Idle" "wants_lock (ld_threads s ! u) \<longrightarrow> allocation_lock s = None"
    by blast
  then have "ld_step enqueue dequeue queue_size p (L_Advance u False False False) s \<noteq> s" using advance_changes [OF ok] room by blast
  then show ?thesis by (intro exI [of _ "L_Advance u False False False"]) (simp add: quiet_op_def)
qed

lemma quiet_step_keeps:
  assumes ok: "limited_ok elems queue_ok p s" and op: "quiet_op op" and room: "room_left elems s"
  shows "room_left elems (ld_step enqueue dequeue queue_size p op s)"
    "length (ld_threads (ld_step enqueue dequeue queue_size p op s)) = length (ld_threads s)"
proof -
  let ?s = "ld_step enqueue dequeue queue_size p op s"
  have "?s = s \<or> (\<exists>t pc'. t < length (ld_threads s) \<and> ld_threads ?s = (ld_threads s)[t := pc'] \<and>
      length (elems (ld_queue ?s)) + of_bool (is_adding pc') \<le> length (elems (ld_queue s)) + of_bool (is_adding (ld_threads s ! t)))"
    (is "_ \<or> ?changes")
  proof (cases op)
    case (L_Advance t spurious needed throws)
    let ?p = "ld_threads s ! t"
    have "?s = s \<or> (\<exists>pc'. ld_threads ?s = (ld_threads s)[t := pc'] \<and>
        length (elems (ld_queue ?s)) + of_bool (is_adding pc') \<le> length (elems (ld_queue s)) + of_bool (is_adding ?p))"
      if t: "t < length (ld_threads s)"
    proof (cases ?p)
      case (LD_Add e)
      then show ?thesis using L_Advance enqueue_appends [OF limited_okD(1) [OF ok], of e]
        by (auto simp: dispatch_add_def split: option.splits sum.splits intro!: exI [of _ LD_Check])
    next
      case (LD_Obtain c)
      obtain q where q: "dequeue (ld_queue s) = Some (Inr (case elems (ld_queue s) of [] \<Rightarrow> None | x # _ \<Rightarrow> Some x), q)"
          "elems q = tl (elems (ld_queue s))" using dequeue_takes [OF limited_okD(1) [OF ok]] by blast
      have "\<not> is_adding (task_obtained c e)" for e :: 'e by (cases c) simp_all
      then show ?thesis using LD_Obtain L_Advance q t
        by (intro disjI2 exI [of _ "case elems (ld_queue s) of [] \<Rightarrow> LD_Null c | x # _ \<Rightarrow> if spurious then LD_Null c else task_obtained c x"])
          (auto simp: obtain_task_def split: list.splits)
    qed (use L_Advance in \<open>auto simp: dispatch_check_def lock_then_def try_allocate_worker_def allocate_worker_def deallocate_or_retry_def
      hand_over_def run_task_to_end_def fairness_check_def intro: exI [of _ LD_Idle] exI [of _ LD_Lock] exI [of _ LD_Try]\<close>)
    moreover have "?s = s" if "\<not> t < length (ld_threads s)" using that L_Advance by simp
    ultimately show ?thesis by blast
  next
    case (L_Start_Worker t i)
    then show ?thesis by (auto simp: start_worker_def intro!: exI [of _ t])
  qed (use op in \<open>simp add: quiet_op_def\<close>)
  then show "room_left elems ?s" "length (ld_threads ?s) = length (ld_threads s)" using room room_step by auto
qed

lemma drains:
  assumes "limited_ok elems queue_ok p s" "1 \<le> p" "ld_threads s \<noteq> []" "room_left elems s"
  shows "\<exists>ops. (\<forall>op\<in>set ops. quiet_op op) \<and> at_rest (ld_run enqueue dequeue queue_size p ops s) \<and>
    given_up (ld_run enqueue dequeue queue_size p ops s) = given_up s"
  using assms
proof (induction "work_left elems s" arbitrary: s rule: less_induct)
  case less
  show ?case
  proof (cases "at_rest s")
    case True
    then show ?thesis by (intro exI [of _ "[]"]) (simp add: ld_run_def)
  next
    case False
    obtain op where op: "quiet_op op" "ld_step enqueue dequeue queue_size p op s \<noteq> s"
      using quiet_step_exists [OF less.prems(1) False less.prems(3,4)] by blast
    let ?s = "ld_step enqueue dequeue queue_size p op s"
    have l: "work_left elems ?s < work_left elems s" "given_up ?s = given_up s" using quiet_step_less [OF less.prems(1) op] by blast+
    have "ld_threads ?s \<noteq> []" using quiet_step_keeps(2) [OF less.prems(1) op(1) less.prems(4)] less.prems(3) by auto
    with less.hyps [OF l(1)] obtain ops where "\<forall>op\<in>set ops. quiet_op op" "at_rest (ld_run enqueue dequeue queue_size p ops ?s)"
        "given_up (ld_run enqueue dequeue queue_size p ops ?s) = given_up ?s"
      using ld_step_ok [OF less.prems(1,2), of op] quiet_step_keeps(1) [OF less.prems(1) op(1) less.prems(4)] less.prems(2) by blast
    then show ?thesis using op(1) l(2) by (intro exI [of _ "op # ops"]) (simp add: ld_run_def)
  qed
qed

end

subsection \<open>The dispatcher over the task queue\<close>

definition run_limited :: "int \<Rightarrow> 'e ld_op list \<Rightarrow> ('e task_queue, 'e) limited \<Rightarrow> ('e task_queue, 'e) limited" where
  "run_limited p ops s = ld_run add_task remove_first_task task_queue_size p ops s"

definition running_tasks :: "('q, 'e) limited \<Rightarrow> nat" where
  "running_tasks s = length (filter (\<lambda>pc. \<exists>e n. pc = LD_Run e n) (ld_threads s))"

lemma run_limited_ok:
  assumes "new_limited_dispatcher p n (new_task_queue False) = Inr s0"
  shows "limited_ok queue_elems open_queue p (run_limited p ops s0)" "1 \<le> p"
  using tq.ld_run_ok tq.new_limited_ok [OF assms new_task_queue_open] by (auto simp: run_limited_def)

lemma ld_step_threads: "length (ld_threads (ld_step add_task remove_first_task task_queue_size p op s)) = length (ld_threads s)"
proof (cases op)
  case (L_Advance t spurious needed throws)
  show ?thesis
  proof (cases "ld_threads s ! t")
    case (LD_Obtain c)
    then show ?thesis using L_Advance by (simp add: obtain_task_def split: option.split prod.split sum.split)
  qed (use L_Advance in \<open>auto simp: dispatch_add_def dispatch_check_def lock_then_def try_allocate_worker_def allocate_worker_def
      deallocate_or_retry_def hand_over_def run_task_to_end_def fairness_check_def split: option.split prod.split sum.split\<close>)
qed (simp_all add: start_worker_def)

lemma run_limited_threads: "length (ld_threads (run_limited p ops s)) = length (ld_threads s)"
  unfolding run_limited_def ld_run_def by (induction ops arbitrary: s) (simp_all add: ld_step_threads)

lemma run_limited_append: "run_limited p (xs @ ys) s = run_limited p ys (run_limited p xs s)"
  by (simp add: run_limited_def ld_run_def)

text \<open>C28: No task is stranded, and none runs twice. From every state that calls of \<open>dispatch\<close>, workers and the dispatcher below can
  reach in any interleaving, with any number of missed removals, and as long as handing over a worker never threw, the dispatcher comes
  to rest once no new call of \<open>dispatch\<close> begins; and whenever it is at rest the tasks that ran are exactly the tasks that
  were added, each once, no worker is counted, and the queue is empty. A thread must exist to run workers, and the
  queued tasks must fit the queue.\<close>

theorem limited_dispatcher_runs_every_task:
  assumes "new_limited_dispatcher p n (new_task_queue False) = Inr s0" and "0 < n"
    and s: "s = run_limited p ops s0" "given_up s = []" "room_left queue_elems s"
  shows "(\<exists>ops'. (\<forall>op\<in>set ops'. quiet_op op) \<and> at_rest (run_limited p ops' s) \<and>
      mset (finished (run_limited p ops' s)) = mset (added (run_limited p ops' s))) \<and>
    (at_rest s \<longrightarrow> mset (finished s) = mset (added s) \<and> queue_elems (ld_queue s) = [] \<and> running_workers s = 0)"
proof -
  have ok: "limited_ok queue_elems open_queue p (run_limited p xs s)" for xs
    using run_limited_ok(1) [OF assms(1), of "ops @ xs"] s(1) by (simp add: run_limited_append)
  have n: "ld_threads s \<noteq> []" using assms(1,2) run_limited_threads [of p ops s0] s(1)
    by (auto simp: new_limited_dispatcher_def split: sum.splits)
  obtain ops' where "\<forall>op\<in>set ops'. quiet_op op" "at_rest (run_limited p ops' s)" "given_up (run_limited p ops' s) = []"
    using tq.drains [OF _ run_limited_ok(2) [OF assms(1)] n s(3)] ok [of "[]"] s(2) by (auto simp: run_limited_def ld_run_def)
  moreover from this have "mset (finished (run_limited p ops' s)) = mset (added (run_limited p ops' s))"
    using tq.quiescent_finished(1) [OF ok [of ops']] by (simp add: at_rest_def)
  ultimately show ?thesis using tq.quiescent_finished [of p s] ok [of "[]"] s(2) by (auto simp: at_rest_def run_limited_def ld_run_def)
qed

theorem limited_dispatcher_runs_every_task_witness:
  "\<exists>s0 :: (nat task_queue, nat) limited. new_limited_dispatcher 2 1 (new_task_queue False) = Inr s0 \<and>
    (\<exists>ops'. (\<forall>op\<in>set ops'. quiet_op op) \<and> at_rest (run_limited 2 ops' (run_limited 2 [L_Dispatch 0 7] s0)) \<and>
      mset (finished (run_limited 2 ops' (run_limited 2 [L_Dispatch 0 7] s0))) =
      mset (added (run_limited 2 ops' (run_limited 2 [L_Dispatch 0 7] s0))))"
proof -
  obtain s0 :: "(nat task_queue, nat) limited" where s0: "new_limited_dispatcher 2 1 (new_task_queue False) = Inr s0"
      "given_up s0 = []" "ld_threads s0 = [LD_Idle]" "ld_queue s0 = new_task_queue False"
    by (simp add: new_limited_dispatcher_def check_parallelism_def)
  then have "given_up (run_limited 2 [L_Dispatch 0 7] s0) = []" "room_left queue_elems (run_limited 2 [L_Dispatch 0 7] s0)"
    by (simp_all add: run_limited_def ld_run_def room_left_def new_task_queue_open)
  then show ?thesis using limited_dispatcher_runs_every_task [where ops = "[L_Dispatch 0 7]", OF s0(1) zero_less_one refl] s0(1) by blast
qed

text \<open>C29: The limit is kept in every interleaving: never more than \<open>parallelism\<close> tasks run at once, and the counter of workers
  is always the number of places that are in use. With a parallelism of one the tasks run one after the other in the order in which they were
  added, as long as handing over a worker never threw.\<close>

theorem limited_parallelism_respected:
  assumes "new_limited_dispatcher p n (new_task_queue False) = Inr s0" and s: "s = run_limited p ops s0"
  shows "int (running_tasks s) \<le> p \<and> running_workers s = int (places s) \<and> running_workers s \<le> p \<and>
    (p = 1 \<and> given_up s = [] \<longrightarrow> (\<exists>waiting. added s = finished s @ waiting))"
  using tq.tasks_at_once tq.one_at_a_time run_limited_ok(1) [OF assms(1), of ops] limited_okD(2,3) s
  unfolding running_tasks_def by blast

theorem limited_parallelism_respected_witness:
  "\<exists>s0 s :: (nat task_queue, nat) limited. new_limited_dispatcher 1 2 (new_task_queue False) = Inr s0 \<and>
    s = run_limited 1 (map (\<lambda>t. L_Dispatch t t) [0, 1] @ replicate 6 (L_Advance 0 False False False)) s0 \<and>
    int (running_tasks s) \<le> 1 \<and> running_workers s = int (places s)"
proof -
  obtain s0 :: "(nat task_queue, nat) limited" where s0: "new_limited_dispatcher 1 2 (new_task_queue False) = Inr s0"
    by (simp add: new_limited_dispatcher_def check_parallelism_def)
  then show ?thesis using limited_parallelism_respected [OF s0 refl] by blast
qed

end
