(* ===== verification/State_Flow.thy ===== *)
theory State_Flow
  imports Prelude
begin

text \<open>
  \<open>flow/StateFlow.hpp\<close>: a flow that holds one value. Any number of threads set, compare-and-set or update the value while
  collectors read it and wait for the next one. A step is one access of the code: a section under the flow's mutex, a read of the
  value, a load or a swap of a slot. A slot holds null, one of the markers, or the continuation of the collector that waits; the collector \<open>k\<close>
  has the slot \<open>k\<close>, and its continuation is known by that number (a later one at the same address is not told apart, as in the code). The sequence number is an \<open>int\<close> that does not
  overflow. As \<open>allocate_slot\<close> and \<open>free_slot\<close> are defined nowhere in the repository, a collector arrives and leaves
  through the slot's own \<open>allocate_locked\<close> and \<open>free_locked\<close>.
\<close>

subsection \<open>State\<close>

datatype sf_slot = SF_Null | SF_None | SF_Pending | SF_Cont nat

text \<open>The calls of an updater: \<open>set_value\<close> (also by \<open>emit\<close> and \<open>try_emit\<close>), \<open>compare_and_set\<close>, and the functions \<open>update\<close>,
  \<open>update_and_get\<close> and \<open>get_and_update\<close>, which differ only in what they return.\<close>

datatype 'v sf_update = SF_Set 'v | SF_CAS 'v 'v | SF_Update "'v \<Rightarrow> 'v"

datatype 'v sf_updater =
    SU_Idle | SU_Call "'v sf_update" | SU_Try 'v "'v \<Rightarrow> 'v"
  | SU_Signal int nat | SU_Swap int nat sf_slot | SU_Recheck int

datatype sf_collector = SC_Idle | SC_Read | SC_Take | SC_Await | SC_Suspended | SC_Leaving

text \<open>The last two fields record what the code does not keep: the calls that began and those that took effect, each with the
  updater that makes it.\<close>

record 'v state_flow =
  sf_value :: 'v
  sf_sequence :: int
  sf_slots :: "sf_slot list"
  updaters :: "'v sf_updater list"
  collectors :: "sf_collector list"
  old_values :: "'v option list"
  bad_resumes :: nat
  begun :: "(nat \<times> 'v sf_update) list"
  effective :: "(nat \<times> 'v sf_update) list"

definition new_state_flow :: "'v \<Rightarrow> nat \<Rightarrow> nat \<Rightarrow> 'v state_flow" where
  "new_state_flow v n m = \<lparr>sf_value = v, sf_sequence = 0, sf_slots = replicate m SF_Null, updaters = replicate n SU_Idle,
     collectors = replicate m SC_Idle, old_values = replicate m None, bad_resumes = 0, begun = [], effective = []\<rparr>"

definition set_updater :: "nat \<Rightarrow> 'v sf_updater \<Rightarrow> 'v state_flow \<Rightarrow> 'v state_flow" where
  "set_updater u pc s = s\<lparr>updaters := (updaters s)[u := pc]\<rparr>"

definition set_collector :: "nat \<Rightarrow> sf_collector \<Rightarrow> 'v state_flow \<Rightarrow> 'v state_flow" where
  "set_collector k pc s = s\<lparr>collectors := (collectors s)[k := pc]\<rparr>"

definition put_slot :: "nat \<Rightarrow> sf_slot \<Rightarrow> 'v state_flow \<Rightarrow> 'v state_flow" where
  "put_slot k x s = s\<lparr>sf_slots := (sf_slots s)[k := x]\<rparr>"

subsection \<open>Updating\<close>

text \<open>The section of \<open>update_state\<close> under the mutex: the comparison fails; an unconditional update finds its value; another updater is at work
  and will see the new sequence number; or this one has to notify.\<close>

datatype sf_outcome = Refused | Unchanged | Handed_On | Notify int

definition update_state :: "'v option \<Rightarrow> 'v \<Rightarrow> 'v state_flow \<Rightarrow> sf_outcome \<times> 'v state_flow" where
  "update_state expected new s =
     (if expected \<noteq> None \<and> expected \<noteq> Some (sf_value s) then (Refused, s)
      else if expected = None \<and> sf_value s = new then (Unchanged, s)
      else let s1 = s\<lparr>sf_value := new\<rparr>
        in if even (sf_sequence s) then (Notify (sf_sequence s + 1), s1\<lparr>sf_sequence := sf_sequence s + 1\<rparr>)
           else (Handed_On, s1\<lparr>sf_sequence := sf_sequence s + 2\<rparr>))"

text \<open>The next slot to signal, or the recheck after the last one.\<close>

definition signal_from :: "int \<Rightarrow> nat \<Rightarrow> 'v state_flow \<Rightarrow> 'v sf_updater" where
  "signal_from q i s = (if i < length (sf_slots s) then SU_Signal q i else SU_Recheck q)"

definition after_update :: "nat \<Rightarrow> 'v sf_update \<Rightarrow> sf_outcome \<times> 'v state_flow \<Rightarrow> 'v state_flow" where
  "after_update u call r = (case r of (outcome, s) \<Rightarrow>
     set_updater u (case outcome of Notify q \<Rightarrow> signal_from q 0 s | _ \<Rightarrow> SU_Idle) (s\<lparr>effective := effective s @ [(u, call)]\<rparr>))"

fun call_update :: "nat \<Rightarrow> 'v sf_update \<Rightarrow> 'v state_flow \<Rightarrow> 'v state_flow" where
  "call_update u (SF_Set v) s = after_update u (SF_Set v) (update_state None v s)"
| "call_update u (SF_CAS e v) s = after_update u (SF_CAS e v) (update_state (Some e) v s)"
| "call_update u (SF_Update f) s = set_updater u (SU_Try (sf_value s) f) s"

definition try_update :: "nat \<Rightarrow> 'v \<Rightarrow> ('v \<Rightarrow> 'v) \<Rightarrow> 'v state_flow \<Rightarrow> 'v state_flow" where
  "try_update u prev f s = (case update_state (Some prev) (f prev) s of
       (Refused, s') \<Rightarrow> set_updater u (SU_Call (SF_Update f)) s'
     | r \<Rightarrow> after_update u (SF_Update f) r)"

text \<open>\<open>cont->resume\<close> of a collector that waits, or that was cancelled and has not left yet; of any other it would throw.\<close>

definition resume_collector :: "nat \<Rightarrow> 'v state_flow \<Rightarrow> 'v state_flow" where
  "resume_collector k s = (case collectors s ! k of
       SC_Suspended \<Rightarrow> set_collector k SC_Read s
     | SC_Leaving \<Rightarrow> s
     | _ \<Rightarrow> s\<lparr>bad_resumes := bad_resumes s + 1\<rparr>)"

text \<open>\<open>make_pending\<close>: the load, and the swap, which starts over when the slot has changed.\<close>

definition make_pending_load :: "nat \<Rightarrow> int \<Rightarrow> nat \<Rightarrow> 'v state_flow \<Rightarrow> 'v state_flow" where
  "make_pending_load u q i s = (case sf_slots s ! i of
       SF_Null \<Rightarrow> set_updater u (signal_from q (i + 1) s) s
     | SF_Pending \<Rightarrow> set_updater u (signal_from q (i + 1) s) s
     | x \<Rightarrow> set_updater u (SU_Swap q i x) s)"

definition make_pending_swap :: "nat \<Rightarrow> int \<Rightarrow> nat \<Rightarrow> sf_slot \<Rightarrow> 'v state_flow \<Rightarrow> 'v state_flow" where
  "make_pending_swap u q i x s =
     (if sf_slots s ! i \<noteq> x then set_updater u (SU_Signal q i) s
      else set_updater u (signal_from q (i + 1) s) (case x of
          SF_Cont k \<Rightarrow> resume_collector k (put_slot i SF_None s)
        | _ \<Rightarrow> put_slot i SF_Pending s))"

definition recheck :: "nat \<Rightarrow> int \<Rightarrow> 'v state_flow \<Rightarrow> 'v state_flow" where
  "recheck u q s =
     (if sf_sequence s = q then set_updater u SU_Idle (s\<lparr>sf_sequence := q + 1\<rparr>)
      else set_updater u (signal_from (sf_sequence s) 0 s) s)"

fun advance_updater :: "nat \<Rightarrow> 'v sf_updater \<Rightarrow> 'v state_flow \<Rightarrow> 'v state_flow" where
  "advance_updater u SU_Idle s = s"
| "advance_updater u (SU_Call call) s = call_update u call s"
| "advance_updater u (SU_Try prev f) s = try_update u prev f s"
| "advance_updater u (SU_Signal q i) s = make_pending_load u q i s"
| "advance_updater u (SU_Swap q i x) s = make_pending_swap u q i x s"
| "advance_updater u (SU_Recheck q) s = recheck u q s"

subsection \<open>Collecting\<close>

definition slot_allocate_locked :: "nat \<Rightarrow> 'v state_flow \<Rightarrow> bool \<times> 'v state_flow" where
  "slot_allocate_locked k s = (if sf_slots s ! k \<noteq> SF_Null then (False, s) else (True, put_slot k SF_None s))"

definition slot_free_locked :: "nat \<Rightarrow> 'v state_flow \<Rightarrow> 'v state_flow" where
  "slot_free_locked k s = put_slot k SF_Null s"

definition take_pending :: "nat \<Rightarrow> 'v state_flow \<Rightarrow> bool \<times> 'v state_flow" where
  "take_pending k s = (if sf_slots s ! k = SF_Pending then (True, put_slot k SF_None s) else (False, s))"

text \<open>\<open>await_pending\<close>: the collector waits, or its continuation is resumed at once.\<close>

definition await_pending :: "nat \<Rightarrow> 'v state_flow \<Rightarrow> 'v state_flow" where
  "await_pending k s = (if sf_slots s ! k = SF_None then set_collector k SC_Suspended (put_slot k (SF_Cont k) s)
     else set_collector k SC_Read s)"

text \<open>The loop of \<open>collect\<close>. Where the value is new the collector would emit it.\<close>

definition read_value :: "nat \<Rightarrow> 'v state_flow \<Rightarrow> 'v state_flow" where
  "read_value k s = set_collector k SC_Take (s\<lparr>old_values := (if old_values s ! k \<noteq> Some (sf_value s) then (old_values s)[k := Some (sf_value s)] else old_values s)\<rparr>)"

fun advance_collector :: "nat \<Rightarrow> sf_collector \<Rightarrow> 'v state_flow \<Rightarrow> 'v state_flow" where
  "advance_collector k SC_Idle s = (case slot_allocate_locked k s of (ok, s') \<Rightarrow>
     if ok then set_collector k SC_Read (s'\<lparr>old_values := (old_values s')[k := None]\<rparr>) else s')"
| "advance_collector k SC_Read s = read_value k s"
| "advance_collector k SC_Take s = (case take_pending k s of (ok, s') \<Rightarrow> set_collector k (if ok then SC_Read else SC_Await) s')"
| "advance_collector k SC_Await s = await_pending k s"
| "advance_collector k SC_Suspended s = s"
| "advance_collector k SC_Leaving s = set_collector k SC_Idle (slot_free_locked k s)"

text \<open>Cancellation, found by the check at the start of the loop or delivered to the waiting continuation.\<close>

definition cancel_collector :: "nat \<Rightarrow> 'v state_flow \<Rightarrow> 'v state_flow" where
  "cancel_collector k s = (if collectors s ! k = SC_Read \<or> collectors s ! k = SC_Suspended then set_collector k SC_Leaving s else s)"

subsection \<open>Steps\<close>

datatype 'v sf_op = SF_Begin nat "'v sf_update" | SF_Advance nat | SF_Collect nat | SF_Cancel nat

fun sf_step :: "'v sf_op \<Rightarrow> 'v state_flow \<Rightarrow> 'v state_flow" where
  "sf_step (SF_Begin u call) s = (case updaters s ! u of
     SU_Idle \<Rightarrow> if u < length (updaters s) then set_updater u (SU_Call call) (s\<lparr>begun := begun s @ [(u, call)]\<rparr>) else s
   | _ \<Rightarrow> s)"
| "sf_step (SF_Advance u) s = (if u < length (updaters s) then advance_updater u (updaters s ! u) s else s)"
| "sf_step (SF_Collect k) s = (if k < length (collectors s) then advance_collector k (collectors s ! k) s else s)"
| "sf_step (SF_Cancel k) s = (if k < length (collectors s) then cancel_collector k s else s)"

definition sf_run :: "'v sf_op list \<Rightarrow> 'v state_flow \<Rightarrow> 'v state_flow" where
  "sf_run ops s = fold sf_step ops s"

subsection \<open>Invariants\<close>

definition slots_kept :: "'v state_flow \<Rightarrow> bool" where
  "slots_kept s \<longleftrightarrow> length (collectors s) = length (sf_slots s) \<and> length (old_values s) = length (sf_slots s) \<and>
     (\<forall>k<length (sf_slots s). (sf_slots s ! k = SF_Null \<longleftrightarrow> collectors s ! k = SC_Idle) \<and>
        (\<forall>c. sf_slots s ! k = SF_Cont c \<longrightarrow> c = k \<and> collectors s ! k \<in> {SC_Suspended, SC_Leaving}) \<and>
        (collectors s ! k = SC_Suspended \<longrightarrow> sf_slots s ! k = SF_Cont k)) \<and> bad_resumes s = 0"

fun notifies :: "'v sf_updater \<Rightarrow> int option" where
  "notifies (SU_Signal q i) = Some q" | "notifies (SU_Swap q i x) = Some q" | "notifies (SU_Recheck q) = Some q" | "notifies _ = None"

fun signal_ok :: "nat \<Rightarrow> 'v sf_updater \<Rightarrow> bool" where
  "signal_ok m (SU_Signal q i) \<longleftrightarrow> i < m" | "signal_ok m (SU_Swap q i x) \<longleftrightarrow> i < m \<and> (x = SF_None \<or> x = SF_Cont i)"
| "signal_ok m _ \<longleftrightarrow> True"

definition notifier_kept :: "'v state_flow \<Rightarrow> bool" where
  "notifier_kept s \<longleftrightarrow> (\<forall>u<length (updaters s). signal_ok (length (sf_slots s)) (updaters s ! u) \<and>
       (\<forall>q. notifies (updaters s ! u) = Some q \<longrightarrow> odd q \<and> odd (sf_sequence s) \<and> q \<le> sf_sequence s \<and>
         (\<forall>w<length (updaters s). notifies (updaters s ! w) \<noteq> None \<longrightarrow> w = u))) \<and>
     (odd (sf_sequence s) \<longrightarrow> (\<exists>u<length (updaters s). notifies (updaters s ! u) \<noteq> None))"

text \<open>The notifier has not signalled the slot for the last update yet.\<close>

fun will_signal :: "int \<Rightarrow> nat \<Rightarrow> 'v sf_updater \<Rightarrow> bool" where
  "will_signal q k (SU_Signal p i) \<longleftrightarrow> p \<noteq> q \<or> i \<le> k" | "will_signal q k (SU_Swap p i x) \<longleftrightarrow> p \<noteq> q \<or> i \<le> k"
| "will_signal q k (SU_Recheck p) \<longleftrightarrow> p \<noteq> q" | "will_signal q k _ \<longleftrightarrow> False"

definition none_missed :: "'v state_flow \<Rightarrow> bool" where
  "none_missed s \<longleftrightarrow> (\<forall>k<length (sf_slots s). collectors s ! k \<in> {SC_Take, SC_Await, SC_Suspended} \<longrightarrow>
     old_values s ! k = Some (sf_value s) \<or> sf_slots s ! k = SF_Pending \<or>
     (\<exists>u<length (updaters s). will_signal (sf_sequence s) k (updaters s ! u)))"

fun sf_effect :: "'v sf_update \<Rightarrow> 'v \<Rightarrow> 'v" where
  "sf_effect (SF_Set v) x = v"
| "sf_effect (SF_CAS e v) x = (if x = e then v else x)"
| "sf_effect (SF_Update f) x = f x"

fun call_pending :: "'v sf_updater \<Rightarrow> 'v sf_update list" where
  "call_pending (SU_Call call) = [call]" | "call_pending (SU_Try prev f) = [SF_Update f]" | "call_pending _ = []"

definition calls_of :: "nat \<Rightarrow> (nat \<times> 'v sf_update) list \<Rightarrow> 'v sf_update list" where
  "calls_of u cs = map snd (filter (\<lambda>c. fst c = u) cs)"

definition calls_kept :: "'v \<Rightarrow> 'v state_flow \<Rightarrow> bool" where
  "calls_kept v s \<longleftrightarrow> sf_value s = fold sf_effect (map snd (effective s)) v \<and>
     (\<forall>u<length (updaters s). calls_of u (begun s) = calls_of u (effective s) @ call_pending (updaters s ! u))"

definition state_flow_ok :: "'v \<Rightarrow> 'v state_flow \<Rightarrow> bool" where
  "state_flow_ok v s \<longleftrightarrow> slots_kept s \<and> notifier_kept s \<and> none_missed s \<and> calls_kept v s"

lemma sf_fields [simp]:
  "sf_value (set_updater u pc s) = sf_value s" "sf_sequence (set_updater u pc s) = sf_sequence s"
  "sf_slots (set_updater u pc s) = sf_slots s" "updaters (set_updater u pc s) = (updaters s)[u := pc]"
  "collectors (set_updater u pc s) = collectors s" "old_values (set_updater u pc s) = old_values s"
  "bad_resumes (set_updater u pc s) = bad_resumes s" "begun (set_updater u pc s) = begun s" "effective (set_updater u pc s) = effective s"
  "sf_value (set_collector k c s) = sf_value s" "sf_sequence (set_collector k c s) = sf_sequence s"
  "sf_slots (set_collector k c s) = sf_slots s" "updaters (set_collector k c s) = updaters s"
  "collectors (set_collector k c s) = (collectors s)[k := c]" "old_values (set_collector k c s) = old_values s"
  "bad_resumes (set_collector k c s) = bad_resumes s" "begun (set_collector k c s) = begun s" "effective (set_collector k c s) = effective s"
  "sf_value (put_slot k x s) = sf_value s" "sf_sequence (put_slot k x s) = sf_sequence s"
  "sf_slots (put_slot k x s) = (sf_slots s)[k := x]" "updaters (put_slot k x s) = updaters s"
  "collectors (put_slot k x s) = collectors s" "old_values (put_slot k x s) = old_values s"
  "bad_resumes (put_slot k x s) = bad_resumes s" "begun (put_slot k x s) = begun s" "effective (put_slot k x s) = effective s"
  by (simp_all add: set_updater_def set_collector_def put_slot_def)

lemma new_state_flow_ok: "state_flow_ok v (new_state_flow v n m)"
  by (simp add: state_flow_ok_def slots_kept_def notifier_kept_def none_missed_def calls_kept_def new_state_flow_def calls_of_def)

text \<open>A step of a collector changes its own slot and program counter only.\<close>

lemma collector_step:
  assumes ok: "state_flow_ok v s" and k: "k < length (sf_slots s)"
    and s': "sf_slots s' = (sf_slots s)[k := x]" "collectors s' = (collectors s)[k := c]" "old_values s' = (old_values s)[k := ov]"
      "updaters s' = updaters s" "sf_value s' = sf_value s" "sf_sequence s' = sf_sequence s" "bad_resumes s' = bad_resumes s"
      "begun s' = begun s" "effective s' = effective s"
    and slot: "x = SF_Null \<longleftrightarrow> c = SC_Idle" "\<And>d. x = SF_Cont d \<Longrightarrow> d = k \<and> c \<in> {SC_Suspended, SC_Leaving}"
      "c = SC_Suspended \<Longrightarrow> x = SF_Cont k"
    and seen: "c \<in> {SC_Take, SC_Await, SC_Suspended} \<Longrightarrow> ov = Some (sf_value s) \<or> x = SF_Pending \<or>
      (\<exists>u<length (updaters s). will_signal (sf_sequence s) k (updaters s ! u))"
  shows "state_flow_ok v s'"
proof -
  have "slots_kept s'"
    using ok k s' slot by (auto simp: state_flow_ok_def slots_kept_def nth_list_update)
  moreover have "notifier_kept s'" using ok s' by (simp add: state_flow_ok_def notifier_kept_def)
  moreover have "none_missed s'"
    using ok k s' seen by (auto simp: state_flow_ok_def slots_kept_def none_missed_def nth_list_update)
  moreover have "calls_kept v s'" using ok s' by (simp add: state_flow_ok_def calls_kept_def)
  ultimately show ?thesis by (simp add: state_flow_ok_def)
qed

lemma advance_collector_ok:
  assumes ok: "state_flow_ok v s" and k: "k < length (collectors s)"
  shows "state_flow_ok v (advance_collector k (collectors s ! k) s)"
proof -
  have len: "k < length (sf_slots s)" "length (old_values s) = length (sf_slots s)"
    and sl: "sf_slots s ! k = SF_Null \<longleftrightarrow> collectors s ! k = SC_Idle" "\<And>c. sf_slots s ! k = SF_Cont c \<Longrightarrow> c = k \<and> collectors s ! k \<in> {SC_Suspended, SC_Leaving}"
    using ok k by (auto simp: state_flow_ok_def slots_kept_def)
  have seen: "collectors s ! k \<in> {SC_Take, SC_Await, SC_Suspended} \<Longrightarrow> old_values s ! k = Some (sf_value s) \<or> sf_slots s ! k = SF_Pending \<or>
      (\<exists>u<length (updaters s). will_signal (sf_sequence s) k (updaters s ! u))"
    using ok len(1) unfolding state_flow_ok_def none_missed_def by blast
  note step = collector_step [OF ok len(1)]
  show ?thesis
  proof (cases "collectors s ! k")
    case SC_Idle
    then show ?thesis using sl len by (auto simp: slot_allocate_locked_def intro!: step [where x = SF_None and c = SC_Read and ov = None])
  next
    case SC_Read
    have "old_values s ! k = Some (sf_value s) \<Longrightarrow> old_values s = (old_values s)[k := Some (sf_value s)]"
      by (metis list_update_id)
    then show ?thesis unfolding SC_Read advance_collector.simps read_value_def
      by (intro step [where x = "sf_slots s ! k" and c = SC_Take and ov = "Some (sf_value s)"]) (use SC_Read sl in auto)
  next
    case SC_Take
    show ?thesis
    proof (cases "sf_slots s ! k = SF_Pending")
      case True
      show ?thesis unfolding SC_Take advance_collector.simps take_pending_def
        by (simp add: True) (rule step [where x = SF_None and c = SC_Read and ov = "old_values s ! k"]; simp)
    next
      case False
      show ?thesis unfolding SC_Take advance_collector.simps take_pending_def
        by (simp add: False) (rule step [where x = "sf_slots s ! k" and c = SC_Await and ov = "old_values s ! k"];
          use SC_Take sl seen False in auto)
    qed
  next
    case SC_Await
    show ?thesis
    proof (cases "sf_slots s ! k = SF_None")
      case True
      show ?thesis unfolding SC_Await advance_collector.simps await_pending_def
        by (simp add: True) (rule step [where x = "SF_Cont k" and c = SC_Suspended and ov = "old_values s ! k"];
          use SC_Await seen True in auto)
    next
      case False
      show ?thesis unfolding SC_Await advance_collector.simps await_pending_def
        by (simp add: False) (rule step [where x = "sf_slots s ! k" and c = SC_Read and ov = "old_values s ! k"];
          use SC_Await sl in auto)
    qed
  next
    case SC_Leaving
    show ?thesis unfolding SC_Leaving advance_collector.simps slot_free_locked_def
      by (rule step [where x = SF_Null and c = SC_Idle and ov = "old_values s ! k"]; simp)
  qed (use ok in simp)
qed

lemma cancel_collector_ok:
  assumes ok: "state_flow_ok v s" and k: "k < length (collectors s)"
  shows "state_flow_ok v (cancel_collector k s)"
proof (cases "collectors s ! k = SC_Read \<or> collectors s ! k = SC_Suspended")
  case True
  have l: "k < length (sf_slots s)" "sf_slots s ! k \<noteq> SF_Null" "\<And>c. sf_slots s ! k = SF_Cont c \<Longrightarrow> c = k"
    using ok k True by (auto simp: state_flow_ok_def slots_kept_def)
  show ?thesis unfolding cancel_collector_def
    by (simp add: True, rule collector_step [where x = "sf_slots s ! k" and c = SC_Leaving and ov = "old_values s ! k", OF ok l(1)])
      (use l in auto)
qed (use ok in \<open>simp add: cancel_collector_def\<close>)

text \<open>A step of an updater, part by part.\<close>

lemma notifier_step:
  assumes ok: "notifier_kept s" and u: "u < length (updaters s)" and s': "updaters s' = (updaters s)[u := pc']"
      "length (sf_slots s') = length (sf_slots s)"
    and sig: "signal_ok (length (sf_slots s)) pc'" and seq: "sf_sequence s \<le> sf_sequence s'"
    and a: "\<And>q. notifies pc' = Some q \<Longrightarrow> odd q \<and> q \<le> sf_sequence s' \<and> odd (sf_sequence s') \<and>
      (notifies (updaters s ! u) \<noteq> None \<or> even (sf_sequence s))"
    and b: "odd (sf_sequence s') \<Longrightarrow> notifies pc' \<noteq> None \<or> odd (sf_sequence s) \<and> notifies (updaters s ! u) = None"
    and c: "odd (sf_sequence s) \<Longrightarrow> notifies (updaters s ! u) = None \<Longrightarrow> odd (sf_sequence s')"
  shows "notifier_kept s'"
proof -
  note o = ok [unfolded notifier_kept_def]
  have unique: "w = w'" "odd (sf_sequence s)" if "w < length (updaters s)" "w' < length (updaters s)"
      "notifies (updaters s ! w) \<noteq> None" "notifies (updaters s ! w') \<noteq> None" for w w'
    using o that by blast+
  have "odd q \<and> odd (sf_sequence s') \<and> q \<le> sf_sequence s' \<and>
      (\<forall>w'<length (updaters s'). notifies (updaters s' ! w') \<noteq> None \<longrightarrow> w' = w)"
    if w: "w < length (updaters s')" "notifies (updaters s' ! w) = Some q" for w q
  proof (cases "w = u")
    case True
    then have q: "notifies pc' = Some q" using w u s'(1) by simp
    have "w' = u" if "w' < length (updaters s)" "notifies (updaters s ! w') \<noteq> None" for w'
      using a [OF q] unique(1) [OF that(1) u that(2)] unique(2) [OF that(1,1) that(2,2)] by blast
    then have "w' = u" if "w' < length (updaters s')" "notifies (updaters s' ! w') \<noteq> None" for w'
      using that s'(1) by (cases "w' = u") auto
    then show ?thesis using a [OF q] True by blast
  next
    case False
    then have q: "w < length (updaters s)" "notifies (updaters s ! w) = Some q" using w s'(1) by simp_all
    have n: "notifies (updaters s ! u) = None" using unique(1) [OF q(1) u] q(2) False by (metis option.distinct(1))
    have o1: "odd (sf_sequence s)" "odd q" "q \<le> sf_sequence s" using o q by blast+
    have "notifies pc' = None" using a n o1(1) by fastforce
    moreover have "w' = w" if "w' < length (updaters s)" "notifies (updaters s ! w') \<noteq> None" for w'
      using unique(1) [OF that(1) q(1) that(2)] q(2) by simp
    ultimately have "w' = w" if "w' < length (updaters s')" "notifies (updaters s' ! w') \<noteq> None" for w'
      using that s'(1) u by (cases "w' = u") auto
    then show ?thesis using c [OF o1(1) n] o1 seq by force
  qed
  moreover have "signal_ok (length (sf_slots s')) (updaters s' ! w)" if "w < length (updaters s')" for w
    using o that sig s' by (cases "w = u") auto
  moreover have "\<exists>w<length (updaters s'). notifies (updaters s' ! w) \<noteq> None" if odd: "odd (sf_sequence s')"
  proof (cases "notifies pc' = None")
    case True
    then have "odd (sf_sequence s)" "notifies (updaters s ! u) = None" using b [OF odd] by auto
    then obtain w where "w < length (updaters s)" "notifies (updaters s ! w) \<noteq> None" "w \<noteq> u" using o by metis
    then show ?thesis using s'(1) by (intro exI [of _ w]) simp
  qed (use u s'(1) in auto)
  ultimately show ?thesis unfolding notifier_kept_def by blast
qed

lemma missed_same:
  assumes ok: "none_missed s" and u: "u < length (updaters s)" and s': "updaters s' = (updaters s)[u := pc']"
      "length (sf_slots s') = length (sf_slots s)" "sf_sequence s' = sf_sequence s" "sf_value s' = sf_value s" "old_values s' = old_values s"
    and w: "\<And>k. k < length (sf_slots s) \<Longrightarrow> collectors s' ! k \<in> {SC_Take, SC_Await, SC_Suspended} \<Longrightarrow>
      collectors s ! k \<in> {SC_Take, SC_Await, SC_Suspended} \<and> (sf_slots s ! k = SF_Pending \<longrightarrow> sf_slots s' ! k = SF_Pending) \<and>
      (will_signal (sf_sequence s) k (updaters s ! u) \<longrightarrow> will_signal (sf_sequence s) k pc' \<or> sf_slots s' ! k = SF_Pending)"
  shows "none_missed s'"
  unfolding none_missed_def
proof (intro allI impI)
  fix k
  assume k: "k < length (sf_slots s')" "collectors s' ! k \<in> {SC_Take, SC_Await, SC_Suspended}"
  then have w: "collectors s ! k \<in> {SC_Take, SC_Await, SC_Suspended}" "sf_slots s ! k = SF_Pending \<Longrightarrow> sf_slots s' ! k = SF_Pending"
    "will_signal (sf_sequence s) k (updaters s ! u) \<Longrightarrow> will_signal (sf_sequence s) k pc' \<or> sf_slots s' ! k = SF_Pending"
    using w [of k] s'(2) by auto
  then consider "old_values s ! k = Some (sf_value s)" | "sf_slots s ! k = SF_Pending"
    | w where "w < length (updaters s)" "will_signal (sf_sequence s) k (updaters s ! w)"
    using ok k(1) s'(2) unfolding none_missed_def by metis
  then show "old_values s' ! k = Some (sf_value s') \<or> sf_slots s' ! k = SF_Pending \<or>
      (\<exists>u<length (updaters s'). will_signal (sf_sequence s') k (updaters s' ! u))"
  proof cases
    case (3 x)
    show ?thesis
    proof (cases "x = u")
      case True
      then show ?thesis using w(3) 3 u s'(1,3) by auto
    next
      case False
      then show ?thesis using 3 s'(1,3) by (metis length_list_update nth_list_update_neq)
    qed
  qed (use s' w in simp_all)
qed

lemma calls_step:
  assumes ok: "calls_kept v s" and u: "u < length (updaters s)" "updaters s' = (updaters s)[u := pc']" "begun s' = begun s"
    and e: "effective s' = effective s \<and> sf_value s' = sf_value s \<and> call_pending pc' = call_pending (updaters s ! u) \<or>
      (\<exists>call. effective s' = effective s @ [(u, call)] \<and> call_pending (updaters s ! u) = [call] \<and> call_pending pc' = [] \<and>
        sf_value s' = sf_effect call (sf_value s))"
  shows "calls_kept v s'"
proof -
  have "calls_of w (begun s') = calls_of w (effective s') @ call_pending (updaters s' ! w)" if "w < length (updaters s')" for w
    using ok u e that by (cases "w = u") (auto simp: calls_kept_def calls_of_def)
  moreover have "sf_value s' = fold sf_effect (map snd (effective s')) v" using ok e by (auto simp: calls_kept_def)
  ultimately show ?thesis by (simp add: calls_kept_def)
qed

lemma state_flow_okD:
  assumes "state_flow_ok v s" "u < length (updaters s)"
  shows "slots_kept s" "notifier_kept s" "none_missed s" "calls_kept v s" "signal_ok (length (sf_slots s)) (updaters s ! u)"
    "notifies (updaters s ! u) = Some q \<Longrightarrow> odd q \<and> odd (sf_sequence s) \<and> q \<le> sf_sequence s"
  using assms by (auto simp: state_flow_ok_def notifier_kept_def)

text \<open>Accesses of the notifier that change neither slots nor the sequence number.\<close>

lemma signal_from_facts [simp]:
  "signal_ok (length (sf_slots s)) (signal_from q i s)" "notifies (signal_from q i s) = Some q" "call_pending (signal_from q i s) = []"
  "k < length (sf_slots s) \<Longrightarrow> will_signal p k (signal_from q i s) \<longleftrightarrow> q \<noteq> p \<or> i \<le> k"
  by (auto simp: signal_from_def)

lemma notifier_moves:
  assumes ok: "state_flow_ok v s" and u: "u < length (updaters s)" and q: "notifies (updaters s ! u) = Some q" "call_pending (updaters s ! u) = []"
    and pc': "notifies pc' = Some q" "call_pending pc' = []" "signal_ok (length (sf_slots s)) pc'"
    and s': "updaters s' = (updaters s)[u := pc']" "length (sf_slots s') = length (sf_slots s)" "sf_sequence s' = sf_sequence s"
      "sf_value s' = sf_value s" "old_values s' = old_values s" "begun s' = begun s" "effective s' = effective s" "slots_kept s'"
    and w: "\<And>k. k < length (sf_slots s) \<Longrightarrow> collectors s' ! k \<in> {SC_Take, SC_Await, SC_Suspended} \<Longrightarrow>
      collectors s ! k \<in> {SC_Take, SC_Await, SC_Suspended} \<and> (sf_slots s ! k = SF_Pending \<longrightarrow> sf_slots s' ! k = SF_Pending) \<and>
      (will_signal (sf_sequence s) k (updaters s ! u) \<longrightarrow> will_signal (sf_sequence s) k pc' \<or> sf_slots s' ! k = SF_Pending)"
  shows "state_flow_ok v s'"
proof -
  note d = state_flow_okD [OF ok u]
  have "notifier_kept s'" by (rule notifier_step [OF d(2) u s'(1,2) pc'(3)]) (use d(6) [OF q(1)] q pc' s' in auto)
  moreover have "none_missed s'" by (rule missed_same [OF d(3) u s'(1-5) w])
  moreover have "calls_kept v s'" by (rule calls_step [OF d(4) u s'(1)]) (use q pc' s' in auto)
  ultimately show ?thesis using s'(8) by (simp add: state_flow_ok_def)
qed

lemma make_pending_load_ok:
  assumes ok: "state_flow_ok v s" and u: "u < length (updaters s)" "updaters s ! u = SU_Signal q i"
  shows "state_flow_ok v (make_pending_load u q i s)"
proof -
  note d = state_flow_okD [OF ok u(1)]
  have i: "i < length (sf_slots s)" using d(5) u(2) by simp
  have nxt: "state_flow_ok v (set_updater u (signal_from q (i + 1) s) s)"
    if "sf_slots s ! i = SF_Null \<or> sf_slots s ! i = SF_Pending"
  proof (rule notifier_moves [where q = q and pc' = "signal_from q (i + 1) s", OF ok u(1)])
    fix k
    assume "k < length (sf_slots s)" "collectors (set_updater u (signal_from q (i + 1) s) s) ! k \<in> {SC_Take, SC_Await, SC_Suspended}"
    moreover have "sf_slots s ! i = SF_Null \<Longrightarrow> collectors s ! i = SC_Idle" using d(1) i by (simp add: slots_kept_def)
    ultimately show "collectors s ! k \<in> {SC_Take, SC_Await, SC_Suspended} \<and>
        (sf_slots s ! k = SF_Pending \<longrightarrow> sf_slots (set_updater u (signal_from q (i + 1) s) s) ! k = SF_Pending) \<and>
        (will_signal (sf_sequence s) k (updaters s ! u) \<longrightarrow> will_signal (sf_sequence s) k (signal_from q (i + 1) s) \<or>
          sf_slots (set_updater u (signal_from q (i + 1) s) s) ! k = SF_Pending)"
      using that u(2) by (cases "k = i") auto
  qed (use u d(1) in \<open>auto simp: slots_kept_def\<close>)
  have swap: "state_flow_ok v (set_updater u (SU_Swap q i (sf_slots s ! i)) s)" if "\<not> (sf_slots s ! i = SF_Null \<or> sf_slots s ! i = SF_Pending)"
  proof (rule notifier_moves [where q = q and pc' = "SU_Swap q i (sf_slots s ! i)", OF ok u(1)])
    have "sf_slots s ! i = SF_None \<or> sf_slots s ! i = SF_Cont i"
      using that d(1) i by (cases "sf_slots s ! i") (auto simp: slots_kept_def)
    then show "signal_ok (length (sf_slots s)) (SU_Swap q i (sf_slots s ! i))" using i by simp
  qed (use u d(1) in \<open>auto simp: slots_kept_def\<close>)
  show ?thesis using nxt swap by (auto simp: make_pending_load_def split: sf_slot.split)
qed

lemma make_pending_swap_ok:
  assumes ok: "state_flow_ok v s" and u: "u < length (updaters s)" "updaters s ! u = SU_Swap q i x"
  shows "state_flow_ok v (make_pending_swap u q i x s)"
proof -
  note d = state_flow_okD [OF ok u(1)]
  have i: "i < length (sf_slots s)" "x = SF_None \<or> x = SF_Cont i" using d(5) u(2) by simp_all
  show ?thesis
  proof (cases "sf_slots s ! i = x")
    case False
    then show ?thesis unfolding make_pending_swap_def
      by (simp, intro notifier_moves [where q = q and pc' = "SU_Signal q i", OF ok u(1)]) (use u i d(1) in \<open>auto simp: slots_kept_def\<close>)
  next
    case True
    show ?thesis
    proof (cases "x = SF_None")
      case None: True
      have "state_flow_ok v (set_updater u (signal_from q (i + 1) s) (put_slot i SF_Pending s))"
        by (rule notifier_moves [where q = q and pc' = "signal_from q (i + 1) s", OF ok u(1)])
          (use u i d(1) True None in \<open>auto simp: slots_kept_def nth_list_update\<close>)
      then show ?thesis using True None by (simp add: make_pending_swap_def)
    next
      case False
      then have x: "sf_slots s ! i = SF_Cont i" "x = SF_Cont i" using True i(2) by auto
      then have c: "collectors s ! i = SC_Suspended \<or> collectors s ! i = SC_Leaving" "i < length (collectors s)"
        using d(1) i(1) by (auto simp: slots_kept_def)
      have "state_flow_ok v (set_updater u (signal_from q (i + 1) s) s')"
        if s': "sf_slots s' = (sf_slots s)[i := SF_None]" "collectors s' = (collectors s)[i := c']" "c' = SC_Read \<or> c' = SC_Leaving"
          "updaters s' = updaters s" "sf_sequence s' = sf_sequence s" "sf_value s' = sf_value s" "old_values s' = old_values s"
          "begun s' = begun s" "effective s' = effective s" "bad_resumes s' = bad_resumes s" for s' c'
      proof (rule notifier_moves [where q = q and pc' = "signal_from q (i + 1) s", OF ok u(1)])
        have "slots_kept s'" unfolding slots_kept_def
          using d(1) [unfolded slots_kept_def] i x c s'(1-3,7,10) by (auto simp: nth_list_update)
        then show "slots_kept (set_updater u (signal_from q (i + 1) s) s')" by (simp add: slots_kept_def)
        fix k
        assume k: "k < length (sf_slots s)" "collectors (set_updater u (signal_from q (i + 1) s) s') ! k \<in> {SC_Take, SC_Await, SC_Suspended}"
        then have "k \<noteq> i" using s'(2,3) c(2) by auto
        then show "collectors s ! k \<in> {SC_Take, SC_Await, SC_Suspended} \<and>
            (sf_slots s ! k = SF_Pending \<longrightarrow> sf_slots (set_updater u (signal_from q (i + 1) s) s') ! k = SF_Pending) \<and>
            (will_signal (sf_sequence s) k (updaters s ! u) \<longrightarrow> will_signal (sf_sequence s) k (signal_from q (i + 1) s) \<or>
              sf_slots (set_updater u (signal_from q (i + 1) s) s') ! k = SF_Pending)"
          using k s'(1,2) u(2) by auto
      qed (use u s' in simp_all)
      moreover have "collectors s ! i = SC_Leaving \<Longrightarrow> collectors s = (collectors s)[i := SC_Leaving]" by (metis list_update_id)
      moreover from calculation(1) [of "set_collector i SC_Read (put_slot i SF_None s)" SC_Read]
      have "state_flow_ok v (set_updater u (signal_from q (i + 1) s) (set_collector i SC_Read (put_slot i SF_None s)))" by simp
      ultimately have "state_flow_ok v (set_updater u (signal_from q (i + 1) s) (resume_collector i (put_slot i SF_None s)))"
        using c by (auto simp: resume_collector_def)
      then show ?thesis using True x by (simp add: make_pending_swap_def)
    qed
  qed
qed

lemma will_signal_other: "notifies pc = Some p \<Longrightarrow> p \<noteq> q \<Longrightarrow> will_signal q k pc"
  by (cases pc) auto

lemma update_state_cases:
  "update_state expected new s = (Refused, s) \<or> update_state expected new s = (Unchanged, s) \<or>
   even (sf_sequence s) \<and> update_state expected new s =
     (Notify (sf_sequence s + 1), s\<lparr>sf_value := new, sf_sequence := sf_sequence s + 1\<rparr>) \<or>
   odd (sf_sequence s) \<and> update_state expected new s = (Handed_On, s\<lparr>sf_value := new, sf_sequence := sf_sequence s + 2\<rparr>)"
  unfolding update_state_def Let_def by (cases "even (sf_sequence s)") simp_all

text \<open>A call that takes effect.\<close>

lemma after_update_ok:
  assumes ok: "state_flow_ok v s" and u: "u < length (updaters s)" "call_pending (updaters s ! u) = [call]" "notifies (updaters s ! u) = None"
    and up: "update_state expected new s = (outcome, s1)" and eff: "sf_value s1 = sf_effect call (sf_value s)"
  shows "state_flow_ok v (after_update u call (outcome, s1))"
proof -
  note d = state_flow_okD [OF ok u(1)]
  consider (same) "s1 = s" "outcome = Refused \<or> outcome = Unchanged"
    | (notify) "even (sf_sequence s)" "outcome = Notify (sf_sequence s + 1)" "s1 = s\<lparr>sf_value := new, sf_sequence := sf_sequence s + 1\<rparr>"
    | (hand) "odd (sf_sequence s)" "outcome = Handed_On" "s1 = s\<lparr>sf_value := new, sf_sequence := sf_sequence s + 2\<rparr>"
    using up update_state_cases [of expected new s] by force
  then show ?thesis
  proof cases
    case same
    let ?s = "set_updater u SU_Idle (s\<lparr>effective := effective s @ [(u, call)]\<rparr>)"
    have "notifier_kept ?s" by (rule notifier_step [where pc' = "SU_Idle", OF d(2) u(1)]) (use u in auto)
    moreover have "none_missed ?s" by (rule missed_same [where pc' = "SU_Idle", OF d(3) u(1)]) (use u(3) in \<open>auto elim: will_signal.elims\<close>)
    moreover have "calls_kept v ?s" by (rule calls_step [where pc' = "SU_Idle", OF d(4) u(1)]) (use u eff same in auto)
    ultimately have "state_flow_ok v ?s" using d(1) by (simp add: state_flow_ok_def slots_kept_def)
    then show ?thesis using same by (auto simp: after_update_def)
  next
    case notify
    let ?s = "set_updater u (signal_from (sf_sequence s + 1) 0 s1) (s1\<lparr>effective := effective s @ [(u, call)]\<rparr>)"
    have sf: "signal_from (sf_sequence s + 1) 0 s1 = signal_from (sf_sequence s + 1) 0 s" using notify by (simp add: signal_from_def)
    have "notifier_kept ?s" unfolding sf by (rule notifier_step [where pc' = "signal_from (sf_sequence s + 1) 0 s", OF d(2) u(1)]) (use u notify in auto)
    moreover have "none_missed ?s" unfolding none_missed_def sf using u(1) notify by (auto intro!: exI [of _ u])
    moreover have "calls_kept v ?s" unfolding sf by (rule calls_step [where pc' = "signal_from (sf_sequence s + 1) 0 s", OF d(4) u(1)]) (use u eff notify in auto)
    ultimately have "state_flow_ok v ?s" using d(1) notify by (simp add: state_flow_ok_def slots_kept_def)
    then show ?thesis using notify by (simp add: after_update_def)
  next
    case hand
    let ?s = "set_updater u SU_Idle (s1\<lparr>effective := effective s @ [(u, call)]\<rparr>)"
    have "notifier_kept ?s" by (rule notifier_step [where pc' = "SU_Idle", OF d(2) u(1)]) (use u hand in auto)
    moreover obtain w p where w: "w < length (updaters s)" "notifies (updaters s ! w) = Some p"
      using d(2) hand(1) unfolding notifier_kept_def by blast
    then have "p \<le> sf_sequence s" "w \<noteq> u" using d(2) u(3) unfolding notifier_kept_def by (blast, force)
    then have "will_signal (sf_sequence s + 2) k (updaters s ! w)" for k using will_signal_other [OF w(2)] by simp
    then have "none_missed ?s" unfolding none_missed_def using w(1) hand \<open>w \<noteq> u\<close> by (auto intro!: exI [of _ w])
    moreover have "calls_kept v ?s" by (rule calls_step [where pc' = "SU_Idle", OF d(4) u(1)]) (use u eff hand in auto)
    ultimately have "state_flow_ok v ?s" using d(1) hand by (simp add: state_flow_ok_def slots_kept_def)
    then show ?thesis using hand by (simp add: after_update_def)
  qed
qed

lemma idle_moves:
  assumes ok: "state_flow_ok v s" and u: "u < length (updaters s)" "notifies (updaters s ! u) = None" "notifies pc' = None"
    and c: "call_pending pc' = call_pending (updaters s ! u)"
  shows "state_flow_ok v (set_updater u pc' s)"
proof -
  note d = state_flow_okD [OF ok u(1)]
  have n: "signal_ok m pc" "\<not> will_signal q k pc" if "notifies pc = None" for m q k and pc :: "'a sf_updater"
    using that by (cases pc; simp)+
  have "notifier_kept (set_updater u pc' s)" by (rule notifier_step [where pc' = "pc'", OF d(2) u(1)]) (use u n in auto)
  moreover have "none_missed (set_updater u pc' s)" by (rule missed_same [where pc' = "pc'", OF d(3) u(1)]) (use u n in auto)
  moreover have "calls_kept v (set_updater u pc' s)" by (rule calls_step [where pc' = "pc'", OF d(4) u(1)]) (use c in auto)
  ultimately show ?thesis using d(1) by (simp add: state_flow_ok_def slots_kept_def)
qed

lemma recheck_ok:
  assumes ok: "state_flow_ok v s" and u: "u < length (updaters s)" "updaters s ! u = SU_Recheck q"
  shows "state_flow_ok v (recheck u q s)"
proof -
  note d = state_flow_okD [OF ok u(1)]
  have q: "odd q" "odd (sf_sequence s)" "q \<le> sf_sequence s" using d(6) u(2) by auto
  show ?thesis
  proof (cases "sf_sequence s = q")
    case True
    let ?s = "set_updater u SU_Idle (s\<lparr>sf_sequence := q + 1\<rparr>)"
    have only: "w = u" if "w < length (updaters s)" "notifies (updaters s ! w) \<noteq> None" for w
      using d(2) u that unfolding notifier_kept_def by (metis notifies.simps(3))
    have sig: "\<not> will_signal (sf_sequence s) k (updaters s ! w)" if "w < length (updaters s)" for k w
    proof (cases "w = u")
      case False
      then have "notifies (updaters s ! w) = None" using only that by blast
      then show ?thesis by (cases "updaters s ! w") auto
    qed (use u True in simp)
    have "notifier_kept ?s" by (rule notifier_step [where pc' = "SU_Idle", OF d(2) u(1)]) (use u q True in auto)
    moreover have "none_missed ?s" using d(3) sig unfolding none_missed_def by auto
    moreover have "calls_kept v ?s" by (rule calls_step [where pc' = "SU_Idle", OF d(4) u(1)]) (use u in auto)
    ultimately have "state_flow_ok v ?s" using d(1) by (simp add: state_flow_ok_def slots_kept_def)
    then show ?thesis using True by (simp add: recheck_def)
  next
    case False
    let ?s = "set_updater u (signal_from (sf_sequence s) 0 s) s"
    have "notifier_kept ?s" by (rule notifier_step [where pc' = "signal_from (sf_sequence s) 0 s", OF d(2) u(1)]) (use u q in auto)
    moreover have "none_missed ?s" by (rule missed_same [where pc' = "signal_from (sf_sequence s) 0 s", OF d(3) u(1)]) (use u in auto)
    moreover have "calls_kept v ?s" by (rule calls_step [where pc' = "signal_from (sf_sequence s) 0 s", OF d(4) u(1)]) (use u in auto)
    ultimately have "state_flow_ok v ?s" using d(1) by (simp add: state_flow_ok_def slots_kept_def)
    then show ?thesis using False by (simp add: recheck_def)
  qed
qed

lemma advance_updater_ok:
  assumes ok: "state_flow_ok v s" and u: "u < length (updaters s)"
  shows "state_flow_ok v (advance_updater u (updaters s ! u) s)"
proof (cases "updaters s ! u")
  case (SU_Call call)
  note after = after_update_ok [OF ok u]
  show ?thesis
  proof (cases call)
    case (SF_Set w)
    obtain r s1 where r: "update_state None w s = (r, s1)" by force
    have "sf_value s1 = w" using r by (auto simp: update_state_def Let_def split: if_splits)
    then show ?thesis using after [OF _ _ r, of call] SU_Call SF_Set r by simp
  next
    case (SF_CAS e w)
    obtain r s1 where r: "update_state (Some e) w s = (r, s1)" by force
    have "sf_value s1 = (if sf_value s = e then w else sf_value s)" using r by (auto simp: update_state_def Let_def split: if_splits)
    then show ?thesis using after [OF _ _ r, of call] SU_Call SF_CAS r by simp
  next
    case (SF_Update f)
    then show ?thesis using idle_moves [OF ok u, of "SU_Try (sf_value s) f"] SU_Call by simp
  qed
next
  case (SU_Try prev f)
  obtain r s1 where r: "update_state (Some prev) (f prev) s = (r, s1)" by force
  show ?thesis
  proof (cases "sf_value s = prev")
    case True
    then have "sf_value s1 = f (sf_value s)" "r \<noteq> Refused" using r by (auto simp: update_state_def Let_def split: if_splits)
    then show ?thesis using after_update_ok [OF ok u _ _ r, of "SF_Update f"] SU_Try r
      by (cases r) (simp_all add: try_update_def)
  next
    case False
    then have "r = Refused" "s1 = s" using r by (auto simp: update_state_def)
    then show ?thesis using idle_moves [OF ok u, of "SU_Call (SF_Update f)"] SU_Try r by (simp add: try_update_def)
  qed
qed (use ok u make_pending_load_ok make_pending_swap_ok recheck_ok in simp_all)

lemma sf_step_ok:
  assumes ok: "state_flow_ok v s"
  shows "state_flow_ok v (sf_step op s)"
proof (cases op)
  case (SF_Begin u call)
  show ?thesis
  proof (cases "u < length (updaters s) \<and> updaters s ! u = SU_Idle")
    case True
    let ?s = "set_updater u (SU_Call call) (s\<lparr>begun := begun s @ [(u, call)]\<rparr>)"
    have d: "slots_kept s" "notifier_kept s" "none_missed s" "calls_kept v s" using ok by (simp_all add: state_flow_ok_def)
    have "notifier_kept ?s" by (rule notifier_step [where pc' = "SU_Call call", OF d(2)]) (use True in auto)
    moreover have "none_missed ?s" by (rule missed_same [where pc' = "SU_Call call", OF d(3)]) (use True in auto)
    moreover have "calls_of w (begun ?s) = calls_of w (effective ?s) @ call_pending (updaters ?s ! w)" if "w < length (updaters ?s)" for w
      using d(4) True that by (cases "w = u") (auto simp: calls_kept_def calls_of_def)
    then have "calls_kept v ?s" using d(4) by (simp add: calls_kept_def)
    ultimately have "state_flow_ok v ?s" using d(1) by (simp add: state_flow_ok_def slots_kept_def)
    then show ?thesis using SF_Begin True by simp
  next
    case False
    then show ?thesis using ok SF_Begin by (cases "updaters s ! u") auto
  qed
qed (use ok advance_updater_ok advance_collector_ok cancel_collector_ok in auto)

lemma sf_run_ok: "state_flow_ok v (sf_run ops (new_state_flow v n m))"
proof -
  have "state_flow_ok v s \<Longrightarrow> state_flow_ok v (sf_run ops s)" for s
    unfolding sf_run_def by (induction ops arbitrary: s) (simp_all add: sf_step_ok)
  from this [OF new_state_flow_ok] show ?thesis .
qed

lemma sf_step_updaters: "length (updaters (sf_step op s)) = length (updaters s)"
proof (cases op)
  case (SF_Begin u call)
  then show ?thesis by (cases "updaters s ! u") auto
next
  case (SF_Advance u)
  have r: "updaters (resume_collector c t) = updaters t" for c and t :: "'a state_flow"
    by (simp add: resume_collector_def split: sf_collector.split)
  have up: "updaters (snd (update_state e w t)) = updaters t" for e w and t :: "'a state_flow" by (simp add: update_state_def Let_def)
  have af: "length (updaters (after_update u call p)) = length (updaters (snd p))" for call and p :: "sf_outcome \<times> 'a state_flow"
    by (simp add: after_update_def split_beta)
  show ?thesis
  proof (cases "updaters s ! u")
    case (SU_Call call)
    then show ?thesis using SF_Advance by (cases call) (simp_all add: af up)
  next
    case (SU_Try prev f)
    then show ?thesis using SF_Advance up [of "Some prev" "f prev" s] by (auto simp: try_update_def af split: prod.split sf_outcome.split)
  qed (use SF_Advance r in \<open>auto simp: make_pending_load_def make_pending_swap_def recheck_def split: sf_slot.split\<close>)
next
  case (SF_Collect k)
  then show ?thesis by (cases "collectors s ! k")
    (auto simp: slot_allocate_locked_def read_value_def take_pending_def await_pending_def slot_free_locked_def)
qed (simp add: cancel_collector_def)

lemma sf_run_updaters: "length (updaters (sf_run ops (new_state_flow v n m))) = n"
proof -
  have "length (updaters (sf_run ops s)) = length (updaters s)" for s :: "'a state_flow"
    unfolding sf_run_def by (induction ops arbitrary: s) (simp_all add: sf_step_updaters)
  then show ?thesis by (simp add: new_state_flow_def)
qed

subsection \<open>What the flow promises\<close>


text \<open>A collector reads the first value and waits, an updater stores another one and notifies it, the collector reads again and waits.\<close>

definition sf_scenario :: "nat sf_op list" where
  "sf_scenario = [SF_Collect 0, SF_Collect 0, SF_Collect 0, SF_Collect 0, SF_Begin 0 (SF_Set 7), SF_Advance 0, SF_Advance 0, SF_Advance 0,
     SF_Advance 0, SF_Collect 0, SF_Collect 0, SF_Collect 0]"


text \<open>C18: The calls of \<open>set_value\<close>, \<open>compare_and_set\<close> and the update functions are atomic: in every interleaving the value is the result of
  applying, one after the other and each exactly once, the calls that took effect, and these are, for every updater, the calls that it began in
  their order, except for the one it is still executing.\<close>

theorem state_flow_updates_atomic:
  assumes s: "s = sf_run ops (new_state_flow v n m)"
  shows "sf_value s = fold sf_effect (map snd (effective s)) v \<and>
    (\<forall>u<n. calls_of u (begun s) = calls_of u (effective s) @ call_pending (updaters s ! u))"
proof -
  have "length (updaters s) = n" using s sf_run_updaters by simp
  then show ?thesis using sf_run_ok [of v ops n m] s unfolding state_flow_ok_def calls_kept_def by auto
qed

theorem state_flow_updates_atomic_witness:
  "\<exists>s :: nat state_flow. s = sf_run [SF_Begin 0 (SF_Update Suc), SF_Begin 1 (SF_Update Suc), SF_Advance 0, SF_Advance 1, SF_Advance 1, SF_Advance 0,
      SF_Advance 0, SF_Advance 0] (new_state_flow 3 2 0) \<and> sf_value s = 5 \<and>
    calls_of 0 (begun s) = calls_of 0 (effective s) @ call_pending (updaters s ! 0)"
proof -
  let ?ops = "[SF_Begin 0 (SF_Update Suc), SF_Begin 1 (SF_Update Suc), SF_Advance 0, SF_Advance 1, SF_Advance 1, SF_Advance 0,
    SF_Advance 0, SF_Advance 0]"
  have "sf_value (sf_run ?ops (new_state_flow 3 2 0)) = 5"
    by (simp add: sf_run_def new_state_flow_def try_update_def after_update_def update_state_def Let_def signal_from_def set_updater_def)
  then show ?thesis using state_flow_updates_atomic [of _ ?ops 3 2 0] by auto
qed

end
