(* ===== verification/Select.thy ===== *)
theory Select
  imports Prelude
begin

text \<open>
  \<open>selects/Select.hpp\<close>: a select expression registers its clauses, waits, and completes with the clause that makes a rendezvous
  first. The owner runs the registration, \<open>do_select\<close> and its waiting loop; any number of other threads call \<open>try_select\<close> or cancel.
  A step is one access of the code to a field of the select; the registration of a clause, which runs a function of the
  clause's object, is a step, and so are the completion and the disposal of the clauses by a cancellation.
  A pointer to a clause is its position in the vector \<open>clauses_\<close>; a clause is dereferenced through the vector, which owns it, so that
  a pointer into a deleted vector is undefined behaviour, as in the code. Assertions are checked. What a clause
  passes to the continuation for the case that it is cancelled is not modelled.
\<close>

subsection \<open>State\<close>

text \<open>\<open>state_\<close>: a marker, the waiting continuation (there is one) or a pointer to a clause.\<close>

datatype sel_word = S_Reg | S_Cont | S_Clause nat | S_Completed | S_Cancelled

text \<open>\<open>disposable_handle_or_segment\<close>: a handle, or a segment stored through the same untyped pointer.\<close>

datatype sel_disposable = SD_Handle nat | SD_Segment nat

text \<open>What a registration function does to the select it is given: it selects at once, leaves a handle or a segment for the case that
  another clause is selected, or throws.\<close>

datatype 'r registration_call = Select_Now 'r | Dispose_On nat | Cancel_In nat int | Reg_Throws exception_ptr

text \<open>\<open>registered\<close> counts the calls of the registration function, which answers each from a history of its own.\<close>

record 'r sel_clause =
  clause_object :: nat
  reg_func :: "nat \<Rightarrow> 'r registration_call list"
  process_res_func :: "'r option \<Rightarrow> 'r res"
  clause_block :: "'r \<Rightarrow> 'r res"
  clause_handle :: "sel_disposable option"
  clause_index :: int
  registered :: nat

datatype try_select_result = TRY_SELECT_SUCCESSFUL | TRY_SELECT_REREGISTER | TRY_SELECT_CANCELLED | TRY_SELECT_ALREADY_SELECTED

text \<open>Where the owner stands: it registers, is in the loop of \<open>wait_until_selected\<close>, is suspended or resumed, or \<open>select\<close> has ended.\<close>

datatype 'r sel_owner =
    SO_Register | SO_Load | SO_Decide sel_word | SO_Store | SO_Swap | SO_Undo | SO_Take sel_word
  | SO_Reswap sel_word "nat list" | SO_Reregister "nat list" | SO_Check | SO_Suspended | SO_Resumed | SO_Ended "'r res"

text \<open>Where a call of \<open>try_select\<close> stands.\<close>

datatype sel_pc =
    TS_Load | TS_Waiting sel_word | TS_Find | TS_Swap nat | TS_Result nat | TS_Selected nat | TS_Clear nat | TS_Resume nat
  | TS_Undo nat | TS_Unselect nat | TS_Decided sel_word | TS_Phase sel_word | TS_List | TS_New | TS_Push
  | TS_Returned try_select_result | TS_Threw cpp_error

datatype 'r sel_caller = CL_Idle | CL_Try nat 'r sel_pc | CL_Clean | CL_Done "unit res"

record 'r select =
  sel_state :: sel_word
  sel_clauses :: "'r sel_clause list option"
  sel_disposable :: "sel_disposable option"
  sel_index :: int
  sel_result :: "'r option"
  sel_waiting :: bool
  sel_reregister :: "nat list option"
  sel_selected :: "nat option"
  sel_disposed :: "nat list"
  sel_owner :: "'r sel_owner"
  sel_callers :: "'r sel_caller list"

definition new_select :: "nat \<Rightarrow> 'r select" where
  "new_select n = \<lparr>sel_state = S_Reg, sel_clauses = Some [], sel_disposable = None, sel_index = -1, sel_result = None,
     sel_waiting = False, sel_reregister = None, sel_selected = None, sel_disposed = [], sel_owner = SO_Register,
     sel_callers = replicate n CL_Idle\<rparr>"

definition in_registration_phase :: "'r select \<Rightarrow> bool" where
  "in_registration_phase s \<longleftrightarrow> sel_state s = S_Reg \<or> sel_reregister s \<noteq> None"

definition is_selected :: "'r select \<Rightarrow> bool" where
  "is_selected s \<longleftrightarrow> sel_selected s \<noteq> None"

definition sel_is_cancelled :: "'r select \<Rightarrow> bool" where
  "sel_is_cancelled s \<longleftrightarrow> sel_state s = S_Cancelled"

definition clause_at :: "nat \<Rightarrow> 'r select \<Rightarrow> 'r sel_clause option" where
  "clause_at p s = (case sel_clauses s of None \<Rightarrow> None | Some cs \<Rightarrow> if p < length cs then Some (cs ! p) else None)"

definition with_clause :: "nat \<Rightarrow> ('r sel_clause \<Rightarrow> ('r select, 'a) exec) \<Rightarrow> ('r select, 'a) exec" where
  "with_clause p f = read_e (\<lambda>s. case clause_at p s of None \<Rightarrow> throw_e Undefined_Behaviour | Some c \<Rightarrow> f c)"

definition update_clause :: "nat \<Rightarrow> ('r sel_clause \<Rightarrow> 'r sel_clause) \<Rightarrow> 'r select \<Rightarrow> 'r select" where
  "update_clause p g s = s\<lparr>sel_clauses := map_option (\<lambda>cs. cs[p := g (cs ! p)]) (sel_clauses s)\<rparr>"

subsection \<open>Registration\<close>

definition select_in_registration_phase :: "'r \<Rightarrow> 'r select \<Rightarrow> 'r select" where
  "select_in_registration_phase r s = s\<lparr>sel_result := Some r\<rparr>"

definition dispose_on_completion :: "nat \<Rightarrow> 'r select \<Rightarrow> 'r select" where
  "dispose_on_completion h s = s\<lparr>sel_disposable := Some (SD_Handle h)\<rparr>"

definition invoke_on_cancellation :: "nat \<Rightarrow> int \<Rightarrow> 'r select \<Rightarrow> 'r select" where
  "invoke_on_cancellation g i s = s\<lparr>sel_disposable := Some (SD_Segment g), sel_index := i\<rparr>"

fun inst_call :: "'r registration_call \<Rightarrow> ('r select, unit) exec" where
  "inst_call (Select_Now r) = modify_e (select_in_registration_phase r)"
| "inst_call (Dispose_On h) = modify_e (dispose_on_completion h)"
| "inst_call (Cancel_In g i) = modify_e (invoke_on_cancellation g i)"
| "inst_call (Reg_Throws e) = throw_e (Rethrown e)"

fun inst_calls :: "'r registration_call list \<Rightarrow> ('r select, unit) exec" where
  "inst_calls [] = return_e ()"
| "inst_calls (c # cs) = seq_e (inst_call c) (inst_calls cs)"

definition try_register_as_waiter :: "nat \<Rightarrow> ('r select, bool) exec" where
  "try_register_as_waiter p = read_e (\<lambda>s.
     if \<not> (in_registration_phase s \<or> sel_is_cancelled s) \<or> sel_result s \<noteq> None then throw_e Assertion_Failed
     else with_clause p (\<lambda>c.
       seq_e (modify_e (update_clause p (\<lambda>c. c\<lparr>registered := registered c + 1\<rparr>)))
         (seq_e (inst_calls (reg_func c (registered c)))
           (read_e (\<lambda>s'. return_e (sel_result s' = None))))))"

text \<open>The handle or segment that the registration left moves to the clause.\<close>

definition keep_disposable :: "nat \<Rightarrow> 'r select \<Rightarrow> 'r select" where
  "keep_disposable p s =
     (update_clause p (\<lambda>c. c\<lparr>clause_handle := sel_disposable s, clause_index := sel_index s\<rparr>) s)
       \<lparr>sel_disposable := None, sel_index := -1\<rparr>"

definition check_clause_object :: "nat \<Rightarrow> ('r select, unit) exec" where
  "check_clause_object obj = read_e (\<lambda>s. case sel_clauses s of
       None \<Rightarrow> return_e ()
     | Some cs \<Rightarrow> if obj \<in> clause_object ` set (butlast cs) then throw_e (Runtime_Error ''Cannot use select clauses on the same object'')
         else return_e ())"

definition register_clause_impl :: "nat \<Rightarrow> bool \<Rightarrow> ('r select, unit) exec" where
  "register_clause_impl p reregister = read_e (\<lambda>s.
     if sel_is_cancelled s then throw_e Assertion_Failed
     else if is_selected s then return_e ()
     else with_clause p (\<lambda>c.
       seq_e (if reregister then return_e () else check_clause_object (clause_object c))
         (bind_e (try_register_as_waiter p) (\<lambda>waits. if waits then modify_e (keep_disposable p) else return_e ()))))"

definition fresh_clause :: "'r sel_clause \<Rightarrow> 'r sel_clause" where
  "fresh_clause c = c\<lparr>clause_handle := None, clause_index := -1, registered := 0\<rparr>"

definition register_clause :: "'r sel_clause \<Rightarrow> ('r select, unit) exec" where
  "register_clause c = read_e (\<lambda>s. case sel_clauses s of
       None \<Rightarrow> throw_e Undefined_Behaviour
     | Some cs \<Rightarrow>
         seq_e (modify_e (\<lambda>s. s\<lparr>sel_clauses := Some (cs @ [fresh_clause c])\<rparr>))
           (seq_e (register_clause_impl (length cs) False)
             (modify_e (\<lambda>s. if sel_result s \<noteq> None then s\<lparr>sel_selected := Some (length cs)\<rparr> else s))))"

text \<open>The body of \<open>select\<close>: a user function that registers clauses one after another.\<close>

fun sel_builder :: "'r sel_clause list \<Rightarrow> ('r select, unit) exec" where
  "sel_builder [] = return_e ()"
| "sel_builder (c # cs) = seq_e (register_clause c) (sel_builder cs)"

fun first_clause :: "nat \<Rightarrow> 'r sel_clause list \<Rightarrow> nat option" where
  "first_clause obj [] = None"
| "first_clause obj (c # cs) = (if clause_object c = obj then Some 0 else map_option Suc (first_clause obj cs))"

definition find_clause :: "nat \<Rightarrow> 'r select \<Rightarrow> nat option res" where
  "find_clause obj s = (case sel_clauses s of
       None \<Rightarrow> Inr None
     | Some cs \<Rightarrow> (case first_clause obj cs of
           None \<Rightarrow> Inl (Runtime_Error ''Clause with object is not found'')
         | Some p \<Rightarrow> Inr (Some p)))"

definition reregister_clause :: "nat \<Rightarrow> ('r select, unit) exec" where
  "reregister_clause obj = read_e (\<lambda>s. case find_clause obj s of
       Inl e \<Rightarrow> throw_e e
     | Inr None \<Rightarrow> throw_e (Logic_Error ''reregisterClause: clause must exist'')
     | Inr (Some p) \<Rightarrow>
         seq_e (modify_e (update_clause p (\<lambda>c. c\<lparr>clause_handle := None, clause_index := -1\<rparr>)))
           (register_clause_impl p True))"

subsection \<open>Completion and cancellation\<close>

text \<open>A segment is cast to a handle and disposed of as such.\<close>

definition clause_dispose :: "'r sel_clause \<Rightarrow> ('r select, unit) exec" where
  "clause_dispose c = (case clause_handle c of
       None \<Rightarrow> return_e ()
     | Some (SD_Handle h) \<Rightarrow> modify_e (\<lambda>s. s\<lparr>sel_disposed := sel_disposed s @ [h]\<rparr>)
     | Some (SD_Segment g) \<Rightarrow> throw_e Undefined_Behaviour)"

fun dispose_clauses :: "'r sel_clause list \<Rightarrow> ('r select, unit) exec" where
  "dispose_clauses [] = return_e ()"
| "dispose_clauses (c # cs) = seq_e (clause_dispose c) (dispose_clauses cs)"

definition sel_cleanup :: "nat \<Rightarrow> ('r select, unit) exec" where
  "sel_cleanup p = read_e (\<lambda>s.
     if \<not> is_selected s then throw_e Assertion_Failed
     else case sel_clauses s of
       None \<Rightarrow> return_e ()
     | Some cs \<Rightarrow> seq_e (dispose_clauses (take p cs @ drop (Suc p) cs))
         (modify_e (\<lambda>s. s\<lparr>sel_state := S_Completed, sel_result := None, sel_clauses := None\<rparr>)))"

definition sel_complete :: "('r select, 'r) exec" where
  "sel_complete = read_e (\<lambda>s. case sel_selected s of
       None \<Rightarrow> throw_e Assertion_Failed
     | Some p \<Rightarrow> seq_e (sel_cleanup p) (with_clause p (\<lambda>c s'. (case process_res_func c (sel_result s) of
           Inl e \<Rightarrow> throw_e e s'
         | Inr arg \<Rightarrow> (clause_block c arg, s')))))"

text \<open>\<open>invoke\<close>, the handler of the cancellation, after its exchange of the state.\<close>

definition sel_cancel_cleanup :: "('r select, unit) exec" where
  "sel_cancel_cleanup = read_e (\<lambda>s. case sel_clauses s of
       None \<Rightarrow> return_e ()
     | Some cs \<Rightarrow> seq_e (dispose_clauses cs) (modify_e (\<lambda>s. s\<lparr>sel_result := None, sel_clauses := None\<rparr>)))"

subsection \<open>The owner\<close>

fun owner_step :: "'r sel_owner \<Rightarrow> 'r select \<Rightarrow> 'r sel_owner \<times> 'r select" where
  "owner_step SO_Load s = (SO_Decide (sel_state s), s)"
| "owner_step (SO_Decide w) s = (if w = S_Reg \<and> sel_reregister s = None then SO_Store else SO_Take w, s)"
| "owner_step SO_Store s = (SO_Swap, s\<lparr>sel_waiting := True\<rparr>)"
| "owner_step SO_Swap s = (if sel_state s = S_Reg then (SO_Suspended, s\<lparr>sel_state := S_Cont\<rparr>) else (SO_Undo, s))"
| "owner_step SO_Undo s = (SO_Load, s\<lparr>sel_waiting := False\<rparr>)"
| "owner_step (SO_Take w) s = (case sel_reregister s of
     None \<Rightarrow> (SO_Check, s) | Some l \<Rightarrow> (SO_Reswap w l, s\<lparr>sel_reregister := None\<rparr>))"
| "owner_step (SO_Reswap w l) s = (if sel_state s = w then (SO_Reregister l, s\<lparr>sel_state := S_Reg\<rparr>) else (SO_Load, s))"
| "owner_step (SO_Reregister []) s = (SO_Load, s)"
| "owner_step (SO_Reregister (obj # l)) s = (case reregister_clause obj s of
     (Inr _, s') \<Rightarrow> (SO_Reregister l, s') | (Inl e, s') \<Rightarrow> (SO_Ended (Inl e), s'))"
| "owner_step SO_Check s = (if is_selected s then map_prod SO_Ended id (sel_complete s)
     else (SO_Ended (Inl (Runtime_Error ''unexpected state in waitUntilSelected'')), s))"
| "owner_step pc s = (pc, s)"

definition do_select :: "'r select \<Rightarrow> 'r sel_owner \<times> 'r select" where
  "do_select s = (if is_selected s then map_prod SO_Ended id (sel_complete s) else (SO_Load, s))"

subsection \<open>A rendezvous\<close>

text \<open>\<open>try_select_internal\<close>; \<open>resumed\<close> is the answer of \<open>try_resume_with_on_cancellation\<close>.\<close>

fun try_select_step :: "bool \<Rightarrow> nat \<Rightarrow> 'r \<Rightarrow> sel_pc \<Rightarrow> 'r select \<Rightarrow> sel_pc \<times> 'r select" where
  "try_select_step resumed obj r TS_Load s = (TS_Waiting (sel_state s), s)"
| "try_select_step resumed obj r (TS_Waiting w) s = (if sel_waiting s \<and> w = S_Cont then TS_Find else TS_Decided w, s)"
| "try_select_step resumed obj r TS_Find s = (case find_clause obj s of
     Inl e \<Rightarrow> (TS_Threw e, s) | Inr None \<Rightarrow> (TS_Load, s) | Inr (Some p) \<Rightarrow> (TS_Swap p, s))"
| "try_select_step resumed obj r (TS_Swap p) s = (if sel_state s = S_Cont then (TS_Result p, s\<lparr>sel_state := S_Clause p\<rparr>) else (TS_Load, s))"
| "try_select_step resumed obj r (TS_Result p) s = (TS_Selected p, s\<lparr>sel_result := Some r\<rparr>)"
| "try_select_step resumed obj r (TS_Selected p) s = (TS_Clear p, s\<lparr>sel_selected := Some p\<rparr>)"
| "try_select_step resumed obj r (TS_Clear p) s = (TS_Resume p, s\<lparr>sel_waiting := False\<rparr>)"
| "try_select_step resumed obj r (TS_Resume p) s =
     (if resumed then (TS_Returned TRY_SELECT_SUCCESSFUL, s\<lparr>sel_owner := SO_Resumed\<rparr>) else (TS_Undo p, s))"
| "try_select_step resumed obj r (TS_Undo p) s = (TS_Unselect p, s\<lparr>sel_result := None\<rparr>)"
| "try_select_step resumed obj r (TS_Unselect p) s = (TS_Returned TRY_SELECT_CANCELLED, s\<lparr>sel_selected := None\<rparr>)"
| "try_select_step resumed obj r (TS_Decided w) s =
     (if w = S_Completed \<or> is_selected s then TS_Returned TRY_SELECT_ALREADY_SELECTED
      else if w = S_Cancelled then TS_Returned TRY_SELECT_CANCELLED else TS_Phase w, s)"
| "try_select_step resumed obj r (TS_Phase w) s = (if w = S_Reg \<and> sel_reregister s = None then TS_New else TS_List, s)"
| "try_select_step resumed obj r TS_New s = (TS_Push, s\<lparr>sel_reregister := Some []\<rparr>)"
| "try_select_step resumed obj r TS_List s = (if sel_reregister s \<noteq> None then TS_Push
     else TS_Threw (Runtime_Error ''Unexpected state in trySelectInternal''), s)"
| "try_select_step resumed obj r TS_Push s = (case sel_reregister s of
     None \<Rightarrow> (TS_Threw Undefined_Behaviour, s)
   | Some l \<Rightarrow> (TS_Returned TRY_SELECT_REREGISTER, s\<lparr>sel_reregister := Some (l @ [obj])\<rparr>))"
| "try_select_step resumed obj r pc s = (pc, s)"

subsection \<open>Steps\<close>

datatype 'r sel_op = Sel_Register "'r sel_clause" | Sel_Do_Select | Sel_Owner | Sel_Begin nat nat 'r | Sel_Call nat bool | Sel_Cancel nat

definition put_owner :: "'r sel_owner \<Rightarrow> 'r select \<Rightarrow> 'r select" where
  "put_owner pc s = s\<lparr>sel_owner := pc\<rparr>"

definition put_caller :: "nat \<Rightarrow> 'r sel_caller \<Rightarrow> 'r select \<Rightarrow> 'r select" where
  "put_caller i c s = s\<lparr>sel_callers := (sel_callers s)[i := c]\<rparr>"

definition builder_step :: "'r sel_clause \<Rightarrow> 'r select \<Rightarrow> 'r select" where
  "builder_step c s = (case register_clause c s of (Inr _, s') \<Rightarrow> s' | (Inl e, s') \<Rightarrow> put_owner (SO_Ended (Inl e)) s')"

definition caller_step :: "nat \<Rightarrow> bool \<Rightarrow> 'r sel_caller \<Rightarrow> 'r select \<Rightarrow> 'r select" where
  "caller_step i resumed c s = (case c of
       CL_Try obj r pc \<Rightarrow> (case try_select_step resumed obj r pc s of (pc', s') \<Rightarrow> put_caller i (CL_Try obj r pc') s')
     | CL_Clean \<Rightarrow> (case sel_cancel_cleanup s of (r, s') \<Rightarrow> put_caller i (CL_Done r) s')
     | _ \<Rightarrow> s)"

text \<open>The exchange at the start of \<open>invoke\<close>.\<close>

definition sel_cancel :: "nat \<Rightarrow> 'r select \<Rightarrow> 'r select" where
  "sel_cancel i s = (if sel_state s = S_Completed then put_caller i (CL_Done (Inr ())) s
     else put_caller i CL_Clean (s\<lparr>sel_state := S_Cancelled\<rparr>))"

fun sel_step :: "'r sel_op \<Rightarrow> 'r select \<Rightarrow> 'r select" where
  "sel_step (Sel_Register c) s = (if sel_owner s = SO_Register then builder_step c s else s)"
| "sel_step Sel_Do_Select s = (if sel_owner s = SO_Register then case do_select s of (pc, s') \<Rightarrow> put_owner pc s' else s)"
| "sel_step Sel_Owner s = (case owner_step (sel_owner s) s of (pc, s') \<Rightarrow> put_owner pc s')"
| "sel_step (Sel_Begin i obj r) s = (if i < length (sel_callers s) \<and> sel_callers s ! i = CL_Idle then put_caller i (CL_Try obj r TS_Load) s else s)"
| "sel_step (Sel_Call i resumed) s = (if i < length (sel_callers s) then caller_step i resumed (sel_callers s ! i) s else s)"
| "sel_step (Sel_Cancel i) s = (if i < length (sel_callers s) \<and> sel_callers s ! i = CL_Idle then sel_cancel i s else s)"

definition sel_run :: "'r sel_op list \<Rightarrow> 'r select \<Rightarrow> 'r select" where
  "sel_run ops s = fold sel_step ops s"

subsection \<open>What the operations keep\<close>

definition sel_objects :: "'r select \<Rightarrow> nat list option" where
  "sel_objects s = map_option (map clause_object) (sel_clauses s)"

definition sel_frame :: "'r select \<Rightarrow> 'r select \<Rightarrow> bool" where
  "sel_frame s s' \<longleftrightarrow> sel_state s' = sel_state s \<and> sel_waiting s' = sel_waiting s \<and> sel_reregister s' = sel_reregister s \<and>
     sel_selected s' = sel_selected s \<and> sel_owner s' = sel_owner s \<and> sel_callers s' = sel_callers s \<and> sel_objects s' = sel_objects s"

definition framed :: "('r select, 'a) exec \<Rightarrow> bool" where
  "framed m \<longleftrightarrow> (\<forall>s. sel_frame s (snd (m s)))"

named_theorems framed_intros "operations that keep the frame of a select"

lemma sel_frame_refl [simp]: "sel_frame s s"
  by (simp add: sel_frame_def)

lemma sel_frame_trans: "sel_frame s t \<Longrightarrow> sel_frame t u \<Longrightarrow> sel_frame s u"
  by (simp add: sel_frame_def)

lemma sel_objects_update_clause [simp]:
  "(\<And>c. clause_object (g c) = clause_object c) \<Longrightarrow> sel_objects (update_clause p g s) = sel_objects s"
proof -
  assume g: "\<And>c. clause_object (g c) = clause_object c"
  have "map clause_object (cs[p := g (cs ! p)]) = map clause_object cs" for cs
    by (rule nth_equalityI) (simp, metis g length_list_update length_map nth_list_update_eq nth_list_update_neq nth_map)
  then show ?thesis by (cases "sel_clauses s") (simp_all add: sel_objects_def update_clause_def del: map_update)
qed

lemma framed_bind [framed_intros]:
  fixes m :: "('r select, 'a) exec" and n :: "'a \<Rightarrow> ('r select, 'b) exec"
  assumes "framed m" and "\<And>x. framed (n x)"
  shows "framed (bind_e m n)"
  unfolding framed_def
proof
  fix s
  show "sel_frame s (snd (bind_e m n s))"
  proof (cases "m s")
    case (Pair r t)
    then have "sel_frame s t" using assms(1) by (metis framed_def snd_conv)
    moreover have "sel_frame t (snd (n x t))" for x using assms(2) by (simp add: framed_def)
    ultimately show ?thesis using Pair by (auto simp: bind_e_def split: sum.split intro: sel_frame_trans)
  qed
qed

lemma framed_seq [framed_intros]: "framed m1 \<Longrightarrow> framed m2 \<Longrightarrow> framed (seq_e m1 m2)"
  unfolding seq_e_def by (rule framed_bind)

lemma framed_exec [framed_intros]:
  "framed (return_e x)" "framed (throw_e e)"
  "(\<And>s. sel_frame s (f s)) \<Longrightarrow> framed (modify_e f)"
  "(\<And>t. framed (k t)) \<Longrightarrow> framed (read_e k)"
  "(\<And>c. framed (h c)) \<Longrightarrow> framed (with_clause p h)"
  by (auto simp: framed_def exec_simps with_clause_def split: option.split)

lemma inst_call_framed [framed_intros]: "framed (inst_call c)"
  by (cases c) (auto intro!: framed_intros simp: sel_frame_def sel_objects_def select_in_registration_phase_def
      dispose_on_completion_def invoke_on_cancellation_def)

lemma inst_calls_framed [framed_intros]: "framed (inst_calls cs)"
  by (induction cs) (auto intro: framed_intros)

lemma keep_disposable_frame [simp]: "sel_frame s (keep_disposable p s)"
proof -
  have "sel_objects (t\<lparr>sel_disposable := None, sel_index := -1\<rparr>) = sel_objects t" for t :: "'a select"
    by (simp add: sel_objects_def)
  then have "sel_objects (keep_disposable p s) = sel_objects s" by (simp add: keep_disposable_def)
  then show ?thesis by (simp add: sel_frame_def) (simp add: keep_disposable_def update_clause_def)
qed

lemma update_clause_frame:
  "(\<And>c. clause_object (g c) = clause_object c) \<Longrightarrow> sel_frame s (update_clause p g s)"
  by (simp add: sel_frame_def) (simp add: update_clause_def)

lemma register_clause_impl_framed [framed_intros]: "framed (register_clause_impl p again)"
  unfolding register_clause_impl_def try_register_as_waiter_def check_clause_object_def
  by (auto intro!: framed_intros update_clause_frame split: option.split)

lemma reregister_clause_framed [framed_intros]: "framed (reregister_clause obj)"
  unfolding reregister_clause_def by (auto intro!: framed_intros update_clause_frame split: sum.split option.split)

lemma dispose_clauses_framed [framed_intros]: "framed (dispose_clauses cs)"
  by (induction cs) (auto intro!: framed_intros simp: clause_dispose_def sel_frame_def sel_objects_def split: option.split sel_disposable.split)

lemma framedD: "framed m \<Longrightarrow> m s = (r, s') \<Longrightarrow> sel_frame s s'"
  unfolding framed_def by (metis snd_conv)

text \<open>The registration of a clause appends it and may make it the selected one.\<close>

lemma register_clause_effect:
  assumes "register_clause c s = (r, s')"
  shows "sel_state s' = sel_state s" "sel_waiting s' = sel_waiting s" "sel_reregister s' = sel_reregister s" "sel_owner s' = sel_owner s"
    "sel_callers s' = sel_callers s" "sel_objects s' = map_option (\<lambda>os. os @ [clause_object c]) (sel_objects s)"
    "sel_selected s' = sel_selected s \<or> (\<exists>os. sel_objects s = Some os \<and> sel_selected s' = Some (length os))"
proof -
  have "sel_frame s s' \<and> sel_clauses s = None \<or> (\<exists>cs. sel_clauses s = Some cs \<and>
      (\<exists>t. sel_frame (s\<lparr>sel_clauses := Some (cs @ [fresh_clause c])\<rparr>) t \<and> (s' = t \<or> s' = t\<lparr>sel_selected := Some (length cs)\<rparr>)))"
  proof (cases "sel_clauses s")
    case (Some cs)
    let ?s = "s\<lparr>sel_clauses := Some (cs @ [fresh_clause c])\<rparr>"
    obtain q t where run: "register_clause_impl (length cs) False ?s = (q, t)" by fastforce
    then have "sel_frame ?s t" by (rule framedD [OF register_clause_impl_framed])
    then show ?thesis using assms run Some
      by (auto simp: register_clause_def exec_simps split: sum.splits if_splits)
  qed (use assms in \<open>simp add: register_clause_def exec_simps\<close>)
  then show "sel_state s' = sel_state s" "sel_waiting s' = sel_waiting s" "sel_reregister s' = sel_reregister s" "sel_owner s' = sel_owner s"
    "sel_callers s' = sel_callers s" "sel_objects s' = map_option (\<lambda>os. os @ [clause_object c]) (sel_objects s)"
    "sel_selected s' = sel_selected s \<or> (\<exists>os. sel_objects s = Some os \<and> sel_selected s' = Some (length os))"
    by (auto simp: sel_frame_def sel_objects_def fresh_clause_def)
qed

lemma dispose_clauses_answer: "dispose_clauses cs s = (q, t) \<Longrightarrow> q = Inr () \<or> q = Inl Undefined_Behaviour"
  by (induction cs arbitrary: s) (auto simp: exec_simps clause_dispose_def split: option.splits sel_disposable.splits)

text \<open>The completion frees the clauses before it reads the selected one.\<close>

lemma sel_complete_effect:
  assumes "sel_complete s = (r, s')"
  shows "r \<in> {Inl Assertion_Failed, Inl Undefined_Behaviour}"
    "sel_callers s' = sel_callers s" "sel_owner s' = sel_owner s" "sel_waiting s' = sel_waiting s" "sel_selected s' = sel_selected s"
    "sel_state s' = sel_state s \<and> sel_objects s' = sel_objects s \<or> sel_state s' = S_Completed \<and> sel_objects s' = None"
proof -
  have "r \<in> {Inl Assertion_Failed, Inl Undefined_Behaviour} \<and> (sel_frame s s' \<or>
      (\<exists>t. sel_frame s t \<and> s' = t\<lparr>sel_state := S_Completed, sel_result := None, sel_clauses := None\<rparr>))"
  proof (cases "sel_selected s")
    case (Some p)
    show ?thesis
    proof (cases "sel_clauses s")
      case (Some cs)
      let ?others = "take p cs @ drop (Suc p) cs"
      obtain q t where run: "dispose_clauses ?others s = (q, t)" by fastforce
      then have frame: "sel_frame s t" by (rule framedD [OF dispose_clauses_framed])
      have "q = Inr () \<or> q = Inl Undefined_Behaviour" by (rule dispose_clauses_answer [OF run])
      then show ?thesis using assms run frame Some \<open>sel_selected s = Some p\<close>
        by (auto simp: sel_complete_def sel_cleanup_def is_selected_def exec_simps with_clause_def clause_at_def)
    qed (use assms Some in \<open>simp add: sel_complete_def sel_cleanup_def is_selected_def exec_simps with_clause_def clause_at_def\<close>)
  qed (use assms in \<open>simp add: sel_complete_def exec_simps\<close>)
  then show "r \<in> {Inl Assertion_Failed, Inl Undefined_Behaviour}"
    "sel_callers s' = sel_callers s" "sel_owner s' = sel_owner s" "sel_waiting s' = sel_waiting s" "sel_selected s' = sel_selected s"
    "sel_state s' = sel_state s \<and> sel_objects s' = sel_objects s \<or> sel_state s' = S_Completed \<and> sel_objects s' = None"
    by (auto simp: sel_frame_def sel_objects_def)
qed

subsection \<open>Invariants\<close>

text \<open>A cancellation has begun.\<close>

definition cancelling :: "'r select \<Rightarrow> bool" where
  "cancelling s \<longleftrightarrow> (\<exists>c\<in>set (sel_callers s). c = CL_Clean \<or> (\<exists>r. c = CL_Done r))"

definition sel_parked :: "'r select \<Rightarrow> bool" where
  "sel_parked s \<longleftrightarrow> sel_owner s = SO_Suspended \<or> sel_owner s = SO_Resumed"

definition phase_ok :: "'r select \<Rightarrow> bool" where
  "phase_ok s \<longleftrightarrow> (sel_state s = S_Cont \<longrightarrow> sel_owner s = SO_Suspended \<and> sel_waiting s) \<and>
     (\<forall>p. sel_state s = S_Clause p \<longrightarrow> sel_parked s) \<and> (sel_owner s = SO_Swap \<longrightarrow> sel_waiting s) \<and>
     (sel_objects s = None \<longrightarrow> cancelling s \<or> (\<exists>r. sel_owner s = SO_Ended r))"

text \<open>The pointer to a clause that a call of \<open>try_select\<close> holds.\<close>

fun held :: "sel_pc \<Rightarrow> nat option" where
  "held (TS_Swap p) = Some p" | "held (TS_Result p) = Some p" | "held (TS_Selected p) = Some p" | "held (TS_Clear p) = Some p"
| "held (TS_Resume p) = Some p" | "held (TS_Undo p) = Some p" | "held (TS_Unselect p) = Some p" | "held _ = None"

definition points_to :: "'r select \<Rightarrow> nat \<Rightarrow> nat \<Rightarrow> bool" where
  "points_to s p obj \<longleftrightarrow> (\<forall>os. sel_objects s = Some os \<longrightarrow> p < length os \<and> os ! p = obj)"

definition pointers_ok :: "'r select \<Rightarrow> bool" where
  "pointers_ok s \<longleftrightarrow> (\<forall>p. sel_state s = S_Clause p \<or> sel_selected s = Some p \<longrightarrow> (\<exists>obj. points_to s p obj)) \<and>
     (\<forall>obj r pc p. CL_Try obj r pc \<in> set (sel_callers s) \<and> held pc = Some p \<longrightarrow> points_to s p obj)"

text \<open>A call that has won the exchange of the state.\<close>

fun won :: "sel_pc \<Rightarrow> bool" where
  "won (TS_Result p) = True" | "won (TS_Selected p) = True" | "won (TS_Clear p) = True" | "won (TS_Resume p) = True"
| "won (TS_Undo p) = True" | "won (TS_Unselect p) = True" | "won (TS_Returned q) \<longleftrightarrow> q = TRY_SELECT_SUCCESSFUL" | "won _ = False"

fun caller_won :: "'r sel_caller \<Rightarrow> bool" where
  "caller_won (CL_Try obj r pc) = won pc" | "caller_won _ = False"

definition winner_ok :: "'r select \<Rightarrow> bool" where
  "winner_ok s \<longleftrightarrow> length (filter caller_won (sel_callers s)) \<le> 1 \<and>
     (\<forall>c\<in>set (sel_callers s). caller_won c \<longrightarrow> sel_parked s \<and> sel_state s \<noteq> S_Reg \<and> sel_state s \<noteq> S_Cont)"

text \<open>What the winner has stored, unless the select is being cancelled.\<close>

fun stored :: "'r select \<Rightarrow> nat \<Rightarrow> 'r \<Rightarrow> sel_pc \<Rightarrow> bool" where
  "stored s obj r (TS_Result p) \<longleftrightarrow> sel_state s = S_Clause p"
| "stored s obj r (TS_Selected p) \<longleftrightarrow> sel_state s = S_Clause p \<and> sel_result s = Some r"
| "stored s obj r (TS_Clear p) \<longleftrightarrow> sel_state s = S_Clause p \<and> sel_result s = Some r \<and> sel_selected s = Some p"
| "stored s obj r (TS_Resume p) \<longleftrightarrow> sel_state s = S_Clause p \<and> sel_result s = Some r \<and> sel_selected s = Some p"
| "stored s obj r (TS_Returned TRY_SELECT_SUCCESSFUL) \<longleftrightarrow>
     (\<exists>p. sel_state s = S_Clause p \<and> sel_result s = Some r \<and> sel_selected s = Some p \<and> points_to s p obj) \<and> sel_owner s = SO_Resumed"
| "stored s obj r _ \<longleftrightarrow> True"

definition stores_ok :: "'r select \<Rightarrow> bool" where
  "stores_ok s \<longleftrightarrow> cancelling s \<or> (\<forall>obj r pc. CL_Try obj r pc \<in> set (sel_callers s) \<longrightarrow> stored s obj r pc)"

definition select_ok :: "'r select \<Rightarrow> bool" where
  "select_ok s \<longleftrightarrow> phase_ok s \<and> pointers_ok s \<and> winner_ok s \<and> stores_ok s"

lemma new_select_ok: "select_ok (new_select n)"
  by (auto simp: select_ok_def phase_ok_def pointers_ok_def winner_ok_def stores_ok_def new_select_def sel_objects_def sel_parked_def)

lemma first_clause_points: "first_clause obj cs = Some p \<Longrightarrow> p < length cs \<and> clause_object (cs ! p) = obj"
  by (induction cs arbitrary: p) (auto split: if_splits)

lemma find_clause_points: "find_clause obj s = Inr (Some p) \<Longrightarrow> points_to s p obj"
  by (auto simp: find_clause_def points_to_def sel_objects_def dest!: first_clause_points split: option.splits)

lemma select_fields [simp]:
  "sel_state (put_caller i c s) = sel_state s" "sel_objects (put_caller i c s) = sel_objects s" "sel_result (put_caller i c s) = sel_result s"
  "sel_waiting (put_caller i c s) = sel_waiting s" "sel_selected (put_caller i c s) = sel_selected s" "sel_owner (put_caller i c s) = sel_owner s"
  "sel_callers (put_caller i c s) = (sel_callers s)[i := c]"
  "sel_state (put_owner pc s) = sel_state s" "sel_objects (put_owner pc s) = sel_objects s" "sel_result (put_owner pc s) = sel_result s"
  "sel_waiting (put_owner pc s) = sel_waiting s" "sel_selected (put_owner pc s) = sel_selected s" "sel_owner (put_owner pc s) = pc"
  "sel_callers (put_owner pc s) = sel_callers s" "sel_clauses (put_owner pc s) = sel_clauses s" "sel_clauses (put_caller i c s) = sel_clauses s"
  by (simp_all add: put_caller_def put_owner_def sel_objects_def)

lemma single_winner:
  assumes "length (filter P xs) \<le> 1" "i < length xs" "P (xs ! i)" "j < length xs" "j \<noteq> i"
  shows "\<not> P (xs ! j)"
proof
  assume "P (xs ! j)"
  then have "card {i, j} \<le> card {k. k < length xs \<and> P (xs ! k)}" using assms by (intro card_mono) auto
  then show False using assms by (simp add: length_filter_conv_card)
qed

lemma not_won_stored: "\<not> won pc \<Longrightarrow> stored s obj r pc"
  by (cases "(s, obj, r, pc)" rule: stored.cases) auto

lemma points_to_cong: "sel_objects s' = sel_objects s \<Longrightarrow> points_to s' p obj = points_to s p obj"
  by (simp add: points_to_def)

lemma stored_cong:
  assumes "sel_state s' = sel_state s" "sel_selected s' = sel_selected s" "sel_result s' = sel_result s" "sel_owner s' = sel_owner s"
    "sel_objects s' = sel_objects s"
  shows "stored s' obj r pc = stored s obj r pc"
  using assms by (cases "(s, obj, r, pc)" rule: stored.cases) (simp_all add: points_to_def)

text \<open>A caller that moves leaves the others where they are.\<close>

lemma other_callers:
  assumes "i < length cs" "c \<in> set (cs[i := x])"
  shows "c = x \<or> c \<in> set cs \<and> (length (filter P cs) \<le> 1 \<and> P (cs ! i) \<longrightarrow> \<not> P c)"
  using assms single_winner [of P cs i] by (auto simp: in_set_conv_nth nth_list_update split: if_splits)

lemma cancelling_update:
  assumes "i < length (sel_callers s)" "sel_callers s ! i = CL_Try obj r pc" "sel_callers s' = (sel_callers s)[i := CL_Try obj r pc']"
  shows "cancelling s' = cancelling s"
proof -
  have "c \<in> set (sel_callers s') \<longleftrightarrow> c \<in> set (sel_callers s)" if "c = CL_Clean \<or> (\<exists>q. c = CL_Done q)" for c
    using assms that by (auto simp: in_set_conv_nth nth_list_update) (metis sel_caller.distinct)+
  then show ?thesis unfolding cancelling_def by blast
qed

lemma try_select_effect:
  assumes "try_select_step resumed obj r pc s = (pc', t)"
  shows "sel_callers t = sel_callers s" "sel_objects t = sel_objects s"
    "sel_owner t = sel_owner s \<or> won pc \<and> sel_owner t = SO_Resumed"
    "sel_state t = sel_state s \<and> (won pc' \<longrightarrow> won pc) \<or> (\<exists>p. pc = TS_Swap p \<and> pc' = TS_Result p \<and> sel_state s = S_Cont \<and> sel_state t = S_Clause p)"
    "sel_waiting t = sel_waiting s \<or> won pc"
    "sel_selected t = sel_selected s \<or> won pc \<and> sel_selected t = None \<or> (\<exists>p. pc = TS_Selected p \<and> sel_selected t = Some p)"
    "sel_result t = sel_result s \<or> won pc"
    "held pc' = Some p \<Longrightarrow> held pc = Some p \<or> points_to s p obj"
  using assms by (cases pc; auto simp: sel_objects_def split: if_splits sum.splits option.splits dest: find_clause_points)+

lemma try_select_stored:
  assumes "try_select_step resumed obj r pc s = (pc', t)" "stored s obj r pc" "\<And>p. held pc = Some p \<Longrightarrow> points_to s p obj"
  shows "stored t obj r pc'"
proof (cases "won pc'")
  case True
  then show ?thesis using assms
    by (cases pc; auto split: if_splits sum.splits option.splits simp: points_to_def sel_objects_def)
qed (rule not_won_stored)

lemma try_select_ok:
  assumes ok: "select_ok s" and i: "i < length (sel_callers s)" "sel_callers s ! i = CL_Try obj r pc"
    and step: "try_select_step resumed obj r pc s = (pc', t)"
  shows "select_ok (put_caller i (CL_Try obj r pc') t)"
proof -
  let ?t = "put_caller i (CL_Try obj r pc') t"
  note eff = try_select_effect [OF step]
  have inv: "phase_ok s" "pointers_ok s" "winner_ok s" "stores_ok s" using ok by (auto simp: select_ok_def)
  have me: "CL_Try obj r pc \<in> set (sel_callers s)" using i by (metis nth_mem)
  have parked: "won pc \<Longrightarrow> sel_parked s \<and> sel_state s \<noteq> S_Reg \<and> sel_state s \<noteq> S_Cont" using inv(3) me
    unfolding winner_ok_def by (metis caller_won.simps(1))
  have others: "c = CL_Try obj r pc' \<or> c \<in> set (sel_callers s) \<and> (won pc \<longrightarrow> \<not> caller_won c)" if "c \<in> set (sel_callers ?t)" for c
    using other_callers [OF i(1), of c "CL_Try obj r pc'" caller_won] that eff(1) inv(3) i(2) by (auto simp: winner_ok_def)
  have canc: "cancelling ?t = cancelling s" using cancelling_update [OF i, of ?t] eff(1) by simp
  have none_won: "\<not> caller_won c" if "sel_state s = S_Cont" "c \<in> set (sel_callers s)" for c
    using that inv(3) by (auto simp: winner_ok_def)
  have "phase_ok ?t"
  proof (cases "won pc")
    case True
    then have "sel_owner t = SO_Suspended \<or> sel_owner t = SO_Resumed" "sel_owner s = SO_Suspended \<or> sel_owner s = SO_Resumed"
      using parked eff(3) unfolding sel_parked_def by metis+
    moreover have "sel_state t \<noteq> S_Cont" using True parked eff(4) by auto
    moreover have "sel_objects t = None \<Longrightarrow> cancelling s" using calculation(2) inv(1) eff(2) unfolding phase_ok_def by fastforce
    ultimately show ?thesis unfolding phase_ok_def select_fields canc sel_parked_def by fastforce
  next
    case False
    then have o: "sel_owner t = sel_owner s" "sel_waiting t = sel_waiting s" using eff(3,5) by auto
    moreover have "sel_state t = S_Cont \<Longrightarrow> sel_state s = S_Cont" using eff(4) by auto
    moreover have "sel_state t = S_Clause p \<Longrightarrow> sel_parked s" for p
      using eff(4) inv(1) unfolding phase_ok_def sel_parked_def by metis
    ultimately show ?thesis using inv(1) unfolding phase_ok_def select_fields canc sel_parked_def o eff(2) by blast
  qed
  moreover have "pointers_ok ?t"
  proof -
    have here: "points_to ?t = points_to s" by (intro ext points_to_cong) (simp add: eff(2))
    have mine: "points_to s p obj" if "held pc = Some p" for p using that inv(2) me unfolding pointers_ok_def by blast
    have "\<exists>obj. points_to s p obj" if "sel_state t = S_Clause p \<or> sel_selected t = Some p" for p
      using that eff(4,6) inv(2) mine unfolding pointers_ok_def by (metis held.simps option.discI option.inject sel_word.inject)
    moreover have "points_to s p obj'" if "CL_Try obj' r' pc2 \<in> set (sel_callers ?t)" "held pc2 = Some p" for obj' r' pc2 p
      using others [OF that(1)] that(2) mine eff(8) inv(2) unfolding pointers_ok_def by blast
    ultimately show ?thesis unfolding pointers_ok_def here by auto
  qed
  moreover have "winner_ok ?t"
  proof -
    have count: "length (filter caller_won ((sel_callers s)[i := CL_Try obj r pc'])) + of_bool (won pc) =
        length (filter caller_won (sel_callers s)) + of_bool (won pc')"
      using length_filter_update [OF i(1), of caller_won "CL_Try obj r pc'"] i(2) by simp
    show ?thesis
    proof (cases "won pc' \<longrightarrow> won pc")
      case True
      have "of_bool (won pc') \<le> (of_bool (won pc) :: nat)" using True by auto
      moreover have "length (filter caller_won (sel_callers s)) \<le> 1" using inv(3) by (simp add: winner_ok_def)
      ultimately have "length (filter caller_won (sel_callers ?t)) \<le> 1" using count unfolding select_fields eff(1) by linarith
      moreover have "sel_parked ?t \<and> sel_state ?t \<noteq> S_Reg \<and> sel_state ?t \<noteq> S_Cont" if "c \<in> set (sel_callers ?t)" "caller_won c" for c
        using others [OF that(1)] that(2) inv(3) eff(3,4) parked True by (auto simp: winner_ok_def sel_parked_def)
      ultimately show ?thesis by (auto simp: winner_ok_def)
    next
      case False
      then obtain p where p: "pc = TS_Swap p" "pc' = TS_Result p" "sel_state s = S_Cont" "sel_state t = S_Clause p" using eff(4) by auto
      then have "filter caller_won (sel_callers s) = []" using none_won by (auto simp: filter_empty_conv)
      moreover have "sel_parked ?t" using inv(1) p(1,3) eff(3) by (auto simp: phase_ok_def sel_parked_def)
      ultimately show ?thesis using count p eff(1) by (simp add: winner_ok_def)
    qed
  qed
  moreover have "stores_ok ?t"
  proof (cases "cancelling s")
    case False
    have "stored ?t obj' r' pc2" if c: "CL_Try obj' r' pc2 \<in> set (sel_callers ?t)" for obj' r' pc2
    proof (cases "CL_Try obj' r' pc2 = CL_Try obj r pc'")
      case True
      have "stored t obj r pc'"
        using try_select_stored [OF step] inv(2,4) me False unfolding stores_ok_def pointers_ok_def by blast
      then show ?thesis using True by (cases "(t, obj, r, pc')" rule: stored.cases) (auto simp: points_to_def)
    next
      case other: False
      then have old: "CL_Try obj' r' pc2 \<in> set (sel_callers s)" "won pc \<longrightarrow> \<not> won pc2" using others [OF c] by auto
      show ?thesis
      proof (cases "won pc2")
        case True
        then have "sel_state s \<noteq> S_Cont" using none_won old(1) by force
        then have same: "sel_state ?t = sel_state s" "sel_selected ?t = sel_selected s" "sel_result ?t = sel_result s" "sel_owner ?t = sel_owner s"
          using eff old(2) True by auto
        show ?thesis using old(1) inv(4) False stored_cong [OF same] eff(2) by (auto simp: stores_ok_def)
      qed (rule not_won_stored)
    qed
    then show ?thesis by (auto simp: stores_ok_def)
  qed (simp add: stores_ok_def canc)
  ultimately show ?thesis by (simp add: select_ok_def)
qed

lemma cancelled_caller_ok:
  assumes ok: "select_ok s" and i: "i < length (sel_callers s)" "\<not> caller_won (sel_callers s ! i)" and c: "c = CL_Clean \<or> c = CL_Done r"
    and t: "sel_callers t = sel_callers s" "sel_owner t = sel_owner s" "sel_waiting t = sel_waiting s" "sel_selected t = sel_selected s"
      "sel_objects t = sel_objects s \<or> sel_objects t = None" "sel_state t = sel_state s \<or> sel_state t = S_Cancelled"
  shows "select_ok (put_caller i c t)"
proof -
  let ?t = "put_caller i c t"
  have canc: "cancelling ?t" using i(1) c t(1) by (auto simp: cancelling_def set_update_memI)
  have others: "x = c \<or> x \<in> set (sel_callers s)" if "x \<in> set (sel_callers ?t)" for x
    using that t(1) set_update_subset_insert [of "sel_callers s" i c] by auto
  have "phase_ok ?t"
  proof (cases "sel_state t = S_Cancelled")
    case False
    then have same: "sel_state t = sel_state s" using t(6) by simp
    show ?thesis using ok canc unfolding select_ok_def phase_ok_def sel_parked_def select_fields t(2,3) same by blast
  next
    case True
    then show ?thesis using ok canc by (simp add: select_ok_def phase_ok_def t(2,3))
  qed
  moreover have "pointers_ok ?t"
  proof -
    have weaker: "points_to s p obj \<Longrightarrow> points_to ?t p obj" for p obj using t(5) by (auto simp: points_to_def)
    have ptr: "pointers_ok s" using ok by (simp add: select_ok_def)
    have "\<exists>obj. points_to ?t p obj" if "sel_state t = S_Clause p \<or> sel_selected t = Some p" for p
    proof -
      have "sel_state s = S_Clause p \<or> sel_selected s = Some p" using that t(4,6) by auto
      then show ?thesis using ptr weaker unfolding pointers_ok_def by blast
    qed
    moreover have "points_to ?t p obj" if "CL_Try obj q pc \<in> set (sel_callers ?t)" "held pc = Some p" for obj q pc p
    proof -
      have "CL_Try obj q pc \<in> set (sel_callers s)" using others [OF that(1)] c by auto
      then show ?thesis using that(2) ptr weaker unfolding pointers_ok_def by blast
    qed
    ultimately show ?thesis unfolding pointers_ok_def select_fields(1,5) by blast
  qed
  moreover have "winner_ok ?t"
  proof -
    have "length (filter caller_won (sel_callers ?t)) = length (filter caller_won (sel_callers s))"
      using length_filter_update [OF i(1), of caller_won c] i(2) c t(1) by auto
    moreover have "sel_parked t \<and> sel_state t \<noteq> S_Reg \<and> sel_state t \<noteq> S_Cont" if "x \<in> set (sel_callers ?t)" "caller_won x" for x
      using others [OF that(1)] that(2) c ok t(2,6) by (auto simp: select_ok_def winner_ok_def sel_parked_def)
    ultimately show ?thesis using ok by (simp add: select_ok_def winner_ok_def sel_parked_def)
  qed
  ultimately show ?thesis using canc by (simp add: select_ok_def stores_ok_def)
qed

lemma begin_ok:
  assumes ok: "select_ok s" and i: "i < length (sel_callers s)" "sel_callers s ! i = CL_Idle"
  shows "select_ok (put_caller i (CL_Try obj r TS_Load) s)"
proof -
  let ?c = "CL_Try obj r TS_Load" and ?t = "put_caller i (CL_Try obj r TS_Load) s"
  have others: "x = ?c \<or> x \<in> set (sel_callers s)" if "x \<in> set (sel_callers ?t)" for x
    using that set_update_subset_insert [of "sel_callers s" i ?c] by auto
  have keep: "x \<in> set (sel_callers ?t)" if "x \<in> set (sel_callers s)" "x \<noteq> CL_Idle" for x
    using that i by (auto simp: in_set_conv_nth nth_list_update)
  have canc: "cancelling ?t = cancelling s"
    unfolding cancelling_def using others keep by (metis sel_caller.distinct(1,3,5,7,9,11))
  have count: "length (filter caller_won (sel_callers ?t)) = length (filter caller_won (sel_callers s))"
    using length_filter_update [OF i(1), of caller_won ?c] i(2) by simp
  have cong: "points_to ?t = points_to s" by (intro ext points_to_cong) simp
  have "phase_ok ?t" using ok canc by (simp add: select_ok_def phase_ok_def sel_parked_def)
  moreover have "pointers_ok ?t"
  proof -
    have "points_to s p obj'" if "CL_Try obj' r' pc \<in> set (sel_callers ?t)" "held pc = Some p" for obj' r' pc p
      using others [OF that(1)] that(2) ok unfolding select_ok_def pointers_ok_def by auto
    then show ?thesis using ok unfolding select_ok_def pointers_ok_def cong select_fields by blast
  qed
  moreover have "winner_ok ?t"
  proof -
    have "sel_parked s \<and> sel_state s \<noteq> S_Reg \<and> sel_state s \<noteq> S_Cont" if "x \<in> set (sel_callers ?t)" "caller_won x" for x
      using others [OF that(1)] that(2) ok by (auto simp: select_ok_def winner_ok_def)
    then show ?thesis using ok count by (simp add: select_ok_def winner_ok_def sel_parked_def)
  qed
  moreover have "stores_ok ?t"
  proof -
    have "stored ?t obj' r' pc" if "CL_Try obj' r' pc \<in> set (sel_callers ?t)" "\<not> cancelling s" for obj' r' pc
    proof (cases "CL_Try obj' r' pc = ?c")
      case False
      then have "stored s obj' r' pc" using others [OF that(1)] that(2) ok unfolding select_ok_def stores_ok_def by blast
      then show ?thesis by (simp add: stored_cong [of ?t s])
    qed (rule not_won_stored, simp)
    then show ?thesis using canc by (auto simp: stores_ok_def)
  qed
  ultimately show ?thesis by (simp add: select_ok_def)
qed

lemma unparked_ok:
  assumes ok: "select_ok s" and free: "\<not> sel_parked s" and t: "sel_callers t = sel_callers s" "sel_selected t = sel_selected s"
      "sel_objects t = sel_objects s \<or> sel_objects t = None \<and> (\<exists>r. sel_owner t = SO_Ended r)"
      "sel_state t = S_Cont \<Longrightarrow> sel_owner t = SO_Suspended \<and> sel_waiting t" "\<And>p. sel_state t \<noteq> S_Clause p"
      "sel_owner t = SO_Swap \<Longrightarrow> sel_waiting t" "\<And>r. sel_owner s = SO_Ended r \<Longrightarrow> \<exists>r. sel_owner t = SO_Ended r"
  shows "select_ok t"
proof -
  have none: "\<not> caller_won c" if "c \<in> set (sel_callers t)" for c
    using that t(1) free ok by (auto simp: select_ok_def winner_ok_def)
  have canc: "cancelling t = cancelling s" by (simp add: cancelling_def t(1))
  have "phase_ok t" using t ok canc unfolding select_ok_def phase_ok_def by metis
  moreover have "points_to s p obj \<Longrightarrow> points_to t p obj" for p obj using t(3) by (auto simp: points_to_def)
  then have "pointers_ok t" using ok t(1,2,5) unfolding select_ok_def pointers_ok_def by metis
  moreover have "winner_ok t" using none by (auto simp: winner_ok_def filter_empty_conv [THEN iffD2])
  moreover have "stores_ok t"
  proof -
    have "stored t obj r pc" if "CL_Try obj r pc \<in> set (sel_callers t)" for obj r pc
      using none [OF that] by (simp add: not_won_stored)
    then show ?thesis by (auto simp: stores_ok_def)
  qed
  ultimately show ?thesis by (simp add: select_ok_def)
qed

lemma unparked_state: "select_ok s \<Longrightarrow> \<not> sel_parked s \<Longrightarrow> sel_state s \<noteq> S_Cont \<and> (\<forall>p. sel_state s \<noteq> S_Clause p)"
  unfolding select_ok_def phase_ok_def sel_parked_def by blast

lemma ended_ok:
  assumes ok: "select_ok s" "\<not> sel_parked s" and run: "sel_complete s = (r, t)"
  shows "select_ok (put_owner (SO_Ended r) t)"
  by (rule unparked_ok [OF ok]) (use sel_complete_effect [OF run] unparked_state [OF ok] in auto)

lemma owner_ok:
  assumes ok: "select_ok s" and run: "owner_step (sel_owner s) s = (pc, t)"
  shows "select_ok (put_owner pc t)"
proof (cases "sel_parked s")
  case True
  then have "pc = sel_owner s" "t = s" using run by (auto simp: sel_parked_def)
  then show ?thesis using ok by (simp add: put_owner_def)
next
  case False
  note st = unparked_state [OF ok False]
  have sw: "sel_owner s = SO_Swap \<Longrightarrow> sel_waiting s" using ok by (simp add: select_ok_def phase_ok_def)
  note intro = unparked_ok [OF ok False]
  show ?thesis
  proof (cases "sel_owner s")
    case (SO_Reregister l)
    show ?thesis
    proof (cases l)
      case (Cons obj l')
      obtain q u where q: "reregister_clause obj s = (q, u)" by fastforce
      have "sel_frame s u" by (rule framedD [OF reregister_clause_framed q])
      then show ?thesis using run SO_Reregister Cons q st
        by (intro intro) (auto simp: sel_frame_def split: sum.splits)
    qed (use run SO_Reregister st in \<open>intro intro; auto\<close>)
  next
    case SO_Check
    then show ?thesis
    proof (cases "is_selected s")
      case True
      obtain q u where q: "sel_complete s = (q, u)" by fastforce
      then have "pc = SO_Ended q" "t = u" using run SO_Check True by simp_all
      then show ?thesis using ended_ok [OF ok False q] by simp
    qed (use run SO_Check st in \<open>intro intro; auto\<close>)
  next
    case SO_Swap
    then show ?thesis using run sw st by (intro intro) (auto simp: sel_objects_def split: if_splits)
  next
    case (SO_Take w)
    then show ?thesis using run st by (intro intro) (auto simp: sel_objects_def split: option.splits)
  next
    case (SO_Reswap w l)
    then show ?thesis using run st by (intro intro) (auto simp: sel_objects_def split: if_splits)
  next
    case (SO_Ended r)
    then have "pc = SO_Ended r" "t = s" using run by simp_all
    then show ?thesis using st by (intro intro) simp_all
  qed (use run st False in \<open>(intro intro; auto simp: sel_objects_def sel_parked_def split: if_splits)\<close>)+
qed

lemma do_select_ok:
  assumes ok: "select_ok s" "sel_owner s = SO_Register" and run: "do_select s = (pc, t)"
  shows "select_ok (put_owner pc t)"
proof -
  have free: "\<not> sel_parked s" using ok(2) by (simp add: sel_parked_def)
  obtain q u where q: "sel_complete s = (q, u)" by fastforce
  show ?thesis
  proof (cases "is_selected s")
    case True
    then show ?thesis using run q ended_ok [OF ok(1) free q] by (simp add: do_select_def)
  next
    case False
    then show ?thesis using run ok(2) unparked_state [OF ok(1) free]
      by (intro unparked_ok [OF ok(1) free]) (auto simp: do_select_def)
  qed
qed

lemma register_clause_ok:
  assumes ok: "select_ok s" "sel_owner s = SO_Register" and run: "register_clause c s = (r, t)" and pc: "pc = SO_Register \<or> pc = SO_Ended q"
  shows "select_ok (put_owner pc t)"
proof -
  let ?t = "put_owner pc t"
  have free: "\<not> sel_parked s" using ok(2) by (simp add: sel_parked_def)
  note eff = register_clause_effect [OF run] and st = unparked_state [OF ok(1) free]
  have none: "\<not> caller_won x" if "x \<in> set (sel_callers ?t)" for x
    using that eff(5) free ok by (auto simp: select_ok_def winner_ok_def)
  have canc: "cancelling ?t = cancelling s" by (simp add: cancelling_def eff(5))
  have "phase_ok ?t" using ok eff(1,6) st pc canc by (auto simp: select_ok_def phase_ok_def)
  moreover have "pointers_ok ?t"
  proof -
    have more: "points_to s p obj \<Longrightarrow> points_to ?t p obj" for p obj
      using eff(6) by (auto simp: points_to_def nth_append)
    have ptr: "pointers_ok s" using ok(1) by (simp add: select_ok_def)
    have "\<exists>obj. points_to ?t p obj" if sel: "sel_selected t = Some p" for p
    proof (cases "sel_selected s = Some p")
      case True
      then show ?thesis using ptr more unfolding pointers_ok_def by blast
    next
      case False
      then obtain os where "sel_objects s = Some os" "p = length os" using sel eff(7) by auto
      then have "points_to ?t p (clause_object c)" using eff(6) by (simp add: points_to_def)
      then show ?thesis by blast
    qed
    moreover have "points_to ?t p obj" if "CL_Try obj q pc \<in> set (sel_callers t)" "held pc = Some p" for obj q pc p
      using that ptr more unfolding pointers_ok_def eff(5) by blast
    ultimately show ?thesis using st unfolding pointers_ok_def select_fields eff(1) by blast
  qed
  moreover have "winner_ok ?t" using none by (auto simp: winner_ok_def filter_empty_conv [THEN iffD2])
  moreover have "stores_ok ?t"
  proof -
    have "stored ?t obj r' pc" if "CL_Try obj r' pc \<in> set (sel_callers ?t)" for obj r' pc
      using none [OF that] by (simp add: not_won_stored)
    then show ?thesis by (auto simp: stores_ok_def)
  qed
  ultimately show ?thesis by (simp add: select_ok_def)
qed

lemma sel_cancel_cleanup_effect:
  assumes "sel_cancel_cleanup s = (r, t)"
  shows "sel_callers t = sel_callers s" "sel_owner t = sel_owner s" "sel_waiting t = sel_waiting s" "sel_selected t = sel_selected s"
    "sel_objects t = sel_objects s \<or> sel_objects t = None" "sel_state t = sel_state s"
proof -
  have "sel_frame s t \<or> (\<exists>u. sel_frame s u \<and> t = u\<lparr>sel_result := None, sel_clauses := None\<rparr>)"
  proof (cases "sel_clauses s")
    case (Some cs)
    obtain q u where run: "dispose_clauses cs s = (q, u)" by fastforce
    then have "sel_frame s u" by (rule framedD [OF dispose_clauses_framed])
    then show ?thesis using assms Some run by (auto simp: sel_cancel_cleanup_def exec_simps split: sum.splits)
  qed (use assms in \<open>simp add: sel_cancel_cleanup_def exec_simps\<close>)
  then show "sel_callers t = sel_callers s" "sel_owner t = sel_owner s" "sel_waiting t = sel_waiting s" "sel_selected t = sel_selected s"
    "sel_objects t = sel_objects s \<or> sel_objects t = None" "sel_state t = sel_state s"
    by (auto simp: sel_frame_def sel_objects_def)
qed

lemma sel_step_ok: "select_ok s \<Longrightarrow> select_ok (sel_step op s)"
proof (cases op)
  case (Sel_Register c)
  assume ok: "select_ok s"
  obtain r t where run: "register_clause c s = (r, t)" by fastforce
  show ?thesis
  proof (cases "sel_owner s = SO_Register")
    case True
    have "put_owner SO_Register t = t" using register_clause_effect(4) [OF run] True by (simp add: put_owner_def)
    then show ?thesis
      using register_clause_ok [OF ok True run, of SO_Register] register_clause_ok [OF ok True run] Sel_Register True run
      by (auto simp: builder_step_def split: sum.split)
  qed (use ok Sel_Register in simp)
next
  case (Sel_Call i b)
  assume ok: "select_ok s"
  show ?thesis
  proof (cases "i < length (sel_callers s)")
    case True
    note step = Sel_Call True
    show ?thesis
    proof (cases "sel_callers s ! i")
      case (CL_Try obj r pc)
      obtain pc' t where "try_select_step b obj r pc s = (pc', t)" by fastforce
      then show ?thesis using try_select_ok [OF ok True CL_Try] CL_Try step by (simp add: caller_step_def)
    next
      case CL_Clean
      obtain r t where run: "sel_cancel_cleanup s = (r, t)" by fastforce
      have "select_ok (put_caller i (CL_Done r) t)"
        by (rule cancelled_caller_ok [OF ok True]) (use CL_Clean sel_cancel_cleanup_effect [OF run] in auto)
      then show ?thesis using CL_Clean step run by (simp add: caller_step_def)
    qed (use ok step in \<open>simp_all add: caller_step_def\<close>)
  qed (use ok Sel_Call in simp)
next
  case (Sel_Cancel i)
  assume ok: "select_ok s"
  show ?thesis
  proof (cases "i < length (sel_callers s) \<and> sel_callers s ! i = CL_Idle")
    case True
    have "select_ok (sel_cancel i s)" unfolding sel_cancel_def
      by (auto intro!: cancelled_caller_ok [OF ok, of i] simp: True sel_objects_def)
    then show ?thesis using Sel_Cancel True by simp
  qed (use ok Sel_Cancel in auto)
qed (auto simp: begin_ok owner_ok do_select_ok split: prod.split)

lemma sel_run_ok: "select_ok s \<Longrightarrow> select_ok (sel_run ops s)"
  by (induction ops arbitrary: s) (auto simp: sel_run_def sel_step_ok)

subsection \<open>A rendezvous happens once\<close>


text \<open>A clause whose registration function leaves the select waiting.\<close>

definition quiet_clause :: "nat \<Rightarrow> nat sel_clause" where
  "quiet_clause obj = \<lparr>clause_object = obj, reg_func = \<lambda>_. [], process_res_func = \<lambda>_. Inr 0, clause_block = Inr,
     clause_handle = None, clause_index = -1, registered = 0\<rparr>"

definition rendezvous_ops :: "nat sel_op list" where
  "rendezvous_ops = [Sel_Register (quiet_clause 5), Sel_Do_Select] @ replicate 4 Sel_Owner @ [Sel_Begin 0 5 9] @ replicate 8 (Sel_Call 0 True)"

lemmas select_eval = sel_run_def new_select_def builder_step_def caller_step_def put_caller_def put_owner_def register_clause_def
  register_clause_impl_def try_register_as_waiter_def check_clause_object_def exec_simps with_clause_def clause_at_def update_clause_def
  is_selected_def sel_is_cancelled_def in_registration_phase_def fresh_clause_def keep_disposable_def do_select_def find_clause_def
  sel_cancel_def sel_complete_def sel_cleanup_def

lemma rendezvous_ops_run:
  "sel_callers (sel_run rendezvous_ops (new_select 1)) = [CL_Try 5 9 (TS_Returned TRY_SELECT_SUCCESSFUL)]"
  by (simp add: rendezvous_ops_def quiet_clause_def select_eval numeral_eq_Suc)


text \<open>C23: In every interleaving each pointer to a clause, of the state, of the selected clause and of a thread inside try_select, points
  into the vector of clauses as long as it exists, a thread's pointer to a clause of the object the thread named; and the vector
  is deleted only by the completion or a cancellation.\<close>

theorem select_pointers_typed:
  fixes ops :: "'r sel_op list" and n :: nat
  defines "s \<equiv> sel_run ops (new_select n)"
  shows "(\<forall>cs. sel_clauses s = Some cs \<longrightarrow>
        (\<forall>p. sel_state s = S_Clause p \<or> sel_selected s = Some p \<longrightarrow> p < length cs) \<and>
        (\<forall>obj r pc p. CL_Try obj r pc \<in> set (sel_callers s) \<and> held pc = Some p \<longrightarrow> p < length cs \<and> clause_object (cs ! p) = obj)) \<and>
     (sel_clauses s = None \<longrightarrow> cancelling s \<or> (\<exists>r. sel_owner s = SO_Ended r))"
proof -
  have ok: "select_ok s" unfolding s_def by (rule sel_run_ok [OF new_select_ok])
  have points: "p < length cs \<and> clause_object (cs ! p) = obj" if "points_to s p obj" "sel_clauses s = Some cs" for p obj cs
    using that by (auto simp: points_to_def sel_objects_def)
  have ptr: "pointers_ok s" and ph: "phase_ok s" using ok by (auto simp: select_ok_def)
  have "p < length cs" if "sel_clauses s = Some cs" "sel_state s = S_Clause p \<or> sel_selected s = Some p" for cs p
    using that ptr points unfolding pointers_ok_def by blast
  moreover have "p < length cs \<and> clause_object (cs ! p) = obj"
    if "sel_clauses s = Some cs" "CL_Try obj r pc \<in> set (sel_callers s)" "held pc = Some p" for cs obj r pc p
    using that ptr points unfolding pointers_ok_def by blast
  moreover have "cancelling s \<or> (\<exists>r. sel_owner s = SO_Ended r)" if "sel_clauses s = None"
    using that ph by (auto simp: phase_ok_def sel_objects_def)
  ultimately show ?thesis by blast
qed

theorem select_pointers_typed_witness:
  "(case sel_clauses (sel_run (take 10 rendezvous_ops) (new_select 1)) of None \<Rightarrow> False | Some cs \<Rightarrow> clause_object (cs ! 0) = 5)"
proof -
  let ?s = "sel_run (take 10 rendezvous_ops) (new_select 1)"
  have run: "sel_callers ?s = [CL_Try 5 9 (TS_Swap 0)]" "sel_owner ?s = SO_Suspended"
    by (simp_all add: rendezvous_ops_def quiet_clause_def select_eval numeral_eq_Suc)
  have "\<not> cancelling ?s" unfolding cancelling_def run(1) by simp
  then obtain cs where "sel_clauses ?s = Some cs" using select_pointers_typed [of "take 10 rendezvous_ops" 1] run(2) by auto
  then show ?thesis using select_pointers_typed [of "take 10 rendezvous_ops" 1] run(1) by fastforce
qed

subsection \<open>The selection made by the registration\<close>

text \<open>What the calls of a registration function select: the last of its selections.\<close>

fun chosen :: "'r registration_call list \<Rightarrow> 'r option" where
  "chosen [] = None"
| "chosen (Select_Now r # cs) = (case chosen cs of None \<Rightarrow> Some r | Some r' \<Rightarrow> Some r')"
| "chosen (_ # cs) = chosen cs"

text \<open>The first selection that the registration functions make, and how often each of them is called.\<close>

fun first_chosen :: "'r sel_clause list \<Rightarrow> 'r option" where
  "first_chosen [] = None"
| "first_chosen (c # cs) = (case chosen (reg_func c 0) of None \<Rightarrow> first_chosen cs | Some r \<Rightarrow> Some r)"

fun calls_made :: "'r sel_clause list \<Rightarrow> nat list" where
  "calls_made [] = []"
| "calls_made (c # cs) = 1 # (if chosen (reg_func c 0) = None then calls_made cs else replicate (length cs) 0)"

definition never_throws :: "'r sel_clause \<Rightarrow> bool" where
  "never_throws c \<longleftrightarrow> (\<forall>e. Reg_Throws e \<notin> set (reg_func c 0))"

lemma inst_calls_run:
  assumes "\<forall>e. Reg_Throws e \<notin> set calls"
  shows "\<exists>d i. inst_calls calls s = (Inr (), s\<lparr>sel_disposable := d, sel_index := i,
    sel_result := (case chosen calls of None \<Rightarrow> sel_result s | Some r \<Rightarrow> Some r)\<rparr>)"
  using assms
proof (induction calls arbitrary: s)
  case Nil
  show ?case by (rule exI [where x = "sel_disposable s"], rule exI [where x = "sel_index s"]) (simp add: exec_simps)
next
  case (Cons c calls)
  have ih: "\<exists>d i. inst_calls calls t = (Inr (), t\<lparr>sel_disposable := d, sel_index := i,
      sel_result := (case chosen calls of None \<Rightarrow> sel_result t | Some r \<Rightarrow> Some r)\<rparr>)" for t
    using Cons by auto
  show ?case
  proof (cases c)
    case (Select_Now r)
    then show ?thesis using ih [of "select_in_registration_phase r s"]
      by (auto simp: exec_simps select_in_registration_phase_def split: option.splits)
  next
    case (Dispose_On h)
    then show ?thesis using ih [of "dispose_on_completion h s"] by (auto simp: exec_simps dispose_on_completion_def cong: option.case_cong)
  next
    case (Cancel_In g i)
    then show ?thesis using ih [of "invoke_on_cancellation g i s"] by (auto simp: exec_simps invoke_on_cancellation_def cong: option.case_cong)
  qed (use Cons.prems in auto)
qed

lemma sel_builder_append: "sel_builder (cs @ [c]) s = seq_e (sel_builder cs) (register_clause c) s"
proof (induction cs arbitrary: s)
  case Nil
  show ?case by (cases "register_clause c s") (auto simp: exec_simps split: sum.splits)
qed (simp add: exec_simps split: sum.split prod.split)

lemma first_chosen_append: "first_chosen (cs @ [c]) = (case first_chosen cs of None \<Rightarrow> chosen (reg_func c 0) | Some r \<Rightarrow> Some r)"
  by (induction cs) (auto split: option.split)

lemma calls_made_append: "calls_made (cs @ [c]) = calls_made cs @ [of_bool (first_chosen cs = None)]"
  by (induction cs) (auto simp: replicate_append_same split: option.split)

text \<open>The registration of the next clause, when the clauses before it did not select, and when one of them did.\<close>

lemma register_clause_waiting:
  assumes s: "sel_state s = S_Reg" "sel_clauses s = Some cs" "sel_selected s = None" "sel_result s = None"
    and c: "clause_object c \<notin> clause_object ` set cs" "never_throws c"
  shows "\<exists>t c'. register_clause c s = (Inr (), t) \<and> sel_state t = S_Reg \<and> sel_clauses t = Some (cs @ [c']) \<and>
    clause_object c' = clause_object c \<and> registered c' = 1 \<and> sel_result t = chosen (reg_func c 0) \<and>
    sel_selected t = (if chosen (reg_func c 0) = None then None else Some (length cs))"
proof -
  let ?u = "s\<lparr>sel_clauses := Some (cs @ [(fresh_clause c)\<lparr>registered := 1\<rparr>])\<rparr>"
  obtain d i where run: "inst_calls (reg_func c 0) ?u = (Inr (), ?u\<lparr>sel_disposable := d, sel_index := i,
      sel_result := (case chosen (reg_func c 0) of None \<Rightarrow> sel_result ?u | Some r \<Rightarrow> Some r)\<rparr>)"
    using inst_calls_run [of "reg_func c 0" ?u] c(2) unfolding never_throws_def by blast
  show ?thesis
    using s c(1) run
    by (auto simp: register_clause_def register_clause_impl_def try_register_as_waiter_def check_clause_object_def exec_simps with_clause_def
        clause_at_def is_selected_def sel_is_cancelled_def in_registration_phase_def fresh_clause_def update_clause_def keep_disposable_def
        split: option.splits)
qed

lemma register_clause_selected:
  assumes s: "sel_state s = S_Reg" "sel_clauses s = Some cs" "sel_selected s \<noteq> None" "sel_result s \<noteq> None"
  shows "register_clause c s = (Inr (), s\<lparr>sel_clauses := Some (cs @ [fresh_clause c]), sel_selected := Some (length cs)\<rparr>)"
  using s by (simp add: register_clause_def register_clause_impl_def exec_simps is_selected_def sel_is_cancelled_def)

text \<open>C20: When the body of select registers clauses of different objects whose registration functions do not throw, the result that is kept
  is that of the first clause that selects at once, and the later registration functions are not called; but the selected clause is the
  last one registered, whichever clause that result belongs to.\<close>

theorem select_last_clause_wins:
  assumes "distinct (map clause_object cs)" "\<forall>c\<in>set cs. never_throws c"
  shows "\<exists>s cs'. sel_builder cs (new_select n) = (Inr (), s) \<and> sel_clauses s = Some cs' \<and> map clause_object cs' = map clause_object cs \<and>
    map registered cs' = calls_made cs \<and> sel_state s = S_Reg \<and> sel_result s = first_chosen cs \<and>
    sel_selected s = (if first_chosen cs = None then None else Some (length cs - 1))"
  using assms
proof (induction cs rule: rev_induct)
  case Nil
  then show ?case by (simp add: exec_simps new_select_def)
next
  case (snoc c cs)
  then obtain s cs' where s: "sel_builder cs (new_select n) = (Inr (), s)" "sel_clauses s = Some cs'" "map clause_object cs' = map clause_object cs"
      "map registered cs' = calls_made cs" "sel_state s = S_Reg" "sel_result s = first_chosen cs"
      "sel_selected s = (if first_chosen cs = None then None else Some (length cs - 1))"
    by auto
  then have run: "sel_builder (cs @ [c]) (new_select n) = register_clause c s" by (simp add: sel_builder_append exec_simps)
  have objs: "clause_object ` set cs' = clause_object ` set cs" "length cs' = length cs"
    using s(3) by (metis list.set_map, metis length_map)
  show ?case
  proof (cases "first_chosen cs")
    case None
    have none: "sel_selected s = None" "sel_result s = None" using s(6,7) None by simp_all
    have new: "clause_object c \<notin> clause_object ` set cs'" using snoc.prems(1) objs by auto
    have "never_throws c" using snoc.prems(2) by simp
    then obtain t c' where "register_clause c s = (Inr (), t) \<and> sel_state t = S_Reg \<and> sel_clauses t = Some (cs' @ [c']) \<and>
        clause_object c' = clause_object c \<and> registered c' = 1 \<and> sel_result t = chosen (reg_func c 0) \<and>
        sel_selected t = (if chosen (reg_func c 0) = None then None else Some (length cs'))"
      using register_clause_waiting [OF s(5,2) none new] by blast
    then show ?thesis using run s(3,4) None objs by (auto simp: first_chosen_append calls_made_append)
  next
    case (Some r)
    then show ?thesis using run s objs register_clause_selected [OF s(5,2), of c]
      by (auto simp: first_chosen_append calls_made_append fresh_clause_def)
  qed
qed

definition selecting_clause :: "nat \<Rightarrow> nat \<Rightarrow> nat sel_clause" where
  "selecting_clause obj r = (quiet_clause obj)\<lparr>reg_func := \<lambda>_. [Select_Now r]\<rparr>"

theorem select_last_clause_wins_witness:
  "\<exists>s. sel_builder [selecting_clause 1 11, quiet_clause 2] (new_select 0) = (Inr (), s) \<and> sel_result s = Some 11 \<and> sel_selected s = Some 1"
  using select_last_clause_wins [of "[selecting_clause 1 11, quiet_clause 2]" 0]
  by (auto simp: selecting_clause_def quiet_clause_def never_throws_def)

subsection \<open>The completion\<close>

definition handle_only :: "'r sel_clause \<Rightarrow> bool" where
  "handle_only c \<longleftrightarrow> (\<forall>g. clause_handle c \<noteq> Some (SD_Segment g))"

fun handles :: "'r sel_clause list \<Rightarrow> nat list" where
  "handles [] = []"
| "handles (c # cs) = (case clause_handle c of Some (SD_Handle h) \<Rightarrow> [h] | _ \<Rightarrow> []) @ handles cs"

lemma dispose_clauses_run:
  "\<forall>c\<in>set cs. handle_only c \<Longrightarrow> dispose_clauses cs s = (Inr (), s\<lparr>sel_disposed := sel_disposed s @ handles cs\<rparr>)"
proof (induction cs arbitrary: s)
  case (Cons c cs)
  then show ?case
    by (cases "clause_handle c" rule: option.exhaust; cases "the (clause_handle c)")
      (auto simp: exec_simps clause_dispose_def handle_only_def)
qed (simp add: exec_simps)

lemma never_returns:
  "(\<forall>v. sel_owner s \<noteq> SO_Ended (Inr v)) \<Longrightarrow> sel_owner (sel_step op s) \<noteq> SO_Ended (Inr v)"
proof (cases op)
  case (Sel_Register c)
  assume a: "\<forall>v. sel_owner s \<noteq> SO_Ended (Inr v)"
  obtain r t where "register_clause c s = (r, t)" by fastforce
  then show ?thesis using a Sel_Register register_clause_effect(4) [of c s r t] by (auto simp: builder_step_def split: sum.split)
next
  case Sel_Do_Select
  assume a: "\<forall>v. sel_owner s \<noteq> SO_Ended (Inr v)"
  obtain r t where "sel_complete s = (r, t)" by fastforce
  then show ?thesis using a Sel_Do_Select sel_complete_effect(1) [of s r t] by (auto simp: do_select_def)
next
  case Sel_Owner
  assume a: "\<forall>v. sel_owner s \<noteq> SO_Ended (Inr v)"
  obtain r t where r: "sel_complete s = (r, t)" by fastforce
  have "pc \<noteq> SO_Ended (Inr v)" if "owner_step (sel_owner s) s = (pc, t')" for pc t'
    using that a r sel_complete_effect(1) [OF r]
    by (cases "(sel_owner s, s)" rule: owner_step.cases) (auto split: if_splits option.splits prod.splits sum.splits)
  then show ?thesis using Sel_Owner by (auto split: prod.split)
next
  case (Sel_Call i b)
  assume a: "\<forall>v. sel_owner s \<noteq> SO_Ended (Inr v)"
  show ?thesis
  proof (cases "sel_callers s ! i")
    case (CL_Try obj r pc)
    obtain pc' t where t: "try_select_step b obj r pc s = (pc', t)" by fastforce
    then show ?thesis using a Sel_Call CL_Try try_select_effect(3) [OF t] by (auto simp: caller_step_def)
  next
    case CL_Clean
    obtain r t where t: "sel_cancel_cleanup s = (r, t)" by fastforce
    then show ?thesis using a Sel_Call CL_Clean sel_cancel_cleanup_effect(2) [OF t] by (auto simp: caller_step_def)
  qed (use a Sel_Call in \<open>simp_all add: caller_step_def\<close>)
qed (auto simp: sel_cancel_def)

text \<open>C21: A select never returns the value of a block: no interleaving ends with one. When a clause was selected by the registration, do_select
  disposes of the handles of the other clauses in order, marks the select as completed, deletes all clauses, and then reads the
  functions of the selected clause, which is one of them.\<close>

theorem select_block_never_runs:
  "sel_owner (sel_run ops (new_select n)) \<noteq> SO_Ended (Inr v) \<and>
   (sel_selected s = Some p \<and> sel_clauses s = Some cs \<and> (\<forall>c\<in>set (take p cs @ drop (Suc p) cs). handle_only c) \<longrightarrow>
     do_select s = (SO_Ended (Inl Undefined_Behaviour), s\<lparr>sel_disposed := sel_disposed s @ handles (take p cs @ drop (Suc p) cs),
       sel_state := S_Completed, sel_result := None, sel_clauses := None\<rparr>))"
proof
  have "(\<forall>v. sel_owner t \<noteq> SO_Ended (Inr v)) \<Longrightarrow> \<forall>v. sel_owner (sel_run ops t) \<noteq> SO_Ended (Inr v)" for t :: "'a select"
    by (induction ops arbitrary: t) (auto simp: sel_run_def never_returns)
  then show "sel_owner (sel_run ops (new_select n)) \<noteq> SO_Ended (Inr v)" by (simp add: new_select_def)
qed (auto simp: do_select_def is_selected_def sel_complete_def sel_cleanup_def exec_simps dispose_clauses_run with_clause_def clause_at_def)

theorem select_block_never_runs_witness:
  "fst (do_select (snd (sel_builder [quiet_clause 2, selecting_clause 1 11] (new_select 0)))) = SO_Ended (Inl Undefined_Behaviour)"
proof -
  let ?s = "snd (sel_builder [quiet_clause 2, selecting_clause 1 11] (new_select 0))"
  have "sel_selected ?s = Some 1" "\<exists>cs. sel_clauses ?s = Some cs \<and> (\<forall>c\<in>set (take 1 cs @ drop (Suc 1) cs). handle_only c)"
    by (simp_all add: selecting_clause_def quiet_clause_def select_eval select_in_registration_phase_def handle_only_def)
  then show ?thesis using select_block_never_runs [where s = ?s and p = 1] by (metis fst_conv)
qed

subsection \<open>Requests to register again\<close>

lemma dispose_clauses_keep: "dispose_clauses cs s = (q, t) \<Longrightarrow> sel_clauses t = sel_clauses s \<and> sel_owner t = sel_owner s"
proof (induction cs arbitrary: s)
  case (Cons c cs)
  then show ?case by (fastforce simp: exec_simps clause_dispose_def split: option.splits sel_disposable.splits)
qed (simp add: exec_simps)

text \<open>After the owner has been suspended nobody registers a clause.\<close>

lemma parked_step:
  assumes "sel_parked s"
  shows "sel_parked (sel_step op s) \<and> (sel_clauses (sel_step op s) = sel_clauses s \<or> sel_clauses (sel_step op s) = None)"
proof (cases op)
  case (Sel_Call i b)
  show ?thesis
  proof (cases "sel_callers s ! i")
    case (CL_Try obj r pc)
    obtain pc' t where t: "try_select_step b obj r pc s = (pc', t)" by fastforce
    then have "sel_parked t \<and> sel_clauses t = sel_clauses s"
      using assms by (cases pc) (auto simp: sel_parked_def split: if_splits sum.splits option.splits)
    then show ?thesis using assms Sel_Call CL_Try t by (auto simp: caller_step_def sel_parked_def)
  next
    case CL_Clean
    obtain r t where t: "sel_cancel_cleanup s = (r, t)" by fastforce
    then have "sel_owner t = sel_owner s \<and> (sel_clauses t = sel_clauses s \<or> sel_clauses t = None)"
      by (cases "sel_clauses s") (auto simp: sel_cancel_cleanup_def exec_simps dest: dispose_clauses_keep split: sum.splits prod.splits)
    then show ?thesis using assms Sel_Call CL_Clean t by (auto simp: caller_step_def sel_parked_def)
  qed (use assms Sel_Call in \<open>simp_all add: caller_step_def\<close>)
next
  case Sel_Owner
  then show ?thesis using assms by (auto simp: sel_parked_def)
qed (use assms in \<open>auto simp: sel_parked_def sel_cancel_def\<close>)

lemma parked_run:
  "sel_parked s \<Longrightarrow> sel_parked (sel_run ops s) \<and> (sel_clauses (sel_run ops s) = sel_clauses s \<or> sel_clauses (sel_run ops s) = None)"
proof (induction ops arbitrary: s)
  case (Cons op ops)
  note step = parked_step [OF Cons.prems, of op]
  have "sel_parked (sel_run ops (sel_step op s)) \<and> (sel_clauses (sel_run ops (sel_step op s)) = sel_clauses (sel_step op s) \<or>
      sel_clauses (sel_run ops (sel_step op s)) = None)"
    by (rule Cons.IH) (rule step [THEN conjunct1])
  moreover have "sel_run (op # ops) s = sel_run ops (sel_step op s)" by (simp add: sel_run_def)
  ultimately show ?case using step by (elim conjE disjE) simp_all
qed (simp add: sel_run_def)

text \<open>The owner has seen no request and is about to store its continuation when a rendezvous fails and asks for the clause to be
  registered again.\<close>

definition dropped_ops :: "'r sel_clause \<Rightarrow> 'r \<Rightarrow> 'r sel_op list" where
  "dropped_ops c r = [Sel_Register c, Sel_Do_Select, Sel_Owner, Sel_Owner, Sel_Begin 0 (clause_object c) r] @
     replicate 6 (Sel_Call 0 True) @ [Sel_Owner, Sel_Owner]"

text \<open>C22: A request to register a clause again can get lost. For every clause that waits there is an interleaving in which try_select answers that
  the clause will be registered again and the owner is suspended, and from then on no step calls the registration function of
  the clause a second time. Nobody registers a clause while the owner is suspended or after it has been resumed.\<close>

theorem select_drops_reregistration:
  fixes c :: "'r sel_clause" and r :: 'r
  assumes "never_throws c" "chosen (reg_func c 0) = None"
  shows "\<exists>ops. sel_callers (sel_run ops (new_select 1)) = [CL_Try (clause_object c) r (TS_Returned TRY_SELECT_REREGISTER)] \<and>
     sel_owner (sel_run ops (new_select 1)) = SO_Suspended \<and>
     (\<forall>more. sel_parked (sel_run more (sel_run ops (new_select 1))) \<and>
        (\<forall>cs. sel_clauses (sel_run more (sel_run ops (new_select 1))) = Some cs \<longrightarrow> map registered cs = [1]))"
proof (intro exI conjI)
  have "\<exists>t c'. register_clause c (new_select 1) = (Inr (), t) \<and> sel_state t = S_Reg \<and> sel_clauses t = Some ([] @ [c']) \<and>
      clause_object c' = clause_object c \<and> registered c' = 1 \<and> sel_result t = chosen (reg_func c 0) \<and>
      sel_selected t = (if chosen (reg_func c 0) = None then None else Some (length ([] :: 'r sel_clause list)))"
    by (rule register_clause_waiting) (use assms in \<open>simp_all add: new_select_def\<close>)
  then obtain t c' where t: "register_clause c (new_select 1) = (Inr (), t)" "sel_state t = S_Reg" "sel_clauses t = Some [c']"
      "registered c' = 1" "sel_selected t = None"
    using assms(2) by auto
  have new: "sel_waiting t = False" "sel_reregister t = None" "sel_owner t = SO_Register" "sel_callers t = [CL_Idle]"
    using register_clause_effect(2-5) [OF t(1)] by (simp_all add: new_select_def)
  have "sel_step (Sel_Register c) (new_select 1) = t" using t(1) by (simp add: builder_step_def) (simp add: new_select_def)
  then have start: "sel_run (dropped_ops c r) (new_select 1) = sel_run (tl (dropped_ops c r)) t" by (simp add: dropped_ops_def sel_run_def)
  have "sel_callers (sel_run (dropped_ops c r) (new_select 1)) = [CL_Try (clause_object c) r (TS_Returned TRY_SELECT_REREGISTER)] \<and>
      sel_owner (sel_run (dropped_ops c r) (new_select 1)) = SO_Suspended \<and> sel_clauses (sel_run (dropped_ops c r) (new_select 1)) = Some [c']"
    unfolding start using t(2,3,5) new
    by (simp add: dropped_ops_def sel_run_def do_select_def is_selected_def caller_step_def put_owner_def put_caller_def numeral_eq_Suc)
  then have callers: "sel_callers (sel_run (dropped_ops c r) (new_select 1)) = [CL_Try (clause_object c) r (TS_Returned TRY_SELECT_REREGISTER)]"
    and owner: "sel_owner (sel_run (dropped_ops c r) (new_select 1)) = SO_Suspended"
    and cs: "sel_clauses (sel_run (dropped_ops c r) (new_select 1)) = Some [c']" by auto
  show "sel_callers (sel_run (dropped_ops c r) (new_select 1)) = [CL_Try (clause_object c) r (TS_Returned TRY_SELECT_REREGISTER)]"
    by (rule callers)
  show "sel_owner (sel_run (dropped_ops c r) (new_select 1)) = SO_Suspended" by (rule owner)
  let ?s = "sel_run (dropped_ops c r) (new_select 1)"
  have still: "sel_parked (sel_run more ?s) \<and> (sel_clauses (sel_run more ?s) = Some [c'] \<or> sel_clauses (sel_run more ?s) = None)" for more
    using parked_run [of ?s more] owner unfolding cs by (simp add: sel_parked_def)
  have "map registered cs = [1]" if "sel_clauses (sel_run more ?s) = Some cs" for more cs
    using still [of more] t(4) unfolding that by simp
  then show "\<forall>more. sel_parked (sel_run more ?s) \<and> (\<forall>cs. sel_clauses (sel_run more ?s) = Some cs \<longrightarrow> map registered cs = [1])"
    using still by blast
qed

theorem select_drops_reregistration_witness:
  "\<exists>ops. sel_callers (sel_run ops (new_select 1)) = [CL_Try 5 (9 :: nat) (TS_Returned TRY_SELECT_REREGISTER)] \<and>
     sel_owner (sel_run ops (new_select 1)) = SO_Suspended"
proof -
  have "never_throws (quiet_clause 5)" "chosen (reg_func (quiet_clause 5) 0) = None" "clause_object (quiet_clause 5) = 5"
    by (simp_all add: never_throws_def quiet_clause_def)
  then show ?thesis using select_drops_reregistration [of "quiet_clause 5" 9] by metis
qed

text \<open>A call that comes after another one has won, and before it has stored the selected clause or after the resumption of its
  continuation has failed, finds a state it does not expect.\<close>

lemma second_try_select_throws:
  assumes "sel_state s = S_Clause p" "sel_selected s = None" "sel_reregister s = None" "i < length (sel_callers s)" "sel_callers s ! i = CL_Idle"
  shows "sel_callers (sel_run (Sel_Begin i obj r # replicate 5 (Sel_Call i b)) s) ! i =
    CL_Try obj r (TS_Threw (Runtime_Error ''Unexpected state in trySelectInternal''))"
  using assms by (simp add: sel_run_def caller_step_def put_caller_def is_selected_def numeral_eq_Suc)

end
